(* ===== verification/Go_Prelude.thy ===== *)
theory Go_Prelude
  imports Main "HOL-Library.Word" "HOL-Library.Multiset"
begin

text \<open>
  The part of Go that every component of the queue library uses, and the generic lemmas of the
  development.

  \<^item> Calls into caller-supplied code (side effects, hooks, Backup methods) are functions on an
    explicit world \<open>'w\<close>. Such a call either returns an error value or ends its frame without
    returning (a panic or a \<open>runtime.Goexit\<close>), which is the second constructor of
    \<open>call_result\<close>.
  \<^item> An operation of the library either returns its Go result tuple (\<open>Ret\<close>) or is unwound by
    caller code (\<open>Unwinds\<close>); an operation that can block additionally parks
    (\<open>attempt\<close>).
  \<^item> A Go slice is its backing array together with its length; the capacity is the length of the
    array. \<open>append\<close>, reslicing, \<open>copy\<close> and \<open>clear\<close> are written out on that
    representation, with the growth policy of \<open>append\<close> (which the language leaves open) as an
    argument.
\<close>

type_synonym u64 = "64 word"

named_theorems go_defs \<open>definitions of the Go-level operations that proofs unfold\<close>
named_theorems op_defs \<open>definitions of queue operations that proofs unfold\<close>
named_theorems inv_simps \<open>characterisations of the invariants\<close>

section \<open>Results of calls\<close>

datatype 'e call_result = Returned "'e option" | Unwound

datatype 'r outcome = Ret 'r | Unwinds

datatype 'r attempt = Done "'r outcome" | Parked

abbreviation returns :: "'r \<Rightarrow> 'r attempt" where
  "returns r \<equiv> Done (Ret r)"

definition parked :: "'r attempt \<Rightarrow> bool" where
  "parked a = (case a of Done _ \<Rightarrow> False | Parked \<Rightarrow> True)"

lemma parked_simps [simp]: "\<not> parked (Done r)" "parked Parked"
  by (simp_all add: parked_def)

section \<open>Slices\<close>

record 'a slice =
  s_arr :: "'a list"
  s_len :: nat

definition nil_slice :: "'a slice" where
  "nil_slice = \<lparr>s_arr = [], s_len = 0\<rparr>"

definition slice_cap :: "'a slice \<Rightarrow> nat" where
  "slice_cap s = length (s_arr s)"

definition slice_list :: "'a slice \<Rightarrow> 'a list" where
  "slice_list s = take (s_len s) (s_arr s)"

definition slice_wf :: "'a slice \<Rightarrow> bool" where
  "slice_wf s = (s_len s \<le> length (s_arr s))"

text \<open>
  \<open>append(s, vs...)\<close>: written in place while the array has room, into a fresh array (the tail
  of which holds zero values) otherwise. \<open>grow\<close> is the capacity the runtime chooses; the
  result always has room for the appended elements.
\<close>

definition slice_append :: "(nat \<Rightarrow> nat \<Rightarrow> nat) \<Rightarrow> 'a \<Rightarrow> 'a slice \<Rightarrow> 'a list \<Rightarrow> 'a slice" where
  "slice_append grow zero s vs =
     (let n = s_len s + length vs in
      if n \<le> slice_cap s
      then \<lparr>s_arr = take (s_len s) (s_arr s) @ vs @ drop n (s_arr s), s_len = n\<rparr>
      else (let c = max n (grow (slice_cap s) n) in
            \<lparr>s_arr = take (s_len s) (s_arr s) @ vs @ replicate (c - n) zero, s_len = n\<rparr>))"

text \<open>\<open>clear(s[i:j])\<close>: the slots \<open>i, \<dots>, j - 1\<close> of the array become zero values.\<close>

definition slice_clear :: "'a \<Rightarrow> nat \<Rightarrow> nat \<Rightarrow> 'a slice \<Rightarrow> 'a slice" where
  "slice_clear zero i j s =
     s\<lparr>s_arr := take i (s_arr s) @ replicate (j - i) zero @ drop (max i j) (s_arr s)\<rparr>"

text \<open>\<open>copy(s, s[i:])\<close> for the slice itself: the elements from \<open>i\<close> on move to the front; the
  number of elements moved is returned.\<close>

definition slice_copy_down :: "nat \<Rightarrow> 'a slice \<Rightarrow> 'a slice \<times> nat" where
  "slice_copy_down i s =
     (let src = drop i (slice_list s) in
      (s\<lparr>s_arr := src @ drop (length src) (s_arr s)\<rparr>, length src))"

text \<open>\<open>s[:n]\<close>\<close>

definition slice_prefix :: "nat \<Rightarrow> 'a slice \<Rightarrow> 'a slice" where
  "slice_prefix n s = s\<lparr>s_len := n\<rparr>"

text \<open>\<open>make([]T, 0, n)\<close> followed by appends of at most \<open>n\<close> elements.\<close>

definition slice_of :: "'a \<Rightarrow> nat \<Rightarrow> 'a list \<Rightarrow> 'a slice" where
  "slice_of zero n xs = \<lparr>s_arr = xs @ replicate (n - length xs) zero, s_len = length xs\<rparr>"

lemma nil_slice_wf [simp]: "slice_wf nil_slice" and nil_slice_list [simp]: "slice_list nil_slice = []"
  by (simp_all add: slice_wf_def slice_list_def nil_slice_def)

lemma slice_of_wf [simp]: "slice_wf (slice_of zero n xs)"
  and slice_of_list [simp]: "slice_list (slice_of zero n xs) = xs"
  and slice_of_len [simp]: "s_len (slice_of zero n xs) = length xs"
  by (simp_all add: slice_of_def slice_wf_def slice_list_def)

lemma slice_append_wf [simp]:
  assumes "slice_wf s"
  shows "slice_wf (slice_append grow zero s vs)"
    and "slice_list (slice_append grow zero s vs) = slice_list s @ vs"
    and "s_len (slice_append grow zero s vs) = s_len s + length vs"
  using assms
  by (auto simp: slice_append_def slice_wf_def slice_list_def slice_cap_def Let_def min_def)

lemma length_slice_list [simp]: "slice_wf s \<Longrightarrow> length (slice_list s) = s_len s"
  by (simp add: slice_wf_def slice_list_def)

section \<open>Lists\<close>

lemma filter_length_split: "length (filter P xs) + length (filter (\<lambda>x. \<not> P x) xs) = length xs"
  by (induction xs) auto

lemma length_filter_partition:
  "length (filter P (filter (\<lambda>x. \<not> Q x) xs)) + length (filter P (filter Q xs)) = length (filter P xs)"
  by (induction xs) auto

lemma nth_list_update_total: "xs[i := x] ! j = (if j = i \<and> j < length xs then x else xs ! j)"
  by (cases "i < length xs") (auto simp: nth_list_update list_update_beyond not_less)

lemma length_concat_update:
  "i < length xss \<Longrightarrow> length (concat (xss[i := ys])) + length (xss ! i) = length (concat xss) + length ys"
  by (induction xss arbitrary: i) (auto split: nat.splits)

text \<open>Searching a list cyclically from a position.\<close>

lemma rotate_Cons_nth: "c < length xs \<Longrightarrow> rotate c xs = xs ! c # drop (Suc c) xs @ take c xs"
  by (simp add: rotate_drop_take Cons_nth_drop_Suc)

lemma take_rotate_Suc:
  assumes "c < length xs" and "k < length xs"
  shows "take (Suc k) (rotate c xs) = xs ! c # take k (rotate (Suc c mod length xs) xs)"
proof -
  have "rotate (Suc c mod length xs) xs = rotate1 (rotate c xs)"
    by (simp flip: rotate_conv_mod)
  then show ?thesis
    using assms by (simp add: rotate_Cons_nth)
qed

lemma find_Some_iff_set: "(find P xs = None) = (\<forall>x \<in> set xs. \<not> P x)"
  by (auto simp: find_None_iff)

text \<open>A call in the world \<open>unit\<close>, known by its result.\<close>

lemma unit_result: "fst x = a \<Longrightarrow> \<exists>b. x = (a, b, ())"
  by (cases x) auto

end
