(* ===== verification/Go_Errors.thy ===== *)
theory Go_Errors
  imports Go_Prelude
begin

text \<open>
  \<open>internal/backings/core/errors.go\<close>: the sentinel errors of the library and how they wrap one
  another, \<open>errors.Is\<close> over the resulting error trees, the two wrappers that tag caller errors,
  and \<open>errorKind\<close> of \<open>metrics.go\<close>, which triages an error for the error counter. The texts of
  the messages are not modelled; an error is the tree that \<open>Unwrap\<close> exposes.
\<close>

section \<open>Sentinels\<close>

datatype sentinel =
    ErrPermanent \<comment> \<open>\<open>exponential.ErrPermanent\<close>, of the retry package\<close>
  | ErrEmpty | ErrClosed | ErrBadOption | ErrBatchTooLarge
  | ErrPriorityRequired | ErrPriorityNotAllowed | ErrCodecRequired
  | ErrOnAdmitUnsupported | ErrOnAdmitNotPush | ErrNilOnAdmit | ErrNilSideEffect
  | ErrOnAdmitFailed | ErrBackupFailed | ErrShutdownIncomplete | ErrShutdownInProgress
  | ErrCodecFailed | ErrSideEffectFailed | ErrItemFailed
  | ErrUnknownClass

text \<open>What a sentinel was built around: \<open>permanent(msg)\<close> wraps the retry package's marker, and the
  option sentinels wrap \<open>ErrBadOption\<close>.\<close>

fun sentinel_wraps :: "sentinel \<Rightarrow> sentinel option" where
  "sentinel_wraps ErrClosed = Some ErrPermanent"
| "sentinel_wraps ErrBadOption = Some ErrPermanent"
| "sentinel_wraps ErrBatchTooLarge = Some ErrPermanent"
| "sentinel_wraps ErrPriorityRequired = Some ErrPermanent"
| "sentinel_wraps ErrPriorityNotAllowed = Some ErrPermanent"
| "sentinel_wraps ErrShutdownInProgress = Some ErrPermanent"
| "sentinel_wraps ErrCodecRequired = Some ErrBadOption"
| "sentinel_wraps ErrOnAdmitUnsupported = Some ErrBadOption"
| "sentinel_wraps ErrOnAdmitNotPush = Some ErrBadOption"
| "sentinel_wraps ErrNilOnAdmit = Some ErrBadOption"
| "sentinel_wraps ErrNilSideEffect = Some ErrBadOption"
| "sentinel_wraps _ = None"

text \<open>The chain ends after at most two steps: a sentinel, \<open>ErrBadOption\<close>, the permanent marker.\<close>

definition sentinel_chain :: "sentinel \<Rightarrow> sentinel list" where
  "sentinel_chain s =
     (case sentinel_wraps s of None \<Rightarrow> [s]
      | Some t \<Rightarrow> (case sentinel_wraps t of None \<Rightarrow> [s, t] | Some u \<Rightarrow> [s, t, u]))"

lemma sentinel_chain_complete:
  "t \<in> set (sentinel_chain s) \<Longrightarrow> sentinel_wraps t = Some u \<Longrightarrow> u \<in> set (sentinel_chain s)"
  by (cases s) (auto simp: sentinel_chain_def)

section \<open>Error values\<close>

text \<open>\<open>Foreign\<close> is an error value the caller made; \<open>Errorf\<close> is \<open>fmt.Errorf\<close> with its
  \<open>%w\<close> operands, \<open>Joined\<close> the result of \<open>errors.Join\<close>.\<close>

datatype goerr = Sentinel sentinel | Foreign nat | Errorf "goerr list" | Joined "goerr list"

fun errors_Is :: "goerr \<Rightarrow> sentinel \<Rightarrow> bool" where
  "errors_Is (Sentinel s) t = (t \<in> set (sentinel_chain s))"
| "errors_Is (Foreign n) t = False"
| "errors_Is (Errorf es) t = list_ex (\<lambda>e. errors_Is e t) es"
| "errors_Is (Joined es) t = list_ex (\<lambda>e. errors_Is e t) es"

definition errors_Join :: "goerr option list \<Rightarrow> goerr option" where
  "errors_Join es = (case concat (map (\<lambda>e. case e of None \<Rightarrow> [] | Some x \<Rightarrow> [x]) es) of
      [] \<Rightarrow> None | xs \<Rightarrow> Some (Joined xs))"

abbreviation err_closed :: "goerr option" where
  "err_closed \<equiv> Some (Sentinel ErrClosed)"

abbreviation bad_option :: "goerr option" where
  "bad_option \<equiv> Some (Errorf [Sentinel ErrBadOption])"

definition WrapBackup :: "goerr option \<Rightarrow> goerr option" where
  "WrapBackup e = (case e of None \<Rightarrow> None | Some x \<Rightarrow> Some (Errorf [Sentinel ErrBackupFailed, x]))"

definition WrapCodec :: "goerr option \<Rightarrow> goerr option" where
  "WrapCodec e = (case e of None \<Rightarrow> None | Some x \<Rightarrow> Some (Errorf [Sentinel ErrCodecFailed, x]))"

lemma WrapBackup_simps [simp]:
  "WrapBackup None = None" "WrapBackup (Some x) = Some (Errorf [Sentinel ErrBackupFailed, x])"
  "(WrapBackup e = None) = (e = None)"
  by (simp_all add: WrapBackup_def split: option.splits)

section \<open>Triage of errors\<close>

datatype errkind =
  errKindBackup | errKindCodec | errKindSideEffect | errKindOnAdmit | errKindItem
  | errKindQueue | errKindUnwind

definition errorKind :: "goerr \<Rightarrow> errkind" where
  "errorKind e =
     (if errors_Is e ErrBackupFailed then errKindBackup
      else if errors_Is e ErrCodecFailed then errKindCodec
      else if errors_Is e ErrSideEffectFailed then errKindSideEffect
      else if errors_Is e ErrOnAdmitFailed then errKindOnAdmit
      else if errors_Is e ErrItemFailed then errKindItem
      else errKindQueue)"

lemma errors_Is_Errorf: "e \<in> set es \<Longrightarrow> errors_Is e t \<Longrightarrow> errors_Is (Errorf es) t"
  by (auto simp: list_ex_iff)

lemma errors_Is_self [simp]: "errors_Is (Sentinel s) s"
  by (auto simp: sentinel_chain_def split: option.splits)

end
