(* ===== verification/Queue_Lock.thy ===== *)
theory Queue_Lock
  imports Go_Prelude
begin

text \<open>
  \<open>internal/backings/core/qlock.go\<close>. Two views of \<open>QLock\<close>.

  The first view is the lock word as an operation of a backing sees it: who holds it, and whether
  the operation has misused it. \<open>lk_fault\<close> records what the Go runtime would turn into a fatal
  error (unlocking a lock that is not held) or into a self-deadlock (locking a lock the same
  operation already holds). The backings' models carry this record, so that every path of every
  operation can be shown to release exactly what it took.

  The second view is the protocol between goroutines: the steps a writer takes inside
  \<open>Lock\<close> and a copy-on-write iterator takes around \<open>RLock\<close>, as a step relation.
\<close>

section \<open>The lock as a backing uses it\<close>

record qlock =
  lk_writer :: bool
  lk_readers :: nat
  lk_pending :: int
  lk_cowActive :: int
  lk_fault :: bool

definition new_qlock :: qlock where
  "new_qlock = \<lparr>lk_writer = False, lk_readers = 0, lk_pending = 0, lk_cowActive = 0, lk_fault = False\<rparr>"

definition lk_free :: "qlock \<Rightarrow> bool" where
  "lk_free l = (\<not> lk_writer l \<and> lk_readers l = 0)"

text \<open>The pending bump of \<open>Lock\<close> is undone before it returns, so the net effect is the acquisition.\<close>

definition qlock_Lock :: "qlock \<Rightarrow> qlock" where
  "qlock_Lock l =
     (let fault = lk_fault l \<or> \<not> lk_free l in
      if lk_cowActive l > 0
      then (let l1 = l\<lparr>lk_pending := lk_pending l + 1\<rparr>;
                l2 = l1\<lparr>lk_writer := True, lk_fault := fault\<rparr>
            in l2\<lparr>lk_pending := lk_pending l2 - 1\<rparr>)
      else l\<lparr>lk_writer := True, lk_fault := fault\<rparr>)"

definition qlock_Unlock :: "qlock \<Rightarrow> qlock" where
  "qlock_Unlock l = l\<lparr>lk_writer := False, lk_fault := (lk_fault l \<or> \<not> lk_writer l)\<rparr>"

definition qlock_RLock :: "qlock \<Rightarrow> qlock" where
  "qlock_RLock l = l\<lparr>lk_readers := lk_readers l + 1, lk_fault := (lk_fault l \<or> lk_writer l)\<rparr>"

definition qlock_RUnlock :: "qlock \<Rightarrow> qlock" where
  "qlock_RUnlock l = l\<lparr>lk_readers := lk_readers l - 1, lk_fault := (lk_fault l \<or> lk_readers l = 0)\<rparr>"

definition qlock_CowEnter :: "qlock \<Rightarrow> qlock" where
  "qlock_CowEnter l = l\<lparr>lk_cowActive := lk_cowActive l + 1\<rparr>"

definition qlock_CowExit :: "qlock \<Rightarrow> qlock" where
  "qlock_CowExit l = l\<lparr>lk_cowActive := lk_cowActive l - 1\<rparr>"

definition qlock_WriteWanted :: "qlock \<Rightarrow> bool" where
  "qlock_WriteWanted l = (lk_pending l > 0)"

text \<open>Between operations the lock is free and no operation has misused it.\<close>

definition lk_ok :: "qlock \<Rightarrow> bool" where
  "lk_ok l = (lk_free l \<and> \<not> lk_fault l)"

lemma new_qlock_ok [simp]: "lk_ok new_qlock"
  by (simp add: lk_ok_def lk_free_def new_qlock_def)

lemma Lock_eq: "qlock_Lock l = l\<lparr>lk_writer := True, lk_fault := (lk_fault l \<or> \<not> lk_free l)\<rparr>"
  by (simp add: qlock_Lock_def Let_def)

text \<open>The balanced pairs: what an operation that locks and unlocks leaves behind.\<close>

lemma lk_okD: "lk_ok l \<Longrightarrow> \<not> lk_writer l \<and> lk_readers l = 0 \<and> \<not> lk_fault l"
  by (simp add: lk_ok_def lk_free_def)

lemma Lock_Unlock [simp]: "lk_ok l \<Longrightarrow> qlock_Unlock (qlock_Lock l) = l"
  by (auto simp: Lock_eq qlock_Unlock_def lk_ok_def lk_free_def)

lemma RLock_RUnlock [simp]: "lk_ok l \<Longrightarrow> qlock_RUnlock (qlock_RLock l) = l"
  by (auto simp: qlock_RLock_def qlock_RUnlock_def lk_ok_def lk_free_def)

text \<open>Inside a critical section.\<close>

definition lk_held :: "qlock \<Rightarrow> bool" where
  "lk_held l = (lk_writer l \<and> lk_readers l = 0 \<and> \<not> lk_fault l)"

definition lk_rheld :: "qlock \<Rightarrow> bool" where
  "lk_rheld l = (\<not> lk_writer l \<and> lk_readers l = 1 \<and> \<not> lk_fault l)"

lemma lk_held_Lock [simp]: "lk_ok l \<Longrightarrow> lk_held (qlock_Lock l)"
  by (simp add: Lock_eq lk_held_def lk_ok_def lk_free_def)

lemma lk_ok_Unlock [simp]: "lk_held l \<Longrightarrow> lk_ok (qlock_Unlock l)"
  by (simp add: qlock_Unlock_def lk_held_def lk_ok_def lk_free_def)

lemma lk_rheld_RLock [simp]: "lk_ok l \<Longrightarrow> lk_rheld (qlock_RLock l)"
  by (simp add: qlock_RLock_def lk_rheld_def lk_ok_def lk_free_def)

lemma lk_ok_RUnlock [simp]: "lk_rheld l \<Longrightarrow> lk_ok (qlock_RUnlock l)"
  by (simp add: qlock_RUnlock_def lk_rheld_def lk_ok_def lk_free_def)

lemma CowEnter_ok [simp]: "lk_ok (qlock_CowEnter l) = lk_ok l"
  by (simp add: qlock_CowEnter_def lk_ok_def lk_free_def)

lemma CowExit_CowEnter [simp]: "qlock_CowExit (qlock_CowEnter l) = l"
  by (simp add: qlock_CowEnter_def qlock_CowExit_def)

section \<open>The lock as a protocol\<close>

text \<open>
  Program counters of a goroutine that uses the lock. A writer loads \<open>cowActive\<close>; the value it
  saw selects the guarded path (bump \<open>pending\<close>, then lock, then drop it) or the plain one. A
  copy-on-write iterator enters its bracket, takes the read lock, drops it and leaves the bracket.
\<close>

datatype lpc =
    LIdle
  | WLoaded bool        \<comment> \<open>\<open>cowActive.Load() > 0\<close> was read with this value\<close>
  | WBumped             \<comment> \<open>\<open>pending.Add(1)\<close> done, \<open>mu.Lock()\<close> not called yet\<close>
  | WBlocked bool       \<comment> \<open>inside \<open>mu.Lock()\<close>; \<open>True\<close> on the guarded path\<close>
  | WAcquired           \<comment> \<open>\<open>mu.Lock()\<close> returned on the guarded path, \<open>pending.Add(-1)\<close> to come\<close>
  | WHeld
  | CEntered            \<comment> \<open>\<open>cowActive.Add(1)\<close> done\<close>
  | CHeld               \<comment> \<open>the read lock is held inside the bracket\<close>
  | CReleased           \<comment> \<open>\<open>mu.RUnlock()\<close> done, \<open>cowActive.Add(-1)\<close> to come\<close>
  | RHeld               \<comment> \<open>a plain reader\<close>

record lsys =
  ls_pc :: "nat \<Rightarrow> lpc"
  ls_pending :: int
  ls_cowActive :: int

definition lsys_init :: lsys where
  "lsys_init = \<lparr>ls_pc = (\<lambda>_. LIdle), ls_pending = 0, ls_cowActive = 0\<rparr>"

definition mu_writer_held :: "lsys \<Rightarrow> bool" where
  "mu_writer_held s = (\<exists>t. ls_pc s t = WHeld \<or> ls_pc s t = WAcquired)"

definition mu_read_held :: "lsys \<Rightarrow> bool" where
  "mu_read_held s = (\<exists>t. ls_pc s t = CHeld \<or> ls_pc s t = RHeld)"

definition mu_writer_waits :: "lsys \<Rightarrow> bool" where
  "mu_writer_waits s = (\<exists>t b. ls_pc s t = WBlocked b)"

abbreviation lset :: "lsys \<Rightarrow> nat \<Rightarrow> lpc \<Rightarrow> lsys" where
  "lset s t p \<equiv> s\<lparr>ls_pc := (ls_pc s)(t := p)\<rparr>"

text \<open>\<open>sync.RWMutex\<close>: a writer enters when nobody holds the lock; a reader enters when no writer
  holds it or waits for it.\<close>

inductive lstep :: "lsys \<Rightarrow> lsys \<Rightarrow> bool" where
  w_load: "ls_pc s t = LIdle \<Longrightarrow> lstep s (lset s t (WLoaded (ls_cowActive s > 0)))"
| w_bump: "ls_pc s t = WLoaded True \<Longrightarrow>
     lstep s ((lset s t WBumped)\<lparr>ls_pending := ls_pending s + 1\<rparr>)"
| w_call_guarded: "ls_pc s t = WBumped \<Longrightarrow> lstep s (lset s t (WBlocked True))"
| w_call_plain: "ls_pc s t = WLoaded False \<Longrightarrow> lstep s (lset s t (WBlocked False))"
| w_acquire: "ls_pc s t = WBlocked b \<Longrightarrow> \<not> mu_writer_held s \<Longrightarrow> \<not> mu_read_held s \<Longrightarrow>
     lstep s (lset s t (if b then WAcquired else WHeld))"
| w_drop: "ls_pc s t = WAcquired \<Longrightarrow>
     lstep s ((lset s t WHeld)\<lparr>ls_pending := ls_pending s - 1\<rparr>)"
| w_unlock: "ls_pc s t = WHeld \<Longrightarrow> lstep s (lset s t LIdle)"
| c_enter: "ls_pc s t = LIdle \<Longrightarrow>
     lstep s ((lset s t CEntered)\<lparr>ls_cowActive := ls_cowActive s + 1\<rparr>)"
| c_rlock: "ls_pc s t = CEntered \<Longrightarrow> \<not> mu_writer_held s \<Longrightarrow> \<not> mu_writer_waits s \<Longrightarrow>
     lstep s (lset s t CHeld)"
| c_runlock: "ls_pc s t = CHeld \<Longrightarrow> lstep s (lset s t CReleased)"
| c_exit: "ls_pc s t = CReleased \<Longrightarrow>
     lstep s ((lset s t LIdle)\<lparr>ls_cowActive := ls_cowActive s - 1\<rparr>)"
| r_lock: "ls_pc s t = LIdle \<Longrightarrow> \<not> mu_writer_held s \<Longrightarrow> \<not> mu_writer_waits s \<Longrightarrow>
     lstep s (lset s t RHeld)"
| r_unlock: "ls_pc s t = RHeld \<Longrightarrow> lstep s (lset s t LIdle)"

inductive lreach :: "lsys \<Rightarrow> bool" where
  lr_init: "lreach lsys_init"
| lr_step: "lreach s \<Longrightarrow> lstep s s' \<Longrightarrow> lreach s'"

subsection \<open>Invariant\<close>

definition bumped :: "lpc \<Rightarrow> bool" where
  "bumped p = (p = WBumped \<or> p = WBlocked True \<or> p = WAcquired)"

definition in_bracket :: "lpc \<Rightarrow> bool" where
  "in_bracket p = (p = CEntered \<or> p = CHeld \<or> p = CReleased)"

definition counts :: "(lpc \<Rightarrow> bool) \<Rightarrow> (nat \<Rightarrow> lpc) \<Rightarrow> int \<Rightarrow> bool" where
  "counts P f n = (finite {t. P (f t)} \<and> int (card {t. P (f t)}) = n)"

definition linv :: "lsys \<Rightarrow> bool" where
  "linv s = (counts bumped (ls_pc s) (ls_pending s) \<and>
     counts in_bracket (ls_pc s) (ls_cowActive s) \<and>
     (\<forall>t u. (ls_pc s t = WHeld \<or> ls_pc s t = WAcquired) \<longrightarrow>
        (ls_pc s u = WHeld \<or> ls_pc s u = WAcquired) \<longrightarrow> t = u) \<and>
     (mu_writer_held s \<longrightarrow> \<not> mu_read_held s))"

lemma counts_same: "P (f t) = P p \<Longrightarrow> counts P (f(t := p)) n = counts P f n"
proof -
  assume "P (f t) = P p"
  then have "{u. P ((f(t := p)) u)} = {u. P (f u)}" by auto
  then show ?thesis by (simp add: counts_def)
qed

lemma counts_add: "counts P f n \<Longrightarrow> \<not> P (f t) \<Longrightarrow> P p \<Longrightarrow> counts P (f(t := p)) (n + 1)"
proof -
  assume c: "counts P f n" and "\<not> P (f t)" and "P p"
  then have "{u. P ((f(t := p)) u)} = insert t {u. P (f u)}" and "t \<notin> {u. P (f u)}" by auto
  with c show ?thesis by (auto simp: counts_def)
qed

lemma counts_sub: "counts P f n \<Longrightarrow> P (f t) \<Longrightarrow> \<not> P p \<Longrightarrow> counts P (f(t := p)) (n - 1)"
proof -
  assume c: "counts P f n" and p: "P (f t)" and "\<not> P p"
  then have eq: "{u. P ((f(t := p)) u)} = {u. P (f u)} - {t}" by auto
  have "0 < card {u. P (f u)}" using c p by (auto simp: counts_def card_gt_0_iff)
  then show ?thesis using c p unfolding counts_def eq
    by (simp add: card_Diff_singleton of_nat_diff Suc_le_eq)
qed

lemmas counts_upd = counts_same counts_add counts_sub

lemma linv_init: "linv lsys_init"
  by (auto simp: linv_def lsys_init_def counts_def bumped_def in_bracket_def mu_writer_held_def)

lemma lstep_linv:
  assumes "lstep s s'" and "linv s"
  shows "linv s'"
  using assms
proof (cases rule: lstep.cases)
  case (w_acquire t b)
  then show ?thesis using assms(2)
    by (cases b) (auto simp: linv_def counts_same bumped_def in_bracket_def
        mu_writer_held_def mu_read_held_def)
qed (use assms(2) in \<open>auto simp: linv_def counts_upd bumped_def in_bracket_def
       mu_writer_held_def mu_read_held_def split: if_splits\<close>)

lemma lreach_linv: "lreach s \<Longrightarrow> linv s"
  by (induction rule: lreach.induct) (auto intro: linv_init lstep_linv)

lemma counts_pos: "counts P f n \<Longrightarrow> P (f t) \<Longrightarrow> 0 < n"
  by (auto simp: counts_def card_gt_0_iff)

lemma linv_bumped_pos: "linv s \<Longrightarrow> bumped (ls_pc s t) \<Longrightarrow> 0 < ls_pending s"
  by (auto simp: linv_def intro: counts_pos)

lemma linv_bracket_pos: "linv s \<Longrightarrow> in_bracket (ls_pc s t) \<Longrightarrow> 0 < ls_cowActive s"
  by (auto simp: linv_def intro: counts_pos)

section \<open>Properties\<close>


lemma lreach_held_example: "lreach (lset (lset lsys_init 0 WHeld) 1 (WLoaded False))"
proof -
  let ?s1 = "lset lsys_init 0 (WLoaded False)"
  let ?s2 = "lset ?s1 0 (WBlocked False)"
  let ?s3 = "lset ?s2 0 WHeld"
  have "lreach ?s1"
    using lr_step [OF lr_init w_load [of lsys_init 0]] by (simp add: lsys_init_def)
  then have "lreach ?s2" by (rule lr_step) (rule w_call_plain, simp)
  then have "lreach ?s3"
    by (rule lr_step) (use w_acquire [of ?s2 0 False] in
        \<open>simp add: mu_writer_held_def mu_read_held_def lsys_init_def\<close>)
  then have "lreach (lset ?s3 1 (WLoaded (ls_cowActive ?s3 > 0)))"
    by (rule lr_step) (rule w_load, simp add: lsys_init_def)
  then show ?thesis by (simp add: lsys_init_def)
qed


text \<open>
  A copy-on-write iterator sees the writers it must yield to (C35). In every reachable state: a
  goroutine that enters \<open>Lock\<close> while some copy-on-write iterator is inside its bracket takes the
  guarded path, and while any goroutine is blocked on the mutex on that path \<open>WriteWanted\<close> (that
  is, \<open>pending > 0\<close>) is true.
\<close>

theorem cow_sees_new_writer:
  assumes "lreach s"
  shows "(\<forall>c t b s'. in_bracket (ls_pc s c) \<and> ls_pc s t = LIdle \<and> lstep s s' \<and>
            ls_pc s' t = WLoaded b \<longrightarrow> b) \<and>
         (\<forall>t. ls_pc s t = WBlocked True \<longrightarrow> 0 < ls_pending s)"
proof (intro conjI allI impI; (elim conjE)?)
  fix c t b s'
  assume "in_bracket (ls_pc s c)" "ls_pc s t = LIdle" "lstep s s'" "ls_pc s' t = WLoaded b"
  then show b
    using linv_bracket_pos [OF lreach_linv [OF assms], of c]
    by (elim lstep.cases) (auto split: if_splits)
next
  fix t assume "ls_pc s t = WBlocked True"
  then show "0 < ls_pending s"
    using linv_bumped_pos [OF lreach_linv [OF assms], of t] by (simp add: bumped_def)
qed

text \<open>Two runs of the protocol, up to the point where goroutine 1 is blocked behind the iterator 0:
  on the first the writer loads \<open>cowActive\<close> after the iterator entered its bracket, on the second
  before.\<close>

definition cow_run_seen :: lsys where
  "cow_run_seen = \<lparr>ls_pc = (\<lambda>_. LIdle)(0 := CHeld, 1 := WBlocked True), ls_pending = 1, ls_cowActive = 1\<rparr>"

definition cow_run_missed :: lsys where
  "cow_run_missed = \<lparr>ls_pc = (\<lambda>_. LIdle)(0 := CHeld, 1 := WBlocked False), ls_pending = 0, ls_cowActive = 1\<rparr>"

abbreviation lsys_of :: "lpc \<Rightarrow> lpc \<Rightarrow> int \<Rightarrow> int \<Rightarrow> lsys" where
  "lsys_of p q n c \<equiv> \<lparr>ls_pc = (\<lambda>_. LIdle)(0 := p, 1 := q), ls_pending = n, ls_cowActive = c\<rparr>"

lemma lsys_of_upd:
  "lset (lsys_of p q n c) 0 p' = lsys_of p' q n c" "lset (lsys_of p q n c) (Suc 0) q' = lsys_of p q' n c"
  by (auto simp: fun_eq_iff)

lemma lsys_init_of: "lsys_init = lsys_of LIdle LIdle 0 0"
  by (auto simp: lsys_init_def fun_eq_iff)

lemma upd_order: "f(Suc 0 := q, 0 := p) = f(0 := p, Suc 0 := q)" for f :: "nat \<Rightarrow> lpc"
  by (auto simp: fun_eq_iff)

lemmas lsys_of_simps = upd_order lsys_of_upd lsys_init_of mu_writer_held_def mu_read_held_def mu_writer_waits_def

lemma cow_run_seen_reach: "lreach cow_run_seen"
proof -
  have "lreach (lsys_of CEntered LIdle 0 1)"
    using lr_step [OF lr_init c_enter [of lsys_init 0]] by (simp add: lsys_of_simps)
  then have "lreach (lsys_of CHeld LIdle 0 1)"
    using lr_step [OF _ c_rlock [of "lsys_of CEntered LIdle 0 1" 0]] by (simp add: lsys_of_simps)
  then have "lreach (lsys_of CHeld (WLoaded True) 0 1)"
    using lr_step [OF _ w_load [of "lsys_of CHeld LIdle 0 1" 1]] by (simp add: lsys_of_simps)
  then have "lreach (lsys_of CHeld WBumped 1 1)"
    using lr_step [OF _ w_bump [of "lsys_of CHeld (WLoaded True) 0 1" 1]] by (simp add: lsys_of_simps)
  then show ?thesis
    using lr_step [OF _ w_call_guarded [of "lsys_of CHeld WBumped 1 1" 1]]
    by (simp add: lsys_of_simps cow_run_seen_def)
qed

theorem cow_sees_new_writer_witness:
  "lreach cow_run_seen \<and> ls_pc cow_run_seen 0 = CHeld \<and> ls_pc cow_run_seen 1 = WBlocked True \<and>
   0 < ls_pending cow_run_seen"
  using cow_run_seen_reach cow_sees_new_writer [OF cow_run_seen_reach]
  by (simp add: cow_run_seen_def)

text \<open>
  A writer that loaded \<open>cowActive\<close> just before the iterator entered its bracket is missed (C36):
  a state is reachable in which the iterator holds the read lock, the writer is blocked behind it,
  and \<open>pending\<close> is 0, so \<open>WriteWanted\<close> stays false. The comment on \<open>WriteWanted\<close>
  says that the signal cannot be missed; that holds for the writers of the previous property only.
\<close>

theorem cow_misses_racing_writer:
  "\<exists>s. lreach s \<and> (\<exists>c t. ls_pc s c = CHeld \<and> ls_pc s t = WBlocked False) \<and> ls_pending s = 0"
proof -
  have "lreach (lsys_of LIdle (WLoaded False) 0 0)"
    using lr_step [OF lr_init w_load [of lsys_init 1]] by (simp add: lsys_of_simps)
  then have "lreach (lsys_of CEntered (WLoaded False) 0 1)"
    using lr_step [OF _ c_enter [of "lsys_of LIdle (WLoaded False) 0 0" 0]] by (simp add: lsys_of_simps)
  then have "lreach (lsys_of CHeld (WLoaded False) 0 1)"
    using lr_step [OF _ c_rlock [of "lsys_of CEntered (WLoaded False) 0 1" 0]] by (simp add: lsys_of_simps)
  then have "lreach cow_run_missed"
    using lr_step [OF _ w_call_plain [of "lsys_of CHeld (WLoaded False) 0 1" 1]]
    by (simp add: lsys_of_simps cow_run_missed_def)
  then show ?thesis
    by (intro exI [of _ cow_run_missed]) (auto simp: cow_run_missed_def intro!: exI [of _ 0] exI [of _ "Suc 0"])
qed

end
