(* ===== verification/Caller_Code.thy ===== *)
theory Caller_Code
  imports Go_Errors Queue_Lock "HOL-Library.Monad_Syntax"
begin

text \<open>
  The boundary between the library and its callers: contexts, the wait signal of
  \<open>core/signal.go\<close> as an operation sees it, the \<open>Item\<close> and \<open>Backup\<close> interfaces of
  \<open>core/item.go\<close>, \<open>core/validate.go\<close>, \<open>core/seq.go\<close>, the per-operation options of
  \<open>core/opoptions.go\<close> (with the two options of \<open>queue.go\<close>), and the guarded calls of
  \<open>core/run.go\<close>.

  Caller code acts on a world \<open>'w\<close> of its own. A hook given with \<open>WithOnAdmit\<close> runs while the
  queue's lock is released, so other goroutines operate on the queue meanwhile: its type lets it
  change the state of the backing as well, and that part is the interference of those goroutines.
\<close>

section \<open>Contexts\<close>

record 'w ctx =
  ctx_nodone :: bool              \<comment> \<open>\<open>ctx.Done() == nil\<close>: cannot be cancelled\<close>
  ctx_err :: "'w \<Rightarrow> bool"         \<comment> \<open>\<open>ctx.Err() != nil\<close>, equivalently \<open>Done\<close> is closed\<close>
  ctx_cause :: "'w \<Rightarrow> goerr"      \<comment> \<open>\<open>context.Cause(ctx)\<close>\<close>

section \<open>Signals\<close>

text \<open>\<open>sig_parkers\<close> are the goroutines registered on the current generation, \<open>sig_waiters\<close> is
  the atomic counter of \<open>Wait\<close> calls that have not returned.\<close>

record signal =
  sig_parkers :: "nat list"
  sig_waiters :: int

definition NewSignal :: signal where
  "NewSignal = \<lparr>sig_parkers = [], sig_waiters = 0\<rparr>"

definition Signal_HasWaiters :: "signal \<Rightarrow> bool" where
  "Signal_HasWaiters s = (sig_waiters s > 0)"

text \<open>\<open>Signal\<close> is \<open>Broadcast\<close> on the parker waiter: every registered goroutine is released and
  the list is empty again (theory \<open>Parking\<close>).\<close>

definition Signal_Signal :: "signal \<Rightarrow> signal" where
  "Signal_Signal s = s\<lparr>sig_parkers := []\<rparr>"

text \<open>The idiom \<open>if s.HasWaiters() { s.Signal() }\<close>.\<close>

definition signal_gated :: "signal \<Rightarrow> signal" where
  "signal_gated s = (if Signal_HasWaiters s then Signal_Signal s else s)"

text \<open>The two halves of \<open>Wait\<close>: up to the point where the caller's lock is released and the
  goroutine parks, and from the point where it runs again. The second half returns the error.\<close>

definition Wait_register :: "nat \<Rightarrow> signal \<Rightarrow> signal" where
  "Wait_register g s = s\<lparr>sig_parkers := sig_parkers s @ [g], sig_waiters := sig_waiters s + 1\<rparr>"

definition Wait_return :: "nat \<Rightarrow> 'w ctx \<Rightarrow> 'w \<Rightarrow> signal \<Rightarrow> signal \<times> goerr option" where
  "Wait_return g c w s =
     (s\<lparr>sig_parkers := remove1 g (sig_parkers s), sig_waiters := sig_waiters s - 1\<rparr>,
      if ctx_nodone c then None
      else if ctx_err c w then Some (ctx_cause c w) else None)"

text \<open>\<open>for { \<dots> if err := sig.Wait(ctx, unlock); err != nil { return \<dots> } }\<close>. Each element of
  the schedule is what the rest of the program does to the queue and the world while the goroutine
  is parked; a goroutine that is still parked when the schedule ends is the result
  \<open>Parked\<close>.\<close>

fun wait_loop :: "('s \<Rightarrow> 'r attempt \<times> 's) \<Rightarrow> ('s \<Rightarrow> 'r option \<times> 's) \<Rightarrow> ('s \<Rightarrow> 's) list \<Rightarrow> 's \<Rightarrow>
    'r attempt \<times> 's" where
  "wait_loop body resume [] s = body s"
| "wait_loop body resume (e # es) s =
     (case body s of
        (Done r, s1) \<Rightarrow> (Done r, s1)
      | (Parked, s1) \<Rightarrow>
          (case resume (e s1) of
             (Some r, s2) \<Rightarrow> (returns r, s2)
           | (None, s2) \<Rightarrow> wait_loop body resume es s2))"

section \<open>Items\<close>

text \<open>The \<open>Item\<close> interface. \<open>Less\<close> and \<open>Hash\<close> may end the frame without returning
  (\<open>None\<close>); \<open>it_zero\<close> is the zero value of the type.\<close>

record 'a item =
  it_less :: "'a \<Rightarrow> 'a \<Rightarrow> bool option"
  it_equal :: "'a \<Rightarrow> 'a \<Rightarrow> bool"
  it_priority :: "'a \<Rightarrow> u64"
  it_hash :: "'a \<Rightarrow> u64 option"
  it_zero :: 'a

definition ValidateKindOne :: "'a item \<Rightarrow> bool \<Rightarrow> 'a \<Rightarrow> goerr option" where
  "ValidateKindOne it priority v =
     (if priority \<and> it_priority it v = 0 then Some (Sentinel ErrPriorityRequired)
      else if \<not> priority \<and> it_priority it v \<noteq> 0 then Some (Sentinel ErrPriorityNotAllowed)
      else None)"

fun ValidateKind :: "'a item \<Rightarrow> bool \<Rightarrow> 'a list \<Rightarrow> goerr option" where
  "ValidateKind it priority [] = None"
| "ValidateKind it priority (v # vs) =
     (case ValidateKindOne it priority v of
        Some e \<Rightarrow> Some e
      | None \<Rightarrow> ValidateKind it priority vs)"

fun MatchesAny :: "'a item \<Rightarrow> 'a \<Rightarrow> 'a list \<Rightarrow> bool" where
  "MatchesAny it stored [] = False"
| "MatchesAny it stored (v # vs) = (if it_equal it stored v then True else MatchesAny it stored vs)"

record 'a seqitem =
  si_Seq :: u64
  si_Item :: 'a

definition FifoSeqLess :: "'a seqitem \<Rightarrow> 'a seqitem \<Rightarrow> bool" where
  "FifoSeqLess a b = (si_Seq a < si_Seq b)"

definition PrioritySeqLess :: "'a item \<Rightarrow> 'a seqitem \<Rightarrow> 'a seqitem \<Rightarrow> bool option" where
  "PrioritySeqLess it a b = do {
     ab \<leftarrow> it_less it (si_Item a) (si_Item b);
     if ab then Some True
     else do {
       ba \<leftarrow> it_less it (si_Item b) (si_Item a);
       if ba then Some False else Some (si_Seq a < si_Seq b) } }"

section \<open>Backups\<close>

text \<open>The \<open>Backup\<close> interface. \<open>RangeAll\<close> is the sequence it yields, each element an item
  and an error or an unwind out of the iterator.\<close>

type_synonym 'w call = "'w \<Rightarrow> goerr call_result \<times> 'w"

datatype 'a ranged = Yielded 'a "goerr option" | RangeUnwinds

record ('a, 'w) backup =
  bk_Push :: "'w ctx \<Rightarrow> 'a list \<Rightarrow> 'w call"
  bk_Del :: "'w ctx \<Rightarrow> 'a list \<Rightarrow> 'w call"
  bk_Restore :: "'w ctx \<Rightarrow> 'a list \<Rightarrow> 'w call"
  bk_Close :: "'w ctx \<Rightarrow> 'w call"
  bk_Clear :: "'w ctx \<Rightarrow> 'w call"
  bk_RangeAll :: "'w ctx \<Rightarrow> 'w \<Rightarrow> 'a ranged list"
  bk_OnLoad :: "'w ctx \<Rightarrow> 'a \<Rightarrow> 'w call"

section \<open>Per-operation options\<close>

datatype opcall =
  UnknownOpCall | CallPush | CallPop | CallPeek | CallExists | CallDel | CallNotEmpty
  | CallNotFull | CallClose | CallClear

type_synonym ('s, 'w) hook = "'s \<times> 'w \<Rightarrow> goerr call_result \<times> 's \<times> 'w"

record ('s, 'w) opoptions =
  oo_Call :: opcall
  oo_SideEffect :: "'w call option"
  oo_OnAdmit :: "('s, 'w) hook option"

type_synonym ('s, 'w) opoption = "('s, 'w) opoptions \<Rightarrow> ('s, 'w) opoptions \<times> goerr option"

fun apply_options :: "('s, 'w) opoption list \<Rightarrow> ('s, 'w) opoptions \<Rightarrow> ('s, 'w) opoptions \<times> goerr option" where
  "apply_options [] o1 = (o1, None)"
| "apply_options (opt # opts) o1 =
     (case opt o1 of
        (o2, Some e) \<Rightarrow> (o2, Some e)
      | (o2, None) \<Rightarrow> apply_options opts o2)"

text \<open>The panic on an operation that forgot to name itself is the outcome \<open>Unwinds\<close>.\<close>

definition ResolveOpOptions :: "opcall \<Rightarrow> ('s, 'w) opoption list \<Rightarrow>
    (('s, 'w) opoptions \<times> goerr option) outcome" where
  "ResolveOpOptions call opts =
     (if call = UnknownOpCall then Unwinds
      else Ret (apply_options opts \<lparr>oo_Call = call, oo_SideEffect = None, oo_OnAdmit = None\<rparr>))"

text \<open>The argument is \<open>None\<close> for a nil func.\<close>

definition WithSideEffect :: "'w call option \<Rightarrow> ('s, 'w) opoption" where
  "WithSideEffect f o1 =
     (case f of None \<Rightarrow> (o1, Some (Sentinel ErrNilSideEffect))
      | Some _ \<Rightarrow> (o1\<lparr>oo_SideEffect := f\<rparr>, None))"

definition WithOnAdmit :: "('s, 'w) hook option \<Rightarrow> ('s, 'w) opoption" where
  "WithOnAdmit f o1 =
     (case f of None \<Rightarrow> (o1, Some (Sentinel ErrNilOnAdmit))
      | Some _ \<Rightarrow>
          if oo_Call o1 \<noteq> CallPush then (o1, Some (Errorf [Sentinel ErrOnAdmitNotPush]))
          else (o1\<lparr>oo_OnAdmit := f\<rparr>, None))"

definition ReleaseReservation :: "('s, 'w) opoptions \<Rightarrow> signal \<Rightarrow> signal" where
  "ReleaseReservation opts notFull =
     (if oo_OnAdmit opts = None then notFull else signal_gated notFull)"

section \<open>Guarded calls\<close>

definition RunSideEffect :: "'w call option \<Rightarrow> 'w \<Rightarrow> goerr option outcome \<times> 'w" where
  "RunSideEffect se w =
     (case se of None \<Rightarrow> (Ret None, w)
      | Some f \<Rightarrow>
          (case f w of
             (Returned None, w1) \<Rightarrow> (Ret None, w1)
           | (Returned (Some e), w1) \<Rightarrow> (Ret (Some (Errorf [Sentinel ErrSideEffectFailed, e])), w1)
           | (Unwound, w1) \<Rightarrow> (Unwinds, w1)))"

text \<open>\<open>RunLocked\<close>: the deferred function runs \<open>release\<close> exactly when \<open>fn\<close> did not
  return.\<close>

definition RunLocked :: "'w call \<Rightarrow> ('s \<Rightarrow> 's) \<Rightarrow> 's \<times> 'w \<Rightarrow> goerr option outcome \<times> 's \<times> 'w" where
  "RunLocked fn release sw =
     (case sw of (s, w) \<Rightarrow>
       (case fn w of
          (Returned e, w1) \<Rightarrow> (Ret e, s, w1)
        | (Unwound, w1) \<Rightarrow> (Unwinds, release s, w1)))"

definition RunSideEffectLocked :: "'w call option \<Rightarrow> ('s \<Rightarrow> 's) \<Rightarrow> 's \<times> 'w \<Rightarrow>
    goerr option outcome \<times> 's \<times> 'w" where
  "RunSideEffectLocked se release sw =
     (case se of None \<Rightarrow> (Ret None, sw)
      | Some f \<Rightarrow>
          (case RunLocked f release sw of
             (Ret None, sw1) \<Rightarrow> (Ret None, sw1)
           | (Ret (Some e), sw1) \<Rightarrow> (Ret (Some (Errorf [Sentinel ErrSideEffectFailed, e])), sw1)
           | (Unwinds, sw1) \<Rightarrow> (Unwinds, sw1)))"

definition RunBackup :: "'w call \<Rightarrow> ('s \<Rightarrow> 's) \<Rightarrow> 's \<times> 'w \<Rightarrow> goerr option outcome \<times> 's \<times> 'w" where
  "RunBackup fn release sw =
     (case RunLocked fn release sw of
        (Ret e, sw1) \<Rightarrow> (Ret (WrapBackup e), sw1)
      | (Unwinds, sw1) \<Rightarrow> (Unwinds, sw1))"

text \<open>\<open>fn\<close> mutates the state it shares with its caller; the flag says whether it returned.\<close>

definition RunLockedNoErr :: "('s \<Rightarrow> bool \<times> 's) \<Rightarrow> ('s \<Rightarrow> 's) \<Rightarrow> 's \<Rightarrow> unit outcome \<times> 's" where
  "RunLockedNoErr fn release s =
     (case fn s of
        (True, s1) \<Rightarrow> (Ret (), s1)
      | (False, s1) \<Rightarrow> (Unwinds, release s1))"

text \<open>
  \<open>RunOnAdmit\<close>. Its pointer arguments (the lock, the in-flight counter and the signal) are the
  fields of the backing that \<open>get\<close> reads and \<open>put\<close> writes. The two halves are the critical
  sections before and after the hook.
\<close>

type_synonym admit_cells = "qlock \<times> int \<times> signal"

definition RunOnAdmit_enter :: "('s \<Rightarrow> admit_cells) \<Rightarrow> (admit_cells \<Rightarrow> 's \<Rightarrow> 's) \<Rightarrow> int \<Rightarrow> 's \<Rightarrow> 's" where
  "RunOnAdmit_enter get put n s =
     (case get s of (lk, inflight, nf) \<Rightarrow> put (qlock_Unlock lk, inflight + n, nf) s)"

definition RunOnAdmit_exit :: "('s \<Rightarrow> admit_cells) \<Rightarrow> (admit_cells \<Rightarrow> 's \<Rightarrow> 's) \<Rightarrow> int \<Rightarrow>
    goerr call_result \<Rightarrow> 's \<Rightarrow> goerr option outcome \<times> 's" where
  "RunOnAdmit_exit get put n r s =
     (case get s of (lk, inflight, nf) \<Rightarrow>
       (case r of
          Returned None \<Rightarrow> (Ret None, put (qlock_Lock lk, inflight - n, nf) s)
        | Returned (Some e) \<Rightarrow>
            (Ret (Some (Errorf [Sentinel ErrOnAdmitFailed, e])),
             put (qlock_Lock lk, inflight - n, signal_gated nf) s)
        | Unwound \<Rightarrow>
            (Unwinds, put (qlock_Unlock (qlock_Lock lk), inflight - n, signal_gated nf) s)))"

definition RunOnAdmit :: "('s \<Rightarrow> admit_cells) \<Rightarrow> (admit_cells \<Rightarrow> 's \<Rightarrow> 's) \<Rightarrow> int \<Rightarrow>
    ('s, 'w) hook \<Rightarrow> 's \<times> 'w \<Rightarrow> goerr option outcome \<times> 's \<times> 'w" where
  "RunOnAdmit get put n hook sw =
     (case sw of (s, w) \<Rightarrow>
       (case hook (RunOnAdmit_enter get put n s, w) of
          (r, s1, w1) \<Rightarrow>
            (case RunOnAdmit_exit get put n r s1 of (res, s2) \<Rightarrow> (res, s2, w1))))"

section \<open>Iteration\<close>

text \<open>The consumer of an iterator: it is handed an item and an error, and answers whether to go on;
  \<open>None\<close> is an unwind out of the loop body.\<close>

type_synonym ('a, 'w) yield = "'a \<Rightarrow> goerr option \<Rightarrow> 'w \<Rightarrow> bool option \<times> 'w"

text \<open>An iteration gives the error it yielded last, if it yielded one: this is what the loop around an
  iterator can observe of it.\<close>

definition yield_last :: "('a, 'w) yield \<Rightarrow> 'a \<Rightarrow> goerr option \<Rightarrow> 'w \<Rightarrow> goerr option outcome \<times> 'w" where
  "yield_last yield v e w =
     (case yield v e w of (None, w1) \<Rightarrow> (Unwinds, w1) | (Some _, w1) \<Rightarrow> (Ret e, w1))"

text \<open>The loop every iterator runs over a fixed sequence: poll the context, then yield.\<close>

fun range_loop :: "'a \<Rightarrow> 'w ctx \<Rightarrow> ('a, 'w) yield \<Rightarrow> 'a list \<Rightarrow> 'w \<Rightarrow> goerr option outcome \<times> 'w" where
  "range_loop zero c yield [] w = (Ret None, w)"
| "range_loop zero c yield (v # vs) w =
     (if ctx_err c w then yield_last yield zero (Some (ctx_cause c w)) w
      else (case yield v None w of
              (None, w1) \<Rightarrow> (Unwinds, w1)
            | (Some False, w1) \<Rightarrow> (Ret None, w1)
            | (Some True, w1) \<Rightarrow> range_loop zero c yield vs w1))"

text \<open>A range loop with \<open>body\<close> over what an iterator hands out: the body answers whether to go on.\<close>

fun each :: "('a \<Rightarrow> 's \<Rightarrow> bool \<times> 's) \<Rightarrow> 'a list \<Rightarrow> 's \<Rightarrow> 's" where
  "each body [] s = s"
| "each body (x # xs) s = (case body x s of (ok, s1) \<Rightarrow> if ok then each body xs s1 else s1)"

text \<open>The body of the loops that yield to the caller: poll the context, then yield. The state is
  what the iterator returns if the loop ends now, and the caller's world.\<close>

definition range_body :: "'a \<Rightarrow> 'w ctx \<Rightarrow> ('a, 'w) yield \<Rightarrow> 'a \<Rightarrow> goerr option outcome \<times> 'w \<Rightarrow>
    bool \<times> goerr option outcome \<times> 'w" where
  "range_body zero c yield v rw =
     (case rw of (_, w) \<Rightarrow>
       if ctx_err c w then (False, yield_last yield zero (Some (ctx_cause c w)) w)
       else (case yield v None w of
               (None, w1) \<Rightarrow> (False, Unwinds, w1)
             | (Some b, w1) \<Rightarrow> (b, Ret None, w1)))"

lemma each_range: "each (range_body zero c yield) xs (Ret None, w) = range_loop zero c yield xs w"
  by (induction xs arbitrary: w) (auto simp: range_body_def split: prod.splits option.splits bool.splits)

lemma each_exists: "each (\<lambda>x found. if it_equal it x v then (False, True) else (True, found)) xs b = (b \<or> list_ex (\<lambda>x. it_equal it x v) xs)"
  by (induction xs arbitrary: b) auto

lemma each_take:
  "length out < k \<Longrightarrow> each (\<lambda>v out. let out' = out @ [v] in (length out' \<noteq> k, out')) xs out = out @ take (k - length out) xs"
proof (induction xs arbitrary: out)
  case (Cons x xs)
  show ?case
  proof (cases "Suc (length out) = k")
    case False
    then have "length (out @ [x]) < k" using Cons.prems by simp
    from Cons.IH [OF this] show ?thesis using False Cons.prems by (simp add: Let_def take_Cons')
  qed (use Cons.prems in \<open>auto simp: Let_def\<close>)
qed simp

section \<open>Shared lemmas\<close>

text \<open>What \<open>opts, err := ResolveOpOptions(call, options); if err != nil { return \<dots> }\<close> does at the head of
  every operation: the three continuations are the panic, the early return and the rest.\<close>

definition resolve :: "opcall \<Rightarrow> ('s, 'w) opoption list \<Rightarrow> 'x \<Rightarrow> (goerr \<Rightarrow> 'x) \<Rightarrow>
    (('s, 'w) opoptions \<Rightarrow> 'x) \<Rightarrow> 'x" where
  "resolve call options panics fails k =
     (case ResolveOpOptions call options of
        Unwinds \<Rightarrow> panics
      | Ret (opts, Some e) \<Rightarrow> fails e
      | Ret (opts, None) \<Rightarrow> k opts)"

subsection \<open>Signals\<close>

text \<open>Every goroutine on the list is still counted, so gating a broadcast on the counter never
  suppresses one that somebody needs.\<close>

definition sig_ok :: "signal \<Rightarrow> bool" where
  "sig_ok s = (int (length (sig_parkers s)) \<le> sig_waiters s)"

lemma sig_ok_New [simp]: "sig_ok NewSignal"
  by (simp add: sig_ok_def NewSignal_def)

lemma sig_ok_gated [simp]: "sig_ok s \<Longrightarrow> sig_ok (signal_gated s)"
  by (simp add: sig_ok_def signal_gated_def Signal_Signal_def Signal_HasWaiters_def)

lemma sig_ok_Signal [simp]: "sig_ok s \<Longrightarrow> sig_ok (Signal_Signal s)"
  by (simp add: sig_ok_def Signal_Signal_def)

lemma sig_ok_register [simp]: "sig_ok s \<Longrightarrow> sig_ok (Wait_register g s)"
  by (simp add: sig_ok_def Wait_register_def)

lemma signal_gated_parkers [simp]: "sig_ok s \<Longrightarrow> sig_parkers (signal_gated s) = []"
  by (cases "sig_parkers s")
    (auto simp: sig_ok_def signal_gated_def Signal_Signal_def Signal_HasWaiters_def)

lemma signal_gated_waiters [simp]: "sig_waiters (signal_gated s) = sig_waiters s"
  by (simp add: signal_gated_def Signal_Signal_def)

lemma ReleaseReservation_ok [simp]: "sig_ok s \<Longrightarrow> sig_ok (ReleaseReservation opts s)"
  by (simp add: ReleaseReservation_def)

subsection \<open>Items\<close>

lemma ValidateKind_None:
  "ValidateKind it priority vs = None \<longleftrightarrow> (\<forall>v \<in> set vs. ValidateKindOne it priority v = None)"
  by (induction vs) (auto split: option.splits)

lemma ValidateKind_Some:
  "ValidateKind it priority vs = Some e \<Longrightarrow>
     e = Sentinel (if priority then ErrPriorityRequired else ErrPriorityNotAllowed)"
  by (induction vs) (auto simp: ValidateKindOne_def split: option.splits if_splits)

lemma MatchesAny_iff: "MatchesAny it x vs \<longleftrightarrow> (\<exists>v \<in> set vs. it_equal it x v)"
  by (induction vs) auto

subsection \<open>Guarded calls\<close>

lemma RunLocked_pair [simp]:
  "RunLocked fn release (s, w) =
     (case fn w of (Returned e, w1) \<Rightarrow> (Ret e, s, w1) | (Unwound, w1) \<Rightarrow> (Unwinds, release s, w1))"
  by (simp add: RunLocked_def)

text \<open>The locked variant runs the same code in the same world; it differs in the state only, and
  there only on an unwind.\<close>

lemma RunSideEffectLocked_pair:
  "RunSideEffectLocked se release (s, w) =
     (case RunSideEffect se w of
        (Ret e, w1) \<Rightarrow> (Ret e, s, w1)
      | (Unwinds, w1) \<Rightarrow> (Unwinds, release s, w1))"
  by (auto simp: RunSideEffectLocked_def RunSideEffect_def
      split: option.splits call_result.splits prod.splits)

lemma RunBackup_pair:
  "RunBackup fn release (s, w) =
     (case fn w of
        (Returned e, w1) \<Rightarrow> (Ret (WrapBackup e), s, w1)
      | (Unwound, w1) \<Rightarrow> (Unwinds, release s, w1))"
  by (auto simp: RunBackup_def split: call_result.splits prod.splits)

lemmas run_splits = option.splits call_result.splits prod.splits outcome.splits

subsection \<open>Waiting\<close>

text \<open>An invariant of the loop body, of the resumption and of the interference is an invariant of
  the blocking operation.\<close>

lemma wait_loop_inv:
  assumes "P s"
    and body: "\<And>s r s'. P s \<Longrightarrow> body s = (r, s') \<Longrightarrow> P s'"
    and resume: "\<And>s r s'. P s \<Longrightarrow> resume s = (r, s') \<Longrightarrow> P s'"
    and env: "\<And>e s. e \<in> set es \<Longrightarrow> P s \<Longrightarrow> P (e s)"
  shows "P (snd (wait_loop body resume es s))"
  using assms(1) env
proof (induction es arbitrary: s)
  case Nil
  then show ?case using body by (cases "body s") auto
next
  case (Cons e es)
  obtain r1 s1 where b: "body s = (r1, s1)" by fastforce
  have s1: "P s1" using body [OF Cons.prems(1) b] .
  obtain r2 s2 where r: "resume (e s1) = (r2, s2)" by fastforce
  have "P (e s1)" using s1 Cons.prems(2) by simp
  then have s2: "P s2" using r by (rule resume)
  have "P (snd (wait_loop body resume es s2))"
    using Cons.IH [OF s2] Cons.prems(2) by simp
  then show ?case using b r s1 s2 by (cases r1; cases r2) auto
qed

lemma wait_loop_done: "body s = (Done r, s') \<Longrightarrow> wait_loop body resume es s = (Done r, s')"
  by (cases es) auto

end
