(* ===== verification/Abstract_Queue.thy ===== *)
theory Abstract_Queue
  imports Caller_Code
begin

text \<open>
  What a backing promises (\<open>core.Backing\<close> in \<open>core/item.go\<close>), independently of how it stores
  its items: an abstract bounded blocking queue. Its contents are a list in service order; every
  item carries a mark that says whether it was restored from a backup, because restored items are
  exempt from the bound. The slice, the tree and the heap backing are shown to refine these operations; the
  order in which a pushed item is placed is a parameter (at the end for the FIFO backings, behind
  the last item that is not strictly less desirable for the priority backings).

  The abstract operations act on the caller's world exactly as the concrete ones must: the side
  effect runs before the mirror to the Backup, and a failure of either leaves the contents alone.
\<close>

record ('a, 'w) aq =
  aq_items :: "('a \<times> bool) list"
  aq_max :: int
  aq_inflight :: int
  aq_closed :: bool
  aq_backup :: "('a, 'w) backup option"
  aq_notFull :: signal
  aq_notEmpty :: signal

definition aq_contents :: "('a, 'w) aq \<Rightarrow> 'a list" where
  "aq_contents a = map fst (aq_items a)"

text \<open>The items that count against the bound.\<close>

definition aq_admitted :: "('a, 'w) aq \<Rightarrow> int" where
  "aq_admitted a = int (length (filter (\<lambda>x. \<not> snd x) (aq_items a)))"

definition aq_bounded :: "('a, 'w) aq \<Rightarrow> bool" where
  "aq_bounded a = (aq_max a = 0 \<or> aq_admitted a + aq_inflight a \<le> aq_max a)"

text \<open>There is room for \<open>n\<close> more.\<close>

definition fits :: "nat \<Rightarrow> ('a, 'w) aq \<Rightarrow> bool" where
  "fits n a = (aq_max a = 0 \<or> aq_admitted a + aq_inflight a + int n \<le> aq_max a)"

type_synonym 'a placing = "('a \<times> bool) list \<Rightarrow> 'a \<times> bool \<Rightarrow> ('a \<times> bool) list"

definition fifo_place :: "'a placing" where
  "fifo_place xs x = xs @ [x]"

fun priority_place :: "('a \<Rightarrow> 'a \<Rightarrow> bool) \<Rightarrow> 'a placing" where
  "priority_place lt [] x = [x]"
| "priority_place lt (y # ys) x =
     (if lt (fst x) (fst y) then x # y # ys else y # priority_place lt ys x)"

definition place_all :: "'a placing \<Rightarrow> ('a \<times> bool) list \<Rightarrow> 'a list \<Rightarrow> ('a \<times> bool) list" where
  "place_all place xs vs = foldl place xs (map (\<lambda>v. (v, False)) vs)"

section \<open>Caller code\<close>

text \<open>The side effect, then the mirror to the Backup, tagged the way \<open>RunBackup\<close> does.\<close>

definition spec_effects :: "'w call option \<Rightarrow> 'w call option \<Rightarrow> 'w \<Rightarrow> goerr option outcome \<times> 'w" where
  "spec_effects se mirror w =
     (case RunSideEffect se w of
        (Ret None, w1) \<Rightarrow>
          (case mirror of
             None \<Rightarrow> (Ret None, w1)
           | Some f \<Rightarrow>
               (case f w1 of
                  (Returned e, w2) \<Rightarrow> (Ret (WrapBackup e), w2)
                | (Unwound, w2) \<Rightarrow> (Unwinds, w2)))
      | r \<Rightarrow> r)"

section \<open>Operations\<close>

text \<open>The admission gate of \<open>Push\<close>.\<close>

datatype gate = GateClosed | GateTooLarge | GateAdmit | GateFull

definition spec_gate :: "nat \<Rightarrow> ('a, 'w) aq \<Rightarrow> gate" where
  "spec_gate n a =
     (if aq_closed a then GateClosed
      else if aq_max a > 0 \<and> int n > aq_max a then GateTooLarge
      else if fits n a then GateAdmit
      else GateFull)"

text \<open>\<open>reserved\<close> says whether the batch held a reservation that an abandoned push gives back.\<close>

definition spec_commit :: "'a placing \<Rightarrow> 'w ctx \<Rightarrow> 'a list \<Rightarrow> 'w call option \<Rightarrow> bool \<Rightarrow>
    ('a, 'w) aq \<times> 'w \<Rightarrow> goerr option attempt \<times> ('a, 'w) aq \<times> 'w" where
  "spec_commit place c vs se reserved aw =
     (case aw of (a, w) \<Rightarrow>
       (case spec_effects se (map_option (\<lambda>b. bk_Push b c vs) (aq_backup a)) w of
          (Ret None, w1) \<Rightarrow>
            (returns None,
             a\<lparr>aq_items := place_all place (aq_items a) vs,
               aq_notEmpty := (if aq_items a = [] then signal_gated (aq_notEmpty a) else aq_notEmpty a)\<rparr>,
             w1)
        | (r, w1) \<Rightarrow>
            (Done r,
             a\<lparr>aq_notFull := (if reserved then signal_gated (aq_notFull a) else aq_notFull a)\<rparr>,
             w1)))"

definition spec_push :: "'a placing \<Rightarrow> nat \<Rightarrow> 'w ctx \<Rightarrow> 'a list \<Rightarrow> 'w call option \<Rightarrow>
    ('a, 'w) aq \<times> 'w \<Rightarrow> goerr option attempt \<times> ('a, 'w) aq \<times> 'w" where
  "spec_push place g c vs se aw =
     (case aw of (a, w) \<Rightarrow>
       (case spec_gate (length vs) a of
          GateClosed \<Rightarrow> (returns err_closed, a, w)
        | GateTooLarge \<Rightarrow> (returns (Some (Sentinel ErrBatchTooLarge)), a, w)
        | GateAdmit \<Rightarrow> spec_commit place c vs se False (a, w)
        | GateFull \<Rightarrow> (Parked, a\<lparr>aq_notFull := Wait_register g (aq_notFull a)\<rparr>, w)))"

definition spec_pop :: "nat \<Rightarrow> 'w ctx \<Rightarrow> nat \<Rightarrow> 'w call option \<Rightarrow>
    ('a, 'w) aq \<times> 'w \<Rightarrow> ('a list \<times> goerr option) attempt \<times> ('a, 'w) aq \<times> 'w" where
  "spec_pop g c n se aw =
     (case aw of (a, w) \<Rightarrow>
       if aq_closed a then (returns ([], err_closed), a, w)
       else if aq_items a \<noteq> [] then
         (let out = take n (aq_contents a) in
          case spec_effects se (map_option (\<lambda>b. bk_Del b c out) (aq_backup a)) w of
            (Ret None, w1) \<Rightarrow>
              (returns (out, None),
               a\<lparr>aq_items := drop n (aq_items a), aq_notFull := signal_gated (aq_notFull a)\<rparr>, w1)
          | (r, w1) \<Rightarrow> (Done (map_outcome (\<lambda>e. ([], e)) r), a, w1))
       else (Parked, a\<lparr>aq_notEmpty := Wait_register g (aq_notEmpty a)\<rparr>, w))"

definition spec_peek :: "'a \<Rightarrow> 'w call option \<Rightarrow> ('a, 'w) aq \<times> 'w \<Rightarrow>
    ('a \<times> bool \<times> goerr option) outcome \<times> ('a, 'w) aq \<times> 'w" where
  "spec_peek zero se aw =
     (case aw of (a, w) \<Rightarrow>
       if aq_closed a then (Ret (zero, False, err_closed), a, w)
       else (case RunSideEffect se w of (r, w1) \<Rightarrow>
         (map_outcome (\<lambda>e. case aq_contents a of [] \<Rightarrow> (zero, False, e) | x # _ \<Rightarrow> (x, True, e)) r, a, w1)))"

definition spec_exists :: "'a item \<Rightarrow> 'a \<Rightarrow> 'w call option \<Rightarrow> ('a, 'w) aq \<times> 'w \<Rightarrow>
    (bool \<times> goerr option) outcome \<times> ('a, 'w) aq \<times> 'w" where
  "spec_exists it v se aw =
     (case aw of (a, w) \<Rightarrow>
       if aq_closed a then (Ret (False, err_closed), a, w)
       else (case RunSideEffect se w of (r, w1) \<Rightarrow>
         (map_outcome (\<lambda>e. (list_ex (\<lambda>x. it_equal it x v) (aq_contents a), e)) r, a, w1)))"

text \<open>\<open>removed\<close> is the removed items in the order in which the backing found them.\<close>

definition spec_del :: "'a item \<Rightarrow> 'w ctx \<Rightarrow> 'a list \<Rightarrow> 'a list \<Rightarrow> 'w call option \<Rightarrow>
    ('a, 'w) aq \<times> 'w \<Rightarrow> (int \<times> goerr option) outcome \<times> ('a, 'w) aq \<times> 'w" where
  "spec_del it c vs removed se aw =
     (case aw of (a, w) \<Rightarrow>
       if aq_closed a then (Ret (0, err_closed), a, w)
       else if removed = [] then
         (case RunSideEffect se w of (r, w1) \<Rightarrow> (map_outcome (\<lambda>e. (0, e)) r, a, w1))
       else
         (case spec_effects se (map_option (\<lambda>b. bk_Del b c removed) (aq_backup a)) w of
            (Ret None, w1) \<Rightarrow>
              (Ret (int (length removed), None),
               a\<lparr>aq_items := filter (\<lambda>x. \<not> MatchesAny it (fst x) vs) (aq_items a),
                 aq_notFull := signal_gated (aq_notFull a)\<rparr>, w1)
          | (r, w1) \<Rightarrow> (map_outcome (\<lambda>e. (0, e)) r, a, w1)))"

definition spec_notempty :: "nat \<Rightarrow> 'w call option \<Rightarrow> ('a, 'w) aq \<times> 'w \<Rightarrow>
    goerr option attempt \<times> ('a, 'w) aq \<times> 'w" where
  "spec_notempty g se aw =
     (case aw of (a, w) \<Rightarrow>
       if aq_closed a then (returns err_closed, a, w)
       else if aq_items a \<noteq> [] then
         (case RunSideEffect se w of (r, w1) \<Rightarrow> (Done r, a, w1))
       else (Parked, a\<lparr>aq_notEmpty := Wait_register g (aq_notEmpty a)\<rparr>, w))"

definition spec_notfull :: "nat \<Rightarrow> 'w call option \<Rightarrow> ('a, 'w) aq \<times> 'w \<Rightarrow>
    goerr option attempt \<times> ('a, 'w) aq \<times> 'w" where
  "spec_notfull g se aw =
     (case aw of (a, w) \<Rightarrow>
       if aq_closed a then (returns err_closed, a, w)
       else if fits 1 a then
         (case RunSideEffect se w of (r, w1) \<Rightarrow> (Done r, a, w1))
       else (Parked, a\<lparr>aq_notFull := Wait_register g (aq_notFull a)\<rparr>, w))"

definition aq_close :: "('a, 'w) aq \<Rightarrow> ('a, 'w) aq" where
  "aq_close a = a\<lparr>aq_closed := True, aq_notEmpty := Signal_Signal (aq_notEmpty a),
     aq_notFull := Signal_Signal (aq_notFull a)\<rparr>"

definition spec_close :: "'w ctx \<Rightarrow> 'w call option \<Rightarrow> ('a, 'w) aq \<times> 'w \<Rightarrow>
    goerr option outcome \<times> ('a, 'w) aq \<times> 'w" where
  "spec_close c se aw =
     (case aw of (a, w) \<Rightarrow>
       (case RunSideEffect se w of
          (Ret None, w1) \<Rightarrow>
            if aq_closed a then (Ret None, a, w1)
            else (case aq_backup a of
                None \<Rightarrow> (Ret None, aq_close a, w1)
              | Some b \<Rightarrow>
                  (case bk_Close b c w1 of
                     (Returned e, w2) \<Rightarrow> (Ret (WrapBackup e), aq_close a, w2)
                   | (Unwound, w2) \<Rightarrow> (Unwinds, aq_close a, w2)))
        | (r, w1) \<Rightarrow> (r, a, w1)))"

definition spec_clear :: "'w ctx \<Rightarrow> 'w call option \<Rightarrow> ('a, 'w) aq \<times> 'w \<Rightarrow>
    goerr option outcome \<times> ('a, 'w) aq \<times> 'w" where
  "spec_clear c se aw =
     (case aw of (a, w) \<Rightarrow>
       if aq_closed a then (Ret err_closed, a, w)
       else if aq_items a = [] then (case RunSideEffect se w of (r, w1) \<Rightarrow> (r, a, w1))
       else
         (case spec_effects se (map_option (\<lambda>b. bk_Clear b c) (aq_backup a)) w of
            (Ret None, w1) \<Rightarrow>
              (Ret None, a\<lparr>aq_items := [], aq_notFull := signal_gated (aq_notFull a)\<rparr>, w1)
          | (r, w1) \<Rightarrow> (r, a, w1)))"

text \<open>Resumption of a parked operation: after a cancellation \<open>ErrClosed\<close> wins over the cause.\<close>

definition closed_or_cause :: "bool \<Rightarrow> 'w ctx \<Rightarrow> 'w \<Rightarrow> goerr option" where
  "closed_or_cause closed c w = (if closed then err_closed else Some (ctx_cause c w))"

text \<open>Restoring from a Backup: every item is checked, handed to \<open>OnLoad\<close> and placed with the mark
  that exempts it from the bound; the Backup is attached last.\<close>

fun spec_hydrate_loop :: "'a placing \<Rightarrow> 'a item \<Rightarrow> bool \<Rightarrow> 'w ctx \<Rightarrow> ('a, 'w) backup \<Rightarrow> 'a ranged list \<Rightarrow>
    ('a, 'w) aq \<times> 'w \<Rightarrow> goerr option outcome \<times> ('a, 'w) aq \<times> 'w" where
  "spec_hydrate_loop place it priority c b [] (a, w) = (Ret None, a, w)"
| "spec_hydrate_loop place it priority c b (RangeUnwinds # rs) (a, w) = (Unwinds, a, w)"
| "spec_hydrate_loop place it priority c b (Yielded v (Some e) # rs) (a, w) = (Ret (WrapBackup (Some e)), a, w)"
| "spec_hydrate_loop place it priority c b (Yielded v None # rs) (a, w) =
     (case ValidateKindOne it priority v of
        Some e \<Rightarrow> (Ret (Some e), a, w)
      | None \<Rightarrow>
          (case bk_OnLoad b c v w of
             (Unwound, w1) \<Rightarrow> (Unwinds, a, w1)
           | (Returned (Some e), w1) \<Rightarrow> (Ret (WrapBackup (Some e)), a, w1)
           | (Returned None, w1) \<Rightarrow>
               spec_hydrate_loop place it priority c b rs
                 (a\<lparr>aq_items := place (aq_items a) (v, True)\<rparr>, w1)))"

definition spec_hydrate :: "'a placing \<Rightarrow> 'a item \<Rightarrow> bool \<Rightarrow> 'w ctx \<Rightarrow> ('a, 'w) backup \<Rightarrow>
    ('a, 'w) aq \<times> 'w \<Rightarrow> goerr option outcome \<times> ('a, 'w) aq \<times> 'w" where
  "spec_hydrate place it priority c b aw =
     (case spec_hydrate_loop place it priority c b (bk_RangeAll b c (snd aw)) aw of
        (Ret None, a1, w1) \<Rightarrow> (Ret None, a1\<lparr>aq_backup := Some b\<rparr>, w1)
      | (r, a1, w1) \<Rightarrow> (r, a1, w1))"

text \<open>Iteration: the contents in service order, or \<open>ErrClosed\<close>.\<close>

definition spec_range :: "'a \<Rightarrow> 'w ctx \<Rightarrow> ('a, 'w) yield \<Rightarrow> ('a, 'w) aq \<times> 'w \<Rightarrow>
    goerr option outcome \<times> ('a, 'w) aq \<times> 'w" where
  "spec_range zero c yield aw =
     (case aw of (a, w) \<Rightarrow>
       (case (if aq_closed a then yield_last yield zero err_closed w
              else range_loop zero c yield (aq_contents a) w) of
          (r, w1) \<Rightarrow> (r, a, w1)))"

text \<open>The rest of a push with a \<open>WithOnAdmit\<close> hook, once the hook has ended with \<open>r\<close>: the
  reservation is given back, and the batch is committed unless the hook failed or the queue was
  closed meanwhile.\<close>

definition spec_admitted :: "'a placing \<Rightarrow> 'w ctx \<Rightarrow> 'a list \<Rightarrow> 'w call option \<Rightarrow> goerr call_result \<Rightarrow>
    ('a, 'w) aq \<times> 'w \<Rightarrow> goerr option attempt \<times> ('a, 'w) aq \<times> 'w" where
  "spec_admitted place c vs se r aw =
     (case aw of (a0, w) \<Rightarrow>
       (let a = a0\<lparr>aq_inflight := aq_inflight a0 - int (length vs)\<rparr>;
            wake = a\<lparr>aq_notFull := signal_gated (aq_notFull a)\<rparr>
        in case r of
             Returned None \<Rightarrow>
               if aq_closed a then (returns err_closed, wake, w)
               else spec_commit place c vs se True (a, w)
           | Returned (Some e) \<Rightarrow> (returns (Some (Errorf [Sentinel ErrOnAdmitFailed, e])), wake, w)
           | Unwound \<Rightarrow> (Done Unwinds, wake, w)))"

section \<open>Refinement\<close>

text \<open>An operation on a representation refines an abstract one: from every state that satisfies the
  representation invariant it gives the same result and the same world, its final state represents
  the abstract final state, and the invariant holds there again.\<close>

definition refines_from :: "('s \<Rightarrow> bool) \<Rightarrow> ('s \<Rightarrow> bool) \<Rightarrow> ('s \<Rightarrow> 't) \<Rightarrow>
    ('s \<times> 'w \<Rightarrow> 'r \<times> 's \<times> 'w) \<Rightarrow> ('t \<times> 'w \<Rightarrow> 'r \<times> 't \<times> 'w) \<Rightarrow> bool" where
  "refines_from pre ok rep conc spec =
     (\<forall>s w. pre s \<longrightarrow>
       (case conc (s, w) of (r, s', w') \<Rightarrow> spec (rep s, w) = (r, rep s', w') \<and> ok s'))"

definition refines :: "('s \<Rightarrow> bool) \<Rightarrow> ('s \<Rightarrow> 't) \<Rightarrow> ('s \<times> 'w \<Rightarrow> 'r \<times> 's \<times> 'w) \<Rightarrow>
    ('t \<times> 'w \<Rightarrow> 'r \<times> 't \<times> 'w) \<Rightarrow> bool" where
  "refines ok rep conc spec =
     (\<forall>s w. ok s \<longrightarrow>
       (case conc (s, w) of (r, s', w') \<Rightarrow> spec (rep s, w) = (r, rep s', w') \<and> ok s'))"

lemma refines_from_same: "refines_from ok ok rep conc spec = refines ok rep conc spec"
  by (simp add: refines_from_def refines_def)

lemma refinesI:
  assumes "\<And>s w. ok s \<Longrightarrow> spec (rep s, w) = map_prod id (map_prod rep id) (conc (s, w))"
    and "\<And>s w. ok s \<Longrightarrow> ok (fst (snd (conc (s, w))))"
  shows "refines ok rep conc spec"
  unfolding refines_def
proof (intro allI impI)
  fix s w
  assume "ok s"
  then show "case conc (s, w) of (r, s', w') \<Rightarrow> spec (rep s, w) = (r, rep s', w') \<and> ok s'"
    using assms(1) [of s w] assms(2) [of s w] by (cases "conc (s, w)") auto
qed

lemma refines_fromD:
  "refines_from pre ok rep conc spec \<Longrightarrow> pre s \<Longrightarrow> conc (s, w) = (r, s', w') \<Longrightarrow>
     spec (rep s, w) = (r, rep s', w') \<and> ok s'"
  unfolding refines_from_def by (drule HOL.spec [of _ s], drule HOL.spec [of _ w], simp)

lemma refinesD:
  "refines ok rep conc spec \<Longrightarrow> ok s \<Longrightarrow> conc (s, w) = (r, s', w') \<Longrightarrow>
     spec (rep s, w) = (r, rep s', w') \<and> ok s'"
  using refines_fromD [of ok ok] by (simp add: refines_from_same)

section \<open>Laws of the abstract queue\<close>

lemma place_all_fifo [simp]: "place_all fifo_place xs vs = xs @ map (\<lambda>v. (v, False)) vs"
proof -
  have "foldl fifo_place xs ys = xs @ ys" for ys :: "('a \<times> bool) list"
    by (induction ys arbitrary: xs) (auto simp: fifo_place_def)
  then show ?thesis by (simp add: place_all_def)
qed

lemma mset_priority_place [simp]: "mset (priority_place lt xs x) = add_mset x (mset xs)"
  by (induction xs) auto

text \<open>A placing inserts: it keeps the items and their marks.\<close>

definition placing :: "'a placing \<Rightarrow> bool" where
  "placing place = (\<forall>xs x. mset (place xs x) = add_mset x (mset xs))"

lemma placing_fifo [simp]: "placing fifo_place"
  by (simp add: placing_def fifo_place_def)

lemma placing_priority [simp]: "placing (priority_place lt)"
  by (simp add: placing_def)

lemma mset_place_all:
  "placing place \<Longrightarrow> mset (place_all place xs vs) = mset xs + mset (map (\<lambda>v. (v, False)) vs)"
proof -
  assume p: "placing place"
  have "mset (foldl place xs ys) = mset xs + mset ys" for ys
    using p by (induction ys arbitrary: xs) (auto simp: placing_def)
  then show ?thesis by (simp add: place_all_def)
qed

lemma length_filter_mset: "length (filter P xs) = size (filter_mset P (mset xs))"
  by (metis mset_filter size_mset)

lemma size_unmarked: "size {#x \<in># {#(v, False). v \<in># mset vs#}. \<not> snd x#} = length vs"
  by (induction vs) auto

lemma admitted_place_all:
  "placing place \<Longrightarrow> length (filter (\<lambda>x. \<not> snd x) (place_all place xs vs)) =
     length (filter (\<lambda>x. \<not> snd x) xs) + length vs"
  by (simp add: length_filter_mset mset_place_all size_unmarked)

lemma length_place_all: "placing place \<Longrightarrow> length (place_all place xs vs) = length xs + length vs"
  using mset_place_all [of place xs vs] by (metis length_map size_mset size_union)

text \<open>Each operation changes the contents on success only.\<close>

lemma spec_commit_items:
  "spec_commit place c vs se reserved (a, w) = (res, a', w') \<Longrightarrow>
     res \<noteq> Parked \<and>
     aq_items a' = (if res = returns None then place_all place (aq_items a) vs else aq_items a)"
  by (auto simp: spec_commit_def spec_effects_def RunSideEffect_def split: run_splits)

lemma spec_push_items:
  "spec_push place g c vs se (a, w) = (res, a', w') \<Longrightarrow>
     aq_items a' = (if res = returns None then place_all place (aq_items a) vs else aq_items a)"
  by (auto simp: spec_push_def dest: spec_commit_items split: gate.splits)

lemma spec_push_frame:
  "spec_push place g c vs se (a, w) = (res, a', w') \<Longrightarrow> aq_max a' = aq_max a \<and> aq_inflight a' = aq_inflight a"
  by (auto simp: spec_push_def spec_commit_def split: gate.splits run_splits)

lemma spec_pop_frame:
  "spec_pop g c n se (a, w) = (res, a', w') \<Longrightarrow> aq_max a' = aq_max a \<and> aq_inflight a' = aq_inflight a"
  by (auto simp: spec_pop_def Let_def split: run_splits if_splits)

lemma spec_pop_items:
  "spec_pop g c n se (a, w) = (res, a', w') \<Longrightarrow>
     (\<exists>out. res = returns (out, None) \<and> out = take n (aq_contents a) \<and> aq_items a \<noteq> [] \<and>
        aq_items a' = drop n (aq_items a)) \<or>
     ((\<forall>out. res \<noteq> returns (out, None)) \<and> aq_items a' = aq_items a)"
  by (auto simp: spec_pop_def spec_effects_def RunSideEffect_def Let_def split: run_splits if_splits)

lemma spec_del_items:
  "spec_del it c vs removed se (a, w) = (res, a', w') \<Longrightarrow>
     mset removed = mset (filter (\<lambda>x. MatchesAny it x vs) (aq_contents a)) \<Longrightarrow>
     (res = Ret (int (length removed), None) \<and>
        aq_items a' = filter (\<lambda>x. \<not> MatchesAny it (fst x) vs) (aq_items a)) \<or>
     ((\<forall>n. res \<noteq> Ret (n, None)) \<and> aq_items a' = aq_items a)"
proof -
  assume del: "spec_del it c vs removed se (a, w) = (res, a', w')"
    and m: "mset removed = mset (filter (\<lambda>x. MatchesAny it x vs) (aq_contents a))"
  have "removed = [] \<Longrightarrow> filter (\<lambda>x. \<not> MatchesAny it (fst x) vs) (aq_items a) = aq_items a"
    using m by (auto simp: aq_contents_def filter_id_conv filter_empty_conv simp flip: mset_filter)
  then show ?thesis
    using del by (auto simp: spec_del_def spec_effects_def RunSideEffect_def split: run_splits if_splits)
qed

lemma spec_clear_items:
  "spec_clear c se (a, w) = (res, a', w') \<Longrightarrow>
     aq_items a' = (if res = Ret None then [] else aq_items a)"
  by (auto simp: spec_clear_def spec_effects_def RunSideEffect_def split: run_splits if_splits)

lemma spec_hydrate_loop_frame:
  "spec_hydrate_loop place it prio c b rs (a, w) = (r, a', w') \<Longrightarrow>
     aq_backup a' = aq_backup a \<and> aq_closed a' = aq_closed a"
  by (induction place it prio c b rs "(a, w)" arbitrary: a w rule: spec_hydrate_loop.induct)
    (fastforce split: run_splits)+

section \<open>Contents of which a prefix was restored\<close>

text \<open>The FIFO backings only ever append, so the restored items are a prefix of the contents and a
  counter is enough to know them.\<close>

definition mark :: "nat \<Rightarrow> 'a list \<Rightarrow> ('a \<times> bool) list" where
  "mark h xs = map (\<lambda>x. (x, True)) (take h xs) @ map (\<lambda>x. (x, False)) (drop h xs)"

lemma length_mark [simp]: "length (mark h xs) = length xs"
  by (simp add: mark_def)

lemma mark_Nil [simp]: "mark h [] = []" and mark_eq_Nil [simp]: "mark h xs = [] \<longleftrightarrow> xs = []"
  by (auto simp: mark_def)

lemma map_fst_mark [simp]: "map fst (mark h xs) = xs"
  by (simp add: mark_def comp_def)

lemma admitted_mark [simp]: "length (filter (\<lambda>x. \<not> snd x) (mark h xs)) = length xs - h"
  by (simp add: mark_def filter_map comp_def)

lemma mark_append: "h \<le> length xs \<Longrightarrow> mark h xs @ map (\<lambda>v. (v, False)) vs = mark h (xs @ vs)"
  by (simp add: mark_def)

lemma drop_mark: "drop k (mark h xs) = mark (h - k) (drop k xs)"
proof (cases "k \<le> h")
  case True
  then show ?thesis by (cases "h \<le> length xs") (auto simp: mark_def drop_map drop_take)
next
  case False
  then show ?thesis by (cases "h \<le> length xs") (auto simp: mark_def drop_map drop_take)
qed

lemma filter_mark:
  "filter (\<lambda>x. P (fst x)) (mark h xs) = mark (length (filter P (take h xs))) (filter P xs)"
proof -
  have "filter P xs = filter P (take h xs) @ filter P (drop h xs)"
    by (metis append_take_drop_id filter_append)
  then show ?thesis by (simp add: mark_def filter_map comp_def)
qed

end
