(* ===== verification/Backing_Interface.thy ===== *)
theory Backing_Interface
  imports Abstract_Queue
begin

text \<open>
  The interface \<open>core.Backing\<close> as a record of methods (what the Go interface value carries), and
  the contract of a backing as a locale: every method refines its abstract counterpart of theory
  \<open>Abstract_Queue\<close>. The blocking methods are covered for every schedule of interference of the
  other goroutines that respects the representation invariant.
\<close>

section \<open>Blocking operations\<close>

text \<open>A goroutine that has parked is still counted when it runs again, whether or not a broadcast
  has taken it off the list meanwhile.\<close>

definition counted :: "nat \<Rightarrow> signal \<Rightarrow> bool" where
  "counted g s = (sig_ok s \<and> int (length (remove1 g (sig_parkers s))) < sig_waiters s)"

lemma counted_register [simp]: "sig_ok s \<Longrightarrow> counted g (Wait_register g s)"
proof -
  assume "sig_ok s"
  moreover have "length (remove1 g (sig_parkers s @ [g])) = length (sig_parkers s)"
    by (simp add: length_remove1)
  ultimately show ?thesis by (simp add: counted_def sig_ok_def Wait_register_def)
qed

lemma sig_ok_return: "counted g s \<Longrightarrow> sig_ok (fst (Wait_return g c w s))"
  by (simp add: counted_def sig_ok_def Wait_return_def)

text \<open>The resumption of a parked operation on the abstract queue.\<close>

definition spec_resume_notFull :: "nat \<Rightarrow> 'w ctx \<Rightarrow> (goerr option \<Rightarrow> 'r) \<Rightarrow> ('a, 'w) aq \<times> 'w \<Rightarrow>
    'r option \<times> ('a, 'w) aq \<times> 'w" where
  "spec_resume_notFull g c mk aw =
     (case aw of (a, w) \<Rightarrow>
       (case Wait_return g c w (aq_notFull a) of (s, e) \<Rightarrow>
         (map_option (\<lambda>_. mk (closed_or_cause (aq_closed a) c w)) e, a\<lparr>aq_notFull := s\<rparr>, w)))"

definition spec_resume_notEmpty :: "nat \<Rightarrow> 'w ctx \<Rightarrow> (goerr option \<Rightarrow> 'r) \<Rightarrow> ('a, 'w) aq \<times> 'w \<Rightarrow>
    'r option \<times> ('a, 'w) aq \<times> 'w" where
  "spec_resume_notEmpty g c mk aw =
     (case aw of (a, w) \<Rightarrow>
       (case Wait_return g c w (aq_notEmpty a) of (s, e) \<Rightarrow>
         (map_option (\<lambda>_. mk (closed_or_cause (aq_closed a) c w)) e, a\<lparr>aq_notEmpty := s\<rparr>, w)))"

text \<open>Interference by the rest of the program while the goroutine is parked.\<close>

definition env_refines :: "('s \<Rightarrow> bool) \<Rightarrow> ('s \<Rightarrow> 't) \<Rightarrow> ('t \<Rightarrow> bool) \<Rightarrow> ('s \<times> 'w \<Rightarrow> 's \<times> 'w) \<Rightarrow>
    ('t \<times> 'w \<Rightarrow> 't \<times> 'w) \<Rightarrow> bool" where
  "env_refines ok rep waits e a =
     (\<forall>s w. ok s \<and> waits (rep s) \<longrightarrow>
       (case e (s, w) of (s', w') \<Rightarrow> a (rep s, w) = (rep s', w') \<and> ok s' \<and> waits (rep s')))"

text \<open>\<open>pre\<close> is what the operation needs to hold whenever it runs; parking, resuming and the other
  goroutines keep it.\<close>

lemma wait_loop_refines_from:
  assumes body: "refines_from pre ok rep body sbody"
    and parks: "\<And>s w s' w'. pre s \<Longrightarrow> body (s, w) = (Parked, s', w') \<Longrightarrow> pre s' \<and> waits (rep s')"
    and resume: "\<And>s w. pre s \<Longrightarrow> waits (rep s) \<Longrightarrow>
      case resume (s, w) of (r, s', w') \<Rightarrow> sresume (rep s, w) = (r, rep s', w') \<and> pre s'"
    and pre_ok: "\<And>s. pre s \<Longrightarrow> ok s"
    and env: "list_all2 (env_refines pre rep waits) es as"
  shows "refines_from pre ok rep (wait_loop body resume es) (wait_loop sbody sresume as)"
  using env
proof (induction es as rule: list_all2_induct)
  case Nil
  then show ?case using body by (simp add: refines_from_def)
next
  case (Cons e es a as)
  show ?case unfolding refines_from_def
  proof (intro allI impI)
    fix s w assume pre: "pre s"
    obtain r1 s1 w1 where b: "body (s, w) = (r1, s1, w1)" by (metis prod_cases3)
    then have sb: "sbody (rep s, w) = (r1, rep s1, w1)" and ok1: "ok s1"
      using refines_fromD [OF body pre] by auto
    show "case wait_loop body resume (e # es) (s, w) of (r, s', w') \<Rightarrow>
        wait_loop sbody sresume (a # as) (rep s, w) = (r, rep s', w') \<and> ok s'"
    proof (cases r1)
      case (Done r)
      then show ?thesis using b sb ok1 by simp
    next
      case Parked
      obtain s2 w2 where e: "e (s1, w1) = (s2, w2)" by fastforce
      have "pre s1" "waits (rep s1)" using parks [OF pre] b Parked by auto
      then have a: "a (rep s1, w1) = (rep s2, w2)" and pre2: "pre s2" and wt: "waits (rep s2)"
        using Cons.hyps(1) e unfolding env_refines_def by (auto dest!: HOL.spec [of _ s1] HOL.spec [of _ w1])
      obtain r3 s3 w3 where rs: "resume (s2, w2) = (r3, s3, w3)" by (metis prod_cases3)
      then have sr: "sresume (rep s2, w2) = (r3, rep s3, w3)" and pre3: "pre s3"
        using resume [OF pre2 wt, of w2] by auto
      show ?thesis
        using b sb Parked e a rs sr pre_ok [OF pre3] Cons.IH [unfolded refines_from_def, rule_format, OF pre3, of w3]
        by (cases r3) auto
    qed
  qed
qed

lemma wait_loop_refines:
  assumes "refines ok rep body sbody"
    and "\<And>s w s' w'. ok s \<Longrightarrow> body (s, w) = (Parked, s', w') \<Longrightarrow> waits (rep s')"
    and "\<And>s w. ok s \<Longrightarrow> waits (rep s) \<Longrightarrow>
      case resume (s, w) of (r, s', w') \<Rightarrow> sresume (rep s, w) = (r, rep s', w') \<and> ok s'"
    and "list_all2 (env_refines ok rep waits) es as"
  shows "refines ok rep (wait_loop body resume es) (wait_loop sbody sresume as)"
  unfolding refines_from_same [symmetric]
  by (rule wait_loop_refines_from [where waits = waits])
    (use assms refinesD [OF assms(1)] in \<open>auto simp: refines_from_same\<close>)

text \<open>The blocking operations of the abstract queue.\<close>

definition spec_Push :: "'a placing \<Rightarrow> nat \<Rightarrow> 'w ctx \<Rightarrow> 'a list \<Rightarrow> 'w call option \<Rightarrow>
    (('a, 'w) aq \<times> 'w \<Rightarrow> ('a, 'w) aq \<times> 'w) list \<Rightarrow> ('a, 'w) aq \<times> 'w \<Rightarrow>
    goerr option attempt \<times> ('a, 'w) aq \<times> 'w" where
  "spec_Push place g c vs se = wait_loop (spec_push place g c vs se) (spec_resume_notFull g c id)"

definition spec_Pop :: "nat \<Rightarrow> 'w ctx \<Rightarrow> nat \<Rightarrow> 'w call option \<Rightarrow>
    (('a, 'w) aq \<times> 'w \<Rightarrow> ('a, 'w) aq \<times> 'w) list \<Rightarrow> ('a, 'w) aq \<times> 'w \<Rightarrow>
    ('a list \<times> goerr option) attempt \<times> ('a, 'w) aq \<times> 'w" where
  "spec_Pop g c n se = wait_loop (spec_pop g c n se) (spec_resume_notEmpty g c (\<lambda>e. ([], e)))"

definition spec_NotEmpty :: "nat \<Rightarrow> 'w ctx \<Rightarrow> 'w call option \<Rightarrow>
    (('a, 'w) aq \<times> 'w \<Rightarrow> ('a, 'w) aq \<times> 'w) list \<Rightarrow> ('a, 'w) aq \<times> 'w \<Rightarrow>
    goerr option attempt \<times> ('a, 'w) aq \<times> 'w" where
  "spec_NotEmpty g c se = wait_loop (spec_notempty g se) (spec_resume_notEmpty g c id)"

definition spec_NotFull :: "nat \<Rightarrow> 'w ctx \<Rightarrow> 'w call option \<Rightarrow>
    (('a, 'w) aq \<times> 'w \<Rightarrow> ('a, 'w) aq \<times> 'w) list \<Rightarrow> ('a, 'w) aq \<times> 'w \<Rightarrow>
    goerr option attempt \<times> ('a, 'w) aq \<times> 'w" where
  "spec_NotFull g c se = wait_loop (spec_notfull g se) (spec_resume_notFull g c id)"

abbreviation waits_full :: "nat \<Rightarrow> ('a, 'w) aq \<Rightarrow> bool" where
  "waits_full g a \<equiv> counted g (aq_notFull a)"

abbreviation waits_empty :: "nat \<Rightarrow> ('a, 'w) aq \<Rightarrow> bool" where
  "waits_empty g a \<equiv> counted g (aq_notEmpty a)"

lemma spec_push_parks:
  "spec_push place g c vs se (a, w) = (Parked, a', w') \<Longrightarrow> sig_ok (aq_notFull a) \<Longrightarrow> waits_full g a'"
  by (auto simp: spec_push_def spec_commit_def split: gate.splits run_splits)

lemma spec_pop_parks:
  "spec_pop g c n se (a, w) = (Parked, a', w') \<Longrightarrow> sig_ok (aq_notEmpty a) \<Longrightarrow> waits_empty g a'"
  by (auto simp: spec_pop_def Let_def split: if_splits run_splits)

lemma spec_notempty_parks:
  "spec_notempty g se (a, w) = (Parked, a', w') \<Longrightarrow> sig_ok (aq_notEmpty a) \<Longrightarrow> waits_empty g a'"
  by (auto simp: spec_notempty_def split: if_splits run_splits)

lemma spec_notfull_parks:
  "spec_notfull g se (a, w) = (Parked, a', w') \<Longrightarrow> sig_ok (aq_notFull a) \<Longrightarrow> waits_full g a'"
  by (auto simp: spec_notfull_def split: if_splits run_splits)

lemma spec_Push_refines:
  assumes round: "refines_from pre ok rep body (spec_push place g c vs se)"
    and sig: "\<And>s. pre s \<Longrightarrow> ok s \<and> sig_ok (aq_notFull (rep s))"
    and parks: "\<And>s w s' w'. pre s \<Longrightarrow> body (s, w) = (Parked, s', w') \<Longrightarrow> pre s'"
    and resume: "\<And>s w. pre s \<Longrightarrow> waits_full g (rep s) \<Longrightarrow> case resume (s, w) of (r, s', w') \<Rightarrow>
      spec_resume_notFull g c id (rep s, w) = (r, rep s', w') \<and> pre s'"
    and env: "list_all2 (env_refines pre rep (waits_full g)) env aenv"
  shows "refines_from pre ok rep (wait_loop body resume env) (spec_Push place g c vs se aenv)"
  unfolding spec_Push_def
proof (rule wait_loop_refines_from [where waits = "waits_full g", OF round _ _ _ env])
  fix s w s' w'
  assume pre: "pre s" and body: "body (s, w) = (Parked, s', w')"
  have "spec_push place g c vs se (rep s, w) = (Parked, rep s', w')"
    using refines_fromD [OF round pre body] by simp
  from spec_push_parks [OF this] show "pre s' \<and> waits_full g (rep s')"
    using parks [OF pre body] sig [OF pre] by simp
qed (rule resume, assumption+, simp add: sig)

lemma spec_Pop_refines:
  assumes round: "refines ok rep body (spec_pop g c n se)"
    and sig: "\<And>s. ok s \<Longrightarrow> sig_ok (aq_notEmpty (rep s))"
    and resume: "\<And>s w. ok s \<Longrightarrow> waits_empty g (rep s) \<Longrightarrow> case resume (s, w) of (r, s', w') \<Rightarrow>
      spec_resume_notEmpty g c (\<lambda>e. ([], e)) (rep s, w) = (r, rep s', w') \<and> ok s'"
    and env: "list_all2 (env_refines ok rep (waits_empty g)) env aenv"
  shows "refines ok rep (wait_loop body resume env) (spec_Pop g c n se aenv)"
  unfolding spec_Pop_def
  by (rule wait_loop_refines [OF round _ _ env])
    (use refinesD [OF round] sig in \<open>fastforce dest: spec_pop_parks\<close>, rule resume)

lemma spec_NotEmpty_refines:
  assumes round: "refines ok rep body (spec_notempty g se)"
    and sig: "\<And>s. ok s \<Longrightarrow> sig_ok (aq_notEmpty (rep s))"
    and resume: "\<And>s w. ok s \<Longrightarrow> waits_empty g (rep s) \<Longrightarrow> case resume (s, w) of (r, s', w') \<Rightarrow>
      spec_resume_notEmpty g c id (rep s, w) = (r, rep s', w') \<and> ok s'"
    and env: "list_all2 (env_refines ok rep (waits_empty g)) env aenv"
  shows "refines ok rep (wait_loop body resume env) (spec_NotEmpty g c se aenv)"
  unfolding spec_NotEmpty_def
  by (rule wait_loop_refines [OF round _ _ env])
    (use refinesD [OF round] sig in \<open>fastforce dest: spec_notempty_parks\<close>, rule resume)

lemma spec_NotFull_refines:
  assumes round: "refines ok rep body (spec_notfull g se)"
    and sig: "\<And>s. ok s \<Longrightarrow> sig_ok (aq_notFull (rep s))"
    and resume: "\<And>s w. ok s \<Longrightarrow> waits_full g (rep s) \<Longrightarrow> case resume (s, w) of (r, s', w') \<Rightarrow>
      spec_resume_notFull g c id (rep s, w) = (r, rep s', w') \<and> ok s'"
    and env: "list_all2 (env_refines ok rep (waits_full g)) env aenv"
  shows "refines ok rep (wait_loop body resume env) (spec_NotFull g c se aenv)"
  unfolding spec_NotFull_def
  by (rule wait_loop_refines [OF round _ _ env])
    (use refinesD [OF round] sig in \<open>fastforce dest: spec_notfull_parks\<close>, rule resume)

section \<open>The interface\<close>

record ('s, 'a, 'w) backing =
  bo_SetQueueLock :: "qlock \<Rightarrow> 's \<Rightarrow> 's"
  bo_QueueLock :: "'s \<Rightarrow> qlock"
  bo_SetMaxBatch :: "int \<Rightarrow> 's \<Rightarrow> goerr option \<times> 's"
  bo_SetMaxSize :: "int \<Rightarrow> 's \<Rightarrow> goerr option \<times> 's"
  bo_Hydrate :: "'w ctx \<Rightarrow> ('a, 'w) backup \<Rightarrow> 's \<times> 'w \<Rightarrow> goerr option outcome \<times> 's \<times> 'w"
  bo_Push :: "nat \<Rightarrow> 'w ctx \<Rightarrow> 'a list \<Rightarrow> ('s, 'w) opoption list \<Rightarrow> ('s \<times> 'w \<Rightarrow> 's \<times> 'w) list \<Rightarrow>
    's \<times> 'w \<Rightarrow> goerr option attempt \<times> 's \<times> 'w"
  bo_Pop :: "nat \<Rightarrow> 'w ctx \<Rightarrow> nat \<Rightarrow> ('s, 'w) opoption list \<Rightarrow> ('s \<times> 'w \<Rightarrow> 's \<times> 'w) list \<Rightarrow>
    's \<times> 'w \<Rightarrow> ('a list \<times> goerr option) attempt \<times> 's \<times> 'w"
  bo_Peek :: "('s, 'w) opoption list \<Rightarrow> 's \<times> 'w \<Rightarrow> ('a \<times> bool \<times> goerr option) outcome \<times> 's \<times> 'w"
  bo_Exists :: "'a \<Rightarrow> ('s, 'w) opoption list \<Rightarrow> 's \<times> 'w \<Rightarrow> (bool \<times> goerr option) outcome \<times> 's \<times> 'w"
  bo_Del :: "'w ctx \<Rightarrow> 'a list \<Rightarrow> ('s, 'w) opoption list \<Rightarrow> 's \<times> 'w \<Rightarrow>
    (int \<times> goerr option) outcome \<times> 's \<times> 'w"
  bo_NotEmpty :: "nat \<Rightarrow> 'w ctx \<Rightarrow> ('s, 'w) opoption list \<Rightarrow> ('s \<times> 'w \<Rightarrow> 's \<times> 'w) list \<Rightarrow>
    's \<times> 'w \<Rightarrow> goerr option attempt \<times> 's \<times> 'w"
  bo_NotFull :: "nat \<Rightarrow> 'w ctx \<Rightarrow> ('s, 'w) opoption list \<Rightarrow> ('s \<times> 'w \<Rightarrow> 's \<times> 'w) list \<Rightarrow>
    's \<times> 'w \<Rightarrow> goerr option attempt \<times> 's \<times> 'w"
  bo_Len :: "'s \<Rightarrow> int \<times> 's"
  bo_Close :: "'w ctx \<Rightarrow> ('s, 'w) opoption list \<Rightarrow> 's \<times> 'w \<Rightarrow> goerr option outcome \<times> 's \<times> 'w"
  bo_Clear :: "'w ctx \<Rightarrow> ('s, 'w) opoption list \<Rightarrow> 's \<times> 'w \<Rightarrow> goerr option outcome \<times> 's \<times> 'w"
  bo_All :: "'w ctx \<Rightarrow> ('a, 'w) yield \<Rightarrow> 's \<times> 'w \<Rightarrow> goerr option outcome \<times> 's \<times> 'w"
  bo_AllCOW :: "'w ctx \<Rightarrow> ('a, 'w) yield \<Rightarrow> ('w \<Rightarrow> bool) \<Rightarrow> 's \<times> 'w \<Rightarrow> goerr option outcome \<times> 's \<times> 'w"

section \<open>The contract\<close>

text \<open>
  \<open>ok\<close> is the representation invariant, which includes that the lock is free and was never
  misused; \<open>rep\<close> reads the abstract queue off a state; \<open>place\<close> is the order of the backing and
  \<open>prio\<close> says whether it takes items with a priority. \<open>fresh n\<close> says that the backing can number
  \<open>n\<close> more items: the backings that order by a 64-bit sequence counter need that it does not wrap. A
  failed restore may leave the representation unusable; all that is promised then is that the backing can be
  closed, which is what \<open>New\<close> does.
\<close>

locale queue_backing =
  fixes ops :: "('s, 'a, 'w) backing"
    and ok :: "'s \<Rightarrow> bool"
    and rep :: "'s \<Rightarrow> ('a, 'w) aq"
    and place :: "'a placing"
    and it :: "'a item"
    and prio :: bool
    and fresh :: "nat \<Rightarrow> 's \<Rightarrow> bool"
  assumes ok_bounded: "ok s \<Longrightarrow> aq_bounded (rep s)"
    and ok_signals: "ok s \<Longrightarrow> sig_ok (aq_notFull (rep s)) \<and> sig_ok (aq_notEmpty (rep s))"
    and ok_placing: "placing place"
    and ok_lock: "ok s \<Longrightarrow> lk_ok (bo_QueueLock ops s)"
    and lock_get_set: "bo_QueueLock ops (bo_SetQueueLock ops l s) = l"
    and lock_set_get: "bo_SetQueueLock ops (bo_QueueLock ops s) s = s"
    and lock_set_set: "bo_SetQueueLock ops l (bo_SetQueueLock ops l' s) = bo_SetQueueLock ops l s"
    and lock_set_ok: "ok s \<Longrightarrow> lk_ok l \<Longrightarrow> ok (bo_SetQueueLock ops l s) \<and> rep (bo_SetQueueLock ops l s) = rep s"
    and max_batch_law: "ok s \<Longrightarrow> bo_SetMaxBatch ops k s = (err, s') \<Longrightarrow>
      ok s' \<and> rep s' = rep s \<and> err = (if k < 1 then bad_option else None)"
    and max_size_law: "ok s \<Longrightarrow> aq_items (rep s) = [] \<Longrightarrow> aq_inflight (rep s) = 0 \<Longrightarrow>
      bo_SetMaxSize ops k s = (err, s') \<Longrightarrow>
      ok s' \<and> (if k < 0 then err = bad_option \<and> rep s' = rep s else err = None \<and> rep s' = (rep s)\<lparr>aq_max := k\<rparr>)"
    and push_law: "ResolveOpOptions CallPush options = Ret (opts, None) \<Longrightarrow> oo_OnAdmit opts = None \<Longrightarrow>
      ValidateKind it prio vs = None \<Longrightarrow>
      list_all2 (env_refines (\<lambda>s. ok s \<and> fresh (length vs) s) rep (waits_full g)) env aenv \<Longrightarrow>
      refines_from (\<lambda>s. ok s \<and> fresh (length vs) s) ok rep (bo_Push ops g c vs options env) (spec_Push place g c vs (oo_SideEffect opts) aenv)"
    and push_rejects: "ResolveOpOptions CallPush options = Ret (opts, None) \<Longrightarrow>
      ValidateKind it prio vs = Some e \<Longrightarrow> bo_Push ops g c vs options env (s, w) = (returns (Some e), s, w)"
    and push_hook_law: "ResolveOpOptions CallPush options = Ret (opts, None) \<Longrightarrow>
      oo_OnAdmit opts = Some hook \<Longrightarrow> ValidateKind it prio vs = None \<Longrightarrow> ok s \<Longrightarrow>
      spec_gate (length vs) (rep s) = GateAdmit \<Longrightarrow>
      \<exists>s0. ok s0 \<and> rep s0 = (rep s)\<lparr>aq_inflight := aq_inflight (rep s) + int (length vs)\<rparr> \<and>
        (\<forall>r s1 w1. hook (s0, w) = (r, s1, w1) \<and> ok s1 \<and> fresh (length vs) s1 \<and> int (length vs) \<le> aq_inflight (rep s1) \<longrightarrow>
          (case bo_Push ops g c vs options env (s, w) of (r', s', w') \<Rightarrow>
             spec_admitted place c vs (oo_SideEffect opts) r (rep s1, w1) = (r', rep s', w') \<and> ok s'))"
    and pop_law: "ResolveOpOptions CallPop options = Ret (opts, None) \<Longrightarrow> 0 < n \<Longrightarrow>
      list_all2 (env_refines ok rep (waits_empty g)) env aenv \<Longrightarrow>
      refines ok rep (bo_Pop ops g c n options env) (spec_Pop g c n (oo_SideEffect opts) aenv)"
    and peek_law: "ResolveOpOptions CallPeek options = Ret (opts, None) \<Longrightarrow>
      refines ok rep (bo_Peek ops options) (spec_peek (it_zero it) (oo_SideEffect opts))"
    and exists_law: "ResolveOpOptions CallExists options = Ret (opts, None) \<Longrightarrow>
      refines ok rep (bo_Exists ops v options) (spec_exists it v (oo_SideEffect opts))"
    and del_law: "ResolveOpOptions CallDel options = Ret (opts, None) \<Longrightarrow> ok s \<Longrightarrow>
      \<exists>removed. mset removed = mset (filter (\<lambda>x. MatchesAny it x vs) (aq_contents (rep s))) \<and>
        (case bo_Del ops c vs options (s, w) of (r, s', w') \<Rightarrow>
           spec_del it c vs removed (oo_SideEffect opts) (rep s, w) = (r, rep s', w') \<and> ok s')"
    and notempty_law: "ResolveOpOptions CallNotEmpty options = Ret (opts, None) \<Longrightarrow>
      list_all2 (env_refines ok rep (waits_empty g)) env aenv \<Longrightarrow>
      refines ok rep (bo_NotEmpty ops g c options env) (spec_NotEmpty g c (oo_SideEffect opts) aenv)"
    and notfull_law: "ResolveOpOptions CallNotFull options = Ret (opts, None) \<Longrightarrow>
      list_all2 (env_refines ok rep (waits_full g)) env aenv \<Longrightarrow>
      refines ok rep (bo_NotFull ops g c options env) (spec_NotFull g c (oo_SideEffect opts) aenv)"
    and len_law: "ok s \<Longrightarrow> bo_Len ops s = (int (length (aq_items (rep s))), s)"
    and close_law: "ResolveOpOptions CallClose options = Ret (opts, None) \<Longrightarrow>
      refines ok rep (bo_Close ops c options) (spec_close c (oo_SideEffect opts))"
    and clear_law: "ResolveOpOptions CallClear options = Ret (opts, None) \<Longrightarrow>
      refines ok rep (bo_Clear ops c options) (spec_clear c (oo_SideEffect opts))"
    and all_law: "refines ok rep (bo_All ops c yield) (spec_range (it_zero it) c yield)"
    and allcow_law: "refines ok rep (bo_AllCOW ops c yield wanted) (spec_range (it_zero it) c yield)"
    and hydrate_law: "ok s \<Longrightarrow> fresh (length (bk_RangeAll b c w)) s \<Longrightarrow> (\<forall>x \<in> set (aq_items (rep s)). snd x) \<Longrightarrow>
      bo_Hydrate ops c b (s, w) = (r, s', w') \<Longrightarrow>
      spec_hydrate place it prio c b (rep s, w) = (r, rep s', w') \<and> (r = Ret None \<longrightarrow> ok s')"
    and hydrate_failed: "ok s \<Longrightarrow> fresh (length (bk_RangeAll b c w)) s \<Longrightarrow> (\<forall>x \<in> set (aq_items (rep s)). snd x) \<Longrightarrow>
      bo_Hydrate ops c b (s, w) = (r, s', w') \<Longrightarrow> r \<noteq> Ret None \<Longrightarrow> aq_backup (rep s) = None \<Longrightarrow> \<not> aq_closed (rep s) \<Longrightarrow>
      \<exists>s2. bo_Close ops c [] (s', w') = (Ret None, s2, w') \<and> rep s2 = aq_close (rep s') \<and> lk_ok (bo_QueueLock ops s2)"

end
