(* ===== verification/Queue_API.thy ===== *)
theory Queue_API
  imports Backing_Interface
begin

text \<open>
  \<open>queue.go\<close> and \<open>metrics.go\<close>: the queue that callers see. A queue holds a backing (here its
  state; its methods are an argument), the limit on batches and, when it has a name, the telemetry
  instruments. Every operation is bracketed by \<open>instrument\<close> and the deferred \<open>opTimer.end\<close>;
  the metric instruments are modelled by what has been added to them. The lock of an empty
  \<open>Push\<close> is the one shared with the backing.

  The lemmas are proved once, for every backing that keeps the contract \<open>queue_backing\<close>.
\<close>

section \<open>Telemetry\<close>

datatype qop =
  OpPush | OpPop | OpPeek | OpExists | OpDel | OpClear | OpClose | OpNotEmpty | OpNotFull
  | OpRangeAll | OpRangeAllCOW

text \<open>\<open>qm_spans\<close> counts the spans started and not yet ended.\<close>

record qmetrics =
  qm_ops :: "qop \<Rightarrow> nat"
  qm_errs :: "qop \<Rightarrow> errkind \<Rightarrow> nat"
  qm_latency :: "qop \<Rightarrow> nat"
  qm_depth :: int
  qm_lastDepth :: int
  qm_spans :: int

definition newQueueMetrics :: qmetrics where
  "newQueueMetrics = \<lparr>qm_ops = (\<lambda>_. 0), qm_errs = (\<lambda>_ _. 0), qm_latency = (\<lambda>_. 0), qm_depth = 0,
     qm_lastDepth = 0, qm_spans = 0\<rparr>"

definition instrument :: "qop \<Rightarrow> qmetrics option \<Rightarrow> qmetrics option" where
  "instrument op met =
     (case met of None \<Rightarrow> None
      | Some m \<Rightarrow> Some (m\<lparr>qm_spans := qm_spans m + 1, qm_ops := (qm_ops m)(op := qm_ops m op + 1)\<rparr>))"

definition errs_Add :: "qop \<Rightarrow> errkind \<Rightarrow> qmetrics \<Rightarrow> qmetrics" where
  "errs_Add op kind m =
     m\<lparr>qm_errs := (qm_errs m)(op := (qm_errs m op)(kind := qm_errs m op kind + 1))\<rparr>"

text \<open>\<open>end\<close>: \<open>result\<close> is \<open>Unwinds\<close> when the completion flag was never set, and otherwise the
  error the operation returned.\<close>

definition opTimer_end :: "qop \<Rightarrow> goerr option outcome \<Rightarrow> qmetrics option \<Rightarrow> qmetrics option" where
  "opTimer_end op result met =
     (case met of None \<Rightarrow> None
      | Some m \<Rightarrow>
          (let m1 = m\<lparr>qm_latency := (qm_latency m)(op := qm_latency m op + 1)\<rparr>;
               m2 = (case result of
                       Unwinds \<Rightarrow> errs_Add op errKindUnwind m1
                     | Ret (Some e) \<Rightarrow> errs_Add op (errorKind e) m1
                     | Ret None \<Rightarrow> m1)
           in Some (m2\<lparr>qm_spans := qm_spans m2 - 1\<rparr>)))"

section \<open>The queue\<close>

record ('s, 'a, 'w) queue =
  q_backing :: 's
  q_backup :: "('a, 'w) backup option"
  q_maxBatch :: int
  q_met :: "qmetrics option"

definition recordDepth :: "('s, 'a, 'w) backing \<Rightarrow> ('s, 'a, 'w) queue \<Rightarrow> ('s, 'a, 'w) queue" where
  "recordDepth ops q =
     (case q_met q of None \<Rightarrow> q
      | Some m \<Rightarrow>
          (case bo_Len ops (q_backing q) of (cur, s) \<Rightarrow>
             (let old = qm_lastDepth m;
                  m1 = m\<lparr>qm_lastDepth := cur\<rparr>
              in q\<lparr>q_backing := s, q_met := Some (m1\<lparr>qm_depth := qm_depth m1 + (cur - old)\<rparr>)\<rparr>)))"

text \<open>The bracket around an operation that can block and around one that cannot. \<open>err\<close> reads the
  named error result. A goroutine that is parked has not reached its deferred call.\<close>

definition bracket_wait :: "qop \<Rightarrow> ('r \<Rightarrow> goerr option) \<Rightarrow>
    (('s, 'a, 'w) queue \<times> 'w \<Rightarrow> 'r attempt \<times> ('s, 'a, 'w) queue \<times> 'w) \<Rightarrow>
    ('s, 'a, 'w) queue \<times> 'w \<Rightarrow> 'r attempt \<times> ('s, 'a, 'w) queue \<times> 'w" where
  "bracket_wait op err body qw =
     (case qw of (q, w) \<Rightarrow>
       (case body (q\<lparr>q_met := instrument op (q_met q)\<rparr>, w) of
          (Done r, q1, w1) \<Rightarrow> (Done r, q1\<lparr>q_met := opTimer_end op (map_outcome err r) (q_met q1)\<rparr>, w1)
        | (Parked, q1, w1) \<Rightarrow> (Parked, q1, w1)))"

definition bracket :: "qop \<Rightarrow> ('r \<Rightarrow> goerr option) \<Rightarrow>
    (('s, 'a, 'w) queue \<times> 'w \<Rightarrow> 'r outcome \<times> ('s, 'a, 'w) queue \<times> 'w) \<Rightarrow>
    ('s, 'a, 'w) queue \<times> 'w \<Rightarrow> 'r outcome \<times> ('s, 'a, 'w) queue \<times> 'w" where
  "bracket op err body qw =
     (case qw of (q, w) \<Rightarrow>
       (case body (q\<lparr>q_met := instrument op (q_met q)\<rparr>, w) of
          (r, q1, w1) \<Rightarrow> (r, q1\<lparr>q_met := opTimer_end op (map_outcome err r) (q_met q1)\<rparr>, w1)))"

text \<open>A method call on the backing.\<close>

definition on_backing :: "('s \<times> 'w \<Rightarrow> 'r \<times> 's \<times> 'w) \<Rightarrow> ('s, 'a, 'w) queue \<times> 'w \<Rightarrow>
    'r \<times> ('s, 'a, 'w) queue \<times> 'w" where
  "on_backing f qw =
     (case qw of (q, w) \<Rightarrow> (case f (q_backing q, w) of (r, s, w1) \<Rightarrow> (r, q\<lparr>q_backing := s\<rparr>, w1)))"

section \<open>Construction\<close>

text \<open>\<open>WithBackup\<close> takes a value of any type: it is absent, a Backup of the item type, or
  something else.\<close>

datatype ('a, 'w) backup_arg = NoBackup | NotABackup | ABackup "('a, 'w) backup"

record ('a, 'w) queueOptions =
  qo_maxBatch :: int
  qo_backup :: "('a, 'w) backup_arg"

definition queueOptions_defaults :: "('a, 'w) queueOptions" where
  "queueOptions_defaults = \<lparr>qo_maxBatch = 1000, qo_backup = NoBackup\<rparr>"

definition validateOptions :: "('a, 'w) queueOptions \<Rightarrow> ('a, 'w) backup option \<times> goerr option" where
  "validateOptions o1 =
     (if qo_maxBatch o1 < 1 then (None, bad_option)
      else (case qo_backup o1 of
              NoBackup \<Rightarrow> (None, None)
            | NotABackup \<Rightarrow> (None, bad_option)
            | ABackup b \<Rightarrow> (Some b, None)))"

definition WithMaxBatch :: "int \<Rightarrow> ('a, 'w) queueOptions \<Rightarrow> ('a, 'w) queueOptions" where
  "WithMaxBatch n o1 = o1\<lparr>qo_maxBatch := n\<rparr>"

definition WithBackup :: "('a, 'w) backup_arg \<Rightarrow> ('a, 'w) queueOptions \<Rightarrow> ('a, 'w) queueOptions" where
  "WithBackup b o1 = o1\<lparr>qo_backup := b\<rparr>"

text \<open>The part of \<open>New\<close> that restores from the Backup: on an error both are closed and the errors
  joined; on an unwind both are closed and the unwind goes on.\<close>

definition New_hydrate :: "('s, 'a, 'w) backing \<Rightarrow> 'w ctx \<Rightarrow> ('a, 'w) backup \<Rightarrow> 's \<times> 'w \<Rightarrow>
    goerr option outcome \<times> 's \<times> 'w" where
  "New_hydrate ops c backup sw =
     (case bo_Hydrate ops c backup sw of
        (Ret None, s1, w1) \<Rightarrow> (Ret None, s1, w1)
      | (Ret (Some e), s1, w1) \<Rightarrow>
          (case bo_Close ops c [] (s1, w1) of
             (Unwinds, s2, w2) \<Rightarrow> (Unwinds, s2, w2)
           | (Ret e2, s2, w2) \<Rightarrow>
               (case bk_Close backup c w2 of
                  (Unwound, w3) \<Rightarrow> (Unwinds, s2, w3)
                | (Returned e3, w3) \<Rightarrow> (Ret (errors_Join [Some e, e2, WrapBackup e3]), s2, w3)))
      | (Unwinds, s1, w1) \<Rightarrow>
          (case bo_Close ops c [] (s1, w1) of
             (Unwinds, s2, w2) \<Rightarrow> (Unwinds, s2, w2)
           | (Ret _, s2, w2) \<Rightarrow> (case bk_Close backup c w2 of (_, w3) \<Rightarrow> (Unwinds, s2, w3))))"

definition queue_New :: "('s, 'a, 'w) backing \<Rightarrow> 'w ctx \<Rightarrow> bool \<Rightarrow> 's option \<Rightarrow> int \<Rightarrow>
    (('a, 'w) queueOptions \<Rightarrow> ('a, 'w) queueOptions) list \<Rightarrow> 'w \<Rightarrow>
    (goerr + ('s, 'a, 'w) queue) outcome \<times> 's option \<times> 'w" where
  "queue_New ops c named b maxSize options w =
     (case b of
        None \<Rightarrow> (Ret (Inl (Errorf [Sentinel ErrBadOption])), None, w)
      | Some s0 \<Rightarrow>
          (let opts = foldl (\<lambda>o1 option. option o1) queueOptions_defaults options in
           case validateOptions opts of
             (_, Some e) \<Rightarrow> (Ret (Inl e), Some s0, w)
           | (backup, None) \<Rightarrow>
               (let maxSize = (if maxSize < 1 then 0 else maxSize);
                    s1 = bo_SetQueueLock ops new_qlock s0
                in case bo_SetMaxBatch ops (qo_maxBatch opts) s1 of
                     (Some e, s2) \<Rightarrow> (Ret (Inl e), Some s2, w)
                   | (None, s2) \<Rightarrow>
                       (case bo_SetMaxSize ops maxSize s2 of
                          (Some e, s3) \<Rightarrow> (Ret (Inl e), Some s3, w)
                        | (None, s3) \<Rightarrow>
                            (let met = (if named then Some newQueueMetrics else None) in
                             case (case backup of None \<Rightarrow> (Ret None, s3, w)
                                   | Some bk \<Rightarrow> New_hydrate ops c bk (s3, w)) of
                               (Unwinds, s4, w1) \<Rightarrow> (Unwinds, Some s4, w1)
                             | (Ret (Some e), s4, w1) \<Rightarrow> (Ret (Inl e), Some s4, w1)
                             | (Ret None, s4, w1) \<Rightarrow>
                                 (let q = recordDepth ops \<lparr>q_backing = s4, q_backup = backup,
                                            q_maxBatch = qo_maxBatch opts, q_met = met\<rparr>
                                  in (Ret (Inr q), Some (q_backing q), w1)))))))"

section \<open>Operations\<close>

definition queue_push :: "('s, 'a, 'w) backing \<Rightarrow> nat \<Rightarrow> 'w ctx \<Rightarrow> 'a list \<Rightarrow> ('s, 'w) opoption list \<Rightarrow>
    ('s \<times> 'w \<Rightarrow> 's \<times> 'w) list \<Rightarrow> ('s, 'a, 'w) queue \<times> 'w \<Rightarrow>
    (bool \<times> goerr option) attempt \<times> ('s, 'a, 'w) queue \<times> 'w" where
  "queue_push ops g c vs options env qw =
     (if vs = [] then
        (case ResolveOpOptions CallPush options of
           Unwinds \<Rightarrow> (Done Unwinds, qw)
         | Ret (opts, Some e) \<Rightarrow> (returns (False, Some e), qw)
         | Ret (opts, None) \<Rightarrow>
             (case oo_SideEffect opts of
                None \<Rightarrow> (returns (True, None), qw)
              | Some se \<Rightarrow>
                  (let lock = (\<lambda>f s. bo_SetQueueLock ops (f (bo_QueueLock ops s)) s) in
                   case on_backing (\<lambda>(s, w). RunSideEffectLocked (Some se) (lock qlock_Unlock) (lock qlock_Lock s, w)) qw of
                     (Unwinds, q1, w1) \<Rightarrow> (Done Unwinds, q1, w1)
                   | (Ret e, q1, w1) \<Rightarrow>
                       (let q2 = q1\<lparr>q_backing := lock qlock_Unlock (q_backing q1)\<rparr> in
                        case e of
                          Some e \<Rightarrow> (returns (False, Some e), q2, w1)
                        | None \<Rightarrow> (returns (True, None), q2, w1)))))
      else if int (length vs) > q_maxBatch (fst qw)
      then (returns (False, Some (Sentinel ErrBatchTooLarge)), qw)
      else
        (case on_backing (bo_Push ops g c vs options env) qw of
           (Done (Ret None), q1, w1) \<Rightarrow> (returns (True, None), recordDepth ops q1, w1)
         | (Done (Ret (Some e)), q1, w1) \<Rightarrow> (returns (False, Some e), q1, w1)
         | (Done Unwinds, q1, w1) \<Rightarrow> (Done Unwinds, q1, w1)
         | (Parked, q1, w1) \<Rightarrow> (Parked, q1, w1)))"

definition queue_Push :: "('s, 'a, 'w) backing \<Rightarrow> nat \<Rightarrow> 'w ctx \<Rightarrow> 'a list \<Rightarrow> ('s, 'w) opoption list \<Rightarrow>
    ('s \<times> 'w \<Rightarrow> 's \<times> 'w) list \<Rightarrow> ('s, 'a, 'w) queue \<times> 'w \<Rightarrow>
    (bool \<times> goerr option) attempt \<times> ('s, 'a, 'w) queue \<times> 'w" where
  "queue_Push ops g c vs options env = bracket_wait OpPush snd (queue_push ops g c vs options env)"

text \<open>The panic on \<open>n < 1\<close> comes before the bracket.\<close>

definition queue_Pop :: "('s, 'a, 'w) backing \<Rightarrow> nat \<Rightarrow> 'w ctx \<Rightarrow> int \<Rightarrow> ('s, 'w) opoption list \<Rightarrow>
    ('s \<times> 'w \<Rightarrow> 's \<times> 'w) list \<Rightarrow> ('s, 'a, 'w) queue \<times> 'w \<Rightarrow>
    ('a list \<times> goerr option) attempt \<times> ('s, 'a, 'w) queue \<times> 'w" where
  "queue_Pop ops g c n options env qw =
     (if n < 1 then (Done Unwinds, qw)
      else bracket_wait OpPop snd (\<lambda>qw.
        case on_backing (bo_Pop ops g c (nat n) options env) qw of
          (Done (Ret (items, None)), q1, w1) \<Rightarrow> (returns (items, None), recordDepth ops q1, w1)
        | (Done (Ret (items, Some e)), q1, w1) \<Rightarrow> (returns ([], Some e), q1, w1)
        | (Done Unwinds, q1, w1) \<Rightarrow> (Done Unwinds, q1, w1)
        | (Parked, q1, w1) \<Rightarrow> (Parked, q1, w1)) qw)"

definition queue_Peek :: "('s, 'a, 'w) backing \<Rightarrow> ('s, 'w) opoption list \<Rightarrow> ('s, 'a, 'w) queue \<times> 'w \<Rightarrow>
    ('a \<times> bool \<times> goerr option) outcome \<times> ('s, 'a, 'w) queue \<times> 'w" where
  "queue_Peek ops options = bracket OpPeek (\<lambda>(v, ok, e). e) (on_backing (bo_Peek ops options))"

definition queue_Exists :: "('s, 'a, 'w) backing \<Rightarrow> 'a \<Rightarrow> ('s, 'w) opoption list \<Rightarrow> ('s, 'a, 'w) queue \<times> 'w \<Rightarrow>
    (bool \<times> goerr option) outcome \<times> ('s, 'a, 'w) queue \<times> 'w" where
  "queue_Exists ops v options = bracket OpExists snd (on_backing (bo_Exists ops v options))"

definition queue_Del :: "('s, 'a, 'w) backing \<Rightarrow> 'w ctx \<Rightarrow> 'a list \<Rightarrow> ('s, 'w) opoption list \<Rightarrow>
    ('s, 'a, 'w) queue \<times> 'w \<Rightarrow> (int \<times> goerr option) outcome \<times> ('s, 'a, 'w) queue \<times> 'w" where
  "queue_Del ops c vs options = bracket OpDel snd (\<lambda>qw.
     case on_backing (bo_Del ops c vs options) qw of
       (Ret (n, None), q1, w1) \<Rightarrow> (Ret (n, None), recordDepth ops q1, w1)
     | (Ret (n, Some e), q1, w1) \<Rightarrow> (Ret (0, Some e), q1, w1)
     | (Unwinds, q1, w1) \<Rightarrow> (Unwinds, q1, w1))"

definition queue_Len :: "('s, 'a, 'w) backing \<Rightarrow> ('s, 'a, 'w) queue \<Rightarrow> int \<times> ('s, 'a, 'w) queue" where
  "queue_Len ops q = (case bo_Len ops (q_backing q) of (n, s) \<Rightarrow> (n, q\<lparr>q_backing := s\<rparr>))"

definition queue_NotEmpty :: "('s, 'a, 'w) backing \<Rightarrow> nat \<Rightarrow> 'w ctx \<Rightarrow> ('s, 'w) opoption list \<Rightarrow>
    ('s \<times> 'w \<Rightarrow> 's \<times> 'w) list \<Rightarrow> ('s, 'a, 'w) queue \<times> 'w \<Rightarrow>
    goerr option attempt \<times> ('s, 'a, 'w) queue \<times> 'w" where
  "queue_NotEmpty ops g c options env =
     bracket_wait OpNotEmpty id (on_backing (bo_NotEmpty ops g c options env))"

definition queue_NotFull :: "('s, 'a, 'w) backing \<Rightarrow> nat \<Rightarrow> 'w ctx \<Rightarrow> ('s, 'w) opoption list \<Rightarrow>
    ('s \<times> 'w \<Rightarrow> 's \<times> 'w) list \<Rightarrow> ('s, 'a, 'w) queue \<times> 'w \<Rightarrow>
    goerr option attempt \<times> ('s, 'a, 'w) queue \<times> 'w" where
  "queue_NotFull ops g c options env =
     bracket_wait OpNotFull id (on_backing (bo_NotFull ops g c options env))"

definition queue_Close :: "('s, 'a, 'w) backing \<Rightarrow> 'w ctx \<Rightarrow> ('s, 'w) opoption list \<Rightarrow>
    ('s, 'a, 'w) queue \<times> 'w \<Rightarrow> goerr option outcome \<times> ('s, 'a, 'w) queue \<times> 'w" where
  "queue_Close ops c options = bracket OpClose id (on_backing (bo_Close ops c options))"

definition queue_Clear :: "('s, 'a, 'w) backing \<Rightarrow> 'w ctx \<Rightarrow> ('s, 'w) opoption list \<Rightarrow>
    ('s, 'a, 'w) queue \<times> 'w \<Rightarrow> goerr option outcome \<times> ('s, 'a, 'w) queue \<times> 'w" where
  "queue_Clear ops c options = bracket OpClear id (\<lambda>qw.
     case on_backing (bo_Clear ops c options) qw of
       (Ret None, q1, w1) \<Rightarrow> (Ret None, recordDepth ops q1, w1)
     | (r, q1, w1) \<Rightarrow> (r, q1, w1))"

text \<open>The error recorded for an iteration is the last one the backing yielded.\<close>

definition queue_RangeAll :: "('s, 'a, 'w) backing \<Rightarrow> 'w ctx \<Rightarrow> ('a, 'w) yield \<Rightarrow>
    ('s, 'a, 'w) queue \<times> 'w \<Rightarrow> goerr option outcome \<times> ('s, 'a, 'w) queue \<times> 'w" where
  "queue_RangeAll ops c yield = bracket OpRangeAll id (on_backing (bo_All ops c yield))"

definition queue_RangeAllCOW :: "('s, 'a, 'w) backing \<Rightarrow> 'w ctx \<Rightarrow> ('a, 'w) yield \<Rightarrow> ('w \<Rightarrow> bool) \<Rightarrow>
    ('s, 'a, 'w) queue \<times> 'w \<Rightarrow> goerr option outcome \<times> ('s, 'a, 'w) queue \<times> 'w" where
  "queue_RangeAllCOW ops c yield wanted =
     bracket OpRangeAllCOW id (on_backing (bo_AllCOW ops c yield wanted))"

section \<open>Telemetry laws\<close>

lemma recordDepth_fields [simp]:
  "q_maxBatch (recordDepth ops q) = q_maxBatch q" "q_backup (recordDepth ops q) = q_backup q"
  by (simp_all add: recordDepth_def Let_def split: option.splits prod.splits)

text \<open>What an operation adds to the counters, given how it ended.\<close>

definition accounts :: "qop \<Rightarrow> goerr option outcome \<Rightarrow> qmetrics \<Rightarrow> qmetrics \<Rightarrow> bool" where
  "accounts op result m m' =
     (qm_ops m' = (qm_ops m)(op := qm_ops m op + 1) \<and>
      qm_latency m' = (qm_latency m)(op := qm_latency m op + 1) \<and>
      qm_spans m' = qm_spans m \<and>
      qm_errs m' = (case result of
          Unwinds \<Rightarrow> qm_errs (errs_Add op errKindUnwind m)
        | Ret (Some e) \<Rightarrow> qm_errs (errs_Add op (errorKind e) m)
        | Ret None \<Rightarrow> qm_errs m))"

text \<open>A body that leaves the counters alone (it may record the depth).\<close>

definition counters_kept :: "qmetrics option \<Rightarrow> qmetrics option \<Rightarrow> bool" where
  "counters_kept x y = (case (x, y) of
       (None, None) \<Rightarrow> True
     | (Some m, Some m') \<Rightarrow> qm_ops m' = qm_ops m \<and> qm_latency m' = qm_latency m \<and>
         qm_spans m' = qm_spans m \<and> qm_errs m' = qm_errs m
     | _ \<Rightarrow> False)"

lemma counters_kept_refl [simp]: "counters_kept x x"
  by (simp add: counters_kept_def split: option.splits)

lemma counters_kept_recordDepth [simp]: "q_met q = x \<Longrightarrow> counters_kept x (q_met (recordDepth ops q))"
  by (auto simp: counters_kept_def recordDepth_def Let_def split: option.splits prod.splits)

lemma bracket_accounts:
  assumes "bracket op err body (q, w) = (r, q', w')" and "q_met q = Some m"
    and kept: "\<And>q w. counters_kept (q_met q) (q_met (fst (snd (body (q, w)))))"
  shows "\<exists>m'. q_met q' = Some m' \<and> accounts op (map_outcome err r) m m'"
  using assms(1,2) kept [of "q\<lparr>q_met := instrument op (q_met q)\<rparr>" w]
  by (auto simp: bracket_def instrument_def opTimer_end_def counters_kept_def accounts_def errs_Add_def Let_def
      split: prod.splits option.splits outcome.splits)

lemma bracket_wait_accounts:
  assumes "bracket_wait op err body (q, w) = (Done r, q', w')" and "q_met q = Some m"
    and kept: "\<And>q w. counters_kept (q_met q) (q_met (fst (snd (body (q, w)))))"
  shows "\<exists>m'. q_met q' = Some m' \<and> accounts op (map_outcome err r) m m'"
  using assms(1,2) kept [of "q\<lparr>q_met := instrument op (q_met q)\<rparr>" w]
  by (auto simp: bracket_wait_def instrument_def opTimer_end_def counters_kept_def accounts_def errs_Add_def Let_def
      split: prod.splits option.splits outcome.splits attempt.splits)

lemma on_backing_kept [simp]: "q_met (fst (snd (on_backing f (q, w)))) = q_met q"
  by (simp add: on_backing_def split: prod.splits)

lemma queue_push_kept: "counters_kept (q_met q) (q_met (fst (snd (queue_push ops g c vs options env (q, w)))))"
  by (auto simp: queue_push_def on_backing_def Let_def split: prod.splits option.splits outcome.splits attempt.splits)


text \<open>The depth counter shows \<open>n\<close>.\<close>

definition depth_sync :: "int \<Rightarrow> qmetrics option \<Rightarrow> bool" where
  "depth_sync n met = (case met of None \<Rightarrow> True | Some m \<Rightarrow> qm_depth m = n \<and> qm_lastDepth m = n)"

lemma depth_sync_instr [simp]:
  "depth_sync n (instrument op met) = depth_sync n met"
  "depth_sync n (opTimer_end op r met) = depth_sync n met"
  by (auto simp: depth_sync_def instrument_def opTimer_end_def errs_Add_def Let_def
      split: option.splits outcome.splits)

section \<open>Sequences of operations\<close>

text \<open>A client that runs operations one after the other, each on a goroutine of its own and with or
  without a side effect; an operation that parks stays parked. The result is what was accepted and
  what was handed out, both in order.\<close>

datatype 'a cmd = DoPush "'a list" | DoPop int

definition with_se :: "'w call option \<Rightarrow> ('s, 'w) opoption list" where
  "with_se se = (case se of None \<Rightarrow> [] | Some f \<Rightarrow> [WithSideEffect (Some f)])"

definition handed_out :: "('a list \<times> goerr option) attempt \<Rightarrow> 'a list" where
  "handed_out r = (case r of Done (Ret (out, e)) \<Rightarrow> out | _ \<Rightarrow> [])"

fun run_cmds :: "('s, 'a, 'w) backing \<Rightarrow> 'w ctx \<Rightarrow> (nat \<times> 'a cmd \<times> 'w call option) list \<Rightarrow>
    ('s, 'a, 'w) queue \<times> 'w \<Rightarrow> ('a list \<times> 'a list) \<times> ('s, 'a, 'w) queue \<times> 'w" where
  "run_cmds ops c [] qw = (([], []), qw)"
| "run_cmds ops c ((g, DoPush vs, se) # cs) qw =
     (case queue_Push ops g c vs (with_se se) [] qw of (r, qw1) \<Rightarrow>
       (case run_cmds ops c cs qw1 of ((ins, outs), qw2) \<Rightarrow>
         (((if r = returns (True, None) then vs else []) @ ins, outs), qw2)))"
| "run_cmds ops c ((g, DoPop n, se) # cs) qw =
     (case queue_Pop ops g c n (with_se se) [] qw of (r, qw1) \<Rightarrow>
       (case run_cmds ops c cs qw1 of ((ins, outs), qw2) \<Rightarrow> ((ins, handed_out r @ outs), qw2)))"

lemma with_se_resolves:
  "call \<noteq> UnknownOpCall \<Longrightarrow>
     ResolveOpOptions call (with_se se) = Ret (\<lparr>oo_Call = call, oo_SideEffect = se, oo_OnAdmit = None\<rparr>, None)"
  by (simp add: with_se_def ResolveOpOptions_def WithSideEffect_def split: option.splits)

lemma handed_out_failed:
  "queue_Pop ops g c n options env (q, w) = (r, q', w') \<Longrightarrow> \<forall>out. r \<noteq> returns (out, None) \<Longrightarrow> handed_out r = []"
  by (auto simp: queue_Pop_def bracket_wait_def handed_out_def split: if_splits attempt.splits outcome.splits option.splits prod.splits)

lemma queue_Pop_panics: "n < 1 \<Longrightarrow> queue_Pop ops g c n options env qw = (Done Unwinds, qw)"
  by (simp add: queue_Pop_def)

text \<open>Induction over a run: \<open>J q ins outs\<close> holds after every operation of what was accepted and handed
  out so far.\<close>

lemma run_cmds_induct:
  assumes "run_cmds ops c cs (q, w) = ((ins, outs), q', w')" and "J q [] []"
    and push: "\<And>q w g vs se r q1 w1 ins outs. J q ins outs \<Longrightarrow>
      queue_Push ops g c vs (with_se se) [] (q, w) = (r, q1, w1) \<Longrightarrow>
      J q1 (ins @ (if r = returns (True, None) then vs else [])) outs"
    and pop: "\<And>q w g n se r q1 w1 ins outs. J q ins outs \<Longrightarrow>
      queue_Pop ops g c n (with_se se) [] (q, w) = (r, q1, w1) \<Longrightarrow> J q1 ins (outs @ handed_out r)"
  shows "J q' ins outs"
proof -
  have "run_cmds ops c cs (q, w) = ((i, x), q', w') \<Longrightarrow> J q ins outs \<Longrightarrow> J q' (ins @ i) (outs @ x)"
    for ins outs i x
  proof (induction cs arbitrary: q w ins outs i x)
    case Nil
    then show ?case by auto
  next
    case (Cons y cs)
    obtain g cm se where y: "y = (g, cm, se)" by (cases y)
    show ?case
    proof (cases cm)
      case (DoPush vs)
      then show ?thesis
        using Cons.prems(1) Cons.IH push [OF Cons.prems(2)] y by (fastforce split: prod.splits)
    next
      case (DoPop n)
      then show ?thesis
        using Cons.prems(1) Cons.IH pop [OF Cons.prems(2)] y by (fastforce split: prod.splits)
    qed
  qed
  from this [OF assms(1,2)] show ?thesis by simp
qed

section \<open>Queues over a backing that keeps its contract\<close>

context queue_backing
begin

abbreviation items :: "('s, 'a, 'w) queue \<Rightarrow> ('a \<times> bool) list" where
  "items q \<equiv> aq_items (rep (q_backing q))"

text \<open>The invariant of a queue: its backing's, and a depth counter that agrees with the contents.\<close>

abbreviation queue_ok :: "('s, 'a, 'w) queue \<Rightarrow> bool" where
  "queue_ok q \<equiv> ok (q_backing q) \<and> depth_sync (int (length (items q))) (q_met q)"

lemma recordDepth_backing [simp]: "ok (q_backing q) \<Longrightarrow> q_backing (recordDepth ops q) = q_backing q"
  by (simp add: recordDepth_def Let_def len_law split: option.splits)

lemma recordDepth_sync [simp]:
  "ok (q_backing q) \<Longrightarrow> depth_sync n (q_met q) \<Longrightarrow>
     depth_sync (int (length (items q))) (q_met (recordDepth ops q))"
  by (auto simp: recordDepth_def Let_def len_law depth_sync_def split: option.splits)

lemma lock_cycle:
  "ok s \<Longrightarrow> bo_SetQueueLock ops (qlock_Unlock (bo_QueueLock ops (bo_SetQueueLock ops (qlock_Lock (bo_QueueLock ops s)) s)))
     (bo_SetQueueLock ops (qlock_Lock (bo_QueueLock ops s)) s) = s"
  by (simp add: lock_get_set lock_set_set lock_set_get ok_lock)

lemma push_now: "ResolveOpOptions CallPush options = Ret (opts, None) \<Longrightarrow> oo_OnAdmit opts = None \<Longrightarrow>
    ValidateKind it prio vs = None \<Longrightarrow>
    refines_from (\<lambda>s. ok s \<and> fresh (length vs) s) ok rep (bo_Push ops g c vs options [])
      (spec_push place g c vs (oo_SideEffect opts))"
  using push_law [of options opts vs g "[]" "[]" c] by (simp add: spec_Push_def refines_from_def)

lemma pop_now: "ResolveOpOptions CallPop options = Ret (opts, None) \<Longrightarrow> 0 < n \<Longrightarrow>
    refines ok rep (bo_Pop ops g c n options []) (spec_pop g c n (oo_SideEffect opts))"
  using pop_law [of options opts n g "[]" "[]" c] by (simp add: spec_Pop_def refines_def)

lemma queue_push_empty:
  assumes "queue_push ops g c [] options env (q, w) = (res, q', w')" and "ok (q_backing q)"
  shows "q' = q \<and> res \<noteq> Parked \<and> (\<forall>b e. res = returns (b, e) \<longrightarrow> b = (e = None))"
proof (cases "\<exists>opts se. ResolveOpOptions CallPush options = Ret (opts, None) \<and> oo_SideEffect opts = Some se")
  case False
  then show ?thesis
    using assms(1) by (auto simp: queue_push_def split: option.splits outcome.splits prod.splits)
next
  case True
  then obtain opts se where se: "ResolveOpOptions CallPush options = Ret (opts, None)" "oo_SideEffect opts = Some se"
    by blast
  have same: "q\<lparr>q_backing := bo_SetQueueLock ops (qlock_Unlock (bo_QueueLock ops
      (bo_SetQueueLock ops (qlock_Lock (bo_QueueLock ops (q_backing q))) (q_backing q))))
      (bo_SetQueueLock ops (qlock_Lock (bo_QueueLock ops (q_backing q))) (q_backing q))\<rparr> = q"
    using lock_cycle [OF assms(2)] by simp
  show ?thesis
    using assms(1) se same
    by (cases "RunSideEffect (Some se) w"; cases "fst (RunSideEffect (Some se) w)")
      (auto simp: queue_push_def on_backing_def Let_def RunSideEffectLocked_pair split: option.splits)
qed

lemma queue_push_atomic:
  assumes res: "queue_push ops g c vs options [] (q, w) = (res, q', w')" and ok: "queue_ok q"
    and opts: "ResolveOpOptions CallPush options = Ret (opts, None)" "oo_OnAdmit opts = None"
    and kind: "ValidateKind it prio vs = None" and fresh: "fresh (length vs) (q_backing q)"
  shows "queue_ok q' \<and> (\<forall>b e. res = returns (b, e) \<longrightarrow> b = (e = None)) \<and>
    items q' = (if res = returns (True, None) then place_all place (items q) vs else items q)"
proof (cases "vs = []")
  case True
  then show ?thesis
    using queue_push_empty [of g c options "[]" q w res q' w'] res ok by (auto simp: place_all_def)
next
  case False
  obtain r s1 w1 where push: "bo_Push ops g c vs options [] (q_backing q, w) = (r, s1, w1)"
    by (metis prod_cases3)
  have spec: "spec_push place g c vs (oo_SideEffect opts) (rep (q_backing q), w) = (r, rep s1, w1)" "ok s1"
    using refines_fromD [OF push_now [OF opts kind] _ push] ok fresh by auto
  note it = spec_push_items [OF spec(1)] and depth = recordDepth_sync [of "q\<lparr>q_backing := s1\<rparr>"]
  show ?thesis
    using res ok False push spec it depth
    by (auto simp: queue_push_def on_backing_def split: if_splits attempt.splits outcome.splits option.splits)
qed

lemma queue_Push_atomic:
  assumes res: "queue_Push ops g c vs options [] (q, w) = (res, q', w')" and ok: "queue_ok q"
    and opts: "ResolveOpOptions CallPush options = Ret (opts, None)" "oo_OnAdmit opts = None"
    and kind: "ValidateKind it prio vs = None" and fresh: "fresh (length vs) (q_backing q)"
  shows "queue_ok q' \<and> (\<forall>b e. res = returns (b, e) \<longrightarrow> b = (e = None)) \<and>
    items q' = (if res = returns (True, None) then place_all place (items q) vs else items q)"
proof -
  let ?q = "q\<lparr>q_met := instrument OpPush (q_met q)\<rparr>"
  obtain r q1 w1 where push: "queue_push ops g c vs options [] (?q, w) = (r, q1, w1)"
    by (metis prod_cases3)
  have "queue_ok ?q" using ok by simp
  note atomic = queue_push_atomic [OF push this opts kind]
  have q': "res = r" "q_backing q' = q_backing q1" "depth_sync n (q_met q') = depth_sync n (q_met q1)" for n
    using res push by (auto simp: queue_Push_def bracket_wait_def split: attempt.splits)
  have same: "q_backing ?q = q_backing q" by simp
  show ?thesis using atomic fresh unfolding q' same by blast
qed

lemma queue_Pop_atomic:
  assumes res: "queue_Pop ops g c n options [] (q, w) = (res, q', w')" and ok: "queue_ok q"
    and opts: "ResolveOpOptions CallPop options = Ret (opts, None)" and n: "1 \<le> n"
  shows "queue_ok q' \<and>
    ((\<exists>out. res = returns (out, None) \<and> out \<noteq> [] \<and> out = take (nat n) (map fst (items q)) \<and>
        items q' = drop (nat n) (items q)) \<or>
     ((\<forall>out. res \<noteq> returns (out, None)) \<and> items q' = items q))"
proof -
  obtain r s1 w1 where pop: "bo_Pop ops g c (nat n) options [] (q_backing q, w) = (r, s1, w1)"
    by (metis prod_cases3)
  have spec: "spec_pop g c (nat n) (oo_SideEffect opts) (rep (q_backing q), w) = (r, rep s1, w1)" "ok s1"
    using refinesD [OF pop_now [OF opts] _ pop] ok n by auto
  note it = spec_pop_items [OF spec(1)]
    and depth = recordDepth_sync [of "q\<lparr>q_met := instrument OpPop (q_met q), q_backing := s1\<rparr>"]
  show ?thesis
    using res ok pop spec(2) it n depth
    by (auto simp: queue_Pop_def bracket_wait_def on_backing_def aq_contents_def
        split: attempt.splits outcome.splits option.splits)
qed

lemma queue_Del_atomic:
  assumes res: "queue_Del ops c vs options (q, w) = (res, q', w')" and ok: "queue_ok q"
    and opts: "ResolveOpOptions CallDel options = Ret (opts, None)"
  shows "queue_ok q' \<and>
    ((res = Ret (int (length (filter (\<lambda>x. MatchesAny it (fst x) vs) (items q))), None) \<and>
        items q' = filter (\<lambda>x. \<not> MatchesAny it (fst x) vs) (items q)) \<or>
     ((\<forall>n. res \<noteq> Ret (n, None)) \<and> items q' = items q))"
proof -
  obtain r s1 w1 where del: "bo_Del ops c vs options (q_backing q, w) = (r, s1, w1)"
    by (metis prod_cases3)
  obtain removed where m: "mset removed = mset (filter (\<lambda>x. MatchesAny it x vs) (aq_contents (rep (q_backing q))))"
    and spec: "spec_del it c vs removed (oo_SideEffect opts) (rep (q_backing q), w) = (r, rep s1, w1)" "ok s1"
    using del_law [OF opts, of "q_backing q" vs c w] ok del by auto
  have len: "length removed = length (filter (\<lambda>x. MatchesAny it (fst x) vs) (items q))"
    using mset_eq_length [OF m] by (simp add: aq_contents_def filter_map comp_def)
  note it = spec_del_items [OF spec(1) m]
    and depth = recordDepth_sync [of "q\<lparr>q_met := instrument OpDel (q_met q), q_backing := s1\<rparr>"]
  show ?thesis
    using res ok del spec(2) it depth len
    by (auto simp: queue_Del_def bracket_def on_backing_def split: outcome.splits option.splits)
qed

lemma queue_Clear_atomic:
  assumes res: "queue_Clear ops c options (q, w) = (res, q', w')" and ok: "queue_ok q"
    and opts: "ResolveOpOptions CallClear options = Ret (opts, None)"
  shows "queue_ok q' \<and> items q' = (if res = Ret None then [] else items q)"
proof -
  obtain r s1 w1 where clr: "bo_Clear ops c options (q_backing q, w) = (r, s1, w1)"
    by (metis prod_cases3)
  have spec: "spec_clear c (oo_SideEffect opts) (rep (q_backing q), w) = (r, rep s1, w1)" "ok s1"
    using refinesD [OF clear_law [OF opts] _ clr] ok by auto
  note it = spec_clear_items [OF spec(1)]
    and depth = recordDepth_sync [of "q\<lparr>q_met := instrument OpClear (q_met q), q_backing := s1\<rparr>"]
  show ?thesis
    using res ok clr spec(2) it depth
    by (auto simp: queue_Clear_def bracket_def on_backing_def split: outcome.splits option.splits if_splits)
qed

text \<open>A push that is refused for the priorities of its items changes nothing but the counters.\<close>

lemma queue_Push_rejects:
  assumes "queue_Push ops g c vs options env (q, w) = (res, q', w')"
    and "ResolveOpOptions CallPush options = Ret (opts, None)" and "ValidateKind it prio vs = Some e"
    and ok: "queue_ok q"
  shows "queue_ok q' \<and> items q' = items q \<and> res \<noteq> returns (True, None)"
proof -
  have "vs \<noteq> []" using assms(3) by auto
  then show ?thesis
    using assms push_rejects [OF assms(2,3)]
    by (auto simp: queue_Push_def bracket_wait_def queue_push_def on_backing_def split: if_splits)
qed

lemma cmd_push_step:
  assumes "queue_Push ops g c vs (with_se se) [] (q, w) = (res, q', w')" and "queue_ok q"
    and "fresh (length vs) (q_backing q)"
  shows "queue_ok q' \<and> items q' = (if res = returns (True, None) then place_all place (items q) vs else items q)"
proof -
  have opts: "ResolveOpOptions CallPush (with_se se) = Ret (\<lparr>oo_Call = CallPush, oo_SideEffect = se, oo_OnAdmit = None\<rparr>, None)"
    by (rule with_se_resolves) simp
  show ?thesis
  proof (cases "ValidateKind it prio vs")
    case None
    then show ?thesis
      using queue_Push_atomic [OF assms(1,2) opts _ None assms(3)] unfolding opoptions.simps by blast
  next
    case (Some e)
    then show ?thesis
      using queue_Push_rejects [OF assms(1) opts Some assms(2)] by auto
  qed
qed

lemma cmd_pop_step:
  assumes "queue_Pop ops g c n (with_se se) [] (q, w) = (res, q', w')" and "queue_ok q"
  shows "queue_ok q' \<and> map fst (items q) = handed_out res @ map fst (items q')"
proof (cases "n < 1")
  case True
  then show ?thesis using assms by (auto simp: queue_Pop_panics handed_out_def)
next
  case False
  then have n: "1 \<le> n" by simp
  show ?thesis
    using queue_Pop_atomic [OF assms(1,2) with_se_resolves n] handed_out_failed [OF assms(1)]
    by (auto simp: handed_out_def take_map [symmetric] drop_map [symmetric])
qed

text \<open>First in, first out: what comes out, followed by what is left, is what was there, followed by what
  was accepted.\<close>

lemma run_cmds_fifo:
  assumes fifo: "place = fifo_place" and fresh: "\<And>n s. fresh n s"
    and run: "run_cmds ops c cs (q, w) = ((ins, outs), q', w')" and ok: "queue_ok q"
  shows "queue_ok q' \<and> map fst (items q) @ ins = outs @ map fst (items q')"
proof (rule run_cmds_induct [OF run])
  show "queue_ok q \<and> map fst (items q) @ [] = [] @ map fst (items q)" using ok by simp
next
  fix q1 w1 g vs se r q2 w2 ins outs
  assume J: "queue_ok q1 \<and> map fst (items q) @ ins = outs @ map fst (items q1)"
    and p: "queue_Push ops g c vs (with_se se) [] (q1, w1) = (r, q2, w2)"
  show "queue_ok q2 \<and> map fst (items q) @ ins @ (if r = returns (True, None) then vs else []) = outs @ map fst (items q2)"
    using cmd_push_step [OF p] J fresh by (auto simp: fifo comp_def split: if_splits)
next
  fix q1 w1 g n se r q2 w2 ins outs
  assume J: "queue_ok q1 \<and> map fst (items q) @ ins = outs @ map fst (items q1)"
    and p: "queue_Pop ops g c n (with_se se) [] (q1, w1) = (r, q2, w2)"
  show "queue_ok q2 \<and> map fst (items q) @ ins = (outs @ handed_out r) @ map fst (items q2)"
    using cmd_pop_step [OF p] J by auto
qed

text \<open>The bound: as long as nothing was restored from a Backup, the queue never holds more than its
  maximum.\<close>

abbreviation within :: "int \<Rightarrow> ('s, 'a, 'w) queue \<Rightarrow> bool" where
  "within m q \<equiv> aq_max (rep (q_backing q)) = m \<and> aq_inflight (rep (q_backing q)) = 0 \<and> (\<forall>x \<in> set (items q). \<not> snd x)"

lemma within_bounded: "queue_ok q \<Longrightarrow> within m q \<Longrightarrow> m > 0 \<Longrightarrow> int (length (items q)) \<le> m"
  using ok_bounded [of "q_backing q"]
  by (auto simp: aq_bounded_def aq_admitted_def filter_id_conv [THEN iffD2])

lemma place_all_unmarked:
  "\<forall>x \<in> set xs. \<not> snd x \<Longrightarrow> \<forall>x \<in> set (place_all place xs vs). \<not> snd x"
  using arg_cong [OF mset_place_all [OF ok_placing, of xs vs], of set_mset] by auto

lemma push_within:
  assumes "queue_Push ops g c vs (with_se se) [] (q, w) = (res, q', w')" and "queue_ok q"
    and "fresh (length vs) (q_backing q)" and "within m q"
  shows "within m q'"
proof (cases "ValidateKind it prio vs = None \<and> vs \<noteq> [] \<and> int (length vs) \<le> q_maxBatch q")
  case False
  have opts: "ResolveOpOptions CallPush (with_se se) = Ret (\<lparr>oo_Call = CallPush, oo_SideEffect = se, oo_OnAdmit = None\<rparr>, None)"
    by (rule with_se_resolves) simp
  have "q_backing q' = q_backing q"
  proof (cases "vs = []")
    case True
    then show ?thesis
      using assms(1,2) queue_push_empty [of g c "with_se se" "[]" "q\<lparr>q_met := instrument OpPush (q_met q)\<rparr>" w]
      by (auto simp: queue_Push_def bracket_wait_def split: prod.splits attempt.splits)
  next
    case False
    then show ?thesis
      using assms(1) push_rejects [OF opts] \<open>\<not> (_ \<and> _)\<close>
      by (cases "ValidateKind it prio vs")
        (auto simp: queue_Push_def bracket_wait_def queue_push_def on_backing_def split: if_splits)
  qed
  then show ?thesis using assms(4) by simp
next
  case True
  have opts: "ResolveOpOptions CallPush (with_se se) = Ret (\<lparr>oo_Call = CallPush, oo_SideEffect = se, oo_OnAdmit = None\<rparr>, None)"
    by (rule with_se_resolves) simp
  obtain r s1 w1 where push: "bo_Push ops g c vs (with_se se) [] (q_backing q, w) = (r, s1, w1)"
    by (metis prod_cases3)
  have spec: "spec_push place g c vs se (rep (q_backing q), w) = (r, rep s1, w1)" "ok s1"
    using refines_fromD [OF push_now [OF opts] _ push] True assms(2,3) by auto
  have q': "q_backing q' = s1"
    using assms(1) True push spec(2)
    by (auto simp: queue_Push_def bracket_wait_def queue_push_def on_backing_def split: attempt.splits outcome.splits option.splits if_splits)
  show ?thesis
    using spec_push_frame [OF spec(1)] spec_push_items [OF spec(1)] assms(4) place_all_unmarked [of "items q" vs]
    by (auto simp: q' split: if_splits)
qed

lemma pop_within:
  assumes "queue_Pop ops g c n (with_se se) [] (q, w) = (res, q', w')" and "queue_ok q" and "within m q"
  shows "within m q'"
proof (cases "n < 1")
  case True
  then show ?thesis using assms by (auto simp: queue_Pop_panics)
next
  case False
  have opts: "ResolveOpOptions CallPop (with_se se) = Ret (\<lparr>oo_Call = CallPop, oo_SideEffect = se, oo_OnAdmit = None\<rparr>, None)"
    by (rule with_se_resolves) simp
  obtain r s1 w1 where pop: "bo_Pop ops g c (nat n) (with_se se) [] (q_backing q, w) = (r, s1, w1)"
    by (metis prod_cases3)
  have spec: "spec_pop g c (nat n) se (rep (q_backing q), w) = (r, rep s1, w1)" "ok s1"
    using refinesD [OF pop_now [OF opts] _ pop] assms(2) False by auto
  have q': "q_backing q' = s1"
    using assms(1) False pop spec(2)
    by (auto simp: queue_Pop_def bracket_wait_def on_backing_def split: attempt.splits outcome.splits option.splits if_splits)
  show ?thesis
    using spec_pop_frame [OF spec(1)] spec_pop_items [OF spec(1)] assms(3)
      set_drop_subset [of "nat n" "items q"]
    by (auto simp: q')
qed

lemma run_cmds_within:
  assumes fresh: "\<And>n s. fresh n s" and run: "run_cmds ops c cs (q, w) = ((ins, outs), q', w')"
    and start: "queue_ok q" "within m q"
  shows "queue_ok q' \<and> within m q'"
proof (rule run_cmds_induct [OF run, where J = "\<lambda>q _ _. queue_ok q \<and> within m q"])
  fix q w g vs se r q1 w1
  assume J: "queue_ok q \<and> within m q" and p: "queue_Push ops g c vs (with_se se) [] (q, w) = (r, q1, w1)"
  show "queue_ok q1 \<and> within m q1"
    using cmd_push_step [OF p conjunct1 [OF J] fresh] push_within [OF p conjunct1 [OF J] fresh conjunct2 [OF J]] by blast
next
  fix q w g n se r q1 w1
  assume J: "queue_ok q \<and> within m q" and p: "queue_Pop ops g c n (with_se se) [] (q, w) = (r, q1, w1)"
  show "queue_ok q1 \<and> within m q1"
    using cmd_pop_step [OF p conjunct1 [OF J]] pop_within [OF p conjunct1 [OF J] conjunct2 [OF J]] by blast
qed (use start in blast)

text \<open>A failed or unwound restore leaves nothing open: the backing is closed, and the caller's Backup
  is closed by \<open>New\<close> itself, because the backing has not attached it.\<close>

lemma New_hydrate_closes:
  assumes "ok s" and "\<forall>x \<in> set (aq_items (rep s)). snd x" and "aq_backup (rep s) = None" and "\<not> aq_closed (rep s)"
    and "fresh (length (bk_RangeAll b c w)) s"
    and hyd: "bo_Hydrate ops c b (s, w) = (r, s1, w1)" and "r \<noteq> Ret None"
    and new: "New_hydrate ops c b (s, w) = (r', s', w')"
  shows "aq_closed (rep s') \<and> lk_ok (bo_QueueLock ops s') \<and> w' = snd (bk_Close b c w1) \<and> r' \<noteq> Ret None"
proof -
  obtain s2 where "bo_Close ops c [] (s1, w1) = (Ret None, s2, w1)" "rep s2 = aq_close (rep s1)"
      "lk_ok (bo_QueueLock ops s2)"
    using hydrate_failed [OF assms(1,5,2) hyd assms(7,3,4)] by blast
  then show ?thesis
    using new hyd assms(7)
    by (auto simp: New_hydrate_def aq_close_def errors_Join_def split: outcome.splits option.splits call_result.splits prod.splits)
qed

end

end
