(* ===== verification/Min_Heap.thy ===== *)
theory Min_Heap
  imports Caller_Code
begin

text \<open>
  The journalled array heap of \<open>internal/backings/heap/heap.go\<close> (\<open>minHeap\<close>) and the routines of
  \<open>container/heap\<close> and \<open>sort.SliceStable\<close> that run on it. The comparator is the caller's
  \<open>Item.Less\<close>, which may end the frame: every routine reports whether it completed and leaves the
  array as the exchanges made so far left it.

  Two groups of lemmas. For every comparator, well behaved or not: replaying the journal backwards
  restores the array exactly, after any number of completed or interrupted pushes or pops. For a
  comparator that is a strict weak order: the routines establish and keep the heap property, and
  \<open>Pop\<close> returns the least element.
\<close>

section \<open>The heap array\<close>

record 'a minheap =
  mh_items :: "'a seqitem slice"
  mh_swaps :: "nat list"
  mh_journal :: bool

definition mh_new :: "'a minheap" where
  "mh_new = \<lparr>mh_items = nil_slice, mh_swaps = [], mh_journal = False\<rparr>"

definition mh_list :: "'a minheap \<Rightarrow> 'a seqitem list" where
  "mh_list h = slice_list (mh_items h)"

definition mh_Len :: "'a minheap \<Rightarrow> nat" where
  "mh_Len h = s_len (mh_items h)"

definition mh_Less :: "'a item \<Rightarrow> 'a minheap \<Rightarrow> nat \<Rightarrow> nat \<Rightarrow> bool option" where
  "mh_Less it h i j = PrioritySeqLess it (s_arr (mh_items h) ! i) (s_arr (mh_items h) ! j)"

definition swap_at :: "nat \<Rightarrow> nat \<Rightarrow> 'b list \<Rightarrow> 'b list" where
  "swap_at i j xs = xs[i := xs ! j, j := xs ! i]"

definition mh_Swap :: "nat \<Rightarrow> nat \<Rightarrow> 'a minheap \<Rightarrow> 'a minheap" where
  "mh_Swap i j h =
     (let h1 = (if mh_journal h then h\<lparr>mh_swaps := mh_swaps h @ [i, j]\<rparr> else h) in
      h1\<lparr>mh_items := (mh_items h1)\<lparr>s_arr := swap_at i j (s_arr (mh_items h1))\<rparr>\<rparr>)"

definition mh_journalOn :: "'a minheap \<Rightarrow> 'a minheap" where
  "mh_journalOn h = h\<lparr>mh_journal := True, mh_swaps := []\<rparr>"

definition mh_journalOff :: "'a minheap \<Rightarrow> 'a minheap" where
  "mh_journalOff h = h\<lparr>mh_journal := False, mh_swaps := []\<rparr>"

definition zero_seqitem :: "'a \<Rightarrow> 'a seqitem" where
  "zero_seqitem zero = \<lparr>si_Seq = 0, si_Item = zero\<rparr>"

definition mh_Push :: "(nat \<Rightarrow> nat \<Rightarrow> nat) \<Rightarrow> 'a \<Rightarrow> 'a seqitem \<Rightarrow> 'a minheap \<Rightarrow> 'a minheap" where
  "mh_Push grow zero x h = h\<lparr>mh_items := slice_append grow (zero_seqitem zero) (mh_items h) [x]\<rparr>"

definition mh_Pop :: "'a \<Rightarrow> 'a minheap \<Rightarrow> 'a seqitem \<times> 'a minheap" where
  "mh_Pop zero h =
     (let n = s_len (mh_items h);
          x = s_arr (mh_items h) ! (n - 1)
      in (x, h\<lparr>mh_items := \<lparr>s_arr = (s_arr (mh_items h))[n - 1 := zero_seqitem zero], s_len = n - 1\<rparr>\<rparr>))"

text \<open>The loop that replays the journal, two entries at a time from the end.\<close>

fun undo_swaps :: "nat list \<Rightarrow> 'b list \<Rightarrow> 'b list" where
  "undo_swaps (i # j # js) xs = swap_at i j (undo_swaps js xs)"
| "undo_swaps _ xs = xs"

fun put_popped :: "nat \<Rightarrow> 'b list \<Rightarrow> 'b list \<Rightarrow> 'b list" where
  "put_popped k [] xs = xs"
| "put_popped k (p # ps) xs = put_popped (k - 1) ps (xs[k - 1 := p])"

definition mh_rollback :: "'a \<Rightarrow> nat \<Rightarrow> 'a seqitem list \<Rightarrow> 'a minheap \<Rightarrow> 'a minheap" where
  "mh_rollback zero origLen popped h =
     (let work = (if origLen > s_len (mh_items h) then origLen else s_len (mh_items h));
          a1 = put_popped origLen popped (s_arr (mh_items h));
          a2 = undo_swaps (mh_swaps h) a1;
          s2 = slice_clear (zero_seqitem zero) origLen work \<lparr>s_arr = a2, s_len = work\<rparr>
      in mh_journalOff (h\<lparr>mh_items := slice_prefix origLen s2\<rparr>))"

section \<open>container/heap\<close>

function heap_up :: "'a item \<Rightarrow> nat \<Rightarrow> 'a minheap \<Rightarrow> bool \<times> 'a minheap" where
  "heap_up it j h =
     (let i = (j - 1) div 2 in
      if i = j then (True, h)
      else (case mh_Less it h j i of
              None \<Rightarrow> (False, h)
            | Some False \<Rightarrow> (True, h)
            | Some True \<Rightarrow> heap_up it i (mh_Swap i j h)))"
  by pat_completeness auto
termination by (relation "measure (\<lambda>(it, j, h). j)") auto

function heap_down :: "'a item \<Rightarrow> nat \<Rightarrow> nat \<Rightarrow> 'a minheap \<Rightarrow> bool \<times> 'a minheap" where
  "heap_down it i n h =
     (let j1 = 2 * i + 1 in
      if j1 \<ge> n then (True, h)
      else (let j2 = j1 + 1 in
        case (if j2 < n then mh_Less it h j2 j1 else Some False) of
          None \<Rightarrow> (False, h)
        | Some right \<Rightarrow>
            (let j = (if right then j2 else j1) in
             case mh_Less it h j i of
               None \<Rightarrow> (False, h)
             | Some False \<Rightarrow> (True, h)
             | Some True \<Rightarrow> heap_down it j n (mh_Swap i j h))))"
  by pat_completeness auto
termination by (relation "measure (\<lambda>(it, i, n, h). n - i)") (auto split: if_splits)

declare heap_up.simps [simp del] heap_down.simps [simp del]

text \<open>The loop of \<open>Init\<close> with \<open>k\<close> positions left: it sifts position \<open>k - 1\<close> and goes on.\<close>

fun heap_Init_loop :: "'a item \<Rightarrow> nat \<Rightarrow> nat \<Rightarrow> 'a minheap \<Rightarrow> bool \<times> 'a minheap" where
  "heap_Init_loop it n 0 h = (True, h)"
| "heap_Init_loop it n (Suc i) h =
     (case heap_down it i n h of
        (False, h1) \<Rightarrow> (False, h1)
      | (True, h1) \<Rightarrow> heap_Init_loop it n i h1)"

definition heap_Init :: "'a item \<Rightarrow> 'a minheap \<Rightarrow> bool \<times> 'a minheap" where
  "heap_Init it h = heap_Init_loop it (mh_Len h) (mh_Len h div 2) h"

definition heap_Push :: "'a item \<Rightarrow> (nat \<Rightarrow> nat \<Rightarrow> nat) \<Rightarrow> 'a seqitem \<Rightarrow> 'a minheap \<Rightarrow> bool \<times> 'a minheap" where
  "heap_Push it grow x h =
     (let h1 = mh_Push grow (it_zero it) x h in heap_up it (mh_Len h1 - 1) h1)"

definition heap_Pop :: "'a item \<Rightarrow> 'a minheap \<Rightarrow> 'a seqitem option \<times> 'a minheap" where
  "heap_Pop it h =
     (let n = mh_Len h - 1 in
      case heap_down it 0 n (mh_Swap 0 n h) of
        (False, h1) \<Rightarrow> (None, h1)
      | (True, h1) \<Rightarrow> (case mh_Pop (it_zero it) h1 of (x, h2) \<Rightarrow> (Some x, h2)))"

section \<open>sort.SliceStable\<close>

text \<open>A stable sort by adjacent exchanges (the routine the library runs on blocks of twenty): the
  next element moves left past the elements it is less than. \<open>left\<close> is reversed.\<close>

fun sort_insert :: "'a item \<Rightarrow> 'a seqitem \<Rightarrow> 'a seqitem list \<Rightarrow> 'a seqitem list \<Rightarrow> bool \<times> 'a seqitem list" where
  "sort_insert it x [] right = (True, x # right)"
| "sort_insert it x (y # left) right =
     (case PrioritySeqLess it x y of
        None \<Rightarrow> (False, rev left @ y # x # right)
      | Some True \<Rightarrow> sort_insert it x left (y # right)
      | Some False \<Rightarrow> (True, rev left @ y # x # right))"

fun sort_loop :: "'a item \<Rightarrow> 'a seqitem list \<Rightarrow> 'a seqitem list \<Rightarrow> bool \<times> 'a seqitem list" where
  "sort_loop it front [] = (True, front)"
| "sort_loop it front (x # xs) =
     (case sort_insert it x (rev front) [] of
        (True, front1) \<Rightarrow> sort_loop it front1 xs
      | (False, front1) \<Rightarrow> (False, front1 @ xs))"

definition SliceStable :: "'a item \<Rightarrow> 'a seqitem list \<Rightarrow> bool \<times> 'a seqitem list" where
  "SliceStable it xs = sort_loop it [] xs"

section \<open>Exchanges\<close>

text \<open>The array is the items followed by zero values.\<close>

definition mh_shaped :: "'a \<Rightarrow> nat \<Rightarrow> 'a minheap \<Rightarrow> bool" where
  "mh_shaped zero k h = (mh_items h =
     \<lparr>s_arr = mh_list h @ replicate k (zero_seqitem zero), s_len = length (mh_list h)\<rparr>)"

lemma length_swap_at [simp]: "length (swap_at i j xs) = length xs"
  by (simp add: swap_at_def)

lemma swap_at_append: "i < length xs \<Longrightarrow> j < length xs \<Longrightarrow> swap_at i j (xs @ ys) = swap_at i j xs @ ys"
  by (simp add: swap_at_def nth_append list_update_append)

lemma swap_at_swap_at [simp]: "i < length xs \<Longrightarrow> j < length xs \<Longrightarrow> swap_at i j (swap_at i j xs) = xs"
  by (rule nth_equalityI) (auto simp: swap_at_def nth_list_update)

lemma mset_swap_at [simp]: "i < length xs \<Longrightarrow> j < length xs \<Longrightarrow> mset (swap_at i j xs) = mset xs"
  by (simp add: swap_at_def mset_swap)

lemma nth_swap_at: "i < length xs \<Longrightarrow> j < length xs \<Longrightarrow> k < length xs \<Longrightarrow>
    swap_at i j xs ! k = (if k = j then xs ! i else if k = i then xs ! j else xs ! k)"
  by (simp add: swap_at_def nth_list_update)

lemma mh_shapedI:
  "mh_items h = \<lparr>s_arr = xs @ replicate k (zero_seqitem z), s_len = length xs\<rparr> \<Longrightarrow>
     mh_list h = xs \<and> mh_shaped z k h"
  by (simp add: mh_shaped_def mh_list_def slice_list_def)

lemma mh_Len_list: "mh_shaped z k h \<Longrightarrow> mh_Len h = length (mh_list h)"
  by (simp add: mh_shaped_def mh_Len_def)

lemma mh_Swap_list:
  assumes "mh_shaped z k h" and "i < length (mh_list h)" and "j < length (mh_list h)"
  shows "mh_list (mh_Swap i j h) = swap_at i j (mh_list h) \<and> mh_shaped z k (mh_Swap i j h)"
proof -
  have "mh_items (mh_Swap i j h) =
      \<lparr>s_arr = swap_at i j (mh_list h) @ replicate k (zero_seqitem z), s_len = length (mh_list h)\<rparr>"
    using assms by (simp add: mh_Swap_def mh_shaped_def Let_def swap_at_append)
  then show ?thesis by (simp add: mh_shaped_def mh_list_def slice_list_def)
qed

lemma mh_Swap_journal [simp]: "mh_journal (mh_Swap i j h) = mh_journal h"
  "mh_swaps (mh_Swap i j h) = (if mh_journal h then mh_swaps h @ [i, j] else mh_swaps h)"
  by (simp_all add: mh_Swap_def Let_def)

lemma mh_Swap_Len [simp]: "mh_Len (mh_Swap i j h) = mh_Len h"
  by (simp add: mh_Swap_def mh_Len_def Let_def)

lemma mh_Push_list:
  assumes "mh_shaped z k h"
  shows "mh_list (mh_Push grow z x h) = mh_list h @ [x] \<and> (\<exists>k'. mh_shaped z k' (mh_Push grow z x h))"
proof -
  have "\<exists>k'. slice_append grow (zero_seqitem z) (mh_items h) [x] =
      \<lparr>s_arr = (mh_list h @ [x]) @ replicate k' (zero_seqitem z), s_len = Suc (length (mh_list h))\<rparr>"
    using assms by (cases k) (auto simp: mh_shaped_def slice_append_def slice_cap_def Let_def)
  then obtain k' where "mh_items (mh_Push grow z x h) =
      \<lparr>s_arr = (mh_list h @ [x]) @ replicate k' (zero_seqitem z), s_len = length (mh_list h @ [x])\<rparr>"
    by (auto simp: mh_Push_def)
  from mh_shapedI [OF this] show ?thesis by blast
qed

lemma mh_Pop_list:
  assumes "mh_shaped z k h" and "mh_list h = xs @ [x]" and pop: "mh_Pop z h = (y, h')"
  shows "y = x \<and> mh_list h' = xs \<and> mh_shaped z (Suc k) h' \<and>
    mh_journal h' = mh_journal h \<and> mh_swaps h' = mh_swaps h"
proof -
  have it: "mh_items h = \<lparr>s_arr = xs @ x # replicate k (zero_seqitem z), s_len = Suc (length xs)\<rparr>"
    using assms by (simp add: mh_shaped_def)
  then have "mh_items h' = \<lparr>s_arr = xs @ replicate (Suc k) (zero_seqitem z), s_len = length xs\<rparr>"
    using pop by (auto simp: mh_Pop_def Let_def list_update_append)
  note shape = mh_shapedI [OF this]
  have "mh_journal h' = mh_journal h" "mh_swaps h' = mh_swaps h" "y = s_arr (mh_items h) ! (s_len (mh_items h) - 1)"
    using pop by (auto simp: mh_Pop_def Let_def)
  then show ?thesis using shape it by (simp add: nth_append)
qed

text \<open>The routines change the array only by exchanges inside the heap.\<close>

lemma heap_up_inv:
  assumes "P h" and "j < mh_Len h"
    and "\<And>h i j. P h \<Longrightarrow> i < mh_Len h \<Longrightarrow> j < mh_Len h \<Longrightarrow> P (mh_Swap i j h)"
  shows "P (snd (heap_up it j h))"
  using assms
proof (induction it j h rule: heap_up.induct)
  case (1 it j h)
  then show ?case
    by (subst heap_up.simps) (auto simp: Let_def split: option.splits bool.splits)
qed

lemma heap_down_inv:
  assumes "P h" and "n \<le> mh_Len h"
    and "\<And>h i j. P h \<Longrightarrow> i < mh_Len h \<Longrightarrow> j < mh_Len h \<Longrightarrow> P (mh_Swap i j h)"
  shows "P (snd (heap_down it i n h))"
  using assms
proof (induction it i n h rule: heap_down.induct)
  case (1 it i n h)
  then show ?case
    by (subst heap_down.simps) (auto simp: Let_def split: option.splits bool.splits)
qed

section \<open>The journal\<close>

definition swaps_below :: "nat \<Rightarrow> nat list \<Rightarrow> bool" where
  "swaps_below n js = (even (length js) \<and> (\<forall>j \<in> set js. j < n))"

lemma swaps_below_simps [simp]: "swaps_below n []"
  "swaps_below n (js @ [i, j]) \<longleftrightarrow> swaps_below n js \<and> i < n \<and> j < n"
  by (auto simp: swaps_below_def)

lemma swaps_below_mono: "swaps_below n js \<Longrightarrow> n \<le> m \<Longrightarrow> swaps_below m js"
  by (auto simp: swaps_below_def)

lemma length_undo [simp]: "length (undo_swaps js xs) = length xs"
  by (induction js xs rule: undo_swaps.induct) auto

lemma undo_snoc: "even (length js) \<Longrightarrow> undo_swaps (js @ [i, j]) xs = undo_swaps js (swap_at i j xs)"
  by (induction js xs rule: undo_swaps.induct) auto

lemma undo_append: "swaps_below (length xs) js \<Longrightarrow> undo_swaps js (xs @ ys) = undo_swaps js xs @ ys"
  by (induction js xs rule: undo_swaps.induct) (auto simp: swaps_below_def swap_at_append)

lemma put_popped_app: "put_popped (length xs + length ps) ps (xs @ replicate (length ps) z @ ys) = xs @ rev ps @ ys"
proof (induction ps arbitrary: ys)
  case (Cons p ps)
  have "(xs @ replicate (length (p # ps)) z @ ys)[length xs + length ps := p] =
      xs @ replicate (length ps) z @ p # ys"
    by (simp add: list_update_append replicate_append_same [symmetric])
  then show ?case using Cons.IH [of "p # ys"] by simp
qed simp

text \<open>
  The journal holds enough to restore \<open>orig\<close>: with the popped entries put back and the exchanges
  undone, the array is \<open>orig\<close> followed by the entries that were pushed since.
\<close>

definition journalled :: "'a \<Rightarrow> 'a seqitem list \<Rightarrow> 'a seqitem list \<Rightarrow> 'a minheap \<Rightarrow> bool" where
  "journalled z orig popped h =
     (mh_journal h \<and> swaps_below (length (mh_list h) + length popped) (mh_swaps h) \<and>
      (\<exists>k. mh_shaped z k h \<and> length popped \<le> k) \<and>
      (\<exists>extra. undo_swaps (mh_swaps h) (mh_list h @ rev popped) = orig @ extra \<and>
         (popped \<noteq> [] \<longrightarrow> extra = [])))"

lemma journalled_On: "mh_shaped z k h \<Longrightarrow> journalled z (mh_list h) [] (mh_journalOn h)"
  by (auto simp: journalled_def mh_journalOn_def mh_list_def mh_shaped_def)

lemma journalled_Swap:
  assumes "journalled z orig popped h" and "i < mh_Len h" and "j < mh_Len h"
  shows "journalled z orig popped (mh_Swap i j h)"
proof -
  obtain k where k: "mh_shaped z k h" "length popped \<le> k"
    using assms(1) by (auto simp: journalled_def)
  have ij: "i < length (mh_list h)" "j < length (mh_list h)"
    using assms(2,3) mh_Len_list [OF k(1)] by auto
  have "undo_swaps (mh_swaps h @ [i, j]) (swap_at i j (mh_list h) @ rev popped) =
      undo_swaps (mh_swaps h) (mh_list h @ rev popped)"
    using assms(1) ij by (simp add: undo_snoc swap_at_append journalled_def swaps_below_def)
  then show ?thesis
    using assms(1) mh_Swap_list [OF k(1) ij] k(2) ij unfolding journalled_def by auto
qed

lemma journalled_Push:
  assumes "journalled z orig [] h"
  shows "journalled z orig [] (mh_Push grow z x h)"
proof -
  obtain k where k: "mh_shaped z k h" using assms by (auto simp: journalled_def)
  have j: "mh_journal (mh_Push grow z x h) = mh_journal h" "mh_swaps (mh_Push grow z x h) = mh_swaps h"
    by (simp_all add: mh_Push_def)
  show ?thesis
    using assms mh_Push_list [OF k, of grow x] unfolding journalled_def j
    by (auto simp: undo_append swaps_below_def)
qed

lemma journalled_Pop:
  assumes "journalled z orig popped h" and "mh_list h = xs @ [x]" and "mh_Pop z h = (y, h')"
    and "length (mh_list h) + length popped = length orig"
  shows "journalled z orig (popped @ [y]) h'"
proof -
  obtain k where k: "mh_shaped z k h" "length popped \<le> k" using assms(1) by (auto simp: journalled_def)
  note pop = mh_Pop_list [OF k(1) assms(2,3)]
  obtain extra where ex: "undo_swaps (mh_swaps h) (mh_list h @ rev popped) = orig @ extra"
    using assms(1) by (auto simp: journalled_def)
  have "length (orig @ extra) = length orig"
    using assms(4) arg_cong [OF ex, of length] by simp
  then have "undo_swaps (mh_swaps h') (mh_list h' @ rev (popped @ [y])) = orig"
    using ex pop assms(2) by simp
  then show ?thesis
    using assms(1,2) pop k(2) unfolding journalled_def by fastforce
qed

text \<open>Rolling back restores the array, slot for slot.\<close>

lemma rollback_exact:
  assumes "journalled z orig popped h" and "popped \<noteq> [] \<Longrightarrow> length (mh_list h) + length popped = length orig"
    and "length orig \<le> length (mh_list h) + length popped"
  shows "mh_list (mh_rollback z (length orig) popped h) = orig \<and>
    (\<exists>k. mh_shaped z k (mh_rollback z (length orig) popped h)) \<and>
    \<not> mh_journal (mh_rollback z (length orig) popped h) \<and> mh_swaps (mh_rollback z (length orig) popped h) = []"
proof -
  obtain k extra where k: "mh_shaped z k h" "length popped \<le> k"
    and ex: "undo_swaps (mh_swaps h) (mh_list h @ rev popped) = orig @ extra"
    using assms(1) by (auto simp: journalled_def)
  let ?z = "zero_seqitem z" and ?n = "length (mh_list h)" and ?p = "length popped"
  have arr: "s_arr (mh_items h) = mh_list h @ replicate ?p ?z @ replicate (k - ?p) ?z" and len: "s_len (mh_items h) = ?n"
    using k by (simp_all add: mh_shaped_def replicate_add [symmetric])
  have a1: "put_popped (length orig) popped (s_arr (mh_items h)) = mh_list h @ rev popped @ replicate (k - ?p) ?z"
    using put_popped_app [of "mh_list h" popped ?z "replicate (k - ?p) ?z"] assms(2) arr
    by (cases "popped = []") (auto simp: arr)
  have a2: "undo_swaps (mh_swaps h) (mh_list h @ rev popped @ replicate (k - ?p) ?z) =
      orig @ extra @ replicate (k - ?p) ?z"
    using undo_append [of "mh_list h @ rev popped" "mh_swaps h" "replicate (k - ?p) ?z"] ex assms(1)
    by (simp add: journalled_def)
  have lex: "length extra = ?n + ?p - length orig"
    using arg_cong [OF ex, of length] by simp
  have "mh_items (mh_rollback z (length orig) popped h) =
      \<lparr>s_arr = orig @ replicate (length extra + (k - ?p)) ?z, s_len = length orig\<rparr>"
  proof (cases "popped = []")
    case True
    then show ?thesis
      using assms(3) lex a1 a2
      by (simp add: mh_rollback_def Let_def len slice_clear_def slice_prefix_def mh_journalOff_def
          replicate_add [symmetric])
  next
    case False
    then have "?n + ?p = length orig" using assms(2) by simp
    then have "extra = []" "?n \<le> length orig" using lex by auto
    then show ?thesis
      by (simp add: mh_rollback_def Let_def a1 a2 len slice_clear_def slice_prefix_def mh_journalOff_def)
  qed
  from mh_shapedI [OF this] show ?thesis
    by (auto simp: mh_rollback_def Let_def mh_journalOff_def)
qed

section \<open>The heap property\<close>

definition par :: "nat \<Rightarrow> nat" where
  "par k = (k - 1) div 2"

lemma par_less: "0 < k \<Longrightarrow> par k < k"
  by (simp add: par_def)

lemma par_iff: "0 < k \<Longrightarrow> par k = i \<longleftrightarrow> k = 2 * i + 1 \<or> k = 2 * i + 2"
  by (auto simp: par_def)

text \<open>Among the first \<open>n\<close> positions, nothing below position \<open>lo\<close> or one of its successors is less
  than its parent.\<close>

definition heap_ordered :: "('b \<Rightarrow> 'b \<Rightarrow> bool) \<Rightarrow> nat \<Rightarrow> nat \<Rightarrow> 'b list \<Rightarrow> bool" where
  "heap_ordered R lo n xs = (\<forall>k < n. 0 < k \<and> lo \<le> par k \<longrightarrow> \<not> R (xs ! k) (xs ! par k))"

definition up_inv :: "('b \<Rightarrow> 'b \<Rightarrow> bool) \<Rightarrow> nat \<Rightarrow> 'b list \<Rightarrow> bool" where
  "up_inv R j xs =
     ((\<forall>k < length xs. 0 < k \<and> k \<noteq> j \<longrightarrow> \<not> R (xs ! k) (xs ! par k)) \<and>
      (\<forall>k < length xs. 0 < k \<and> par k = j \<and> 0 < j \<longrightarrow> \<not> R (xs ! k) (xs ! par j)))"

definition down_inv :: "('b \<Rightarrow> 'b \<Rightarrow> bool) \<Rightarrow> nat \<Rightarrow> nat \<Rightarrow> nat \<Rightarrow> 'b list \<Rightarrow> bool" where
  "down_inv R lo n i xs =
     ((\<forall>k < n. 0 < k \<and> lo \<le> par k \<and> par k \<noteq> i \<longrightarrow> \<not> R (xs ! k) (xs ! par k)) \<and>
      (\<forall>k < n. 0 < k \<and> par k = i \<and> 0 < i \<and> lo \<le> par i \<longrightarrow> \<not> R (xs ! k) (xs ! par i)))"

lemma par_below: "k < n \<Longrightarrow> 0 < k \<Longrightarrow> par k < n"
  using par_less [of k] by simp

lemma heap_ordered_take: "heap_ordered R lo n xs \<Longrightarrow> heap_ordered R lo n (take n xs)"
  unfolding heap_ordered_def by (simp add: par_below)

lemma up_inv_snoc:
  assumes "heap_ordered R 0 (length xs) xs"
  shows "up_inv R (length xs) (xs @ [x])"
  unfolding up_inv_def
proof (intro conjI allI impI)
  fix k
  assume "k < length (xs @ [x])" "0 < k \<and> k \<noteq> length xs"
  then have k: "k < length xs" "0 < k" by auto
  then show "\<not> R ((xs @ [x]) ! k) ((xs @ [x]) ! par k)"
    using assms par_below [OF k] by (simp add: heap_ordered_def nth_append)
next
  fix k
  assume "k < length (xs @ [x])" "0 < k \<and> par k = length xs \<and> 0 < length xs"
  then show "\<not> R ((xs @ [x]) ! k) ((xs @ [x]) ! par (length xs))"
    using par_less [of k] by simp
qed

locale weak_order =
  fixes R :: "'b \<Rightarrow> 'b \<Rightarrow> bool"
  assumes R_asym: "R a b \<Longrightarrow> \<not> R b a"
    and R_neg_trans: "\<not> R a b \<Longrightarrow> \<not> R b c \<Longrightarrow> \<not> R a c"
begin

lemma R_irrefl: "\<not> R a a"
  using R_asym by blast

lemma R_trans: "R a b \<Longrightarrow> R b c \<Longrightarrow> R a c"
  using R_asym R_neg_trans by blast

lemma up_step:
  assumes inv: "up_inv R j xs" and j: "0 < j" "j < length xs" and R: "R (xs ! j) (xs ! par j)"
  shows "up_inv R (par j) (swap_at (par j) j xs)"
proof -
  let ?p = "par j" and ?ys = "swap_at (par j) j xs"
  have p: "?p < j" "?p < length xs" using j par_less by (auto intro: less_trans)
  have nth: "k < length xs \<Longrightarrow> ?ys ! k = (if k = j then xs ! ?p else if k = ?p then xs ! j else xs ! k)" for k
    using nth_swap_at [of ?p xs j k] p j by auto
  have par: "k < length xs \<Longrightarrow> 0 < k \<Longrightarrow> par k < length xs" for k using par_less less_trans by blast
  have le: "k < length xs \<Longrightarrow> 0 < k \<Longrightarrow> k \<noteq> j \<Longrightarrow> \<not> R (xs ! k) (xs ! par k)"
    and le2: "k < length xs \<Longrightarrow> 0 < k \<Longrightarrow> par k = j \<Longrightarrow> \<not> R (xs ! k) (xs ! ?p)" for k
    using inv j unfolding up_inv_def by auto
  have nR: "\<not> R (xs ! ?p) (xs ! j)" using R R_asym by blast
  have "\<not> R (?ys ! k) (?ys ! par k)" if k: "k < length xs" "0 < k" "k \<noteq> ?p" for k
  proof (cases "k = j")
    case True
    then show ?thesis using nth [OF k(1)] nth [of ?p] p nR by simp
  next
    case False
    have eq: "?ys ! k = xs ! k" using nth [OF k(1)] False k by simp
    consider "par k = j" | "par k = ?p" | "par k \<noteq> j" "par k \<noteq> ?p" by blast
    then show ?thesis
    proof cases
      case 1
      then show ?thesis using le2 [OF k(1,2)] nth [of j] eq j by simp
    next
      case 2
      then have "?ys ! par k = xs ! j" using nth [of ?p] p by simp
      moreover have "\<not> R (xs ! k) (xs ! ?p)" using le [OF k(1,2) False] 2 by simp
      ultimately show ?thesis using eq nR R_neg_trans by metis
    next
      case 3
      then show ?thesis using le [OF k(1,2) False] nth [OF par [OF k(1,2)]] eq by simp
    qed
  qed
  moreover have "\<not> R (?ys ! k) (?ys ! par ?p)" if k: "k < length xs" "0 < k" "par k = ?p" "0 < ?p" for k
  proof -
    have pp: "?ys ! par ?p = xs ! par ?p"
      using nth [OF par [OF p(2) k(4)]] par_less [OF k(4)] p by simp
    have top: "\<not> R (xs ! ?p) (xs ! par ?p)" using le [OF p(2) k(4)] p by simp
    show ?thesis
    proof (cases "k = j")
      case True
      then show ?thesis using nth [OF k(1)] pp top by simp
    next
      case False
      then have "\<not> R (xs ! k) (xs ! ?p)" using le [OF k(1,2)] k(3) by simp
      moreover have "?ys ! k = xs ! k" using nth [OF k(1)] False k par_less [OF k(2)] by auto
      ultimately show ?thesis using pp top R_neg_trans by metis
    qed
  qed
  ultimately show ?thesis by (simp add: up_inv_def)
qed

lemma up_done:
  "up_inv R j xs \<Longrightarrow> (j = 0 \<or> \<not> R (xs ! j) (xs ! par j)) \<Longrightarrow> heap_ordered R 0 (length xs) xs"
  by (auto simp: up_inv_def heap_ordered_def)

lemma down_step:
  assumes inv: "down_inv R lo n i xs" and n: "n \<le> length xs" and j: "0 < j" "j < n" "par j = i" "lo \<le> i"
    and R: "R (xs ! j) (xs ! i)" and least: "\<And>k. k < n \<Longrightarrow> 0 < k \<Longrightarrow> par k = i \<Longrightarrow> \<not> R (xs ! k) (xs ! j)"
  shows "down_inv R lo n j (swap_at i j xs)"
proof -
  let ?ys = "swap_at i j xs"
  have i: "i < j" "i < length xs" using j par_less n by (auto intro: less_trans less_le_trans)
  have nth: "k < n \<Longrightarrow> ?ys ! k = (if k = j then xs ! i else if k = i then xs ! j else xs ! k)" for k
    using nth_swap_at [of i xs j k] i j n by auto
  have par: "k < n \<Longrightarrow> 0 < k \<Longrightarrow> par k < n" for k using par_less less_trans by blast
  have le: "k < n \<Longrightarrow> 0 < k \<Longrightarrow> lo \<le> par k \<Longrightarrow> par k \<noteq> i \<Longrightarrow> \<not> R (xs ! k) (xs ! par k)"
    and le2: "k < n \<Longrightarrow> 0 < k \<Longrightarrow> par k = i \<Longrightarrow> 0 < i \<Longrightarrow> lo \<le> par i \<Longrightarrow> \<not> R (xs ! k) (xs ! par i)" for k
    using inv unfolding down_inv_def by auto
  have nR: "\<not> R (xs ! i) (xs ! j)" using R R_asym by blast
  have "\<not> R (?ys ! k) (?ys ! par k)" if k: "k < n" "0 < k" "lo \<le> par k" "par k \<noteq> j" for k
  proof (cases "par k = i")
    case True
    then have "?ys ! par k = xs ! j" using nth [OF par [OF k(1,2)]] i by simp
    moreover have "k \<noteq> i" using True par_less [OF k(2)] by auto
    ultimately show ?thesis using nth [OF k(1)] least [OF k(1,2) True] nR by auto
  next
    case False
    then have p: "?ys ! par k = xs ! par k" using nth [OF par [OF k(1,2)]] k by simp
    have "k \<noteq> j" using False j by auto
    show ?thesis
    proof (cases "k = i")
      case True
      then show ?thesis using p nth [OF k(1)] i le2 [of j] j k by auto
    next
      case ne: False
      then show ?thesis using p nth [OF k(1)] \<open>k \<noteq> j\<close> le [OF k(1-3) False] by simp
    qed
  qed
  moreover have "\<not> R (?ys ! k) (?ys ! par j)" if k: "k < n" "0 < k" "par k = j" for k
  proof -
    have "k \<noteq> j" "k \<noteq> i" using par_less [OF k(2)] k(3) i by auto
    then show ?thesis using nth [OF k(1)] nth [of i] i j k le [OF k(1,2)] by (auto intro: less_trans)
  qed
  ultimately show ?thesis by (simp add: down_inv_def)
qed

lemma down_done:
  "down_inv R lo n i xs \<Longrightarrow> (\<And>k. k < n \<Longrightarrow> 0 < k \<Longrightarrow> par k = i \<Longrightarrow> \<not> R (xs ! k) (xs ! i)) \<Longrightarrow>
     heap_ordered R lo n xs"
  by (auto simp: down_inv_def heap_ordered_def)

lemma down_start: "heap_ordered R (Suc i) n xs \<Longrightarrow> down_inv R i n i xs"
  using par_less [of i] by (auto simp: down_inv_def heap_ordered_def)

text \<open>The root is least.\<close>

lemma heap_root: "heap_ordered R 0 n xs \<Longrightarrow> k < n \<Longrightarrow> \<not> R (xs ! k) (xs ! 0)"
proof (induction k rule: less_induct)
  case (less k)
  show ?case
  proof (cases "k = 0")
    case True
    then show ?thesis using R_irrefl by simp
  next
    case False
    then have "par k < k" using par_less by simp
    then have "\<not> R (xs ! par k) (xs ! 0)" "\<not> R (xs ! k) (xs ! par k)"
      using less False by (auto simp: heap_ordered_def)
    then show ?thesis using R_neg_trans by blast
  qed
qed

end

section \<open>Items with a lawful order\<close>

text \<open>The order of a priority backing: the caller's order, ties broken by the insert sequence.\<close>

definition seq_lt :: "('a \<Rightarrow> 'a \<Rightarrow> bool) \<Rightarrow> 'a seqitem \<Rightarrow> 'a seqitem \<Rightarrow> bool" where
  "seq_lt lt a b =
     (lt (si_Item a) (si_Item b) \<or> \<not> lt (si_Item b) (si_Item a) \<and> si_Seq a < si_Seq b)"

locale lawful_item =
  fixes it :: "'a item"
    and lt :: "'a \<Rightarrow> 'a \<Rightarrow> bool"
  assumes less_total: "it_less it a b = Some (lt a b)"
    and lt_asym: "lt a b \<Longrightarrow> \<not> lt b a"
    and lt_neg_trans: "\<not> lt a b \<Longrightarrow> \<not> lt b c \<Longrightarrow> \<not> lt a c"

sublocale lawful_item \<subseteq> po: weak_order "seq_lt lt"
proof
  fix a b c :: "'a seqitem"
  show "seq_lt lt a b \<Longrightarrow> \<not> seq_lt lt b a"
    using lt_asym by (auto simp: seq_lt_def)
  show "\<not> seq_lt lt a b \<Longrightarrow> \<not> seq_lt lt b c \<Longrightarrow> \<not> seq_lt lt a c"
    using lt_neg_trans [of "si_Item a" "si_Item b" "si_Item c"] lt_neg_trans [of "si_Item b" "si_Item c" "si_Item a"]
      lt_neg_trans [of "si_Item c" "si_Item a" "si_Item b"]
    by (auto simp: seq_lt_def)
qed

context lawful_item
begin

lemma PrioritySeqLess_total: "PrioritySeqLess it a b = Some (seq_lt lt a b)"
  by (simp add: PrioritySeqLess_def less_total seq_lt_def)

lemma mh_Less_total:
  assumes "mh_shaped z k h" and "i < length (mh_list h)" and "j < length (mh_list h)"
  shows "mh_Less it h i j = Some (seq_lt lt (mh_list h ! i) (mh_list h ! j))"
  using assms by (simp add: mh_Less_def PrioritySeqLess_total mh_shaped_def nth_append)

lemma heap_up_sound:
  assumes "mh_shaped z k h" and "up_inv (seq_lt lt) j (mh_list h)" and "j < length (mh_list h)"
    and "heap_up it j h = (b, h')"
  shows "b \<and> mh_shaped z k h' \<and> heap_ordered (seq_lt lt) 0 (length (mh_list h')) (mh_list h') \<and>
    mset (mh_list h') = mset (mh_list h)"
  using assms
proof (induction j arbitrary: h rule: less_induct)
  case (less j)
  note shaped = less.prems(1) and j = less.prems(3)
  show ?case
  proof (cases "j = 0 \<or> \<not> seq_lt lt (mh_list h ! j) (mh_list h ! par j)")
    case True
    then have "heap_up it j h = (True, h)"
      using mh_Less_total [OF shaped j, of "par j"] par_less [of j] j
      by (subst heap_up.simps) (auto simp: Let_def par_def)
    then show ?thesis using less.prems True po.up_done by auto
  next
    case False
    then have p: "par j < length (mh_list h)" "par j < j" using j par_less by (auto intro: less_trans)
    have step: "heap_up it j h = heap_up it (par j) (mh_Swap (par j) j h)"
      using False p mh_Less_total [OF shaped j p(1)]
      by (subst heap_up.simps) (auto simp: Let_def par_def)
    note sw = mh_Swap_list [OF shaped p(1) j]
    have "up_inv (seq_lt lt) (par j) (mh_list (mh_Swap (par j) j h))"
      using po.up_step [OF less.prems(2) _ j] False sw by auto
    then show ?thesis
      using less.IH [OF p(2), of "mh_Swap (par j) j h"] sw step less.prems(4) p j by auto
  qed
qed

lemma heap_down_sound:
  assumes "mh_shaped z k h" and "down_inv (seq_lt lt) lo n i (mh_list h)" and "n \<le> length (mh_list h)"
    and "lo \<le> i" and "heap_down it i n h = (b, h')"
  shows "b \<and> mh_shaped z k h' \<and> heap_ordered (seq_lt lt) lo n (mh_list h') \<and>
    mset (mh_list h') = mset (mh_list h) \<and> drop n (mh_list h') = drop n (mh_list h)"
  using assms
proof (induction "n - i" arbitrary: i h rule: less_induct)
  case (less i h)
  note shaped = less.prems(1) and n = less.prems(3)
  let ?xs = "mh_list h" and ?R = "seq_lt lt"
  show ?case
  proof (cases "n \<le> 2 * i + 1")
    case True
    then have "heap_down it i n h = (True, h)" by (subst heap_down.simps) (simp add: Let_def)
    moreover have "\<And>k. k < n \<Longrightarrow> 0 < k \<Longrightarrow> par k \<noteq> i" using True by (auto simp: par_iff)
    ultimately show ?thesis using less.prems po.down_done [OF less.prems(2)] by auto
  next
    case False
    define right where "right = (2 * i + 2 < n \<and> ?R (?xs ! (2 * i + 2)) (?xs ! (2 * i + 1)))"
    define j where "j = (if right then 2 * i + 2 else 2 * i + 1)"
    have j: "0 < j" "j < n" "par j = i" "i < j" "j < length ?xs" "i < length ?xs"
      using False n by (auto simp: j_def right_def par_def)
    have least: "\<not> ?R (?xs ! k) (?xs ! j)" if "k < n" "0 < k" "par k = i" for k
      using that po.R_irrefl po.R_asym by (auto simp: par_iff j_def right_def)
    have eq: "heap_down it i n h =
        (if ?R (?xs ! j) (?xs ! i) then heap_down it j n (mh_Swap i j h) else (True, h))"
    proof -
      have l1: "(if 2 * i + 1 + 1 < n then mh_Less it h (2 * i + 1 + 1) (2 * i + 1) else Some False) = Some right"
        using n mh_Less_total [OF shaped, of "2 * i + 2" "2 * i + 1"] by (auto simp: right_def)
      have l2: "mh_Less it h (if right then 2 * i + 1 + 1 else 2 * i + 1) i = Some (?R (?xs ! j) (?xs ! i))"
        using mh_Less_total [OF shaped j(5,6)] by (cases right) (simp_all add: j_def)
      show ?thesis
        using False unfolding heap_down.simps [of it i n h] Let_def l1 option.case l2
        by (simp add: j_def split: bool.splits)
    qed
    show ?thesis
    proof (cases "?R (?xs ! j) (?xs ! i)")
      case True
      note sw = mh_Swap_list [OF shaped j(6) j(5)]
      have "down_inv ?R lo n j (mh_list (mh_Swap i j h))"
        unfolding conjunct1 [OF sw]
        by (rule po.down_step [OF less.prems(2) n j(1) j(2) j(3) less.prems(4) True least])
      moreover have "drop n (swap_at i j ?xs) = drop n ?xs"
        using j by (simp add: swap_at_def)
      ultimately show ?thesis
        using less.hyps [of j "mh_Swap i j h"] sw eq True less.prems j by auto
    next
      case R: False
      have "\<not> ?R (?xs ! k) (?xs ! i)" if "k < n" "0 < k" "par k = i" for k
        using least [OF that] R po.R_neg_trans by blast
      then show ?thesis using eq R less.prems po.down_done [OF less.prems(2)] by auto
    qed
  qed
qed

lemma heap_Push_sound:
  assumes "mh_shaped (it_zero it) k h" and heap: "heap_ordered (seq_lt lt) 0 (length (mh_list h)) (mh_list h)"
    and push: "heap_Push it grow x h = (b, h')"
  shows "b \<and> (\<exists>k. mh_shaped (it_zero it) k h') \<and>
    heap_ordered (seq_lt lt) 0 (length (mh_list h')) (mh_list h') \<and> mset (mh_list h') = add_mset x (mset (mh_list h))"
proof -
  let ?h = "mh_Push grow (it_zero it) x h"
  obtain k' where h: "mh_list ?h = mh_list h @ [x]" "mh_shaped (it_zero it) k' ?h"
    using mh_Push_list [OF assms(1), of grow x] by auto
  have "up_inv (seq_lt lt) (length (mh_list h)) (mh_list ?h)"
    unfolding h(1) by (rule up_inv_snoc [OF heap])
  moreover have "heap_up it (length (mh_list h)) ?h = (b, h')"
    using push h by (simp add: heap_Push_def Let_def mh_Len_list [OF h(2)])
  ultimately show ?thesis using heap_up_sound [OF h(2)] h by auto
qed

lemma heap_Pop_sound:
  assumes shaped: "mh_shaped (it_zero it) k h" and heap: "heap_ordered (seq_lt lt) 0 (length (mh_list h)) (mh_list h)"
    and ne: "mh_list h \<noteq> []" and pop: "heap_Pop it h = (r, h')"
  shows "r = Some (mh_list h ! 0) \<and> mh_shaped (it_zero it) (Suc k) h' \<and>
    heap_ordered (seq_lt lt) 0 (length (mh_list h')) (mh_list h') \<and>
    mset (mh_list h) = add_mset (mh_list h ! 0) (mset (mh_list h'))"
proof -
  let ?xs = "mh_list h" and ?n = "length (mh_list h) - 1"
  have n: "0 < length ?xs" "?n < length ?xs" using ne by auto
  note sw = mh_Swap_list [OF shaped n]
  have nth: "k < ?n \<Longrightarrow> 0 < k \<Longrightarrow> swap_at 0 ?n ?xs ! k = ?xs ! k" for k
    using nth_swap_at [OF n, of k] by simp
  have nth_par: "k < ?n \<Longrightarrow> 0 < k \<Longrightarrow> Suc 0 \<le> par k \<Longrightarrow> swap_at 0 ?n ?xs ! par k = ?xs ! par k" for k
    using nth [of "par k"] par_less [of k] by linarith
  have "heap_ordered (seq_lt lt) (Suc 0) ?n (mh_list (mh_Swap 0 ?n h))"
    using heap sw nth nth_par by (auto simp: heap_ordered_def)
  note down = po.down_start [OF this]
  obtain b h1 where h1: "heap_down it 0 ?n (mh_Swap 0 ?n h) = (b, h1)" by fastforce
  note res = heap_down_sound [OF conjunct2 [OF sw] down _ _ h1]
  have "drop ?n (swap_at 0 ?n ?xs) = [?xs ! 0]"
    using n nth_swap_at [OF n n(2)] Cons_nth_drop_Suc [of ?n "swap_at 0 ?n ?xs"] by simp
  then have split: "b" "mh_shaped (it_zero it) k h1" "heap_ordered (seq_lt lt) 0 ?n (mh_list h1)"
      "mset (mh_list h1) = mset ?xs" "drop ?n (mh_list h1) = [?xs ! 0]"
    using res sw n by auto
  then have list1: "mh_list h1 = take ?n (mh_list h1) @ [?xs ! 0]" by (metis append_take_drop_id)
  have len: "length (take ?n (mh_list h1)) = ?n"
    using mset_eq_length [OF split(4)] by simp
  obtain y where y: "mh_Pop (it_zero it) h1 = (y, h')" "r = Some y"
    using pop h1 split(1) by (auto simp: heap_Pop_def Let_def mh_Len_list [OF shaped] split: prod.splits)
  note fin = mh_Pop_list [OF split(2) list1 y(1)]
  have "heap_ordered (seq_lt lt) 0 (length (mh_list h')) (mh_list h')"
    using heap_ordered_take [OF split(3)] fin len by simp
  moreover have "mset ?xs = add_mset (?xs ! 0) (mset (mh_list h'))"
    using arg_cong [OF list1, of mset] split(4) fin by simp
  ultimately show ?thesis using fin y by simp
qed

lemma heap_Init_loop_sound:
  assumes "mh_shaped z k h" and "n = length (mh_list h)" and "heap_ordered (seq_lt lt) i n (mh_list h)"
    and "heap_Init_loop it n i h = (b, h')"
  shows "b \<and> mh_shaped z k h' \<and> heap_ordered (seq_lt lt) 0 n (mh_list h') \<and> mset (mh_list h') = mset (mh_list h)"
  using assms
proof (induction i arbitrary: h)
  case (Suc i)
  obtain b1 h1 where h1: "heap_down it i n h = (b1, h1)" by fastforce
  have "b1 \<and> mh_shaped z k h1 \<and> heap_ordered (seq_lt lt) i n (mh_list h1) \<and> mset (mh_list h1) = mset (mh_list h)"
    using heap_down_sound [OF Suc.prems(1) po.down_start [OF Suc.prems(3)] _ _ h1] Suc.prems(2) by auto
  then show ?case
    using Suc.IH [of h1] Suc.prems h1 mset_eq_length [of "mh_list h1" "mh_list h"] by auto
qed auto

lemma heap_Init_sound:
  assumes "mh_shaped z k h" and "heap_Init it h = (b, h')"
  shows "b \<and> mh_shaped z k h' \<and> heap_ordered (seq_lt lt) 0 (length (mh_list h')) (mh_list h') \<and>
    mset (mh_list h') = mset (mh_list h)"
proof -
  have "heap_ordered (seq_lt lt) (length (mh_list h) div 2) (length (mh_list h)) (mh_list h)"
    by (auto simp: heap_ordered_def par_def)
  then show ?thesis
    using heap_Init_loop_sound [OF assms(1) refl] assms(2) mset_eq_length
    unfolding heap_Init_def mh_Len_list [OF assms(1)] by metis
qed

end

section \<open>Sorting\<close>

lemma mset_sort_insert: "mset (snd (sort_insert it x left right)) = add_mset x (mset left + mset right)"
  by (induction it x left right rule: sort_insert.induct) (auto split: option.splits bool.splits)

lemma mset_sort_loop: "mset (snd (sort_loop it front xs)) = mset front + mset xs"
proof (induction it front xs rule: sort_loop.induct)
  case (2 it front x xs)
  then show ?case
    using mset_sort_insert [of it x "rev front" "[]"] by (auto split: prod.splits bool.splits)
qed simp

text \<open>Whatever the comparator does, the sort permutes.\<close>

lemma mset_SliceStable [simp]: "mset (snd (SliceStable it xs)) = mset xs"
  by (simp add: SliceStable_def mset_sort_loop)

definition psorted :: "'a item \<Rightarrow> 'a seqitem list \<Rightarrow> 'a seqitem list" where
  "psorted it xs = snd (SliceStable it xs)"

lemma mset_psorted [simp]: "mset (psorted it xs) = mset xs"
  by (simp add: psorted_def)

lemma set_psorted [simp]: "set (psorted it xs) = set xs"
  by (metis mset_psorted set_mset_mset)

lemma length_psorted [simp]: "length (psorted it xs) = length xs"
  by (metis mset_psorted size_mset)

abbreviation seqs_distinct :: "'a seqitem list \<Rightarrow> bool" where
  "seqs_distinct xs \<equiv> distinct (map si_Seq xs)"

lemma seqs_distinct_mset: "mset xs = mset ys \<Longrightarrow> seqs_distinct xs = seqs_distinct ys"
  by (metis mset_map mset_eq_imp_distinct_iff)

text \<open>The place of the newest item: before the first one that it is strictly less than.\<close>

fun place_seq :: "('a \<Rightarrow> 'a \<Rightarrow> bool) \<Rightarrow> 'a seqitem list \<Rightarrow> 'a seqitem \<Rightarrow> 'a seqitem list" where
  "place_seq lt [] x = [x]"
| "place_seq lt (y # ys) x =
     (if lt (si_Item x) (si_Item y) then x # y # ys else y # place_seq lt ys x)"

lemma mset_place_seq [simp]: "mset (place_seq lt ys x) = add_mset x (mset ys)"
  by (induction ys) auto

lemma set_place_seq [simp]: "set (place_seq lt ys x) = insert x (set ys)"
  by (induction ys) auto

context lawful_item
begin

abbreviation "in_order \<equiv> sorted_wrt (\<lambda>a b. \<not> seq_lt lt b a)"

lemma sort_insert_sound:
  assumes "in_order (rev left @ right)" and "\<forall>y \<in> set right. seq_lt lt x y"
  shows "fst (sort_insert it x left right) \<and> in_order (snd (sort_insert it x left right))"
  using assms
proof (induction left arbitrary: right)
  case Nil
  then show ?case using po.R_asym by auto
next
  case (Cons y left)
  show ?case
  proof (cases "seq_lt lt x y")
    case True
    then show ?thesis
      using Cons.IH [of "y # right"] Cons.prems by (auto simp: PrioritySeqLess_total)
  next
    case False
    have "\<not> seq_lt lt x z" if "z \<in> set left" for z
      using that False Cons.prems(1) po.R_neg_trans by (auto simp: sorted_wrt_append)
    then show ?thesis
      using False Cons.prems po.R_asym by (auto simp: PrioritySeqLess_total sorted_wrt_append)
  qed
qed

lemma sort_loop_sound: "in_order front \<Longrightarrow> fst (sort_loop it front xs) \<and> in_order (snd (sort_loop it front xs))"
proof (induction xs arbitrary: front)
  case (Cons x xs)
  obtain b front1 where f: "sort_insert it x (rev front) [] = (b, front1)" by fastforce
  have "b \<and> in_order front1" using sort_insert_sound [of "rev front" "[]" x] Cons.prems f by simp
  then show ?case using Cons.IH [of front1] f by simp
qed simp

lemma SliceStable_total: "SliceStable it xs = (True, psorted it xs)"
  using sort_loop_sound [of "[]" xs] by (simp add: psorted_def SliceStable_def prod_eq_iff)

lemma psorted_in_order: "in_order (psorted it xs)"
  using sort_loop_sound [of "[]" xs] by (simp add: psorted_def SliceStable_def)

lemma seq_lt_total: "a \<in> set xs \<Longrightarrow> b \<in> set xs \<Longrightarrow> seqs_distinct xs \<Longrightarrow> a \<noteq> b \<Longrightarrow> seq_lt lt a b \<or> seq_lt lt b a"
  by (auto simp: seq_lt_def distinct_map inj_on_def) (metis antisym_conv3)

text \<open>With distinct sequence numbers there is one sorted arrangement.\<close>

lemma in_order_unique:
  "in_order xs \<Longrightarrow> in_order ys \<Longrightarrow> mset xs = mset ys \<Longrightarrow> seqs_distinct xs \<Longrightarrow> xs = ys"
proof (induction xs arbitrary: ys)
  case (Cons x xs)
  then obtain y ys' where ys: "ys = y # ys'" by (cases ys) auto
  have mem: "x \<in> set ys" "y \<in> set (x # xs)"
    using Cons.prems(3) ys by (metis list.set_intros(1) mset_eq_setD)+
  have "x = y"
  proof (rule ccontr)
    assume "x \<noteq> y"
    then have "\<not> seq_lt lt x y" "\<not> seq_lt lt y x"
      using Cons.prems(1,2) mem ys by auto
    then show False using seq_lt_total [of x "x # xs" y] mem Cons.prems(4) \<open>x \<noteq> y\<close> by auto
  qed
  then show ?case using Cons.IH [of ys'] Cons.prems ys by auto
qed simp

lemma psorted_unique:
  "in_order ys \<Longrightarrow> mset ys = mset xs \<Longrightarrow> seqs_distinct xs \<Longrightarrow> psorted it xs = ys"
  using in_order_unique [OF psorted_in_order] seqs_distinct_mset by (metis mset_psorted)

lemma psorted_min:
  assumes "mset xs = add_mset x (mset ys)" and "\<forall>y \<in> set ys. \<not> seq_lt lt y x" and "seqs_distinct xs"
  shows "psorted it xs = x # psorted it ys"
  using assms psorted_in_order [of ys] by (intro psorted_unique) auto

lemma in_order_place_seq:
  "in_order ys \<Longrightarrow> \<forall>y \<in> set ys. si_Seq y < si_Seq x \<Longrightarrow> in_order (place_seq lt ys x)"
proof (induction ys)
  case (Cons y ys)
  show ?case
  proof (cases "lt (si_Item x) (si_Item y)")
    case True
    then have "seq_lt lt x y" by (simp add: seq_lt_def)
    then have "\<not> seq_lt lt y x" by (rule po.R_asym)
    then have "\<not> seq_lt lt z x" if "z \<in> set (y # ys)" for z
      using that Cons.prems(1) po.R_neg_trans [of z y x] by auto
    then show ?thesis using True Cons.prems by simp
  next
    case False
    then have "\<not> seq_lt lt x y" using Cons.prems(2) by (auto simp: seq_lt_def)
    then show ?thesis using False Cons by simp
  qed
qed simp

lemma psorted_newest:
  assumes "mset ys = add_mset x (mset xs)" and "\<forall>y \<in> set xs. si_Seq y < si_Seq x" and "seqs_distinct ys"
  shows "psorted it ys = place_seq lt (psorted it xs) x"
  using assms psorted_in_order [of xs] by (intro psorted_unique in_order_place_seq) auto

end

end
