(* ===== verification/Builtin_Items.thy ===== *)
theory Builtin_Items
  imports Min_Heap
begin

text \<open>
  \<open>builtin.go\<close>: the item types the library provides. \<open>Number\<close> wraps any numeric type, so its
  value is what \<open>reflect\<close> reads out of it: an integer of a signed kind sign-extended to 64 bits,
  one of an unsigned kind zero-extended, or a float as its IEEE-754 double. The seeded hash of
  \<open>hash/maphash\<close> is a parameter, a function of the bytes. Every built-in type is shown to be a lawful
  item: a total order by priority, and a hash that agrees with \<open>Equal\<close>.
\<close>

unbundle bit_operations_syntax

section \<open>Values\<close>

text \<open>A double is its bit pattern; \<open>NaN\<close> has all exponent bits set and a mantissa.\<close>

type_synonym float64 = u64

definition float_sign :: float64 where
  "float_sign = push_bit 63 1"

definition float_is_nan :: "float64 \<Rightarrow> bool" where
  "float_is_nan x =
     (take_bit 11 (drop_bit 52 x) = 2047 \<and> take_bit 52 x \<noteq> 0)"

definition float_is_zero :: "float64 \<Rightarrow> bool" where
  "float_is_zero x = (x = 0 \<or> x = float_sign)"

text \<open>The operator \<open>==\<close> on floats.\<close>

definition float_eq :: "float64 \<Rightarrow> float64 \<Rightarrow> bool" where
  "float_eq x y = (\<not> float_is_nan x \<and> \<not> float_is_nan y \<and>
     (x = y \<or> float_is_zero x \<and> float_is_zero y))"

text \<open>\<open>x + 0.0\<close>: the sum of a negative zero and a positive one is positive, a \<open>NaN\<close> comes back
  quiet, and every other value is unchanged.\<close>

definition float_add_zero :: "float64 \<Rightarrow> float64" where
  "float_add_zero x =
     (if float_is_nan x then x OR push_bit 51 1 else if float_is_zero x then 0 else x)"

datatype numeric = SignedInt u64 | UnsignedInt u64 | Float float64

fun numeric_eq :: "numeric \<Rightarrow> numeric \<Rightarrow> bool" where
  "numeric_eq (SignedInt a) (SignedInt b) = (a = b)"
| "numeric_eq (UnsignedInt a) (UnsignedInt b) = (a = b)"
| "numeric_eq (Float a) (Float b) = float_eq a b"
| "numeric_eq _ _ = False"

section \<open>Number\<close>

record number =
  num_V :: numeric
  num_P :: u64

definition Number_Less :: "number \<Rightarrow> number \<Rightarrow> bool" where
  "Number_Less u other = (num_P u > num_P other)"

definition Number_Equal :: "number \<Rightarrow> number \<Rightarrow> bool" where
  "Number_Equal u other = numeric_eq (num_V u) (num_V other)"

definition Number_Priority :: "number \<Rightarrow> u64" where
  "Number_Priority u = num_P u"

definition Number_Hash :: "number \<Rightarrow> u64" where
  "Number_Hash u =
     (case num_V u of
        SignedInt i \<Rightarrow> i XOR push_bit 63 1
      | UnsignedInt i \<Rightarrow> i
      | Float x \<Rightarrow> float_add_zero x)"

text \<open>The zero value of \<open>Number[T]\<close> depends on the kind of \<open>T\<close>.\<close>

definition number_item :: "numeric \<Rightarrow> number item" where
  "number_item zero = \<lparr>it_less = \<lambda>a b. Some (Number_Less a b), it_equal = Number_Equal,
     it_priority = Number_Priority, it_hash = \<lambda>a. Some (Number_Hash a),
     it_zero = \<lparr>num_V = zero, num_P = 0\<rparr>\<rparr>"

section \<open>String and Bytes\<close>

record gostring =
  str_V :: "8 word list"
  str_P :: u64

definition String_Less :: "gostring \<Rightarrow> gostring \<Rightarrow> bool" where
  "String_Less u other = (str_P u > str_P other)"

definition String_Equal :: "gostring \<Rightarrow> gostring \<Rightarrow> bool" where
  "String_Equal u other = (str_V u = str_V other)"

definition String_Priority :: "gostring \<Rightarrow> u64" where
  "String_Priority u = str_P u"

definition String_Hash :: "(8 word list \<Rightarrow> u64) \<Rightarrow> gostring \<Rightarrow> u64" where
  "String_Hash maphash u = maphash (str_V u)"

definition string_item :: "(8 word list \<Rightarrow> u64) \<Rightarrow> gostring item" where
  "string_item maphash = \<lparr>it_less = \<lambda>a b. Some (String_Less a b), it_equal = String_Equal,
     it_priority = String_Priority, it_hash = \<lambda>a. Some (String_Hash maphash a),
     it_zero = \<lparr>str_V = [], str_P = 0\<rparr>\<rparr>"

text \<open>A byte slice can be nil; \<open>bytes.Equal\<close> does not tell a nil slice from an empty one, and neither
  does the hash, which reads the bytes.\<close>

record gobytes =
  byt_V :: "8 word list option"
  byt_P :: u64

definition byte_list :: "8 word list option \<Rightarrow> 8 word list" where
  "byte_list v = (case v of None \<Rightarrow> [] | Some bs \<Rightarrow> bs)"

definition Bytes_Less :: "gobytes \<Rightarrow> gobytes \<Rightarrow> bool" where
  "Bytes_Less u other = (byt_P u > byt_P other)"

definition Bytes_Equal :: "gobytes \<Rightarrow> gobytes \<Rightarrow> bool" where
  "Bytes_Equal u other = (byte_list (byt_V u) = byte_list (byt_V other))"

definition Bytes_Priority :: "gobytes \<Rightarrow> u64" where
  "Bytes_Priority u = byt_P u"

definition Bytes_Hash :: "(8 word list \<Rightarrow> u64) \<Rightarrow> gobytes \<Rightarrow> u64" where
  "Bytes_Hash maphash u = maphash (byte_list (byt_V u))"

definition bytes_item :: "(8 word list \<Rightarrow> u64) \<Rightarrow> gobytes item" where
  "bytes_item maphash = \<lparr>it_less = \<lambda>a b. Some (Bytes_Less a b), it_equal = Bytes_Equal,
     it_priority = Bytes_Priority, it_hash = \<lambda>a. Some (Bytes_Hash maphash a),
     it_zero = \<lparr>byt_V = None, byt_P = 0\<rparr>\<rparr>"

section \<open>Value\<close>

text \<open>The caller supplies equality and hash; a nil function panics (\<open>None\<close>).\<close>

record 'v govalue =
  val_V :: 'v
  val_P :: u64
  val_Equaler :: "('v \<Rightarrow> 'v \<Rightarrow> bool) option"
  val_Hasher :: "('v \<Rightarrow> u64) option"

definition Value_Less :: "'v govalue \<Rightarrow> 'v govalue \<Rightarrow> bool" where
  "Value_Less u other = (val_P u > val_P other)"

definition Value_Equal :: "'v govalue \<Rightarrow> 'v govalue \<Rightarrow> bool option" where
  "Value_Equal u other = map_option (\<lambda>eq. eq (val_V u) (val_V other)) (val_Equaler u)"

definition Value_Priority :: "'v govalue \<Rightarrow> u64" where
  "Value_Priority u = val_P u"

definition Value_Hash :: "'v govalue \<Rightarrow> u64 option" where
  "Value_Hash u = map_option (\<lambda>h. h (val_V u)) (val_Hasher u)"

section \<open>Lawfulness\<close>

text \<open>Every built-in order is that of the priorities, reversed.\<close>

interpretation num: lawful_item "number_item zero" Number_Less for zero
  by unfold_locales (auto simp: number_item_def Number_Less_def)

interpretation str: lawful_item "string_item maphash" String_Less for maphash
  by unfold_locales (auto simp: string_item_def String_Less_def)

interpretation byt: lawful_item "bytes_item maphash" Bytes_Less for maphash
  by unfold_locales (auto simp: bytes_item_def Bytes_Less_def)

text \<open>What \<open>Item.Hash\<close> must satisfy for the indexed backings.\<close>

definition hash_agrees :: "'a item \<Rightarrow> bool" where
  "hash_agrees it = (\<forall>a b. it_equal it a b \<longrightarrow> it_hash it a \<noteq> None \<and> it_hash it a = it_hash it b)"

lemma float_eq_hash: "float_eq x y \<Longrightarrow> float_add_zero x = float_add_zero y"
  by (auto simp: float_eq_def float_add_zero_def)

lemma numeric_eq_hash: "numeric_eq (num_V a) (num_V b) \<Longrightarrow> Number_Hash a = Number_Hash b"
  by (cases "num_V a"; cases "num_V b") (auto simp: Number_Hash_def float_eq_hash)

text \<open>
  The hashes of the built-in items (C37). For \<open>Number\<close> of every kind, for \<open>String\<close> and for \<open>Bytes\<close>, items
  that are \<open>Equal\<close> have the same \<open>Hash\<close>, for whatever function \<open>maphash\<close> computes; in particular the two
  float zeros, which are equal, hash alike. On integers of one kind the hash is injective: it
  distinguishes items that are not \<open>Equal\<close>.
\<close>

theorem builtin_hash_agrees:
  "hash_agrees (number_item zero) \<and> hash_agrees (string_item maphash) \<and> hash_agrees (bytes_item maphash) \<and>
   inj (\<lambda>i. Number_Hash \<lparr>num_V = SignedInt i, num_P = p\<rparr>) \<and>
   inj (\<lambda>i. Number_Hash \<lparr>num_V = UnsignedInt i, num_P = p\<rparr>)"
proof (intro conjI)
  show "hash_agrees (number_item zero)"
    using numeric_eq_hash by (simp add: hash_agrees_def number_item_def Number_Equal_def)
  show "hash_agrees (string_item maphash)"
    by (auto simp: hash_agrees_def string_item_def String_Equal_def String_Hash_def)
  show "hash_agrees (bytes_item maphash)"
    by (auto simp: hash_agrees_def bytes_item_def Bytes_Equal_def Bytes_Hash_def)
  have undo: "(i XOR m) XOR m = i" for i m :: u64
    by (simp add: xor.assoc)
  have "i XOR m = j XOR m \<Longrightarrow> i = j" for i j m :: u64
    using undo [of i m] undo [of j m] by argo
  then show "inj (\<lambda>i. Number_Hash \<lparr>num_V = SignedInt i, num_P = p\<rparr>)"
    by (auto simp: inj_def Number_Hash_def)
  show "inj (\<lambda>i. Number_Hash \<lparr>num_V = UnsignedInt i, num_P = p\<rparr>)"
    by (auto simp: inj_def Number_Hash_def)
qed

end
