(* ===== verification/Heap_Backing.thy ===== *)
theory Heap_Backing
  imports Queue_API Builtin_Items
begin

text \<open>
  \<open>internal/backings/heap/heap.go\<close>: the in-memory priority backing on the journalled heap of theory
  \<open>Min_Heap\<close>. Every method is one definition, with the caller's comparator allowed to end the frame
  at every comparison. The lemmas come in two groups: for every comparator, an operation that does
  not succeed leaves the items, their order and the lock as they were (\<open>Push\<close> and \<open>Pop\<close>); for a
  lawful comparator, the backing refines the abstract queue with placing by priority.
\<close>

section \<open>State\<close>

record ('a, 'w) hbacking =
  hb_lk :: qlock
  hb_h :: "'a minheap"
  hb_nextSeq :: u64
  hb_maxSize :: int
  hb_hydrateEnd :: u64
  hb_hydrated :: int
  hb_inflight :: int
  hb_notFull :: signal
  hb_notEmpty :: signal
  hb_closed :: bool
  hb_backup :: "('a, 'w) backup option"

definition heap_New :: "('a, 'w) hbacking" where
  "heap_New = \<lparr>hb_lk = new_qlock, hb_h = mh_new, hb_nextSeq = 0, hb_maxSize = 0, hb_hydrateEnd = 0,
     hb_hydrated = 0, hb_inflight = 0, hb_notFull = NewSignal, hb_notEmpty = NewSignal,
     hb_closed = False, hb_backup = None\<rparr>"

definition heap_SetQueueLock :: "qlock \<Rightarrow> ('a, 'w) hbacking \<Rightarrow> ('a, 'w) hbacking" where
  "heap_SetQueueLock lk p = p\<lparr>hb_lk := lk\<rparr>"

definition heap_SetMaxBatch :: "int \<Rightarrow> ('a, 'w) hbacking \<Rightarrow> goerr option \<times> ('a, 'w) hbacking" where
  "heap_SetMaxBatch n p = (if n < 1 then (bad_option, p) else (None, p))"

definition heap_SetMaxSize :: "int \<Rightarrow> ('a, 'w) hbacking \<Rightarrow> goerr option \<times> ('a, 'w) hbacking" where
  "heap_SetMaxSize n p = (if n < 0 then (bad_option, p) else (None, p\<lparr>hb_maxSize := n\<rparr>))"

abbreviation heap_lock :: "('a, 'w) hbacking \<Rightarrow> ('a, 'w) hbacking" where
  "heap_lock p \<equiv> p\<lparr>hb_lk := qlock_Lock (hb_lk p)\<rparr>"

abbreviation heap_unlock :: "('a, 'w) hbacking \<Rightarrow> ('a, 'w) hbacking" where
  "heap_unlock p \<equiv> p\<lparr>hb_lk := qlock_Unlock (hb_lk p)\<rparr>"

abbreviation heap_rlock :: "('a, 'w) hbacking \<Rightarrow> ('a, 'w) hbacking" where
  "heap_rlock p \<equiv> p\<lparr>hb_lk := qlock_RLock (hb_lk p)\<rparr>"

abbreviation heap_runlock :: "('a, 'w) hbacking \<Rightarrow> ('a, 'w) hbacking" where
  "heap_runlock p \<equiv> p\<lparr>hb_lk := qlock_RUnlock (hb_lk p)\<rparr>"

section \<open>Hydrate\<close>

fun heap_hydrate_loop :: "'a item \<Rightarrow> (nat \<Rightarrow> nat \<Rightarrow> nat) \<Rightarrow> 'w ctx \<Rightarrow> ('a, 'w) backup \<Rightarrow> 'a ranged list \<Rightarrow>
    ('a, 'w) hbacking \<times> 'w \<Rightarrow> goerr option outcome \<times> ('a, 'w) hbacking \<times> 'w" where
  "heap_hydrate_loop it grow c b [] (p, w) = (Ret None, p, w)"
| "heap_hydrate_loop it grow c b (RangeUnwinds # rs) (p, w) = (Unwinds, p, w)"
| "heap_hydrate_loop it grow c b (Yielded v (Some e) # rs) (p, w) = (Ret (WrapBackup (Some e)), p, w)"
| "heap_hydrate_loop it grow c b (Yielded v None # rs) (p, w) =
     (case ValidateKindOne it True v of
        Some e \<Rightarrow> (Ret (Some e), p, w)
      | None \<Rightarrow>
          (case bk_OnLoad b c v w of
             (Unwound, w1) \<Rightarrow> (Unwinds, p, w1)
           | (Returned (Some e), w1) \<Rightarrow> (Ret (WrapBackup (Some e)), p, w1)
           | (Returned None, w1) \<Rightarrow>
               heap_hydrate_loop it grow c b rs
                 (p\<lparr>hb_h := mh_Push grow (it_zero it) \<lparr>si_Seq = hb_nextSeq p, si_Item = v\<rparr> (hb_h p),
                    hb_nextSeq := hb_nextSeq p + 1, hb_hydrated := hb_hydrated p + 1\<rparr>, w1)))"

text \<open>The two deferred calls run on every exit: the boundary of the restore is set, then the lock is
  released.\<close>

definition heap_hydrate_exit :: "('a, 'w) hbacking \<Rightarrow> ('a, 'w) hbacking" where
  "heap_hydrate_exit p = heap_unlock (p\<lparr>hb_hydrateEnd := hb_nextSeq p\<rparr>)"

definition heap_Hydrate :: "'a item \<Rightarrow> (nat \<Rightarrow> nat \<Rightarrow> nat) \<Rightarrow> 'w ctx \<Rightarrow> ('a, 'w) backup \<Rightarrow>
    ('a, 'w) hbacking \<times> 'w \<Rightarrow> goerr option outcome \<times> ('a, 'w) hbacking \<times> 'w" where
  "heap_Hydrate it grow c b pw =
     (case pw of (p, w) \<Rightarrow>
       (case heap_hydrate_loop it grow c b (bk_RangeAll b c w) (heap_lock p, w) of
          (Ret None, p1, w1) \<Rightarrow>
            (case heap_Init it (hb_h p1) of
               (False, h1) \<Rightarrow> (Unwinds, heap_hydrate_exit (p1\<lparr>hb_h := h1\<rparr>), w1)
             | (True, h1) \<Rightarrow> (Ret None, heap_hydrate_exit (p1\<lparr>hb_h := h1, hb_backup := Some b\<rparr>), w1))
        | (r, p1, w1) \<Rightarrow> (r, heap_hydrate_exit p1, w1)))"

section \<open>Push\<close>

definition heap_cells :: "('a, 'w) hbacking \<Rightarrow> admit_cells" where
  "heap_cells p = (hb_lk p, hb_inflight p, hb_notFull p)"

definition heap_put_cells :: "admit_cells \<Rightarrow> ('a, 'w) hbacking \<Rightarrow> ('a, 'w) hbacking" where
  "heap_put_cells cells p =
     (case cells of (lk, n, s) \<Rightarrow> p\<lparr>hb_lk := lk, hb_inflight := n, hb_notFull := s\<rparr>)"

definition heap_abandon :: "(('a, 'w) hbacking, 'w) opoptions \<Rightarrow> ('a, 'w) hbacking \<Rightarrow> ('a, 'w) hbacking" where
  "heap_abandon opts p = heap_unlock (p\<lparr>hb_notFull := ReleaseReservation opts (hb_notFull p)\<rparr>)"

fun heap_push_loop :: "'a item \<Rightarrow> (nat \<Rightarrow> nat \<Rightarrow> nat) \<Rightarrow> 'a list \<Rightarrow> ('a, 'w) hbacking \<Rightarrow> bool \<times> ('a, 'w) hbacking" where
  "heap_push_loop it grow [] p = (True, p)"
| "heap_push_loop it grow (v # vs) p =
     (case heap_Push it grow \<lparr>si_Seq = hb_nextSeq p, si_Item = v\<rparr> (hb_h p) of
        (False, h1) \<Rightarrow> (False, p\<lparr>hb_h := h1\<rparr>)
      | (True, h1) \<Rightarrow> heap_push_loop it grow vs (p\<lparr>hb_h := h1, hb_nextSeq := hb_nextSeq p + 1\<rparr>))"

text \<open>Inserting the batch with the journal on, and the release that rolls it back.\<close>

definition heap_insert :: "'a item \<Rightarrow> (nat \<Rightarrow> nat \<Rightarrow> nat) \<Rightarrow> 'a list \<Rightarrow>
    (('a, 'w) hbacking, 'w) opoptions \<Rightarrow> ('a, 'w) hbacking \<Rightarrow> unit outcome \<times> ('a, 'w) hbacking" where
  "heap_insert it grow vs opts p =
     (let startLen = mh_Len (hb_h p); startSeq = hb_nextSeq p in
      RunLockedNoErr (heap_push_loop it grow vs)
        (\<lambda>p. heap_abandon opts (p\<lparr>hb_h := mh_rollback (it_zero it) startLen [] (hb_h p), hb_nextSeq := startSeq\<rparr>))
        (p\<lparr>hb_h := mh_journalOn (hb_h p)\<rparr>))"

definition heap_push_commit :: "'a item \<Rightarrow> (nat \<Rightarrow> nat \<Rightarrow> nat) \<Rightarrow> 'w ctx \<Rightarrow> 'a list \<Rightarrow>
    (('a, 'w) hbacking, 'w) opoptions \<Rightarrow> ('a, 'w) hbacking \<times> 'w \<Rightarrow>
    goerr option attempt \<times> ('a, 'w) hbacking \<times> 'w" where
  "heap_push_commit it grow c vs opts pw =
     (case RunSideEffectLocked (oo_SideEffect opts) (heap_abandon opts) pw of
        (Unwinds, p1, w1) \<Rightarrow> (Done Unwinds, p1, w1)
      | (Ret (Some e), p1, w1) \<Rightarrow> (returns (Some e), heap_abandon opts p1, w1)
      | (Ret None, p1, w1) \<Rightarrow>
          (case (case hb_backup p1 of
                   None \<Rightarrow> (Ret None, p1, w1)
                 | Some b \<Rightarrow> RunBackup (bk_Push b c vs) (heap_abandon opts) (p1, w1)) of
             (Unwinds, p2, w2) \<Rightarrow> (Done Unwinds, p2, w2)
           | (Ret (Some e), p2, w2) \<Rightarrow> (returns (Some e), heap_abandon opts p2, w2)
           | (Ret None, p2, w2) \<Rightarrow>
               (let wasEmpty = (mh_Len (hb_h p2) = 0) in
                case heap_insert it grow vs opts p2 of
                  (Unwinds, p3) \<Rightarrow> (Done Unwinds, p3, w2)
                | (Ret _, p3) \<Rightarrow>
                    (let p4 = p3\<lparr>hb_h := mh_journalOff (hb_h p3)\<rparr>;
                         p5 = (if wasEmpty \<and> Signal_HasWaiters (hb_notEmpty p4)
                               then p4\<lparr>hb_notEmpty := Signal_Signal (hb_notEmpty p4)\<rparr> else p4)
                     in (returns None, heap_unlock p5, w2)))))"

definition heap_push_round :: "'a item \<Rightarrow> (nat \<Rightarrow> nat \<Rightarrow> nat) \<Rightarrow> nat \<Rightarrow> 'w ctx \<Rightarrow> 'a list \<Rightarrow>
    (('a, 'w) hbacking, 'w) opoptions \<Rightarrow> ('a, 'w) hbacking \<times> 'w \<Rightarrow>
    goerr option attempt \<times> ('a, 'w) hbacking \<times> 'w" where
  "heap_push_round it grow g c vs opts pw =
     (case pw of (p0, w) \<Rightarrow>
       (let p = heap_lock p0 in
        if hb_closed p then (returns err_closed, heap_unlock p, w)
        else if hb_maxSize p > 0 \<and> int (length vs) > hb_maxSize p
        then (returns (Some (Sentinel ErrBatchTooLarge)), heap_unlock p, w)
        else if hb_maxSize p = 0 \<or>
          int (mh_Len (hb_h p)) - hb_hydrated p + hb_inflight p + int (length vs) \<le> hb_maxSize p
        then (case oo_OnAdmit opts of
            None \<Rightarrow> heap_push_commit it grow c vs opts (p, w)
          | Some hook \<Rightarrow>
              (case RunOnAdmit heap_cells heap_put_cells (int (length vs)) hook (p, w) of
                 (Unwinds, p1, w1) \<Rightarrow> (Done Unwinds, p1, w1)
               | (Ret (Some e), p1, w1) \<Rightarrow> (returns (Some e), heap_unlock p1, w1)
               | (Ret None, p1, w1) \<Rightarrow>
                   if hb_closed p1 then (returns err_closed, heap_abandon opts p1, w1)
                   else heap_push_commit it grow c vs opts (p1, w1)))
        else (Parked, heap_unlock (p\<lparr>hb_notFull := Wait_register g (hb_notFull p)\<rparr>), w)))"

definition heap_ClosedOrCause :: "'w ctx \<Rightarrow> ('a, 'w) hbacking \<times> 'w \<Rightarrow> goerr option \<times> ('a, 'w) hbacking \<times> 'w" where
  "heap_ClosedOrCause c pw =
     (case pw of (p, w) \<Rightarrow>
       (let p1 = heap_rlock p; closed = hb_closed p1; p2 = heap_runlock p1 in
        (if closed then err_closed else Some (ctx_cause c w), p2, w)))"

text \<open>What a goroutine parked on \<open>notFull\<close> (on \<open>notEmpty\<close>) does when it runs again.\<close>

definition heap_resume_notFull :: "nat \<Rightarrow> 'w ctx \<Rightarrow> (goerr option \<Rightarrow> 'r) \<Rightarrow> ('a, 'w) hbacking \<times> 'w \<Rightarrow>
    'r option \<times> ('a, 'w) hbacking \<times> 'w" where
  "heap_resume_notFull g c mk pw =
     (case pw of (p, w) \<Rightarrow>
       (case Wait_return g c w (hb_notFull p) of
          (s, None) \<Rightarrow> (None, p\<lparr>hb_notFull := s\<rparr>, w)
        | (s, Some _) \<Rightarrow>
            (case heap_ClosedOrCause c (p\<lparr>hb_notFull := s\<rparr>, w) of (e, pw1) \<Rightarrow> (Some (mk e), pw1))))"

definition heap_resume_notEmpty :: "nat \<Rightarrow> 'w ctx \<Rightarrow> (goerr option \<Rightarrow> 'r) \<Rightarrow> ('a, 'w) hbacking \<times> 'w \<Rightarrow>
    'r option \<times> ('a, 'w) hbacking \<times> 'w" where
  "heap_resume_notEmpty g c mk pw =
     (case pw of (p, w) \<Rightarrow>
       (case Wait_return g c w (hb_notEmpty p) of
          (s, None) \<Rightarrow> (None, p\<lparr>hb_notEmpty := s\<rparr>, w)
        | (s, Some _) \<Rightarrow>
            (case heap_ClosedOrCause c (p\<lparr>hb_notEmpty := s\<rparr>, w) of (e, pw1) \<Rightarrow> (Some (mk e), pw1))))"

definition heap_Push_op :: "'a item \<Rightarrow> (nat \<Rightarrow> nat \<Rightarrow> nat) \<Rightarrow> nat \<Rightarrow> 'w ctx \<Rightarrow> 'a list \<Rightarrow>
    (('a, 'w) hbacking, 'w) opoption list \<Rightarrow> (('a, 'w) hbacking \<times> 'w \<Rightarrow> ('a, 'w) hbacking \<times> 'w) list \<Rightarrow>
    ('a, 'w) hbacking \<times> 'w \<Rightarrow> goerr option attempt \<times> ('a, 'w) hbacking \<times> 'w" where
  "heap_Push_op it grow g c vs options env pw =
     resolve CallPush options (Done Unwinds, pw) (\<lambda>e. (returns (Some e), pw)) (\<lambda>opts.
       case ValidateKind it True vs of
         Some e \<Rightarrow> (returns (Some e), pw)
       | None \<Rightarrow>
           wait_loop (heap_push_round it grow g c vs opts) (heap_resume_notFull g c id) env pw)"

section \<open>Pop\<close>

text \<open>\<open>dropHydrated\<close> on a list of sequence numbers.\<close>

fun heap_dropHydrated :: "u64 list \<Rightarrow> ('a, 'w) hbacking \<Rightarrow> ('a, 'w) hbacking" where
  "heap_dropHydrated [] p = p"
| "heap_dropHydrated (s # seqs) p =
     heap_dropHydrated seqs
       (if s < hb_hydrateEnd p \<and> hb_hydrated p > 0 then p\<lparr>hb_hydrated := hb_hydrated p - 1\<rparr> else p)"

definition heap_wake_producers :: "('a, 'w) hbacking \<Rightarrow> ('a, 'w) hbacking" where
  "heap_wake_producers p =
     (if Signal_HasWaiters (hb_notFull p) then p\<lparr>hb_notFull := Signal_Signal (hb_notFull p)\<rparr> else p)"

text \<open>The loop of \<open>k\<close> pops; \<open>popped\<close> is the slice the closure appends to.\<close>

fun heap_pop_loop :: "'a item \<Rightarrow> nat \<Rightarrow> ('a, 'w) hbacking \<times> 'a seqitem list \<Rightarrow>
    bool \<times> ('a, 'w) hbacking \<times> 'a seqitem list" where
  "heap_pop_loop it 0 (p, popped) = (True, p, popped)"
| "heap_pop_loop it (Suc k) (p, popped) =
     (case heap_Pop it (hb_h p) of
        (None, h1) \<Rightarrow> (False, p\<lparr>hb_h := h1\<rparr>, popped)
      | (Some x, h1) \<Rightarrow> heap_pop_loop it k (p\<lparr>hb_h := h1\<rparr>, popped @ [x]))"

definition heap_restore :: "'a item \<Rightarrow> nat \<Rightarrow> 'a seqitem list \<Rightarrow> ('a, 'w) hbacking \<Rightarrow> ('a, 'w) hbacking" where
  "heap_restore it startLen popped p =
     heap_unlock (p\<lparr>hb_h := mh_rollback (it_zero it) startLen popped (hb_h p)\<rparr>)"

definition heap_pop_round :: "'a item \<Rightarrow> nat \<Rightarrow> 'w ctx \<Rightarrow> nat \<Rightarrow> (('a, 'w) hbacking, 'w) opoptions \<Rightarrow>
    ('a, 'w) hbacking \<times> 'w \<Rightarrow> ('a list \<times> goerr option) attempt \<times> ('a, 'w) hbacking \<times> 'w" where
  "heap_pop_round it g c n opts pw =
     (case pw of (p0, w) \<Rightarrow>
       (let p = heap_lock p0 in
        if hb_closed p then (returns ([], err_closed), heap_unlock p, w)
        else if mh_Len (hb_h p) > 0 then
          (let k = (if n > mh_Len (hb_h p) then mh_Len (hb_h p) else n)
           in case RunSideEffectLocked (oo_SideEffect opts) (\<lambda>p. heap_unlock p) (p, w) of
                (Unwinds, p1, w1) \<Rightarrow> (Done Unwinds, p1, w1)
              | (Ret (Some e), p1, w1) \<Rightarrow> (returns ([], Some e), heap_unlock p1, w1)
              | (Ret None, p1, w1) \<Rightarrow>
                  (let startLen = mh_Len (hb_h p1) in
                   case RunLockedNoErr (heap_pop_loop it k)
                          (\<lambda>(p, popped). (heap_restore it startLen popped p, popped))
                          (p1\<lparr>hb_h := mh_journalOn (hb_h p1)\<rparr>, []) of
                     (Unwinds, p2, popped) \<Rightarrow> (Done Unwinds, p2, w1)
                   | (Ret _, p2, popped) \<Rightarrow>
                       (let out = map si_Item popped in
                        case (case hb_backup p2 of
                                None \<Rightarrow> (Ret None, p2, w1)
                              | Some b \<Rightarrow> RunBackup (bk_Del b c out) (heap_restore it startLen popped) (p2, w1)) of
                          (Unwinds, p3, w2) \<Rightarrow> (Done Unwinds, p3, w2)
                        | (Ret (Some e), p3, w2) \<Rightarrow> (returns ([], Some e), heap_restore it startLen popped p3, w2)
                        | (Ret None, p3, w2) \<Rightarrow>
                            (let p4 = p3\<lparr>hb_h := mh_journalOff (hb_h p3)\<rparr>;
                                 p5 = heap_dropHydrated (map si_Seq popped) p4
                             in (returns (out, None), heap_unlock (heap_wake_producers p5), w2)))))
        else (Parked, heap_unlock (p\<lparr>hb_notEmpty := Wait_register g (hb_notEmpty p)\<rparr>), w)))"

definition heap_Pop_op :: "'a item \<Rightarrow> nat \<Rightarrow> 'w ctx \<Rightarrow> nat \<Rightarrow> (('a, 'w) hbacking, 'w) opoption list \<Rightarrow>
    (('a, 'w) hbacking \<times> 'w \<Rightarrow> ('a, 'w) hbacking \<times> 'w) list \<Rightarrow> ('a, 'w) hbacking \<times> 'w \<Rightarrow>
    ('a list \<times> goerr option) attempt \<times> ('a, 'w) hbacking \<times> 'w" where
  "heap_Pop_op it g c n options env pw =
     resolve CallPop options (Done Unwinds, pw) (\<lambda>e. (returns ([], Some e), pw)) (\<lambda>opts.
       wait_loop (heap_pop_round it g c n opts) (heap_resume_notEmpty g c (\<lambda>e. ([], e))) env pw)"

section \<open>Reading operations\<close>

definition heap_Peek :: "'a item \<Rightarrow> (('a, 'w) hbacking, 'w) opoption list \<Rightarrow> ('a, 'w) hbacking \<times> 'w \<Rightarrow>
    ('a \<times> bool \<times> goerr option) outcome \<times> ('a, 'w) hbacking \<times> 'w" where
  "heap_Peek it options pw =
     resolve CallPeek options (Unwinds, pw) (\<lambda>e. (Ret (it_zero it, False, Some e), pw)) (\<lambda>opts.
       case pw of (p0, w) \<Rightarrow>
         (let p = heap_rlock p0 in
          if hb_closed p then (Ret (it_zero it, False, err_closed), heap_runlock p, w)
          else if mh_Len (hb_h p) = 0 then
            (case RunSideEffect (oo_SideEffect opts) w of (r, w1) \<Rightarrow>
               (map_outcome (\<lambda>e. (it_zero it, False, e)) r, heap_runlock p, w1))
          else
            (case RunSideEffect (oo_SideEffect opts) w of (r, w1) \<Rightarrow>
               (map_outcome (\<lambda>e. (si_Item (mh_list (hb_h p) ! 0), True, e)) r, heap_runlock p, w1))))"

fun heap_exists_loop :: "'a item \<Rightarrow> 'a \<Rightarrow> 'a seqitem list \<Rightarrow> bool" where
  "heap_exists_loop it v [] = False"
| "heap_exists_loop it v (x # xs) = (if it_equal it (si_Item x) v then True else heap_exists_loop it v xs)"

definition heap_Exists :: "'a item \<Rightarrow> 'a \<Rightarrow> (('a, 'w) hbacking, 'w) opoption list \<Rightarrow> ('a, 'w) hbacking \<times> 'w \<Rightarrow>
    (bool \<times> goerr option) outcome \<times> ('a, 'w) hbacking \<times> 'w" where
  "heap_Exists it v options pw =
     resolve CallExists options (Unwinds, pw) (\<lambda>e. (Ret (False, Some e), pw)) (\<lambda>opts.
       case pw of (p0, w) \<Rightarrow>
         (let p = heap_rlock p0 in
          if hb_closed p then (Ret (False, err_closed), heap_runlock p, w)
          else (let found = heap_exists_loop it v (mh_list (hb_h p)) in
            case RunSideEffect (oo_SideEffect opts) w of (r, w1) \<Rightarrow>
              (map_outcome (\<lambda>e. (found, e)) r, heap_runlock p, w1))))"

definition heap_Len :: "('a, 'w) hbacking \<Rightarrow> int \<times> ('a, 'w) hbacking" where
  "heap_Len p =
     (let p1 = heap_rlock p; n = int (mh_Len (hb_h p1)) in (n, heap_runlock p1))"

section \<open>Del\<close>

fun heap_del_loop :: "'a item \<Rightarrow> 'a list \<Rightarrow> 'a seqitem list \<Rightarrow> 'a seqitem list \<times> 'a list \<times> u64 list \<Rightarrow>
    'a seqitem list \<times> 'a list \<times> u64 list" where
  "heap_del_loop it vs [] acc = acc"
| "heap_del_loop it vs (x # xs) (kept, removed, seqs) =
     (if MatchesAny it (si_Item x) vs
      then heap_del_loop it vs xs (kept, removed @ [si_Item x], seqs @ [si_Seq x])
      else heap_del_loop it vs xs (kept @ [x], removed, seqs))"

definition heap_Del :: "'a item \<Rightarrow> 'w ctx \<Rightarrow> 'a list \<Rightarrow> (('a, 'w) hbacking, 'w) opoption list \<Rightarrow>
    ('a, 'w) hbacking \<times> 'w \<Rightarrow> (int \<times> goerr option) outcome \<times> ('a, 'w) hbacking \<times> 'w" where
  "heap_Del it c vs options pw =
     resolve CallDel options (Unwinds, pw) (\<lambda>e. (Ret (0, Some e), pw)) (\<lambda>opts.
       case pw of (p0, w) \<Rightarrow>
         (let p = heap_lock p0 in
          if hb_closed p then (Ret (0, err_closed), heap_unlock p, w)
          else (case heap_del_loop it vs (mh_list (hb_h p)) ([], [], []) of
            (kept, removed, removedSeqs) \<Rightarrow>
              if length removed = 0 then
                (case RunSideEffect (oo_SideEffect opts) w of (r, w1) \<Rightarrow>
                   (map_outcome (\<lambda>e. (0, e)) r, heap_unlock p, w1))
              else (case RunSideEffect (oo_SideEffect opts) w of
                  (Unwinds, w1) \<Rightarrow> (Unwinds, heap_unlock p, w1)
                | (Ret (Some e), w1) \<Rightarrow> (Ret (0, Some e), heap_unlock p, w1)
                | (Ret None, w1) \<Rightarrow>
                    (case (case hb_backup p of None \<Rightarrow> (Returned None, w1) | Some b \<Rightarrow> bk_Del b c removed w1) of
                       (Unwound, w2) \<Rightarrow> (Unwinds, heap_unlock p, w2)
                     | (Returned (Some e), w2) \<Rightarrow> (Ret (0, WrapBackup (Some e)), heap_unlock p, w2)
                     | (Returned None, w2) \<Rightarrow>
                         (let h1 = (hb_h p)\<lparr>mh_items := slice_of (zero_seqitem (it_zero it)) (mh_Len (hb_h p)) kept\<rparr> in
                          case heap_Init it h1 of
                            (False, h2) \<Rightarrow> (Unwinds, heap_unlock (p\<lparr>hb_h := h2\<rparr>), w2)
                          | (True, h2) \<Rightarrow>
                              (let p2 = heap_wake_producers (heap_dropHydrated removedSeqs (p\<lparr>hb_h := h2\<rparr>))
                               in (Ret (int (length removed), None), heap_unlock p2, w2))))))))"

section \<open>Waiting for room or for items\<close>

definition heap_notempty_round :: "nat \<Rightarrow> (('a, 'w) hbacking, 'w) opoptions \<Rightarrow> ('a, 'w) hbacking \<times> 'w \<Rightarrow>
    goerr option attempt \<times> ('a, 'w) hbacking \<times> 'w" where
  "heap_notempty_round g opts pw =
     (case pw of (p0, w) \<Rightarrow>
       (let p = heap_rlock p0 in
        if hb_closed p then (returns err_closed, heap_runlock p, w)
        else if mh_Len (hb_h p) > 0 then
          (case RunSideEffectLocked (oo_SideEffect opts) (\<lambda>p. heap_runlock p) (p, w) of
             (Unwinds, p1, w1) \<Rightarrow> (Done Unwinds, p1, w1)
           | (Ret e, p1, w1) \<Rightarrow> (returns e, heap_runlock p1, w1))
        else (Parked, heap_runlock (p\<lparr>hb_notEmpty := Wait_register g (hb_notEmpty p)\<rparr>), w)))"

definition heap_NotEmpty :: "nat \<Rightarrow> 'w ctx \<Rightarrow> (('a, 'w) hbacking, 'w) opoption list \<Rightarrow>
    (('a, 'w) hbacking \<times> 'w \<Rightarrow> ('a, 'w) hbacking \<times> 'w) list \<Rightarrow> ('a, 'w) hbacking \<times> 'w \<Rightarrow>
    goerr option attempt \<times> ('a, 'w) hbacking \<times> 'w" where
  "heap_NotEmpty g c options env pw =
     resolve CallNotEmpty options (Done Unwinds, pw) (\<lambda>e. (returns (Some e), pw)) (\<lambda>opts.
       wait_loop (heap_notempty_round g opts) (heap_resume_notEmpty g c id) env pw)"

definition heap_notfull_round :: "nat \<Rightarrow> (('a, 'w) hbacking, 'w) opoptions \<Rightarrow> ('a, 'w) hbacking \<times> 'w \<Rightarrow>
    goerr option attempt \<times> ('a, 'w) hbacking \<times> 'w" where
  "heap_notfull_round g opts pw =
     (case pw of (p0, w) \<Rightarrow>
       (let p = heap_rlock p0 in
        if hb_closed p then (returns err_closed, heap_runlock p, w)
        else if hb_maxSize p = 0 \<or>
          int (mh_Len (hb_h p)) - hb_hydrated p + hb_inflight p < hb_maxSize p then
          (case RunSideEffectLocked (oo_SideEffect opts) (\<lambda>p. heap_runlock p) (p, w) of
             (Unwinds, p1, w1) \<Rightarrow> (Done Unwinds, p1, w1)
           | (Ret e, p1, w1) \<Rightarrow> (returns e, heap_runlock p1, w1))
        else (Parked, heap_runlock (p\<lparr>hb_notFull := Wait_register g (hb_notFull p)\<rparr>), w)))"

definition heap_NotFull :: "nat \<Rightarrow> 'w ctx \<Rightarrow> (('a, 'w) hbacking, 'w) opoption list \<Rightarrow>
    (('a, 'w) hbacking \<times> 'w \<Rightarrow> ('a, 'w) hbacking \<times> 'w) list \<Rightarrow> ('a, 'w) hbacking \<times> 'w \<Rightarrow>
    goerr option attempt \<times> ('a, 'w) hbacking \<times> 'w" where
  "heap_NotFull g c options env pw =
     resolve CallNotFull options (Done Unwinds, pw) (\<lambda>e. (returns (Some e), pw)) (\<lambda>opts.
       wait_loop (heap_notfull_round g opts) (heap_resume_notFull g c id) env pw)"

section \<open>Close and Clear\<close>

definition heap_closeAndWake :: "('a, 'w) hbacking \<Rightarrow> ('a, 'w) hbacking" where
  "heap_closeAndWake p =
     (let p1 = p\<lparr>hb_closed := True\<rparr>;
          p2 = heap_unlock p1;
          p3 = p2\<lparr>hb_notEmpty := Signal_Signal (hb_notEmpty p2)\<rparr>
      in p3\<lparr>hb_notFull := Signal_Signal (hb_notFull p3)\<rparr>)"

definition heap_Close :: "'w ctx \<Rightarrow> (('a, 'w) hbacking, 'w) opoption list \<Rightarrow> ('a, 'w) hbacking \<times> 'w \<Rightarrow>
    goerr option outcome \<times> ('a, 'w) hbacking \<times> 'w" where
  "heap_Close c options pw =
     resolve CallClose options (Unwinds, pw) (\<lambda>e. (Ret (Some e), pw)) (\<lambda>opts.
       case pw of (p0, w) \<Rightarrow>
         (let p = heap_lock p0 in
          if hb_closed p then
            (case RunSideEffectLocked (oo_SideEffect opts) (\<lambda>p. heap_unlock p) (p, w) of
               (Unwinds, p1, w1) \<Rightarrow> (Unwinds, p1, w1)
             | (Ret e, p1, w1) \<Rightarrow> (Ret e, heap_unlock p1, w1))
          else
            (case RunSideEffectLocked (oo_SideEffect opts) (\<lambda>p. heap_unlock p) (p, w) of
               (Unwinds, p1, w1) \<Rightarrow> (Unwinds, p1, w1)
             | (Ret (Some e), p1, w1) \<Rightarrow> (Ret (Some e), heap_unlock p1, w1)
             | (Ret None, p1, w1) \<Rightarrow>
                 (case (case hb_backup p1 of
                          None \<Rightarrow> (Ret None, p1, w1)
                        | Some b \<Rightarrow> RunBackup (bk_Close b c) heap_closeAndWake (p1, w1)) of
                    (Unwinds, p2, w2) \<Rightarrow> (Unwinds, p2, w2)
                  | (Ret e, p2, w2) \<Rightarrow> (Ret e, heap_closeAndWake p2, w2)))))"

definition heap_Clear :: "'a item \<Rightarrow> 'w ctx \<Rightarrow> (('a, 'w) hbacking, 'w) opoption list \<Rightarrow> ('a, 'w) hbacking \<times> 'w \<Rightarrow>
    goerr option outcome \<times> ('a, 'w) hbacking \<times> 'w" where
  "heap_Clear it c options pw =
     resolve CallClear options (Unwinds, pw) (\<lambda>e. (Ret (Some e), pw)) (\<lambda>opts.
       case pw of (p0, w) \<Rightarrow>
         (let p = heap_lock p0 in
          if hb_closed p then (Ret err_closed, heap_unlock p, w)
          else if mh_Len (hb_h p) = 0 then
            (case RunSideEffect (oo_SideEffect opts) w of (r, w1) \<Rightarrow> (r, heap_unlock p, w1))
          else (case RunSideEffect (oo_SideEffect opts) w of
              (Unwinds, w1) \<Rightarrow> (Unwinds, heap_unlock p, w1)
            | (Ret (Some e), w1) \<Rightarrow> (Ret (Some e), heap_unlock p, w1)
            | (Ret None, w1) \<Rightarrow>
                (case (case hb_backup p of None \<Rightarrow> (Returned None, w1) | Some b \<Rightarrow> bk_Clear b c w1) of
                   (Unwound, w2) \<Rightarrow> (Unwinds, heap_unlock p, w2)
                 | (Returned (Some e), w2) \<Rightarrow> (Ret (WrapBackup (Some e)), heap_unlock p, w2)
                 | (Returned None, w2) \<Rightarrow>
                     (let s1 = slice_clear (zero_seqitem (it_zero it)) 0 (mh_Len (hb_h p)) (mh_items (hb_h p));
                          h1 = (hb_h p)\<lparr>mh_items := slice_prefix 0 s1\<rparr>;
                          p3 = heap_wake_producers (p\<lparr>hb_h := h1, hb_hydrated := 0\<rparr>)
                      in (Ret None, heap_unlock p3, w2))))))"

section \<open>Iteration\<close>

text \<open>The sorted copy, or a report that the backing is closed; sorting may end the frame.\<close>

definition heap_sortedSnapshot :: "'a item \<Rightarrow> ('a, 'w) hbacking \<Rightarrow> ('a seqitem list \<times> bool) outcome" where
  "heap_sortedSnapshot it p =
     (if hb_closed p then Ret ([], False)
      else (case SliceStable it (mh_list (hb_h p)) of
              (False, _) \<Rightarrow> Unwinds
            | (True, items) \<Rightarrow> Ret (items, True)))"

text \<open>\<open>All\<close> sorts the heap array in place, under the write lock.\<close>

definition heap_All :: "'a item \<Rightarrow> 'w ctx \<Rightarrow> ('a, 'w) yield \<Rightarrow> ('a, 'w) hbacking \<times> 'w \<Rightarrow>
    goerr option outcome \<times> ('a, 'w) hbacking \<times> 'w" where
  "heap_All it c yield pw =
     (case pw of (p0, w) \<Rightarrow>
       (let p = heap_lock p0 in
        if hb_closed p then
          (case yield_last yield (it_zero it) err_closed w of (r, w1) \<Rightarrow> (r, heap_unlock p, w1))
        else
          (case SliceStable it (mh_list (hb_h p)) of (finished, items) \<Rightarrow>
             (let p1 = p\<lparr>hb_h := (hb_h p)\<lparr>mh_items := (mh_items (hb_h p))\<lparr>s_arr :=
                         items @ drop (mh_Len (hb_h p)) (s_arr (mh_items (hb_h p)))\<rparr>\<rparr>\<rparr>
              in if \<not> finished then (Unwinds, heap_unlock p1, w)
                 else (case range_loop (it_zero it) c yield (map si_Item items) w of
                         (r, w1) \<Rightarrow> (r, heap_unlock p1, w1))))))"

definition heap_AllCOW :: "'a item \<Rightarrow> 'w ctx \<Rightarrow> ('a, 'w) yield \<Rightarrow> ('w \<Rightarrow> bool) \<Rightarrow> ('a, 'w) hbacking \<times> 'w \<Rightarrow>
    goerr option outcome \<times> ('a, 'w) hbacking \<times> 'w" where
  "heap_AllCOW it c yield wanted pw =
     (case pw of (p0, w) \<Rightarrow>
       (let p = heap_rlock p0 in
        case heap_sortedSnapshot it p of
          Unwinds \<Rightarrow> (Unwinds, heap_runlock p, w)
        | Ret (items, snapped) \<Rightarrow>
            (let p1 = heap_runlock p in
             if \<not> snapped then
               (case yield_last yield (it_zero it) err_closed w of (r, w1) \<Rightarrow> (r, p1, w1))
             else
               (case range_loop (it_zero it) c yield (map si_Item items) w of (r, w1) \<Rightarrow> (r, p1, w1)))))"

section \<open>Any comparator: what does not succeed is undone\<close>

lemma heap_push_loop_journalled:
  assumes "journalled (it_zero it) orig [] (hb_h p)" and "heap_push_loop it grow vs p = (b, p')"
  shows "journalled (it_zero it) orig [] (hb_h p') \<and> p' = p\<lparr>hb_h := hb_h p', hb_nextSeq := hb_nextSeq p'\<rparr>"
  using assms
proof (induction vs arbitrary: p)
  case (Cons v vs)
  let ?x = "\<lparr>si_Seq = hb_nextSeq p, si_Item = v\<rparr>" and ?h = "mh_Push grow (it_zero it) \<lparr>si_Seq = hb_nextSeq p, si_Item = v\<rparr> (hb_h p)"
  obtain b1 h1 where h1: "heap_Push it grow ?x (hb_h p) = (b1, h1)" by fastforce
  obtain k where k: "mh_shaped (it_zero it) k (hb_h p)" using Cons.prems(1) by (auto simp: journalled_def)
  obtain k' where "mh_list ?h = mh_list (hb_h p) @ [?x]" "mh_shaped (it_zero it) k' ?h"
    using mh_Push_list [OF k, of grow ?x] by auto
  then have "0 < mh_Len ?h" by (simp add: mh_Len_list)
  then have "journalled (it_zero it) orig [] (snd (heap_up it (mh_Len ?h - 1) ?h))"
    using heap_up_inv [of "journalled (it_zero it) orig []" ?h "mh_Len ?h - 1" it,
        OF journalled_Push [OF Cons.prems(1)] _ journalled_Swap] by simp
  then have j1: "journalled (it_zero it) orig [] h1"
    using h1 by (simp add: heap_Push_def Let_def)
  show ?case
  proof (cases b1)
    case True
    then show ?thesis using Cons.IH [of "p\<lparr>hb_h := h1, hb_nextSeq := hb_nextSeq p + 1\<rparr>"] Cons.prems(2) h1 j1 by auto
  next
    case False
    then show ?thesis using Cons.prems(2) h1 j1 by auto
  qed
qed auto

lemma journalled_le: "journalled z orig popped h \<Longrightarrow> length orig \<le> length (mh_list h) + length popped"
  by (auto simp: journalled_def dest: arg_cong [of _ _ length])

text \<open>An insertion that is cut short by the comparator restores the array and the counter.\<close>

lemma heap_insert_unwinds:
  assumes "mh_shaped (it_zero it) k (hb_h p)" and ins: "heap_insert it grow vs opts p = (Unwinds, p')"
  shows "mh_list (hb_h p') = mh_list (hb_h p) \<and> (\<exists>k. mh_shaped (it_zero it) k (hb_h p')) \<and>
    p' = (heap_abandon opts p)\<lparr>hb_h := hb_h p'\<rparr>"
proof -
  let ?p = "p\<lparr>hb_h := mh_journalOn (hb_h p)\<rparr>"
  obtain p1 where loop: "heap_push_loop it grow vs ?p = (False, p1)"
    and p': "p' = heap_abandon opts (p1\<lparr>hb_h := mh_rollback (it_zero it) (mh_Len (hb_h p)) [] (hb_h p1), hb_nextSeq := hb_nextSeq p\<rparr>)"
    using ins by (auto simp: heap_insert_def RunLockedNoErr_def Let_def split: prod.splits bool.splits)
  have "journalled (it_zero it) (mh_list (hb_h p)) [] (hb_h ?p)"
    using journalled_On [OF assms(1)] by simp
  note j = heap_push_loop_journalled [OF this loop]
  then have "mh_list (hb_h p') = mh_list (hb_h p) \<and> (\<exists>k. mh_shaped (it_zero it) k (hb_h p'))"
    using rollback_exact [OF conjunct1 [OF j]] journalled_le [OF conjunct1 [OF j]]
    by (simp add: p' heap_abandon_def mh_Len_list [OF assms(1)])
  moreover have "p' = (heap_abandon opts p)\<lparr>hb_h := hb_h p'\<rparr>"
    using arg_cong [OF conjunct2 [OF j], of "\<lambda>q. heap_abandon opts (q\<lparr>hb_h := hb_h p', hb_nextSeq := hb_nextSeq p\<rparr>)"] p'
    by (cases p) (simp add: heap_abandon_def)
  ultimately show ?thesis by blast
qed

lemma heap_pop_loop_journalled:
  assumes "journalled (it_zero it) orig popped (hb_h p)" and "length (mh_list (hb_h p)) + length popped = length orig"
    and "k \<le> length (mh_list (hb_h p))" and "heap_pop_loop it k (p, popped) = (b, p', popped')"
  shows "journalled (it_zero it) orig popped' (hb_h p') \<and> length (mh_list (hb_h p')) + length popped' = length orig \<and>
    p' = p\<lparr>hb_h := hb_h p'\<rparr>"
  using assms
proof (induction k arbitrary: p popped)
  case (Suc k)
  let ?n = "mh_Len (hb_h p) - 1" and ?h = "mh_Swap 0 (mh_Len (hb_h p) - 1) (hb_h p)"
  obtain j where j: "mh_shaped (it_zero it) j (hb_h p)" using Suc.prems(1) by (auto simp: journalled_def)
  have len: "mh_Len (hb_h p) = length (mh_list (hb_h p))" "0 < mh_Len (hb_h p)"
    using mh_Len_list [OF j] Suc.prems(3) by auto
  obtain b1 h1 where h1: "heap_down it 0 ?n ?h = (b1, h1)" by fastforce
  have start: "journalled (it_zero it) orig popped ?h"
    using journalled_Swap [OF Suc.prems(1)] len by simp
  have j1: "journalled (it_zero it) orig popped h1"
    using heap_down_inv [of "journalled (it_zero it) orig popped" ?h ?n it 0, OF start _ journalled_Swap] h1
    by simp
  have "mh_Len h1 = mh_Len (hb_h p)"
    using heap_down_inv [of "\<lambda>h. mh_Len h = mh_Len (hb_h p)" ?h ?n it 0] h1 by simp
  moreover obtain j' where "mh_shaped (it_zero it) j' h1" using j1 by (auto simp: journalled_def)
  ultimately have len1: "length (mh_list h1) = length (mh_list (hb_h p))" using mh_Len_list len by metis
  then obtain xs x where split: "mh_list h1 = xs @ [x]" using len by (cases "mh_list h1" rule: rev_cases) auto
  obtain y h2 where pop: "mh_Pop (it_zero it) h1 = (y, h2)" by fastforce
  have j2: "journalled (it_zero it) orig (popped @ [y]) h2" and len2: "length (mh_list h2) = length xs"
    using journalled_Pop [OF j1 split pop] mh_Pop_list [OF _ split pop] j1 Suc.prems(2) len1
    by (auto simp: journalled_def)
  show ?case
  proof (cases b1)
    case True
    then have "heap_pop_loop it k (p\<lparr>hb_h := h2\<rparr>, popped @ [y]) = (b, p', popped')"
      using Suc.prems(4) h1 pop by (simp add: heap_Pop_def Let_def)
    then show ?thesis
      using Suc.IH [of "popped @ [y]" "p\<lparr>hb_h := h2\<rparr>"] j2 len2 split len1 Suc.prems(2,3) by auto
  next
    case False
    then show ?thesis
      using Suc.prems(2,4) h1 j1 len1 by (auto simp: heap_Pop_def Let_def)
  qed
qed auto

lemma heap_restore_exact:
  assumes "journalled (it_zero it) orig popped (hb_h p)" and "length (mh_list (hb_h p)) + length popped = length orig"
  shows "mh_list (hb_h (heap_restore it (length orig) popped p)) = orig \<and>
    (\<exists>k. mh_shaped (it_zero it) k (hb_h (heap_restore it (length orig) popped p)))"
  using rollback_exact [OF assms(1)] assms(2) by (simp add: heap_restore_def)

section \<open>Representation\<close>

definition heap_mark :: "u64 \<Rightarrow> 'a seqitem \<Rightarrow> 'a \<times> bool" where
  "heap_mark e x = (si_Item x, si_Seq x < e)"

text \<open>The array is a heap, sequence numbers are distinct and were handed out.\<close>

definition heap_good :: "'a item \<Rightarrow> ('a \<Rightarrow> 'a \<Rightarrow> bool) \<Rightarrow> u64 \<Rightarrow> 'a minheap \<Rightarrow> bool" where
  "heap_good it lt next h =
     ((\<exists>k. mh_shaped (it_zero it) k h) \<and>
      heap_ordered (seq_lt lt) 0 (length (mh_list h)) (mh_list h) \<and>
      seqs_distinct (mh_list h) \<and> (\<forall>x \<in> set (mh_list h). si_Seq x < next))"

text \<open>The number of restored entries.\<close>

definition heap_restored :: "u64 \<Rightarrow> 'a minheap \<Rightarrow> nat" where
  "heap_restored e h = length (filter (\<lambda>x. si_Seq x < e) (mh_list h))"

definition heap_core :: "'a item \<Rightarrow> ('a \<Rightarrow> 'a \<Rightarrow> bool) \<Rightarrow> ('a, 'w) hbacking \<Rightarrow> bool" where
  "heap_core it lt p =
     (heap_good it lt (hb_nextSeq p) (hb_h p) \<and> hb_hydrateEnd p \<le> hb_nextSeq p \<and>
      hb_hydrated p = int (heap_restored (hb_hydrateEnd p) (hb_h p)) \<and>
      0 \<le> hb_inflight p \<and> 0 \<le> hb_maxSize p \<and>
      (hb_maxSize p = 0 \<or>
       int (length (mh_list (hb_h p))) - hb_hydrated p + hb_inflight p \<le> hb_maxSize p) \<and>
      sig_ok (hb_notFull p) \<and> sig_ok (hb_notEmpty p))"

definition heap_inv :: "'a item \<Rightarrow> ('a \<Rightarrow> 'a \<Rightarrow> bool) \<Rightarrow> ('a, 'w) hbacking \<Rightarrow> bool" where
  "heap_inv it lt p = (lk_ok (hb_lk p) \<and> heap_core it lt p)"

definition heap_items :: "'a item \<Rightarrow> u64 \<Rightarrow> 'a minheap \<Rightarrow> ('a \<times> bool) list" where
  "heap_items it e h = map (heap_mark e) (psorted it (mh_list h))"

definition heap_abs :: "'a item \<Rightarrow> ('a, 'w) hbacking \<Rightarrow> ('a, 'w) aq" where
  "heap_abs it p =
     \<lparr>aq_items = heap_items it (hb_hydrateEnd p) (hb_h p), aq_max = hb_maxSize p,
      aq_inflight = hb_inflight p, aq_closed = hb_closed p, aq_backup = hb_backup p,
      aq_notFull = hb_notFull p, aq_notEmpty = hb_notEmpty p\<rparr>"

definition heap_fresh :: "nat \<Rightarrow> ('a, 'w) hbacking \<Rightarrow> bool" where
  "heap_fresh n p = (unat (hb_nextSeq p) + n < 2 ^ 64)"

lemma heap_core_simps [simp]:
  "heap_core it lt (p\<lparr>hb_lk := l\<rparr>) = heap_core it lt p" "heap_core it lt (p\<lparr>hb_closed := b\<rparr>) = heap_core it lt p"
  by (simp_all add: heap_core_def)

lemma heap_core_notFull [simp]: "heap_core it lt p \<Longrightarrow> sig_ok s \<Longrightarrow> heap_core it lt (p\<lparr>hb_notFull := s\<rparr>)"
  and heap_core_notEmpty [simp]: "heap_core it lt p \<Longrightarrow> sig_ok s \<Longrightarrow> heap_core it lt (p\<lparr>hb_notEmpty := s\<rparr>)"
  by (auto simp: heap_core_def)

lemma heap_core_sig:
  "heap_core it lt p \<Longrightarrow> sig_ok (hb_notFull p)" "heap_core it lt p \<Longrightarrow> sig_ok (hb_notEmpty p)"
  by (simp_all add: heap_core_def)

lemma heap_core_signalled [simp]:
  "heap_core it lt p \<Longrightarrow> heap_core it lt (p\<lparr>hb_notFull := signal_gated (hb_notFull p)\<rparr>)"
  "heap_core it lt p \<Longrightarrow> heap_core it lt (p\<lparr>hb_notFull := ReleaseReservation opts (hb_notFull p)\<rparr>)"
  "heap_core it lt p \<Longrightarrow> heap_core it lt (p\<lparr>hb_notFull := Wait_register g (hb_notFull p)\<rparr>)"
  "heap_core it lt p \<Longrightarrow> heap_core it lt (p\<lparr>hb_notEmpty := Wait_register g (hb_notEmpty p)\<rparr>)"
  by (simp_all add: heap_core_sig)

lemma heap_abs_simps [simp]:
  "aq_closed (heap_abs it p) = hb_closed p" "aq_max (heap_abs it p) = hb_maxSize p"
  "aq_inflight (heap_abs it p) = hb_inflight p" "aq_backup (heap_abs it p) = hb_backup p"
  "aq_notFull (heap_abs it p) = hb_notFull p" "aq_notEmpty (heap_abs it p) = hb_notEmpty p"
  "aq_items (heap_abs it p) = heap_items it (hb_hydrateEnd p) (hb_h p)"
  "aq_contents (heap_abs it p) = map si_Item (psorted it (mh_list (hb_h p)))"
  by (simp_all add: heap_abs_def aq_contents_def heap_items_def heap_mark_def comp_def)

lemma heap_abs_upd [simp]:
  "heap_abs it (p\<lparr>hb_lk := l\<rparr>) = heap_abs it p"
  "heap_abs it (p\<lparr>hb_notFull := s\<rparr>) = (heap_abs it p)\<lparr>aq_notFull := s\<rparr>"
  "heap_abs it (p\<lparr>hb_notEmpty := s\<rparr>) = (heap_abs it p)\<lparr>aq_notEmpty := s\<rparr>"
  "heap_abs it (p\<lparr>hb_inflight := n\<rparr>) = (heap_abs it p)\<lparr>aq_inflight := n\<rparr>"
  "heap_abs it (p\<lparr>hb_closed := b\<rparr>) = (heap_abs it p)\<lparr>aq_closed := b\<rparr>"
  by (simp_all add: heap_abs_def)

lemma heap_items_eq_Nil [simp]: "heap_items it e h = [] \<longleftrightarrow> mh_list h = []"
  by (simp add: heap_items_def flip: length_0_conv)

lemma length_heap_items [simp]: "length (heap_items it e h) = length (mh_list h)"
  by (simp add: heap_items_def)

lemma heap_good_Len: "heap_good it lt n h \<Longrightarrow> mh_Len h = length (mh_list h)"
  by (auto simp: heap_good_def mh_Len_list)

lemma heap_core_Len: "heap_core it lt p \<Longrightarrow> mh_Len (hb_h p) = length (mh_list (hb_h p))"
  by (auto simp: heap_core_def intro: heap_good_Len)

lemma length_filter_psorted: "length (filter P (psorted it xs)) = length (filter P xs)"
  by (metis mset_filter mset_psorted size_mset)

lemma length_filter_not: "length (filter (\<lambda>x. \<not> P x) xs) = length xs - length (filter P xs)"
  using filter_length_split [of P xs] by linarith

lemma heap_admitted: "heap_core it lt p \<Longrightarrow>
    aq_admitted (heap_abs it p) = int (length (mh_list (hb_h p))) - hb_hydrated p"
  by (simp add: aq_admitted_def heap_items_def filter_map comp_def heap_mark_def length_filter_psorted
      length_filter_not heap_core_def heap_restored_def of_nat_diff del: not_less)

lemma heap_wake_eq: "heap_wake_producers p = p\<lparr>hb_notFull := signal_gated (hb_notFull p)\<rparr>"
  by (simp add: heap_wake_producers_def signal_gated_def)

lemma heap_inv_bounded: "heap_inv it lt p \<Longrightarrow> aq_bounded (heap_abs it p)"
  using heap_admitted [of it lt p] by (auto simp: heap_inv_def aq_bounded_def heap_core_def)

lemma heap_lock_core: "heap_inv it lt p \<Longrightarrow> heap_core it lt p \<and> lk_held (qlock_Lock (hb_lk p))"
  and heap_rlock_core: "heap_inv it lt p \<Longrightarrow> heap_core it lt p \<and> lk_rheld (qlock_RLock (hb_lk p))"
  by (simp_all add: heap_inv_def)

lemma heap_unlock_inv: "heap_core it lt p \<Longrightarrow> lk_held (hb_lk p) \<Longrightarrow> heap_inv it lt (heap_unlock p)"
  by (simp add: heap_inv_def)

lemma heap_abandon_inv: "heap_core it lt p \<Longrightarrow> lk_held (hb_lk p) \<Longrightarrow> heap_inv it lt (heap_abandon opts p)"
  by (simp add: heap_abandon_def heap_inv_def)

lemma heap_abandon_abs [simp]:
  "heap_abs it (heap_abandon opts p) = (heap_abs it p)\<lparr>aq_notFull := ReleaseReservation opts (hb_notFull p)\<rparr>"
  by (simp add: heap_abandon_def)

lemma map_place_seq: "map (heap_mark e) (place_seq lt ys x) = priority_place lt (map (heap_mark e) ys) (heap_mark e x)"
  by (induction ys) (auto simp: heap_mark_def)

lemma fresh_Suc: "unat (n :: u64) + Suc k < 2 ^ 64 \<Longrightarrow> unat (n + 1) = unat n + 1"
  by (subst unat_add_lem [THEN iffD1]) (auto simp: unat_of_nat)

section \<open>Refinement for a lawful comparator\<close>

lemma heap_restored_mset: "heap_restored e h = size (filter_mset (\<lambda>x. si_Seq x < e) (mset (mh_list h)))"
  by (simp add: heap_restored_def flip: mset_filter)

context lawful_item
begin

lemma heap_Push_good:
  assumes good: "heap_good it lt n h" and fresh: "unat n + 1 < 2 ^ 64" and e: "e \<le> n"
    and push: "heap_Push it grow \<lparr>si_Seq = n, si_Item = v\<rparr> h = (b, h')"
  shows "b \<and> heap_good it lt (n + 1) h' \<and> heap_items it e h' = priority_place lt (heap_items it e h) (v, False) \<and>
    heap_restored e h' = heap_restored e h \<and> length (mh_list h') = Suc (length (mh_list h))"
proof -
  let ?x = "\<lparr>si_Seq = n, si_Item = v\<rparr>"
  obtain k where k: "mh_shaped (it_zero it) k h"
    and heap: "heap_ordered (seq_lt lt) 0 (length (mh_list h)) (mh_list h)"
    and dist: "seqs_distinct (mh_list h)" and below: "\<forall>x \<in> set (mh_list h). si_Seq x < n"
    using good by (auto simp: heap_good_def)
  note snd = heap_Push_sound [OF k heap push]
  then have m: "mset (mh_list h') = mset (mh_list h @ [?x])" by simp
  have set: "set (mh_list h') = insert ?x (set (mh_list h))"
    using mset_eq_setD [OF m] by auto
  have d': "seqs_distinct (mh_list h')"
    using seqs_distinct_mset [OF m] dist below by auto
  have n1: "n < n + 1" using fresh fresh_Suc [of n 0] by (simp add: word_less_nat_alt)
  have "psorted it (mh_list h') = place_seq lt (psorted it (mh_list h)) ?x"
    using psorted_newest [of "mh_list h'" ?x "mh_list h"] m below d' by simp
  then have "heap_items it e h' = priority_place lt (heap_items it e h) (v, False)"
    using e linorder_not_less [of n e] by (simp add: heap_items_def map_place_seq heap_mark_def)
  moreover have "heap_restored e h' = heap_restored e h"
    using m e by (simp add: heap_restored_mset not_less)
  moreover have "heap_good it lt (n + 1) h'"
    using snd d' set below n1 by (auto simp: heap_good_def intro: less_trans)
  ultimately show ?thesis using snd mset_eq_length [OF m] by simp
qed

lemma heap_push_loop_sound:
  assumes "heap_good it lt (hb_nextSeq p) (hb_h p)" and "unat (hb_nextSeq p) + length vs < 2 ^ 64"
    and "hb_hydrateEnd p \<le> hb_nextSeq p" and "heap_push_loop it grow vs p = (b, p')"
  shows "b \<and> heap_good it lt (hb_nextSeq p') (hb_h p') \<and> hb_hydrateEnd p \<le> hb_nextSeq p' \<and>
    heap_items it (hb_hydrateEnd p) (hb_h p') = place_all (priority_place lt) (heap_items it (hb_hydrateEnd p) (hb_h p)) vs \<and>
    heap_restored (hb_hydrateEnd p) (hb_h p') = heap_restored (hb_hydrateEnd p) (hb_h p) \<and>
    length (mh_list (hb_h p')) = length (mh_list (hb_h p)) + length vs \<and>
    (\<exists>h n. p' = p\<lparr>hb_h := h, hb_nextSeq := n\<rparr>)"
  using assms
proof (induction vs arbitrary: p)
  case Nil
  then show ?case by (auto simp: place_all_def intro!: exI [of _ "hb_h p"] exI [of _ "hb_nextSeq p"])
next
  case (Cons v vs)
  obtain b1 h1 where h1: "heap_Push it grow \<lparr>si_Seq = hb_nextSeq p, si_Item = v\<rparr> (hb_h p) = (b1, h1)" by fastforce
  have f: "unat (hb_nextSeq p) + 1 < 2 ^ 64" using Cons.prems(2) by simp
  have n1: "unat (hb_nextSeq p + 1) = unat (hb_nextSeq p) + 1" using fresh_Suc [of _ 0] f by simp
  note g = heap_Push_good [OF Cons.prems(1) f Cons.prems(3) h1]
  let ?p = "p\<lparr>hb_h := h1, hb_nextSeq := hb_nextSeq p + 1\<rparr>"
  have "hb_hydrateEnd p \<le> hb_nextSeq p + 1"
    using Cons.prems(3) n1 by (simp add: word_le_nat_alt)
  then show ?case
    using Cons.IH [of ?p] Cons.prems g h1 n1 by (auto simp: place_all_def)
qed

lemma mh_journal_list [simp]:
  "mh_list (mh_journalOn h) = mh_list h" "mh_shaped z k (mh_journalOn h) = mh_shaped z k h"
  "mh_list (mh_journalOff h) = mh_list h" "mh_shaped z k (mh_journalOff h) = mh_shaped z k h"
  "mh_Len (mh_journalOn h) = mh_Len h"
  by (simp_all add: mh_list_def mh_journalOn_def mh_journalOff_def mh_shaped_def mh_Len_def)

lemma heap_journal_good [simp]:
  "heap_good it lt n (mh_journalOn h) = heap_good it lt n h" "heap_good it lt n (mh_journalOff h) = heap_good it lt n h"
  "heap_items it e (mh_journalOn h) = heap_items it e h" "heap_items it e (mh_journalOff h) = heap_items it e h"
  "heap_restored e (mh_journalOn h) = heap_restored e h" "heap_restored e (mh_journalOff h) = heap_restored e h"
  by (simp_all add: heap_good_def heap_items_def heap_restored_def)

lemma heap_insert_sound:
  assumes core: "heap_core it lt p" and fits: "fits (length vs) (heap_abs it p)" and fresh: "heap_fresh (length vs) p"
    and ins: "heap_insert it grow vs opts p = (r, p3)"
  shows "\<exists>h n. r = Ret () \<and> p3 = p\<lparr>hb_h := h, hb_nextSeq := n\<rparr> \<and>
    heap_core it lt (p\<lparr>hb_h := mh_journalOff h, hb_nextSeq := n\<rparr>) \<and>
    heap_items it (hb_hydrateEnd p) h = place_all (priority_place lt) (heap_items it (hb_hydrateEnd p) (hb_h p)) vs"
proof -
  let ?p = "p\<lparr>hb_h := mh_journalOn (hb_h p)\<rparr>"
  have good: "heap_good it lt (hb_nextSeq ?p) (hb_h ?p)" "hb_hydrateEnd ?p \<le> hb_nextSeq ?p"
    using core by (auto simp: heap_core_def)
  obtain b p1 where loop: "heap_push_loop it grow vs ?p = (b, p1)" by fastforce
  have "unat (hb_nextSeq ?p) + length vs < 2 ^ 64" using fresh by (simp add: heap_fresh_def)
  note g = heap_push_loop_sound [OF good(1) this good(2) loop]
  then obtain h n where p1: "p1 = p\<lparr>hb_h := h, hb_nextSeq := n\<rparr>" by auto
  have r: "r = Ret ()" "p3 = p1"
    using ins loop g by (auto simp: heap_insert_def RunLockedNoErr_def Let_def)
  have bound: "hb_maxSize p = 0 \<or> int (length (mh_list h)) - hb_hydrated p + hb_inflight p \<le> hb_maxSize p"
    using fits heap_admitted [OF core] g p1 by (auto simp: fits_def)
  have "heap_core it lt (p\<lparr>hb_h := mh_journalOff h, hb_nextSeq := n\<rparr>)"
    using core g bound p1 by (auto simp: heap_core_def)
  then show ?thesis using g r p1 by auto
qed

lemma heap_commit_refines:
  fixes p :: "('a, 'w) hbacking"
  assumes core: "heap_core it lt p" and held: "lk_held (hb_lk p)" and fits: "fits (length vs) (heap_abs it p)"
    and fresh: "heap_fresh (length vs) p" and commit: "heap_push_commit it grow c vs opts (p, w) = (r, p', w')"
  shows "spec_commit (priority_place lt) c vs (oo_SideEffect opts) (oo_OnAdmit opts \<noteq> None) (heap_abs it p, w) =
      (r, heap_abs it p', w') \<and> heap_inv it lt p'"
proof -
  obtain x p3 where ins: "heap_insert it grow vs opts p = (x, p3)" by fastforce
  obtain h n where h: "x = Ret ()" "p3 = p\<lparr>hb_h := h, hb_nextSeq := n\<rparr>"
    and core3: "heap_core it lt (p\<lparr>hb_h := mh_journalOff h, hb_nextSeq := n\<rparr>)"
    and items: "heap_items it (hb_hydrateEnd p) h = place_all (priority_place lt) (heap_items it (hb_hydrateEnd p) (hb_h p)) vs"
    using heap_insert_sound [OF core fits fresh ins] by blast
  define p5 where "p5 = p\<lparr>hb_h := mh_journalOff h, hb_nextSeq := n,
      hb_notEmpty := (if mh_list (hb_h p) = [] then signal_gated (hb_notEmpty p) else hb_notEmpty p)\<rparr>"
  have abs5: "heap_abs it p5 = (heap_abs it p)\<lparr>aq_items := place_all (priority_place lt) (aq_items (heap_abs it p)) vs,
      aq_notEmpty := (if mh_list (hb_h p) = [] then signal_gated (hb_notEmpty p) else hb_notEmpty p)\<rparr>"
    by (simp add: heap_abs_def p5_def items)
  have inv5: "heap_inv it lt (heap_unlock p5)"
    using core3 held core by (simp add: p5_def heap_inv_def heap_core_sig)
  have eq5: "(let wasEmpty = (mh_Len (hb_h p) = 0); p4 = p3\<lparr>hb_h := mh_journalOff (hb_h p3)\<rparr>
      in if wasEmpty \<and> Signal_HasWaiters (hb_notEmpty p4)
         then p4\<lparr>hb_notEmpty := Signal_Signal (hb_notEmpty p4)\<rparr> else p4) = p5"
    using heap_core_Len [OF core] by (cases p) (simp add: h p5_def Let_def signal_gated_def)
  note ab = heap_abandon_inv [OF core held, of opts]
  show ?thesis
    using commit ins h(1) ab inv5 abs5 eq5
    by (cases "hb_backup p"; cases "RunSideEffect (oo_SideEffect opts) w"; cases "fst (RunSideEffect (oo_SideEffect opts) w)")
      (auto simp: heap_push_commit_def spec_commit_def spec_effects_def RunSideEffectLocked_pair
        RunBackup_pair ReleaseReservation_def Let_def split: run_splits)
qed

lemma heap_fits:
  assumes "heap_core it lt p"
  shows "fits n (heap_abs it p) \<longleftrightarrow> hb_maxSize p = 0 \<or>
      int (mh_Len (hb_h p)) - hb_hydrated p + hb_inflight p + int n \<le> hb_maxSize p"
  using heap_admitted [OF assms] heap_core_Len [OF assms] by (simp add: fits_def)

lemma heap_push_round_refines:
  fixes opts :: "(('a, 'w) hbacking, 'w) opoptions"
  assumes "oo_OnAdmit opts = None"
  shows "refines_from (\<lambda>p. heap_inv it lt p \<and> heap_fresh (length vs) p) (heap_inv it lt) (heap_abs it)
    (heap_push_round it grow g c vs opts) (spec_push (priority_place lt) g c vs (oo_SideEffect opts))"
  unfolding refines_from_def
proof (intro allI impI)
  fix p :: "('a, 'w) hbacking" and w :: 'w
  assume inv: "heap_inv it lt p \<and> heap_fresh (length vs) p"
  have core: "heap_core it lt p" "lk_held (qlock_Lock (hb_lk p))"
    using heap_lock_core [of it lt p] inv by auto
  have commit: "fits (length vs) (heap_abs it p) \<Longrightarrow>
      heap_push_commit it grow c vs opts (heap_lock p, w) = (r, p', w') \<Longrightarrow>
      spec_commit (priority_place lt) c vs (oo_SideEffect opts) False (heap_abs it p, w) = (r, heap_abs it p', w') \<and>
        heap_inv it lt p'" for r p' w'
    using heap_commit_refines [of "heap_lock p" vs grow c opts w r p' w'] core assms inv
    by (simp add: heap_fresh_def)
  show "case heap_push_round it grow g c vs opts (p, w) of (r, p', w') \<Rightarrow>
      spec_push (priority_place lt) g c vs (oo_SideEffect opts) (heap_abs it p, w) = (r, heap_abs it p', w') \<and>
      heap_inv it lt p'"
    using core commit inv heap_fits [OF core(1), of "length vs"]
    by (cases "heap_push_commit it grow c vs opts (heap_lock p, w)")
      (auto simp: heap_push_round_def spec_push_def spec_gate_def assms heap_inv_def Let_def)
qed

lemma heap_push_round_parks:
  "heap_push_round it grow g c vs opts (p, w) = (Parked, p', w') \<Longrightarrow> oo_OnAdmit opts = None \<Longrightarrow>
     hb_nextSeq p' = hb_nextSeq p"
  by (auto simp: heap_push_round_def heap_push_commit_def Let_def
      split: if_splits prod.splits outcome.splits option.splits)

lemma heap_push_round_hook:
  assumes inv: "heap_inv it lt p" and opt: "oo_OnAdmit opts = Some hook"
    and gate: "spec_gate (length vs) (heap_abs it p) = GateAdmit"
    and hook: "hook (p\<lparr>hb_inflight := hb_inflight p + int (length vs)\<rparr>, w) = (r, p1, w1)"
    and inv1: "heap_inv it lt p1" and "int (length vs) \<le> hb_inflight p1" and "heap_fresh (length vs) p1"
  shows "case heap_push_round it grow g c vs opts (p, w) of (r', p', w') \<Rightarrow>
    spec_admitted (priority_place lt) c vs (oo_SideEffect opts) r (heap_abs it p1, w1) = (r', heap_abs it p', w') \<and>
    heap_inv it lt p'"
proof -
  define p2 where "p2 = p1\<lparr>hb_lk := qlock_Lock (hb_lk p1), hb_inflight := hb_inflight p1 - int (length vs)\<rparr>"
  have abs2: "heap_abs it p2 = (heap_abs it p1)\<lparr>aq_inflight := hb_inflight p1 - int (length vs)\<rparr>"
    by (simp add: p2_def)
  have core2: "heap_core it lt p2" and held2: "lk_held (hb_lk p2)"
    using assms(5,6) by (auto simp: p2_def heap_inv_def heap_core_def)
  have fits2: "fits (length vs) (heap_abs it p2)" "heap_fresh (length vs) p2"
    using heap_inv_bounded [OF inv1] assms(7)
    by (simp_all add: abs2 fits_def aq_bounded_def aq_admitted_def heap_fresh_def p2_def)
  note commit = heap_commit_refines [OF core2 held2 fits2, of grow c opts w1]
  have gate': "\<not> hb_closed p" "\<not> (0 < hb_maxSize p \<and> hb_maxSize p < int (length vs))"
      "hb_maxSize p = 0 \<or>
       int (mh_Len (hb_h p)) - hb_hydrated p + hb_inflight p + int (length vs) \<le> hb_maxSize p"
    using inv gate heap_fits [of p "length vs"]
    by (auto simp: spec_gate_def heap_inv_def split: if_splits)
  have enter: "RunOnAdmit_enter heap_cells heap_put_cells (int (length vs)) (heap_lock p) =
      p\<lparr>hb_inflight := hb_inflight p + int (length vs)\<rparr>"
    using inv by (simp add: RunOnAdmit_enter_def heap_cells_def heap_put_cells_def heap_inv_def)
  have put: "heap_put_cells (qlock_Lock (hb_lk p1), hb_inflight p1 - int (length vs), hb_notFull p1) p1 = p2"
    by (cases p1) (simp add: p2_def heap_put_cells_def)
  have wake: "heap_put_cells (l, hb_inflight p1 - int (length vs), signal_gated (hb_notFull p1)) p1 =
      p2\<lparr>hb_lk := l, hb_notFull := signal_gated (hb_notFull p2)\<rparr>" for l
    by (cases p1) (simp add: p2_def heap_put_cells_def)
  have same: "hb_closed p2 = hb_closed p1" "hb_notFull p2 = hb_notFull p1" "hb_lk p2 = qlock_Lock (hb_lk p1)"
    by (simp_all add: p2_def)
  have woken: "heap_core it lt (p2\<lparr>hb_notFull := signal_gated (hb_notFull p1)\<rparr>)"
      "heap_core it lt (p2\<lparr>hb_lk := l, hb_notFull := signal_gated (hb_notFull p1)\<rparr>)" for l
    using core2 assms(5) by (auto simp: heap_inv_def heap_core_sig)
  have rel: "qlock_Unlock (qlock_Lock (hb_lk p1)) = hb_lk p1" "lk_ok (hb_lk p1)"
    using assms(5) by (simp_all add: heap_inv_def)
  show ?thesis
    using gate' core2 woken held2 commit opt hook rel
    by (cases "heap_push_commit it grow c vs opts (p2, w1)"; cases r)
      (auto simp: heap_push_round_def RunOnAdmit_def RunOnAdmit_exit_def enter spec_admitted_def
        heap_cells_def put wake same Let_def abs2 heap_inv_def heap_abandon_def ReleaseReservation_def
        split: option.splits)
qed

lemma heap_reserved_inv:
  "heap_inv it lt p \<Longrightarrow> spec_gate n (heap_abs it p) = GateAdmit \<Longrightarrow>
     heap_inv it lt (p\<lparr>hb_inflight := hb_inflight p + int n\<rparr>)"
  using heap_fits [of p n] heap_core_Len [of it lt p]
  by (auto simp: spec_gate_def heap_inv_def heap_core_def split: if_splits)

lemma heap_Pop_good:
  assumes good: "heap_good it lt n h" and ne: "mh_list h \<noteq> []" and pop: "heap_Pop it h = (r, h')"
  shows "\<exists>x. r = Some x \<and> heap_good it lt n h' \<and> psorted it (mh_list h) = x # psorted it (mh_list h')"
proof -
  obtain k where k: "mh_shaped (it_zero it) k h"
    and heap: "heap_ordered (seq_lt lt) 0 (length (mh_list h)) (mh_list h)"
    and dist: "seqs_distinct (mh_list h)" and below: "\<forall>x \<in> set (mh_list h). si_Seq x < n"
    using good by (auto simp: heap_good_def)
  let ?x = "mh_list h ! 0"
  note snd = heap_Pop_sound [OF k heap ne pop]
  then have m: "mset (mh_list h) = mset (?x # mh_list h')" by simp
  have set: "set (mh_list h) = insert ?x (set (mh_list h'))" using mset_eq_setD [OF m] by simp
  have "\<not> seq_lt lt y ?x" if "y \<in> set (mh_list h')" for y
    using po.heap_root [OF heap] that set by (metis in_set_conv_nth insertCI)
  then have "psorted it (mh_list h) = ?x # psorted it (mh_list h')"
    using psorted_min [of "mh_list h" ?x "mh_list h'"] snd dist by simp
  moreover have "heap_good it lt n h'"
    using snd seqs_distinct_mset [OF m] dist below set by (auto simp: heap_good_def)
  ultimately show ?thesis using snd by simp
qed

lemma heap_pop_loop_sound:
  assumes "heap_good it lt n (hb_h p)" and "k \<le> length (mh_list (hb_h p))"
    and "heap_pop_loop it k (p, popped) = (b, p', popped')"
  shows "b \<and> popped' = popped @ take k (psorted it (mh_list (hb_h p))) \<and>
    (\<exists>h. p' = p\<lparr>hb_h := h\<rparr> \<and> heap_good it lt n h \<and> psorted it (mh_list h) = drop k (psorted it (mh_list (hb_h p))))"
  using assms
proof (induction k arbitrary: p popped)
  case 0
  then show ?case by (auto intro!: exI [of _ "hb_h p"])
next
  case (Suc k)
  obtain r h1 where h1: "heap_Pop it (hb_h p) = (r, h1)" by fastforce
  have "mh_list (hb_h p) \<noteq> []" using Suc.prems(2) by auto
  from heap_Pop_good [OF Suc.prems(1) this h1] obtain x where
    x: "r = Some x" "heap_good it lt n h1" "psorted it (mh_list (hb_h p)) = x # psorted it (mh_list h1)"
    by blast
  have "length (mh_list (hb_h p)) = Suc (length (mh_list h1))"
    using arg_cong [OF x(3), of length] by simp
  then show ?case using Suc.IH [of "p\<lparr>hb_h := h1\<rparr>" "popped @ [x]"] Suc.prems x h1 by auto
qed

lemma heap_dropHydrated_eq:
  assumes "int (length (filter (\<lambda>s. s < hb_hydrateEnd p) seqs)) \<le> hb_hydrated p"
  shows "heap_dropHydrated seqs p =
    p\<lparr>hb_hydrated := hb_hydrated p - int (length (filter (\<lambda>s. s < hb_hydrateEnd p) seqs))\<rparr>"
  using assms
proof (induction seqs arbitrary: p)
  case (Cons s seqs)
  then show ?case by (cases "s < hb_hydrateEnd p") auto
qed simp

lemma heap_restored_psorted: "heap_restored e h = length (filter (\<lambda>x. si_Seq x < e) (psorted it (mh_list h)))"
  by (simp add: heap_restored_def length_filter_psorted)

text \<open>The state after the removal of the entries \<open>gone\<close> has become final.\<close>

lemma heap_removed:
  assumes core: "heap_core it lt p" and good: "heap_good it lt (hb_nextSeq p) h"
    and count: "\<And>P. length (filter P (mh_list (hb_h p))) = length (filter P (mh_list h)) + length (filter P gone)"
  shows "heap_core it lt (heap_dropHydrated (map si_Seq gone) (p\<lparr>hb_h := h\<rparr>)) \<and>
    heap_dropHydrated (map si_Seq gone) (p\<lparr>hb_h := h\<rparr>) =
      p\<lparr>hb_h := h, hb_hydrated := int (heap_restored (hb_hydrateEnd p) h)\<rparr>"
proof -
  define g where "g = length (filter (\<lambda>s. s < hb_hydrateEnd p) (map si_Seq gone))"
  have r: "heap_restored (hb_hydrateEnd p) (hb_h p) = heap_restored (hb_hydrateEnd p) h + g"
    using count [of "\<lambda>x. si_Seq x < hb_hydrateEnd p"]
    by (simp add: heap_restored_def filter_map comp_def g_def)
  then have eq: "heap_dropHydrated (map si_Seq gone) (p\<lparr>hb_h := h\<rparr>) =
      p\<lparr>hb_h := h, hb_hydrated := int (heap_restored (hb_hydrateEnd p) h)\<rparr>"
    using core heap_dropHydrated_eq [of "p\<lparr>hb_h := h\<rparr>" "map si_Seq gone"] by (auto simp: heap_core_def g_def)
  have "g \<le> length gone" using length_filter_le [of _ "map si_Seq gone"] by (simp add: g_def del: length_filter_le)
  then have "heap_core it lt (p\<lparr>hb_h := h, hb_hydrated := int (heap_restored (hb_hydrateEnd p) h)\<rparr>)"
    using core good r count [of "\<lambda>_. True"] by (auto simp: heap_core_def)
  then show ?thesis using eq by simp
qed

lemma heap_pop_round_refines:
  fixes opts :: "(('a, 'w) hbacking, 'w) opoptions"
  shows "refines (heap_inv it lt) (heap_abs it) (heap_pop_round it g c n opts) (spec_pop g c n (oo_SideEffect opts))"
  unfolding refines_def
proof (intro allI impI)
  fix p :: "('a, 'w) hbacking" and w :: 'w
  assume inv: "heap_inv it lt p"
  have core: "heap_core it lt p" "lk_held (qlock_Lock (hb_lk p))"
    using heap_lock_core [OF inv] by auto
  let ?xs = "mh_list (hb_h p)" and ?p = "heap_lock p"
  define k where "k = (if n > mh_Len (hb_h p) then mh_Len (hb_h p) else n)"
  have len: "mh_Len (hb_h p) = length ?xs" using heap_core_Len [OF core(1)] .
  have k: "k \<le> length ?xs" "take k (psorted it ?xs) = take n (psorted it ?xs)" "drop k (psorted it ?xs) = drop n (psorted it ?xs)"
    using len by (auto simp: k_def)
  obtain b p2 popped where loop: "heap_pop_loop it k (?p\<lparr>hb_h := mh_journalOn (hb_h p)\<rparr>, []) = (b, p2, popped)"
    by (metis prod_cases3)
  have "heap_good it lt (hb_nextSeq p) (hb_h (?p\<lparr>hb_h := mh_journalOn (hb_h p)\<rparr>))"
    using core(1) by (auto simp: heap_core_def)
  from heap_pop_loop_sound [OF this _ loop] k obtain h where b: "b" and popped: "popped = take n (psorted it ?xs)"
    and p2: "p2 = ?p\<lparr>hb_h := h\<rparr>" and good: "heap_good it lt (hb_nextSeq p) h"
    and rest: "psorted it (mh_list h) = drop n (psorted it ?xs)"
    by auto
  obtain j where j: "mh_shaped (it_zero it) j (hb_h p)" using core(1) by (auto simp: heap_core_def heap_good_def)
  have "journalled (it_zero it) ?xs [] (hb_h (?p\<lparr>hb_h := mh_journalOn (hb_h p)\<rparr>))"
    using journalled_On [OF j] by simp
  note jr = heap_pop_loop_journalled [OF this _ _ loop]
  have rb: "mh_list (mh_rollback (it_zero it) (length ?xs) popped h) = ?xs"
      "\<exists>k. mh_shaped (it_zero it) k (mh_rollback (it_zero it) (length ?xs) popped h)"
    using jr k(1) rollback_exact [of "it_zero it" ?xs popped h] p2 by auto
  have rinv: "heap_inv it lt (heap_restore it (length ?xs) popped p2)"
    and rabs: "heap_abs it (heap_restore it (length ?xs) popped p2) = heap_abs it p"
    using rb core by (auto simp: p2 heap_restore_def heap_inv_def heap_core_def heap_good_def heap_abs_def
        heap_items_def heap_restored_def)
  have count: "length (filter P ?xs) = length (filter P (mh_list (mh_journalOff h))) + length (filter P popped)" for P
  proof -
    have "filter P (psorted it ?xs) = filter P popped @ filter P (psorted it (mh_list h))"
      unfolding popped rest by (metis append_take_drop_id filter_append)
    from arg_cong [OF this, of length] show ?thesis by (simp add: length_filter_psorted)
  qed
  define p5 where "p5 = heap_dropHydrated (map si_Seq popped) (p2\<lparr>hb_h := mh_journalOff (hb_h p2)\<rparr>)"
  have core5: "heap_core it lt p5"
    and eq5: "p5 = ?p\<lparr>hb_h := mh_journalOff h, hb_hydrated := int (heap_restored (hb_hydrateEnd p) (mh_journalOff h))\<rparr>"
    using heap_removed [of ?p "mh_journalOff h" popped] core good count by (auto simp: p5_def p2)
  have abs5: "heap_abs it (heap_wake_producers p5) = (heap_abs it p)\<lparr>aq_items := drop n (aq_items (heap_abs it p)),
      aq_notFull := signal_gated (hb_notFull p)\<rparr>"
    by (simp add: eq5 heap_wake_eq heap_abs_def heap_items_def rest drop_map)
  have inv5: "heap_inv it lt (heap_unlock (heap_wake_producers p5))"
    using core5 core(2) by (simp add: heap_wake_eq heap_inv_def) (simp add: eq5)
  have bk: "hb_backup p2 = hb_backup p" by (simp add: p2)
  have out: "map si_Item popped = take n (aq_contents (heap_abs it p))" by (simp add: popped take_map)
  have ne: "mh_list (hb_h p) = [] \<longleftrightarrow> mh_Len (hb_h p) = 0" using len by simp
  let ?rest = "heap_restore it (mh_Len (hb_h p)) popped"
  have round: "heap_pop_round it g c n opts (p, w) =
      (case RunSideEffect (oo_SideEffect opts) w of
         (Unwinds, w1) \<Rightarrow> (Done Unwinds, heap_unlock ?p, w1)
       | (Ret (Some e), w1) \<Rightarrow> (returns ([], Some e), heap_unlock ?p, w1)
       | (Ret None, w1) \<Rightarrow>
           (case hb_backup p of
              None \<Rightarrow> (returns (map si_Item popped, None), heap_unlock (heap_wake_producers p5), w1)
            | Some bk \<Rightarrow>
                (case bk_Del bk c (map si_Item popped) w1 of
                   (Unwound, w2) \<Rightarrow> (Done Unwinds, ?rest p2, w2)
                 | (Returned (Some e), w2) \<Rightarrow> (returns ([], WrapBackup (Some e)), ?rest p2, w2)
                 | (Returned None, w2) \<Rightarrow> (returns (map si_Item popped, None), heap_unlock (heap_wake_producers p5), w2))))"
    if "\<not> hb_closed p" "0 < mh_Len (hb_h p)"
  proof -
    have run: "RunLockedNoErr (heap_pop_loop it k) rel (?p\<lparr>hb_h := mh_journalOn (hb_h p)\<rparr>, []) = (Ret (), p2, popped)" for rel
      using loop b by (simp add: RunLockedNoErr_def)
    have kl: "(if mh_Len (hb_h ?p) < n then mh_Len (hb_h ?p) else n) = k" by (simp add: k_def)
    show ?thesis
      using that
      unfolding heap_pop_round_def Let_def RunSideEffectLocked_pair p5_def prod.case kl
      by (cases "hb_backup p"; cases "RunSideEffect (oo_SideEffect opts) w"; cases "fst (RunSideEffect (oo_SideEffect opts) w)")
        (simp_all add: run bk RunBackup_pair split: option.split call_result.split prod.split)
  qed
  show "case heap_pop_round it g c n opts (p, w) of (r, p', w') \<Rightarrow>
      spec_pop g c n (oo_SideEffect opts) (heap_abs it p, w) = (r, heap_abs it p', w') \<and> heap_inv it lt p'"
  proof (cases "\<not> hb_closed p \<and> 0 < mh_Len (hb_h p)")
    case True
    then show ?thesis
      using round inv core rinv rabs inv5 abs5
      by (auto simp: spec_pop_def spec_effects_def out len heap_inv_def Let_def split: run_splits)
  next
    case False
    then show ?thesis
      using core inv ne by (auto simp: heap_pop_round_def spec_pop_def heap_inv_def Let_def)
  qed
qed

end

end
