(* ===== verification/Heap_Contract.thy ===== *)
theory Heap_Contract
  imports Heap_Backing
begin

text \<open>
  The remaining methods of the heap backing (\<open>Peek\<close>, \<open>Exists\<close>, \<open>Len\<close>, \<open>Del\<close>, \<open>NotEmpty\<close>, \<open>NotFull\<close>, \<open>Close\<close>,
  \<open>Clear\<close>, \<open>All\<close>, \<open>AllCOW\<close>, \<open>Hydrate\<close>) refine the abstract queue, the blocking methods do so under every
  schedule, and the backing therefore keeps the contract \<open>queue_backing\<close> with placing by priority, for every
  lawful item type.
\<close>

lemma psorted_Nil [simp]: "psorted it [] = []"
  by (metis length_0_conv length_psorted)

lemma heap_exists_loop_iff: "heap_exists_loop it v xs = (\<exists>x \<in> set xs. it_equal it (si_Item x) v)"
  by (induction xs) auto

lemma heap_del_loop_eq:
  "heap_del_loop it vs xs (kept, removed, seqs) =
     (kept @ filter (\<lambda>x. \<not> MatchesAny it (si_Item x) vs) xs,
      removed @ map si_Item (filter (\<lambda>x. MatchesAny it (si_Item x) vs) xs),
      seqs @ map si_Seq (filter (\<lambda>x. MatchesAny it (si_Item x) vs) xs))"
  by (induction xs arbitrary: kept removed seqs) auto

lemma heap_inv_sig: "heap_inv it lt p \<Longrightarrow> sig_ok (hb_notFull p) \<and> sig_ok (hb_notEmpty p)"
  by (auto simp: heap_inv_def heap_core_sig)

lemma heap_resume_notFull_refines:
  assumes "heap_inv it lt p" and "waits_full g (heap_abs it p)"
  shows "case heap_resume_notFull g c mk (p, w) of (r, p', w') \<Rightarrow>
    spec_resume_notFull g c mk (heap_abs it p, w) = (r, heap_abs it p', w') \<and> heap_inv it lt p' \<and> hb_nextSeq p' = hb_nextSeq p"
  using assms sig_ok_return [of g "hb_notFull p" c w]
  by (auto simp: heap_resume_notFull_def spec_resume_notFull_def heap_ClosedOrCause_def closed_or_cause_def
      heap_inv_def Let_def split: prod.splits option.splits)

lemma heap_resume_notEmpty_refines:
  assumes "heap_inv it lt p" and "waits_empty g (heap_abs it p)"
  shows "case heap_resume_notEmpty g c mk (p, w) of (r, p', w') \<Rightarrow>
    spec_resume_notEmpty g c mk (heap_abs it p, w) = (r, heap_abs it p', w') \<and> heap_inv it lt p'"
  using assms sig_ok_return [of g "hb_notEmpty p" c w]
  by (auto simp: heap_resume_notEmpty_def spec_resume_notEmpty_def heap_ClosedOrCause_def closed_or_cause_def
      heap_inv_def Let_def split: prod.splits option.splits)

lemma heap_closeAndWake_abs: "heap_abs it (heap_closeAndWake p) = aq_close (heap_abs it p)"
  by (simp add: heap_closeAndWake_def aq_close_def Let_def)

lemma heap_closeAndWake_inv: "heap_core it lt p \<Longrightarrow> lk_held (hb_lk p) \<Longrightarrow> heap_inv it lt (heap_closeAndWake p)"
  by (simp add: heap_closeAndWake_def heap_inv_def Let_def heap_core_sig)

lemma heap_Close_refines:
  fixes options :: "(('a, 'w) hbacking, 'w) opoption list"
  assumes "ResolveOpOptions CallClose options = Ret (opts, None)"
  shows "refines (heap_inv it lt) (heap_abs it) (heap_Close c options) (spec_close c (oo_SideEffect opts))"
  unfolding refines_def
proof (intro allI impI)
  fix p :: "('a, 'w) hbacking" and w :: 'w
  assume inv: "heap_inv it lt p"
  have core: "heap_core it lt (heap_lock p)" "lk_held (hb_lk (heap_lock p))"
    using heap_lock_core [OF inv] by auto
  note fin = heap_unlock_inv [OF core] heap_closeAndWake_inv [OF core]
  show "case heap_Close c options (p, w) of (r, p', w') \<Rightarrow>
      spec_close c (oo_SideEffect opts) (heap_abs it p, w) = (r, heap_abs it p', w') \<and> heap_inv it lt p'"
    using fin
    by (cases "hb_backup p"; cases "RunSideEffect (oo_SideEffect opts) w"; cases "fst (RunSideEffect (oo_SideEffect opts) w)")
      (auto simp: heap_Close_def resolve_def assms spec_close_def RunSideEffectLocked_pair
        RunBackup_pair heap_closeAndWake_abs Let_def split: run_splits)
qed

lemma heap_notempty_round_refines:
  "refines (heap_inv it lt) (heap_abs it) (heap_notempty_round g opts) (spec_notempty g (oo_SideEffect opts))"
proof (rule refinesI)
  fix p :: "('a, 'b) hbacking" and w
  assume inv: "heap_inv it lt p"
  then have "mh_Len (hb_h p) = length (mh_list (hb_h p))" by (auto simp: heap_inv_def heap_core_Len)
  then show "spec_notempty g (oo_SideEffect opts) (heap_abs it p, w) =
      map_prod id (map_prod (heap_abs it) id) (heap_notempty_round g opts (p, w))"
    using inv by (auto simp: heap_notempty_round_def spec_notempty_def heap_inv_def RunSideEffectLocked_pair Let_def
        split: run_splits)
qed (auto simp: heap_notempty_round_def heap_inv_def RunSideEffectLocked_pair Let_def split: run_splits)

lemma heap_Len_law: "heap_inv it lt p \<Longrightarrow> heap_Len p = (int (length (aq_items (heap_abs it p))), p)"
  using heap_core_Len [of it lt p] by (cases p) (simp add: heap_Len_def heap_inv_def)

lemma heap_core_inflight: "heap_core it lt p \<Longrightarrow> hb_maxSize p = 0 \<or> hb_inflight p \<le> hb_maxSize p"
proof -
  assume core: "heap_core it lt p"
  then have "hb_hydrated p \<le> int (length (mh_list (hb_h p)))" by (simp add: heap_core_def heap_restored_def)
  then show ?thesis using core unfolding heap_core_def by linarith
qed

text \<open>The heap array emptied, or replaced by another arrangement of some of its entries.\<close>

lemma heap_cleared:
  assumes "heap_core it lt p"
    and "p3 = heap_wake_producers (p\<lparr>hb_h := (hb_h p)\<lparr>mh_items := slice_prefix 0
      (slice_clear (zero_seqitem (it_zero it)) 0 (mh_Len (hb_h p)) (mh_items (hb_h p)))\<rparr>, hb_hydrated := 0\<rparr>)"
  shows "heap_core it lt p3 \<and> heap_abs it p3 = (heap_abs it p)\<lparr>aq_items := [], aq_notFull := signal_gated (hb_notFull p)\<rparr>"
proof -
  obtain k where k: "mh_shaped (it_zero it) k (hb_h p)" using assms(1) by (auto simp: heap_core_def heap_good_def)
  then have "mh_items (hb_h p) = \<lparr>s_arr = mh_list (hb_h p) @ replicate k (zero_seqitem (it_zero it)), s_len = length (mh_list (hb_h p))\<rparr>"
    by (simp add: mh_shaped_def)
  then have items: "mh_items (hb_h p3) = \<lparr>s_arr = replicate (length (mh_list (hb_h p)) + k) (zero_seqitem (it_zero it)), s_len = 0\<rparr>"
    using mh_Len_list [OF k]
    by (simp add: assms(2) heap_wake_eq slice_prefix_def slice_clear_def replicate_add)
  then have list: "mh_list (hb_h p3) = []" by (simp add: mh_list_def slice_list_def)
  then have "mh_shaped (it_zero it) (length (mh_list (hb_h p)) + k) (hb_h p3)"
    using items by (simp add: mh_shaped_def)
  then have "heap_good it lt (hb_nextSeq p) (hb_h p3)"
    using list by (auto simp: heap_good_def heap_ordered_def)
  moreover have "hb_hydrated p3 = 0" "hb_inflight p3 = hb_inflight p" "hb_maxSize p3 = hb_maxSize p" "hb_nextSeq p3 = hb_nextSeq p"
    "hb_hydrateEnd p3 = hb_hydrateEnd p" "hb_notFull p3 = signal_gated (hb_notFull p)" "hb_notEmpty p3 = hb_notEmpty p"
    "hb_closed p3 = hb_closed p" "hb_backup p3 = hb_backup p"
    by (simp_all add: assms(2) heap_wake_eq)
  moreover note heap_core_inflight [OF assms(1)]
  ultimately show ?thesis
    using assms(1) list by (auto simp: heap_core_def heap_abs_def heap_restored_def heap_items_def)
qed

lemma heap_Clear_refines:
  fixes options :: "(('a, 'w) hbacking, 'w) opoption list"
  assumes "ResolveOpOptions CallClear options = Ret (opts, None)"
  shows "refines (heap_inv it lt) (heap_abs it) (heap_Clear it c options) (spec_clear c (oo_SideEffect opts))"
  unfolding refines_def
proof (intro allI impI)
  fix p :: "('a, 'w) hbacking" and w :: 'w
  assume inv: "heap_inv it lt p"
  have core: "heap_core it lt (heap_lock p)" "lk_held (hb_lk (heap_lock p))"
    using heap_lock_core [OF inv] by auto
  define p3 where "p3 = heap_wake_producers (heap_lock p\<lparr>hb_h := (hb_h p)\<lparr>mh_items := slice_prefix 0
      (slice_clear (zero_seqitem (it_zero it)) 0 (mh_Len (hb_h p)) (mh_items (hb_h p)))\<rparr>, hb_hydrated := 0\<rparr>)"
  have cleared: "heap_core it lt p3" "heap_abs it p3 = (heap_abs it p)\<lparr>aq_items := [], aq_notFull := signal_gated (hb_notFull p)\<rparr>"
    using heap_cleared [OF core(1), of p3] by (auto simp: p3_def)
  have "hb_lk p3 = qlock_Lock (hb_lk p)" by (simp add: p3_def heap_wake_eq)
  then have fin: "heap_inv it lt (heap_unlock (heap_lock p))" "heap_inv it lt (heap_unlock p3)"
    using core inv cleared(1) by (auto simp: heap_inv_def)
  have "mh_Len (hb_h p) = length (mh_list (hb_h p))" using core(1) heap_core_Len [of it lt p] by simp
  then have ne: "mh_Len (hb_h p) = 0 \<longleftrightarrow> mh_list (hb_h p) = []" by simp
  show "case heap_Clear it c options (p, w) of (r, p', w') \<Rightarrow>
      spec_clear c (oo_SideEffect opts) (heap_abs it p, w) = (r, heap_abs it p', w') \<and> heap_inv it lt p'"
    using fin cleared ne
    by (cases "hb_backup p"; cases "RunSideEffect (oo_SideEffect opts) w"; cases "fst (RunSideEffect (oo_SideEffect opts) w)")
      (auto simp: heap_Clear_def resolve_def assms spec_clear_def spec_effects_def p3_def [symmetric] Let_def
        split: run_splits)
qed

section \<open>Lawful items\<close>

context lawful_item
begin

lemma heap_root_first:
  assumes "heap_good it lt n h" and "mh_list h \<noteq> []"
  shows "hd (psorted it (mh_list h)) = mh_list h ! 0"
proof -
  obtain x xs where x: "mh_list h = x # xs" using assms(2) by (cases "mh_list h") auto
  have heap: "heap_ordered (seq_lt lt) 0 (length (mh_list h)) (mh_list h)" and "seqs_distinct (mh_list h)"
    using assms(1) by (auto simp: heap_good_def)
  have "\<forall>y \<in> set xs. \<not> seq_lt lt y x"
    using po.heap_root [OF heap] x by (metis in_set_conv_nth list.set_intros(2) nth_Cons_0)
  then show ?thesis
    using psorted_min [of "mh_list h" x xs] \<open>seqs_distinct (mh_list h)\<close> x by simp
qed

lemma heap_Peek_refines:
  assumes "ResolveOpOptions CallPeek options = Ret (opts, None)"
  shows "refines (heap_inv it lt) (heap_abs it) (heap_Peek it options) (spec_peek (it_zero it) (oo_SideEffect opts))"
proof (rule refinesI)
  fix p :: "('a, 'b) hbacking" and w
  assume inv: "heap_inv it lt p"
  then have good: "heap_good it lt (hb_nextSeq p) (hb_h p)" "mh_Len (hb_h p) = length (mh_list (hb_h p))"
    by (auto simp: heap_inv_def heap_core_Len heap_core_def)
  show "spec_peek (it_zero it) (oo_SideEffect opts) (heap_abs it p, w) =
      map_prod id (map_prod (heap_abs it) id) (heap_Peek it options (p, w))"
  proof (cases "psorted it (mh_list (hb_h p))")
    case Nil
    then have "mh_list (hb_h p) = []" by (metis length_0_conv length_psorted)
    then show ?thesis
      using inv good Nil
      by (auto simp: heap_Peek_def resolve_def assms spec_peek_def heap_inv_def Let_def split: prod.splits)
  next
    case (Cons x xs)
    then have ne: "mh_list (hb_h p) \<noteq> []" by auto
    then have "mh_list (hb_h p) ! 0 = x" using heap_root_first [OF good(1) ne] Cons by simp
    then show ?thesis
      using inv good Cons ne
      by (auto simp: heap_Peek_def resolve_def assms spec_peek_def heap_inv_def Let_def split: prod.splits)
  qed
qed (auto simp: heap_Peek_def resolve_def assms heap_inv_def Let_def split: prod.splits)

lemma heap_Exists_refines:
  assumes "ResolveOpOptions CallExists options = Ret (opts, None)"
  shows "refines (heap_inv it lt) (heap_abs it) (heap_Exists it v options) (spec_exists it v (oo_SideEffect opts))"
  by (rule refinesI)
    (auto simp: heap_Exists_def resolve_def assms spec_exists_def heap_inv_def heap_exists_loop_iff list_ex_iff Let_def
      split: prod.splits)

lemma heap_notfull_round_refines:
  "refines (heap_inv it lt) (heap_abs it) (heap_notfull_round g opts) (spec_notfull g (oo_SideEffect opts))"
proof -
  have fits: "heap_inv it lt p \<Longrightarrow> fits (Suc 0) (heap_abs it p) = (hb_maxSize p = 0 \<or>
      int (mh_Len (hb_h p)) - hb_hydrated p + hb_inflight p < hb_maxSize p)" for p :: "('a, 'b) hbacking"
    using heap_fits [of p "Suc 0"] by (auto simp: heap_inv_def)
  show ?thesis
    by (rule refinesI)
      (auto simp: heap_notfull_round_def spec_notfull_def fits RunSideEffectLocked_pair Let_def
        simp: heap_inv_def split: run_splits)
qed

text \<open>Another heap on some of the entries.\<close>

lemma heap_good_some:
  assumes "heap_good it lt n h" and "mh_shaped (it_zero it) k h'" and m: "mset (mh_list h') = mset (filter P (mh_list h))"
    and "heap_ordered (seq_lt lt) 0 (length (mh_list h')) (mh_list h')"
  shows "heap_good it lt n h'"
proof -
  have "seqs_distinct (mh_list h')"
    using assms(1) seqs_distinct_mset [OF m] by (simp add: heap_good_def distinct_map_filter)
  moreover have "set (mh_list h') \<subseteq> set (mh_list h)" using mset_eq_setD [OF m] by auto
  ultimately show ?thesis using assms by (auto simp: heap_good_def)
qed

lemma psorted_filter:
  assumes "seqs_distinct xs"
  shows "psorted it (filter P xs) = filter P (psorted it xs)"
proof (rule psorted_unique)
  show "in_order (filter P (psorted it xs))" using psorted_in_order [of xs] by (simp add: sorted_wrt_filter)
  show "mset (filter P (psorted it xs)) = mset (filter P xs)" by simp
  show "seqs_distinct (filter P xs)" using assms by (simp add: distinct_map_filter)
qed

lemma heap_deleted:
  fixes p :: "('a, 'w) hbacking" and vs :: "'a list"
  defines "gone \<equiv> filter (\<lambda>x. MatchesAny it (si_Item x) vs)" and "kept \<equiv> filter (\<lambda>x. \<not> MatchesAny it (si_Item x) vs)"
  assumes core: "heap_core it lt p"
    and init: "heap_Init it ((hb_h p)\<lparr>mh_items := slice_of (zero_seqitem (it_zero it)) (mh_Len (hb_h p)) (kept (mh_list (hb_h p)))\<rparr>) = (b, h2)"
    and p2: "p2 = heap_wake_producers (heap_dropHydrated (map si_Seq (gone (mh_list (hb_h p)))) (p\<lparr>hb_h := h2\<rparr>))"
  shows "b \<and> heap_core it lt p2 \<and> hb_lk p2 = hb_lk p \<and> heap_abs it p2 = (heap_abs it p)\<lparr>
      aq_items := filter (\<lambda>x. \<not> MatchesAny it (fst x) vs) (aq_items (heap_abs it p)),
      aq_notFull := signal_gated (hb_notFull p)\<rparr>"
proof -
  let ?xs = "mh_list (hb_h p)"
  have good: "heap_good it lt (hb_nextSeq p) (hb_h p)" using core by (simp add: heap_core_def)
  let ?h1 = "(hb_h p)\<lparr>mh_items := slice_of (zero_seqitem (it_zero it)) (mh_Len (hb_h p)) (kept ?xs)\<rparr>"
  have l1: "mh_list ?h1 = kept ?xs" by (simp add: mh_list_def)
  then have "mh_shaped (it_zero it) (mh_Len (hb_h p) - length (kept ?xs)) ?h1"
    by (simp add: mh_shaped_def slice_of_def)
  note snd = heap_Init_sound [OF this init]
  then have m: "mset (mh_list h2) = mset (kept ?xs)" using l1 by simp
  have g2: "heap_good it lt (hb_nextSeq p) h2"
    using snd m heap_good_some [OF good, of _ h2 "\<lambda>x. \<not> MatchesAny it (si_Item x) vs"] by (auto simp: kept_def)
  have ps: "psorted it (mh_list h2) = kept (psorted it ?xs)"
  proof (rule psorted_unique)
    show "mset (kept (psorted it ?xs)) = mset (mh_list h2)" by (simp add: m) (simp add: kept_def)
    show "in_order (kept (psorted it ?xs))" using psorted_in_order [of ?xs] by (simp add: kept_def sorted_wrt_filter)
    show "seqs_distinct (mh_list h2)" using g2 by (simp add: heap_good_def)
  qed
  have count: "length (filter P ?xs) = length (filter P (mh_list h2)) + length (filter P (gone ?xs))" for P
  proof -
    have "length (filter P (mh_list h2)) = length (filter P (kept ?xs))" by (simp add: length_filter_mset m)
    then show ?thesis
      using length_filter_partition [of P "\<lambda>x. MatchesAny it (si_Item x) vs" ?xs] by (simp add: kept_def gone_def)
  qed
  note rem = heap_removed [OF core g2 count]
  have eq: "p2 = p\<lparr>hb_h := h2, hb_hydrated := int (heap_restored (hb_hydrateEnd p) h2), hb_notFull := signal_gated (hb_notFull p)\<rparr>"
    by (simp add: p2 rem heap_wake_eq)
  have "heap_core it lt (p\<lparr>hb_h := h2, hb_hydrated := int (heap_restored (hb_hydrateEnd p) h2)\<rparr>)" using rem by metis
  then have "heap_core it lt p2" unfolding eq by (rule heap_core_notFull) (simp add: heap_core_sig [OF core])
  moreover have "heap_abs it p2 = (heap_abs it p)\<lparr>
      aq_items := filter (\<lambda>x. \<not> MatchesAny it (fst x) vs) (aq_items (heap_abs it p)), aq_notFull := signal_gated (hb_notFull p)\<rparr>"
    by (simp add: eq heap_abs_def heap_items_def ps kept_def filter_map comp_def heap_mark_def)
  ultimately show ?thesis using snd by (simp add: eq)
qed

lemma heap_Del_refines:
  fixes options :: "(('a, 'w) hbacking, 'w) opoption list"
  assumes "ResolveOpOptions CallDel options = Ret (opts, None)" and inv: "heap_inv it lt p"
  shows "case heap_Del it c vs options (p, w) of (r, p', w') \<Rightarrow>
    spec_del it c vs (map si_Item (filter (\<lambda>x. MatchesAny it (si_Item x) vs) (mh_list (hb_h p)))) (oo_SideEffect opts)
      (heap_abs it p, w) = (r, heap_abs it p', w') \<and> heap_inv it lt p'"
proof -
  have core: "heap_core it lt (heap_lock p)" "lk_held (hb_lk (heap_lock p))" "heap_core it lt p"
    using heap_lock_core [OF inv] by auto
  let ?gone = "filter (\<lambda>x. MatchesAny it (si_Item x) vs) (mh_list (hb_h p))"
    and ?kept = "filter (\<lambda>x. \<not> MatchesAny it (si_Item x) vs) (mh_list (hb_h p))"
  obtain b h2 where init: "heap_Init it ((hb_h p)\<lparr>mh_items := slice_of (zero_seqitem (it_zero it)) (mh_Len (hb_h p)) ?kept\<rparr>) = (b, h2)"
    by fastforce
  define p2 where "p2 = heap_wake_producers (heap_dropHydrated (map si_Seq ?gone) (heap_lock p\<lparr>hb_h := h2\<rparr>))"
  have del: "b" "heap_core it lt p2" "hb_lk p2 = qlock_Lock (hb_lk p)" "heap_abs it p2 = (heap_abs it p)\<lparr>
      aq_items := filter (\<lambda>x. \<not> MatchesAny it (fst x) vs) (aq_items (heap_abs it p)),
      aq_notFull := signal_gated (hb_notFull p)\<rparr>"
    using heap_deleted [OF core(1), of vs b h2 p2] init by (auto simp: p2_def)
  have fin: "heap_inv it lt (heap_unlock (heap_lock p))" "heap_inv it lt (heap_unlock p2)"
    using core inv del by (auto simp: heap_inv_def)
  show ?thesis
    using fin del init
    by (cases "hb_backup p"; cases "RunSideEffect (oo_SideEffect opts) w"; cases "fst (RunSideEffect (oo_SideEffect opts) w)")
      (auto simp: heap_Del_def resolve_def assms spec_del_def spec_effects_def heap_del_loop_eq
        p2_def [symmetric] Let_def simp del: heap_abs_simps(7) split: run_splits)
qed

text \<open>A sorted array is a heap, so \<open>All\<close> may sort the heap in place.\<close>

lemma in_order_heap: "in_order xs \<Longrightarrow> heap_ordered (seq_lt lt) 0 (length xs) xs"
  using sorted_wrt_nth_less [of "\<lambda>a b. \<not> seq_lt lt b a" xs] by (simp add: heap_ordered_def par_less)

lemma psorted_psorted: "seqs_distinct xs \<Longrightarrow> psorted it (psorted it xs) = psorted it xs"
  by (rule psorted_unique) (simp_all add: psorted_in_order seqs_distinct_mset [OF mset_psorted])

lemma heap_sorted_in_place:
  assumes core: "heap_core it lt p"
  defines "p1 \<equiv> p\<lparr>hb_h := (hb_h p)\<lparr>mh_items := (mh_items (hb_h p))\<lparr>s_arr :=
      psorted it (mh_list (hb_h p)) @ drop (mh_Len (hb_h p)) (s_arr (mh_items (hb_h p)))\<rparr>\<rparr>\<rparr>"
  shows "heap_core it lt p1 \<and> heap_abs it p1 = heap_abs it p"
proof -
  let ?xs = "mh_list (hb_h p)"
  have good: "heap_good it lt (hb_nextSeq p) (hb_h p)" using core by (simp add: heap_core_def)
  then obtain k where k: "mh_shaped (it_zero it) k (hb_h p)" and dist: "seqs_distinct ?xs" by (auto simp: heap_good_def)
  then have items: "mh_items (hb_h p) = \<lparr>s_arr = ?xs @ replicate k (zero_seqitem (it_zero it)), s_len = length ?xs\<rparr>"
    by (simp add: mh_shaped_def)
  have i1: "mh_items (hb_h p1) = \<lparr>s_arr = psorted it ?xs @ replicate k (zero_seqitem (it_zero it)), s_len = length ?xs\<rparr>"
    using mh_Len_list [OF k] by (simp add: p1_def) (simp add: items)
  then have list: "mh_list (hb_h p1) = psorted it ?xs" by (simp add: mh_list_def slice_list_def)
  have "mh_shaped (it_zero it) k (hb_h p1)" using i1 list by (simp add: mh_shaped_def)
  then have "heap_good it lt (hb_nextSeq p) (hb_h p1)"
    using heap_good_some [OF good, of k "hb_h p1" "\<lambda>_. True"] list in_order_heap [OF psorted_in_order, of ?xs] by simp
  moreover have "heap_restored e (hb_h p1) = heap_restored e (hb_h p)" for e
    by (simp add: heap_restored_def list length_filter_psorted)
  ultimately have "heap_core it lt p1" using core list by (auto simp: heap_core_def p1_def)
  then show ?thesis by (simp add: heap_abs_def heap_items_def list psorted_psorted [OF dist]) (simp add: p1_def)
qed

lemma heap_All_refines:
  "refines (heap_inv it lt) (heap_abs it) (heap_All it c yield) (spec_range (it_zero it) c yield)"
proof (rule refinesI)
  fix p :: "('a, 'b) hbacking" and w
  assume inv: "heap_inv it lt p"
  define p1 where "p1 = (heap_lock p)\<lparr>hb_h := (hb_h (heap_lock p))\<lparr>mh_items := (mh_items (hb_h (heap_lock p)))\<lparr>s_arr :=
      psorted it (mh_list (hb_h (heap_lock p))) @ drop (mh_Len (hb_h (heap_lock p))) (s_arr (mh_items (hb_h (heap_lock p))))\<rparr>\<rparr>\<rparr>"
  have st: "heap_core it lt p1" "heap_abs it p1 = heap_abs it p" "hb_lk p1 = qlock_Lock (hb_lk p)"
    using heap_sorted_in_place [of "heap_lock p"] heap_lock_core [OF inv] by (auto simp: p1_def)
  have run: "heap_All it c yield (p, w) =
      (if hb_closed p then (case yield_last yield (it_zero it) err_closed w of (r, w1) \<Rightarrow> (r, p, w1))
       else (case range_loop (it_zero it) c yield (aq_contents (heap_abs it p)) w of (r, w1) \<Rightarrow> (r, heap_unlock p1, w1)))"
    using inv unfolding heap_All_def Let_def prod.case SliceStable_total p1_def [symmetric]
    by (simp add: heap_inv_def)
  show "spec_range (it_zero it) c yield (heap_abs it p, w) =
      map_prod id (map_prod (heap_abs it) id) (heap_All it c yield (p, w))"
    using st by (simp add: run spec_range_def del: heap_abs_simps(8) split: prod.splits)
  show "heap_inv it lt (fst (snd (heap_All it c yield (p, w))))"
    using st inv by (simp add: run heap_inv_def split: prod.splits)
qed

lemma heap_AllCOW_refines:
  "refines (heap_inv it lt) (heap_abs it) (heap_AllCOW it c yield wanted) (spec_range (it_zero it) c yield)"
  by (rule refinesI)
    (auto simp: heap_AllCOW_def heap_sortedSnapshot_def spec_range_def SliceStable_total heap_inv_def Let_def
      split: prod.splits)

subsection \<open>Blocking\<close>

lemma heap_Push_refines:
  fixes options :: "(('a, 'w) hbacking, 'w) opoption list"
  assumes "ResolveOpOptions CallPush options = Ret (opts, None)" and hook: "oo_OnAdmit opts = None"
    and "ValidateKind it True vs = None"
    and env: "list_all2 (env_refines (\<lambda>p. heap_inv it lt p \<and> heap_fresh (length vs) p) (heap_abs it) (waits_full g)) env aenv"
  shows "refines_from (\<lambda>p. heap_inv it lt p \<and> heap_fresh (length vs) p) (heap_inv it lt) (heap_abs it)
    (heap_Push_op it grow g c vs options env) (spec_Push (priority_place lt) g c vs (oo_SideEffect opts) aenv)"
proof -
  note round = heap_push_round_refines [OF hook, of vs grow g c]
  have "refines_from (\<lambda>p. heap_inv it lt p \<and> heap_fresh (length vs) p) (heap_inv it lt) (heap_abs it)
      (wait_loop (heap_push_round it grow g c vs opts) (heap_resume_notFull g c id) env)
      (spec_Push (priority_place lt) g c vs (oo_SideEffect opts) aenv)"
  proof (rule spec_Push_refines [OF round _ _ _ env])
    fix p :: "('a, 'w) hbacking" and w p' w'
    assume pre: "heap_inv it lt p \<and> heap_fresh (length vs) p"
    then show "heap_inv it lt p \<and> sig_ok (aq_notFull (heap_abs it p))" by (simp add: heap_inv_sig [of it lt])
    show "heap_push_round it grow g c vs opts (p, w) = (Parked, p', w') \<Longrightarrow> heap_inv it lt p' \<and> heap_fresh (length vs) p'"
      using refines_fromD [OF round pre] heap_push_round_parks [of grow g c vs opts p w p' w'] hook pre
      by (auto simp: heap_fresh_def)
    show "waits_full g (heap_abs it p) \<Longrightarrow> case heap_resume_notFull g c id (p, w) of (r, p', w') \<Rightarrow>
        spec_resume_notFull g c id (heap_abs it p, w) = (r, heap_abs it p', w') \<and> heap_inv it lt p' \<and> heap_fresh (length vs) p'"
      using heap_resume_notFull_refines [of it lt p g c id w] pre by (auto simp: heap_fresh_def)
  qed
  then show ?thesis using assms(1,3) by (simp add: heap_Push_op_def resolve_def refines_from_def)
qed

lemma heap_Pop_refines:
  assumes "ResolveOpOptions CallPop options = Ret (opts, None)"
    and env: "list_all2 (env_refines (heap_inv it lt) (heap_abs it) (waits_empty g)) env aenv"
  shows "refines (heap_inv it lt) (heap_abs it) (heap_Pop_op it g c n options env)
    (spec_Pop g c n (oo_SideEffect opts) aenv)"
  using spec_Pop_refines [OF heap_pop_round_refines [of g c n opts] _ heap_resume_notEmpty_refines env] assms heap_inv_sig
  by (fastforce simp: heap_Pop_op_def resolve_def refines_def)

lemma heap_NotEmpty_refines:
  assumes "ResolveOpOptions CallNotEmpty options = Ret (opts, None)"
    and env: "list_all2 (env_refines (heap_inv it lt) (heap_abs it) (waits_empty g)) env aenv"
  shows "refines (heap_inv it lt) (heap_abs it) (heap_NotEmpty g c options env)
    (spec_NotEmpty g c (oo_SideEffect opts) aenv)"
  using spec_NotEmpty_refines [OF heap_notempty_round_refines [of it lt g opts] _ heap_resume_notEmpty_refines env] assms heap_inv_sig
  by (fastforce simp: heap_NotEmpty_def resolve_def refines_def)

lemma heap_resume_notFull_law:
  "heap_inv it lt p \<Longrightarrow> waits_full g (heap_abs it p) \<Longrightarrow> case heap_resume_notFull g c mk (p, w) of (r, p', w') \<Rightarrow>
     spec_resume_notFull g c mk (heap_abs it p, w) = (r, heap_abs it p', w') \<and> heap_inv it lt p'"
  using heap_resume_notFull_refines [of it lt p g c mk w] by auto

lemma heap_NotFull_refines:
  assumes "ResolveOpOptions CallNotFull options = Ret (opts, None)"
    and env: "list_all2 (env_refines (heap_inv it lt) (heap_abs it) (waits_full g)) env aenv"
  shows "refines (heap_inv it lt) (heap_abs it) (heap_NotFull g c options env)
    (spec_NotFull g c (oo_SideEffect opts) aenv)"
  using spec_NotFull_refines [OF heap_notfull_round_refines [of g opts] _ heap_resume_notFull_law env] assms heap_inv_sig
  by (fastforce simp: heap_NotFull_def resolve_def refines_def)

lemma heap_Push_hook:
  assumes "ResolveOpOptions CallPush options = Ret (opts, None)" and "oo_OnAdmit opts = Some hook"
    and "ValidateKind it True vs = None" and inv: "heap_inv it lt p"
    and gate: "spec_gate (length vs) (heap_abs it p) = GateAdmit"
    and hook: "hook (p\<lparr>hb_inflight := hb_inflight p + int (length vs)\<rparr>, w) = (r, p1, w1)"
    and inv1: "heap_inv it lt p1" and "int (length vs) \<le> hb_inflight p1" and "heap_fresh (length vs) p1"
  shows "case heap_Push_op it grow g c vs options env (p, w) of (r', p', w') \<Rightarrow>
    spec_admitted (priority_place lt) c vs (oo_SideEffect opts) r (heap_abs it p1, w1) = (r', heap_abs it p', w') \<and>
    heap_inv it lt p'"
proof -
  obtain r' p' w' where round: "heap_push_round it grow g c vs opts (p, w) = (r', p', w')"
    by (metis prod_cases3)
  note spec = heap_push_round_hook [OF inv assms(2) gate hook inv1 assms(8,9), where grow = grow and g = g and c = c, unfolded round]
  obtain x where "r' = Done x"
    using spec by (cases r') (auto simp: spec_admitted_def spec_commit_def Let_def split: run_splits if_splits)
  then show ?thesis
    using spec round wait_loop_done [of "heap_push_round it grow g c vs opts" "(p, w)" x] assms(1,3)
    by (simp add: heap_Push_op_def resolve_def)
qed

subsection \<open>Hydrate\<close>

text \<open>The restore loop appends without sifting: only the numbering is kept until \<open>heap.Init\<close>.\<close>

abbreviation numbered :: "u64 \<Rightarrow> 'a minheap \<Rightarrow> bool" where
  "numbered n h \<equiv> (\<exists>k. mh_shaped (it_zero it) k h) \<and> seqs_distinct (mh_list h) \<and> (\<forall>x \<in> set (mh_list h). si_Seq x < n)"

abbreviation restored :: "'a minheap \<Rightarrow> ('a \<times> bool) list" where
  "restored h \<equiv> map (\<lambda>x. (si_Item x, True)) (psorted it (mh_list h))"

lemma place_restored: "map (\<lambda>x. (si_Item x, True)) (place_seq lt ys x) = priority_place lt (map (\<lambda>x. (si_Item x, True)) ys) (si_Item x, True)"
  by (induction ys) auto

lemma numbered_append:
  fixes v :: 'a and grow :: "nat \<Rightarrow> nat \<Rightarrow> nat"
  assumes num: "numbered n h" and fresh: "unat n + 1 < 2 ^ 64"
  defines "h' \<equiv> mh_Push grow (it_zero it) \<lparr>si_Seq = n, si_Item = v\<rparr> h"
  shows "numbered (n + 1) h' \<and> restored h' = priority_place lt (restored h) (v, True) \<and>
    length (mh_list h') = Suc (length (mh_list h))"
proof -
  let ?x = "\<lparr>si_Seq = n, si_Item = v\<rparr>"
  obtain k where k: "mh_shaped (it_zero it) k h" using num by blast
  have list: "mh_list h' = mh_list h @ [?x]" and shaped: "\<exists>k. mh_shaped (it_zero it) k h'"
    using mh_Push_list [OF k, of grow ?x] by (auto simp: h'_def)
  have "n < n + 1" using fresh fresh_Suc [of n 0] by (simp add: word_less_nat_alt)
  then have "numbered (n + 1) h'"
    using num shaped list by (auto intro: less_trans)
  moreover have "psorted it (mh_list h') = place_seq lt (psorted it (mh_list h)) ?x"
    using psorted_newest [of "mh_list h'" ?x "mh_list h"] calculation list num by auto
  ultimately show ?thesis using list by (simp add: place_restored)
qed

lemma hbacking_same: "\<exists>h n m. p = p\<lparr>hb_h := h, hb_nextSeq := n, hb_hydrated := m\<rparr>"
  by (intro exI [of _ "hb_h p"] exI [of _ "hb_nextSeq p"] exI [of _ "hb_hydrated p"]) simp

lemma heap_hydrate_loop_sound:
  assumes "heap_hydrate_loop it grow c b rs (p, w) = (r, p', w')" and "numbered (hb_nextSeq p) (hb_h p)"
    and "unat (hb_nextSeq p) + length rs < 2 ^ 64" and "hb_hydrated p = int (length (mh_list (hb_h p)))"
    and "aq_items a = restored (hb_h p)"
  shows "numbered (hb_nextSeq p') (hb_h p') \<and> hb_hydrated p' = int (length (mh_list (hb_h p'))) \<and>
    (\<exists>h n m. p' = p\<lparr>hb_h := h, hb_nextSeq := n, hb_hydrated := m\<rparr>) \<and>
    spec_hydrate_loop (priority_place lt) it True c b rs (a, w) = (r, a\<lparr>aq_items := restored (hb_h p')\<rparr>, w')"
  using assms
proof (induction rs arbitrary: p w a)
  case Nil
  then have "p' = p" by simp
  then show ?case using Nil hbacking_same [of p] by auto
next
  case (Cons y rs)
  show ?case
  proof (cases "\<exists>v w1. y = Yielded v None \<and> ValidateKindOne it True v = None \<and> bk_OnLoad b c v w = (Returned None, w1)")
    case False
    then have "p' = p \<and> spec_hydrate_loop (priority_place lt) it True c b (y # rs) (a, w) = (r, a, w')"
      using Cons.prems(1)
      by (cases y; cases "case y of Yielded v e \<Rightarrow> e | RangeUnwinds \<Rightarrow> None")
        (auto split: option.splits prod.splits call_result.splits)
    moreover have "a = a\<lparr>aq_items := restored (hb_h p)\<rparr>" using Cons.prems(5) by simp
    ultimately show ?thesis using Cons.prems(2,4) hbacking_same [of p] by metis
  next
    case True
    then obtain v w1 where y: "y = Yielded v None" "ValidateKindOne it True v = None" "bk_OnLoad b c v w = (Returned None, w1)"
      by blast
    let ?h = "mh_Push grow (it_zero it) \<lparr>si_Seq = hb_nextSeq p, si_Item = v\<rparr> (hb_h p)"
    let ?p = "p\<lparr>hb_h := ?h, hb_nextSeq := hb_nextSeq p + 1, hb_hydrated := hb_hydrated p + 1\<rparr>"
    let ?a = "a\<lparr>aq_items := priority_place lt (aq_items a) (v, True)\<rparr>"
    have f: "unat (hb_nextSeq p) + 1 < 2 ^ 64" using Cons.prems(3) by simp
    note app = numbered_append [OF Cons.prems(2) f, of grow v]
    have run: "heap_hydrate_loop it grow c b rs (?p, w1) = (r, p', w')"
      using Cons.prems(1) y by simp
    have fr: "unat (hb_nextSeq ?p) + length rs < 2 ^ 64"
      using Cons.prems(3) fresh_Suc [of "hb_nextSeq p" 0] f by simp
    have "numbered (hb_nextSeq p') (hb_h p') \<and> hb_hydrated p' = int (length (mh_list (hb_h p'))) \<and>
      (\<exists>h n m. p' = ?p\<lparr>hb_h := h, hb_nextSeq := n, hb_hydrated := m\<rparr>) \<and>
      spec_hydrate_loop (priority_place lt) it True c b rs (?a, w1) = (r, ?a\<lparr>aq_items := restored (hb_h p')\<rparr>, w')"
      by (rule Cons.IH [OF run _ fr]) (use app Cons.prems(4,5) in auto)
    then show ?thesis using y by auto
  qed
qed

lemma heap_Hydrate_sound:
  fixes p :: "('a, 'w) hbacking"
  assumes inv: "heap_inv it lt p" and all: "\<forall>x \<in> set (aq_items (heap_abs it p)). snd x"
    and fresh: "heap_fresh (length (bk_RangeAll b c w)) p" and hyd: "heap_Hydrate it grow c b (p, w) = (r, p', w')"
  shows "spec_hydrate (priority_place lt) it True c b (heap_abs it p, w) = (r, heap_abs it p', w') \<and>
    (r = Ret None \<longrightarrow> heap_inv it lt p') \<and> lk_ok (hb_lk p') \<and> (r \<noteq> Ret None \<longrightarrow> hb_backup p' = hb_backup p \<and> hb_closed p' = hb_closed p)"
proof -
  have core: "heap_core it lt p" and lk: "lk_ok (hb_lk p)" using inv by (auto simp: heap_inv_def)
  have num: "numbered (hb_nextSeq p) (hb_h p)" using core by (auto simp: heap_core_def heap_good_def)
  have old: "\<forall>x \<in> set (mh_list (hb_h p)). si_Seq x < hb_hydrateEnd p"
    using all by (auto simp: heap_items_def heap_mark_def)
  then have hydr: "hb_hydrated p = int (length (mh_list (hb_h p)))"
    using core by (simp add: heap_core_def heap_restored_def)
  have marked: "heap_items it e h = restored h" if "\<forall>x \<in> set (mh_list h). si_Seq x < e" for e h
    using that by (simp add: heap_items_def heap_mark_def)
  obtain r1 p1 w1 where loop: "heap_hydrate_loop it grow c b (bk_RangeAll b c w) (heap_lock p, w) = (r1, p1, w1)"
    by (metis prod_cases3)
  note sound = heap_hydrate_loop_sound [OF loop, of "heap_abs it p"]
  have J: "numbered (hb_nextSeq p1) (hb_h p1) \<and> hb_hydrated p1 = int (length (mh_list (hb_h p1))) \<and>
    (\<exists>h n m. p1 = (heap_lock p)\<lparr>hb_h := h, hb_nextSeq := n, hb_hydrated := m\<rparr>) \<and>
    spec_hydrate_loop (priority_place lt) it True c b (bk_RangeAll b c w) (heap_abs it p, w) =
      (r1, (heap_abs it p)\<lparr>aq_items := restored (hb_h p1)\<rparr>, w1)"
    by (rule sound) (use num fresh hydr marked [OF old] in \<open>simp_all add: heap_fresh_def\<close>)
  then obtain h n m where pm: "p1 = (heap_lock p)\<lparr>hb_h := h, hb_nextSeq := n, hb_hydrated := m\<rparr>" by blast
  then have p1: "p1 = (heap_lock p)\<lparr>hb_h := h, hb_nextSeq := n, hb_hydrated := int (length (mh_list h))\<rparr>"
    and numh: "numbered n h"
    and spec: "spec_hydrate_loop (priority_place lt) it True c b (bk_RangeAll b c w) (heap_abs it p, w) =
      (r1, (heap_abs it p)\<lparr>aq_items := restored h\<rparr>, w1)"
    using J by simp_all
  have exit_abs: "heap_abs it (heap_hydrate_exit (p1\<lparr>hb_h := h', hb_backup := bk\<rparr>)) =
      (heap_abs it p)\<lparr>aq_items := restored h', aq_backup := bk\<rparr>" if "numbered n h'" for h' bk
    using marked [of h' n] that by (simp add: heap_hydrate_exit_def heap_abs_def p1)
  have same: "p1\<lparr>hb_h := h, hb_backup := hb_backup p\<rparr> = p1" by (simp add: p1)
  have fail_abs: "heap_abs it (heap_hydrate_exit p1) = (heap_abs it p)\<lparr>aq_items := restored h\<rparr>"
    using exit_abs [OF numh, of "hb_backup p"] unfolding same by (simp add: heap_abs_def)
  obtain ok h1 where init: "heap_Init it h = (ok, h1)" by fastforce
  obtain k where "mh_shaped (it_zero it) k h" using numh by blast
  note snd = heap_Init_sound [OF this init]
  have m: "mset (mh_list h1) = mset (mh_list h)" using snd by simp
  have num1: "numbered n h1" using numh snd seqs_distinct_mset [OF m] mset_eq_setD [OF m] by auto
  have r1: "restored h1 = restored h"
    using psorted_unique [of "psorted it (mh_list h)" "mh_list h1"] psorted_in_order m num1 by simp
  have core1: "heap_core it lt (p1\<lparr>hb_h := h1, hb_backup := bk, hb_hydrateEnd := n, hb_lk := l\<rparr>)" for bk l
    using core num1 snd mset_eq_length [OF m] heap_core_inflight [OF core]
    by (auto simp: heap_core_def heap_good_def p1 heap_restored_def)
  have inv1: "heap_inv it lt (heap_hydrate_exit (p1\<lparr>hb_h := h1, hb_backup := Some b\<rparr>))"
    using core1 [where bk = "Some b"] lk by (simp add: heap_hydrate_exit_def heap_inv_def p1)
  have lk1: "lk_ok (hb_lk (heap_hydrate_exit p1))" "hb_backup (heap_hydrate_exit p1) = hb_backup p"
    "hb_closed (heap_hydrate_exit p1) = hb_closed p"
    using lk by (simp_all add: heap_hydrate_exit_def p1)
  show ?thesis
  proof (cases "r1 = Ret None")
    case True
    have "hb_h p1 = h" by (simp add: p1)
    then have "r = Ret None" "w' = w1" "p' = heap_hydrate_exit (p1\<lparr>hb_h := h1, hb_backup := Some b\<rparr>)"
      using hyd loop True init snd by (simp_all add: heap_Hydrate_def)
    then show ?thesis
      using True spec exit_abs [OF num1] inv1 by (simp add: spec_hydrate_def r1 heap_inv_def)
  next
    case False
    then have "r = r1" "w' = w1" "p' = heap_hydrate_exit p1"
      using hyd loop by (auto simp: heap_Hydrate_def split: outcome.splits option.splits)
    then show ?thesis
      using False spec fail_abs lk1 by (auto simp: spec_hydrate_def split: outcome.splits option.splits)
  qed
qed

lemma heap_Close_now:
  assumes "lk_ok (hb_lk p)" and "hb_backup p = None" and "\<not> hb_closed p"
  shows "\<exists>p2. heap_Close c [] (p, w) = (Ret None, p2, w) \<and> heap_abs it p2 = aq_close (heap_abs it p) \<and> lk_ok (hb_lk p2)"
  using assms
  by (simp add: heap_Close_def resolve_def ResolveOpOptions_def RunSideEffectLocked_def heap_closeAndWake_abs Let_def)
    (simp add: heap_closeAndWake_def Let_def)

end

section \<open>The interface\<close>

definition heap_backing :: "'a item \<Rightarrow> (nat \<Rightarrow> nat \<Rightarrow> nat) \<Rightarrow> (('a, 'w) hbacking, 'a, 'w) backing" where
  "heap_backing it grow = \<lparr>
     bo_SetQueueLock = heap_SetQueueLock, bo_QueueLock = hb_lk,
     bo_SetMaxBatch = heap_SetMaxBatch, bo_SetMaxSize = heap_SetMaxSize,
     bo_Hydrate = heap_Hydrate it grow, bo_Push = heap_Push_op it grow, bo_Pop = heap_Pop_op it,
     bo_Peek = heap_Peek it, bo_Exists = heap_Exists it, bo_Del = heap_Del it,
     bo_NotEmpty = heap_NotEmpty, bo_NotFull = heap_NotFull, bo_Len = heap_Len,
     bo_Close = heap_Close, bo_Clear = heap_Clear it, bo_All = heap_All it, bo_AllCOW = heap_AllCOW it\<rparr>"

sublocale lawful_item \<subseteq> hp: queue_backing "heap_backing it grow" "heap_inv it lt" "heap_abs it" "priority_place lt" it True heap_fresh
  for grow
proof (unfold_locales, goal_cases)
  case (10 s n e s')
  then show ?case
    by (auto simp: heap_backing_def heap_SetMaxSize_def heap_inv_def heap_core_def heap_abs_def heap_restored_def split: if_splits)
next
  case (11 options opts vs g env aenv c)
  then show ?case using heap_Push_refines [OF 11] by (simp add: heap_backing_def)
next
  case (13 options opts hook vs s w c g env)
  then show ?case
    using heap_Push_hook [OF 13(1-5), where w = w and grow = grow and g = g and c = c and env = env] heap_reserved_inv [of s "length vs"]
    by (intro exI [of _ "s\<lparr>hb_inflight := hb_inflight s + int (length vs)\<rparr>"]) (auto simp: heap_backing_def)
next
  case (17 options opts s vs c w)
  let ?gone = "map si_Item (filter (\<lambda>x. MatchesAny it (si_Item x) vs) (mh_list (hb_h s)))"
  have "mset ?gone = mset (filter (\<lambda>x. MatchesAny it x vs) (aq_contents (heap_abs it s)))"
    by (simp add: filter_map comp_def)
  then show ?case
    using heap_Del_refines [OF 17, where c = c and vs = vs and w = w]
    by (intro exI [of _ ?gone]) (simp add: heap_backing_def)
next
  case (20 s)
  then show ?case using heap_Len_law [of it lt s] by (simp add: heap_backing_def)
next
  case (25 s b c w r s' w')
  then show ?case using heap_Hydrate_sound [of s b c w grow r s' w'] by (simp add: heap_backing_def)
next
  case (26 s b c w r s' w')
  then show ?case
    using heap_Hydrate_sound [of s b c w grow r s' w'] heap_Close_now [of s' c w'] by (simp add: heap_backing_def)
qed (simp_all add: heap_backing_def heap_inv_bounded [of it lt] heap_inv_sig [of it lt] heap_Pop_refines
  heap_Peek_refines heap_Exists_refines heap_NotEmpty_refines heap_NotFull_refines
  heap_Close_refines heap_Clear_refines heap_All_refines heap_AllCOW_refines
  heap_Push_op_def resolve_def heap_SetQueueLock_def heap_SetMaxBatch_def heap_inv_def split: if_splits)

end
