(* ===== verification/Fifo_Backing.thy ===== *)
theory Fifo_Backing
  imports Queue_API
begin

text \<open>
  \<open>internal/backings/fifo/fifo.go\<close>: the in-memory FIFO backing on a slice. Every method of the
  file is one definition, on a record with the fields of \<open>Backing\<close>; the critical sections of
  \<open>Push\<close> before and after a \<open>WithOnAdmit\<close> hook are shared with \<open>RunOnAdmit\<close>. The second
  half proves the representation invariant and that the backing refines the abstract queue with
  placing at the end.
\<close>

section \<open>State\<close>

record ('a, 'w) fifo =
  f_lk :: qlock
  f_buf :: "'a slice"
  f_head :: nat
  f_maxSize :: int
  f_hydrated :: int
  f_inflight :: int
  f_notFull :: signal
  f_notEmpty :: signal
  f_closed :: bool
  f_backup :: "('a, 'w) backup option"

definition fifo_New :: "('a, 'w) fifo" where
  "fifo_New = \<lparr>f_lk = new_qlock, f_buf = nil_slice, f_head = 0, f_maxSize = 0, f_hydrated = 0,
     f_inflight = 0, f_notFull = NewSignal, f_notEmpty = NewSignal, f_closed = False,
     f_backup = None\<rparr>"

definition fifo_live :: "('a, 'w) fifo \<Rightarrow> 'a list" where
  "fifo_live f = drop (f_head f) (slice_list (f_buf f))"

definition fifo_SetQueueLock :: "qlock \<Rightarrow> ('a, 'w) fifo \<Rightarrow> ('a, 'w) fifo" where
  "fifo_SetQueueLock lk f = f\<lparr>f_lk := lk\<rparr>"

definition fifo_SetMaxBatch :: "int \<Rightarrow> ('a, 'w) fifo \<Rightarrow> goerr option \<times> ('a, 'w) fifo" where
  "fifo_SetMaxBatch n f = (if n < 1 then (bad_option, f) else (None, f))"

definition fifo_SetMaxSize :: "int \<Rightarrow> ('a, 'w) fifo \<Rightarrow> goerr option \<times> ('a, 'w) fifo" where
  "fifo_SetMaxSize n f = (if n < 0 then (bad_option, f) else (None, f\<lparr>f_maxSize := n\<rparr>))"

abbreviation fifo_lock :: "('a, 'w) fifo \<Rightarrow> ('a, 'w) fifo" where
  "fifo_lock f \<equiv> f\<lparr>f_lk := qlock_Lock (f_lk f)\<rparr>"

abbreviation fifo_unlock :: "('a, 'w) fifo \<Rightarrow> ('a, 'w) fifo" where
  "fifo_unlock f \<equiv> f\<lparr>f_lk := qlock_Unlock (f_lk f)\<rparr>"

abbreviation fifo_rlock :: "('a, 'w) fifo \<Rightarrow> ('a, 'w) fifo" where
  "fifo_rlock f \<equiv> f\<lparr>f_lk := qlock_RLock (f_lk f)\<rparr>"

abbreviation fifo_runlock :: "('a, 'w) fifo \<Rightarrow> ('a, 'w) fifo" where
  "fifo_runlock f \<equiv> f\<lparr>f_lk := qlock_RUnlock (f_lk f)\<rparr>"

section \<open>Hydrate\<close>

fun fifo_hydrate_loop :: "'a item \<Rightarrow> (nat \<Rightarrow> nat \<Rightarrow> nat) \<Rightarrow> 'w ctx \<Rightarrow> ('a, 'w) backup \<Rightarrow> 'a ranged list \<Rightarrow>
    ('a, 'w) fifo \<times> 'w \<Rightarrow> goerr option outcome \<times> ('a, 'w) fifo \<times> 'w" where
  "fifo_hydrate_loop it grow c b [] (f, w) = (Ret None, f, w)"
| "fifo_hydrate_loop it grow c b (RangeUnwinds # rs) (f, w) = (Unwinds, f, w)"
| "fifo_hydrate_loop it grow c b (Yielded v (Some e) # rs) (f, w) = (Ret (WrapBackup (Some e)), f, w)"
| "fifo_hydrate_loop it grow c b (Yielded v None # rs) (f, w) =
     (case ValidateKindOne it False v of
        Some e \<Rightarrow> (Ret (Some e), f, w)
      | None \<Rightarrow>
          (case bk_OnLoad b c v w of
             (Unwound, w1) \<Rightarrow> (Unwinds, f, w1)
           | (Returned (Some e), w1) \<Rightarrow> (Ret (WrapBackup (Some e)), f, w1)
           | (Returned None, w1) \<Rightarrow>
               fifo_hydrate_loop it grow c b rs
                 (f\<lparr>f_buf := slice_append grow (it_zero it) (f_buf f) [v],
                    f_hydrated := f_hydrated f + 1\<rparr>, w1)))"

definition fifo_Hydrate :: "'a item \<Rightarrow> (nat \<Rightarrow> nat \<Rightarrow> nat) \<Rightarrow> 'w ctx \<Rightarrow> ('a, 'w) backup \<Rightarrow>
    ('a, 'w) fifo \<times> 'w \<Rightarrow> goerr option outcome \<times> ('a, 'w) fifo \<times> 'w" where
  "fifo_Hydrate it grow c b fw =
     (case fw of (f, w) \<Rightarrow>
       (case fifo_hydrate_loop it grow c b (bk_RangeAll b c w) (fifo_lock f, w) of
          (Ret None, f1, w1) \<Rightarrow> (Ret None, fifo_unlock (f1\<lparr>f_backup := Some b\<rparr>), w1)
        | (r, f1, w1) \<Rightarrow> (r, fifo_unlock f1, w1)))"

section \<open>Push\<close>

definition fifo_cells :: "('a, 'w) fifo \<Rightarrow> admit_cells" where
  "fifo_cells f = (f_lk f, f_inflight f, f_notFull f)"

definition fifo_put_cells :: "admit_cells \<Rightarrow> ('a, 'w) fifo \<Rightarrow> ('a, 'w) fifo" where
  "fifo_put_cells cells f =
     (case cells of (lk, n, s) \<Rightarrow> f\<lparr>f_lk := lk, f_inflight := n, f_notFull := s\<rparr>)"

text \<open>The exit of a push that gives its reservation back.\<close>

definition fifo_abandon :: "(('a, 'w) fifo, 'w) opoptions \<Rightarrow> ('a, 'w) fifo \<Rightarrow> ('a, 'w) fifo" where
  "fifo_abandon opts f = fifo_unlock (f\<lparr>f_notFull := ReleaseReservation opts (f_notFull f)\<rparr>)"

text \<open>Storing the batch: slide the live contents over the dead prefix when the array would have to
  grow, append, and wake a parked consumer when the queue was empty.\<close>

definition fifo_store :: "'a item \<Rightarrow> (nat \<Rightarrow> nat \<Rightarrow> nat) \<Rightarrow> 'a list \<Rightarrow> ('a, 'w) fifo \<Rightarrow> ('a, 'w) fifo" where
  "fifo_store it grow vs f =
     (let wasEmpty = (length (fifo_live f) = 0);
          f1 = (if f_head f > 0 \<and> s_len (f_buf f) + length vs > slice_cap (f_buf f)
                then (case slice_copy_down (f_head f) (f_buf f) of (b1, n) \<Rightarrow>
                       f\<lparr>f_buf := slice_prefix n (slice_clear (it_zero it) n (s_len b1) b1), f_head := 0\<rparr>)
                else f);
          f2 = f1\<lparr>f_buf := slice_append grow (it_zero it) (f_buf f1) vs\<rparr>
      in if wasEmpty \<and> Signal_HasWaiters (f_notEmpty f2)
         then f2\<lparr>f_notEmpty := Signal_Signal (f_notEmpty f2)\<rparr> else f2)"

text \<open>From the side effect on, with the write lock held.\<close>

definition fifo_push_commit :: "'a item \<Rightarrow> (nat \<Rightarrow> nat \<Rightarrow> nat) \<Rightarrow> 'w ctx \<Rightarrow> 'a list \<Rightarrow>
    (('a, 'w) fifo, 'w) opoptions \<Rightarrow> ('a, 'w) fifo \<times> 'w \<Rightarrow> goerr option attempt \<times> ('a, 'w) fifo \<times> 'w" where
  "fifo_push_commit it grow c vs opts fw =
     (case RunSideEffectLocked (oo_SideEffect opts) (fifo_abandon opts) fw of
        (Unwinds, f1, w1) \<Rightarrow> (Done Unwinds, f1, w1)
      | (Ret (Some e), f1, w1) \<Rightarrow> (returns (Some e), fifo_abandon opts f1, w1)
      | (Ret None, f1, w1) \<Rightarrow>
          (case (case f_backup f1 of
                   None \<Rightarrow> (Ret None, f1, w1)
                 | Some b \<Rightarrow> RunBackup (bk_Push b c vs) (fifo_abandon opts) (f1, w1)) of
             (Unwinds, f2, w2) \<Rightarrow> (Done Unwinds, f2, w2)
           | (Ret (Some e), f2, w2) \<Rightarrow> (returns (Some e), fifo_abandon opts f2, w2)
           | (Ret None, f2, w2) \<Rightarrow> (returns None, fifo_unlock (fifo_store it grow vs f2), w2)))"

text \<open>One round of the loop of \<open>Push\<close>.\<close>

definition fifo_push_round :: "'a item \<Rightarrow> (nat \<Rightarrow> nat \<Rightarrow> nat) \<Rightarrow> nat \<Rightarrow> 'w ctx \<Rightarrow> 'a list \<Rightarrow>
    (('a, 'w) fifo, 'w) opoptions \<Rightarrow> ('a, 'w) fifo \<times> 'w \<Rightarrow> goerr option attempt \<times> ('a, 'w) fifo \<times> 'w" where
  "fifo_push_round it grow g c vs opts fw =
     (case fw of (f0, w) \<Rightarrow>
       (let f = fifo_lock f0 in
        if f_closed f then (returns err_closed, fifo_unlock f, w)
        else if f_maxSize f > 0 \<and> int (length vs) > f_maxSize f
        then (returns (Some (Sentinel ErrBatchTooLarge)), fifo_unlock f, w)
        else if f_maxSize f = 0 \<or>
          int (length (fifo_live f)) - f_hydrated f + f_inflight f + int (length vs) \<le> f_maxSize f
        then (case oo_OnAdmit opts of
            None \<Rightarrow> fifo_push_commit it grow c vs opts (f, w)
          | Some hook \<Rightarrow>
              (case RunOnAdmit fifo_cells fifo_put_cells (int (length vs)) hook (f, w) of
                 (Unwinds, f1, w1) \<Rightarrow> (Done Unwinds, f1, w1)
               | (Ret (Some e), f1, w1) \<Rightarrow> (returns (Some e), fifo_unlock f1, w1)
               | (Ret None, f1, w1) \<Rightarrow>
                   if f_closed f1 then (returns err_closed, fifo_abandon opts f1, w1)
                   else fifo_push_commit it grow c vs opts (f1, w1)))
        else (Parked, fifo_unlock (f\<lparr>f_notFull := Wait_register g (f_notFull f)\<rparr>), w)))"

definition fifo_ClosedOrCause :: "'w ctx \<Rightarrow> ('a, 'w) fifo \<times> 'w \<Rightarrow> goerr option \<times> ('a, 'w) fifo \<times> 'w" where
  "fifo_ClosedOrCause c fw =
     (case fw of (f, w) \<Rightarrow>
       (let f1 = fifo_rlock f; closed = f_closed f1; f2 = fifo_runlock f1 in
        (if closed then err_closed else Some (ctx_cause c w), f2, w)))"

text \<open>What a goroutine parked on \<open>notFull\<close> (on \<open>notEmpty\<close>) does when it runs again.\<close>

definition fifo_resume_notFull :: "nat \<Rightarrow> 'w ctx \<Rightarrow> (goerr option \<Rightarrow> 'r) \<Rightarrow> ('a, 'w) fifo \<times> 'w \<Rightarrow>
    'r option \<times> ('a, 'w) fifo \<times> 'w" where
  "fifo_resume_notFull g c mk fw =
     (case fw of (f, w) \<Rightarrow>
       (case Wait_return g c w (f_notFull f) of
          (s, None) \<Rightarrow> (None, f\<lparr>f_notFull := s\<rparr>, w)
        | (s, Some _) \<Rightarrow>
            (case fifo_ClosedOrCause c (f\<lparr>f_notFull := s\<rparr>, w) of (e, fw1) \<Rightarrow> (Some (mk e), fw1))))"

definition fifo_resume_notEmpty :: "nat \<Rightarrow> 'w ctx \<Rightarrow> (goerr option \<Rightarrow> 'r) \<Rightarrow> ('a, 'w) fifo \<times> 'w \<Rightarrow>
    'r option \<times> ('a, 'w) fifo \<times> 'w" where
  "fifo_resume_notEmpty g c mk fw =
     (case fw of (f, w) \<Rightarrow>
       (case Wait_return g c w (f_notEmpty f) of
          (s, None) \<Rightarrow> (None, f\<lparr>f_notEmpty := s\<rparr>, w)
        | (s, Some _) \<Rightarrow>
            (case fifo_ClosedOrCause c (f\<lparr>f_notEmpty := s\<rparr>, w) of (e, fw1) \<Rightarrow> (Some (mk e), fw1))))"

definition fifo_Push :: "'a item \<Rightarrow> (nat \<Rightarrow> nat \<Rightarrow> nat) \<Rightarrow> nat \<Rightarrow> 'w ctx \<Rightarrow> 'a list \<Rightarrow>
    (('a, 'w) fifo, 'w) opoption list \<Rightarrow> (('a, 'w) fifo \<times> 'w \<Rightarrow> ('a, 'w) fifo \<times> 'w) list \<Rightarrow>
    ('a, 'w) fifo \<times> 'w \<Rightarrow> goerr option attempt \<times> ('a, 'w) fifo \<times> 'w" where
  "fifo_Push it grow g c vs options env fw =
     resolve CallPush options (Done Unwinds, fw) (\<lambda>e. (returns (Some e), fw)) (\<lambda>opts.
       case ValidateKind it False vs of
         Some e \<Rightarrow> (returns (Some e), fw)
       | None \<Rightarrow>
           wait_loop (fifo_push_round it grow g c vs opts) (fifo_resume_notFull g c id) env fw)"

section \<open>Pop\<close>

definition fifo_dropHydrated :: "int \<Rightarrow> ('a, 'w) fifo \<Rightarrow> ('a, 'w) fifo" where
  "fifo_dropHydrated n f =
     (if n \<ge> f_hydrated f then f\<lparr>f_hydrated := 0\<rparr> else f\<lparr>f_hydrated := f_hydrated f - n\<rparr>)"

definition fifo_wake_producers :: "('a, 'w) fifo \<Rightarrow> ('a, 'w) fifo" where
  "fifo_wake_producers f =
     (if Signal_HasWaiters (f_notFull f) then f\<lparr>f_notFull := Signal_Signal (f_notFull f)\<rparr> else f)"

definition fifo_pop_round :: "'a item \<Rightarrow> nat \<Rightarrow> 'w ctx \<Rightarrow> nat \<Rightarrow> (('a, 'w) fifo, 'w) opoptions \<Rightarrow>
    ('a, 'w) fifo \<times> 'w \<Rightarrow> ('a list \<times> goerr option) attempt \<times> ('a, 'w) fifo \<times> 'w" where
  "fifo_pop_round it g c n opts fw =
     (case fw of (f0, w) \<Rightarrow>
       (let f = fifo_lock f0 in
        if f_closed f then (returns ([], err_closed), fifo_unlock f, w)
        else if length (fifo_live f) > 0 then
          (let k = (if n > length (fifo_live f) then length (fifo_live f) else n);
               out = take k (fifo_live f)
           in case RunSideEffectLocked (oo_SideEffect opts) (\<lambda>f. fifo_unlock f) (f, w) of
                (Unwinds, f1, w1) \<Rightarrow> (Done Unwinds, f1, w1)
              | (Ret (Some e), f1, w1) \<Rightarrow> (returns ([], Some e), fifo_unlock f1, w1)
              | (Ret None, f1, w1) \<Rightarrow>
                  (case (case f_backup f1 of
                           None \<Rightarrow> (Ret None, f1, w1)
                         | Some b \<Rightarrow> RunBackup (bk_Del b c out) (\<lambda>f. fifo_unlock f) (f1, w1)) of
                     (Unwinds, f2, w2) \<Rightarrow> (Done Unwinds, f2, w2)
                   | (Ret (Some e), f2, w2) \<Rightarrow> (returns ([], Some e), fifo_unlock f2, w2)
                   | (Ret None, f2, w2) \<Rightarrow>
                       (let f3 = f2\<lparr>f_buf := slice_clear (it_zero it) (f_head f2) (f_head f2 + k) (f_buf f2)\<rparr>;
                            f4 = f3\<lparr>f_head := f_head f3 + k\<rparr>;
                            f5 = fifo_dropHydrated (min (int k) (f_hydrated f4)) f4
                        in (returns (out, None), fifo_unlock (fifo_wake_producers f5), w2))))
        else (Parked, fifo_unlock (f\<lparr>f_notEmpty := Wait_register g (f_notEmpty f)\<rparr>), w)))"

definition fifo_Pop :: "'a item \<Rightarrow> nat \<Rightarrow> 'w ctx \<Rightarrow> nat \<Rightarrow> (('a, 'w) fifo, 'w) opoption list \<Rightarrow>
    (('a, 'w) fifo \<times> 'w \<Rightarrow> ('a, 'w) fifo \<times> 'w) list \<Rightarrow> ('a, 'w) fifo \<times> 'w \<Rightarrow>
    ('a list \<times> goerr option) attempt \<times> ('a, 'w) fifo \<times> 'w" where
  "fifo_Pop it g c n options env fw =
     resolve CallPop options (Done Unwinds, fw) (\<lambda>e. (returns ([], Some e), fw)) (\<lambda>opts.
       wait_loop (fifo_pop_round it g c n opts) (fifo_resume_notEmpty g c (\<lambda>e. ([], e))) env fw)"

section \<open>Reading operations\<close>

definition fifo_Peek :: "'a item \<Rightarrow> (('a, 'w) fifo, 'w) opoption list \<Rightarrow> ('a, 'w) fifo \<times> 'w \<Rightarrow>
    ('a \<times> bool \<times> goerr option) outcome \<times> ('a, 'w) fifo \<times> 'w" where
  "fifo_Peek it options fw =
     resolve CallPeek options (Unwinds, fw) (\<lambda>e. (Ret (it_zero it, False, Some e), fw)) (\<lambda>opts.
       case fw of (f0, w) \<Rightarrow>
         (let f = fifo_rlock f0 in
          if f_closed f then (Ret (it_zero it, False, err_closed), fifo_runlock f, w)
          else if length (fifo_live f) = 0 then
            (case RunSideEffect (oo_SideEffect opts) w of (r, w1) \<Rightarrow>
               (map_outcome (\<lambda>e. (it_zero it, False, e)) r, fifo_runlock f, w1))
          else
            (case RunSideEffect (oo_SideEffect opts) w of (r, w1) \<Rightarrow>
               (map_outcome (\<lambda>e. (fifo_live f ! 0, True, e)) r, fifo_runlock f, w1))))"

fun fifo_exists_loop :: "'a item \<Rightarrow> 'a \<Rightarrow> 'a list \<Rightarrow> bool" where
  "fifo_exists_loop it v [] = False"
| "fifo_exists_loop it v (x # xs) = (if it_equal it x v then True else fifo_exists_loop it v xs)"

definition fifo_Exists :: "'a item \<Rightarrow> 'a \<Rightarrow> (('a, 'w) fifo, 'w) opoption list \<Rightarrow> ('a, 'w) fifo \<times> 'w \<Rightarrow>
    (bool \<times> goerr option) outcome \<times> ('a, 'w) fifo \<times> 'w" where
  "fifo_Exists it v options fw =
     resolve CallExists options (Unwinds, fw) (\<lambda>e. (Ret (False, Some e), fw)) (\<lambda>opts.
       case fw of (f0, w) \<Rightarrow>
         (let f = fifo_rlock f0 in
          if f_closed f then (Ret (False, err_closed), fifo_runlock f, w)
          else (let found = fifo_exists_loop it v (fifo_live f) in
            case RunSideEffect (oo_SideEffect opts) w of (r, w1) \<Rightarrow>
              (map_outcome (\<lambda>e. (found, e)) r, fifo_runlock f, w1))))"

definition fifo_Len :: "('a, 'w) fifo \<Rightarrow> int \<times> ('a, 'w) fifo" where
  "fifo_Len f =
     (let f1 = fifo_rlock f; n = int (length (fifo_live f1)) in (n, fifo_runlock f1))"

section \<open>Del\<close>

text \<open>The loop over the live contents: the kept items, the removed ones, and how many of the
  removed ones sat below the hydration boundary.\<close>

fun fifo_del_loop :: "'a item \<Rightarrow> 'a list \<Rightarrow> int \<Rightarrow> int \<Rightarrow> 'a list \<Rightarrow> 'a list \<times> 'a list \<times> int \<Rightarrow>
    'a list \<times> 'a list \<times> int" where
  "fifo_del_loop it vs hydrated i [] acc = acc"
| "fifo_del_loop it vs hydrated i (x # xs) (kept, removed, rh) =
     (if MatchesAny it x vs
      then fifo_del_loop it vs hydrated (i + 1) xs
             (kept, removed @ [x], if i < hydrated then rh + 1 else rh)
      else fifo_del_loop it vs hydrated (i + 1) xs (kept @ [x], removed, rh))"

definition fifo_Del :: "'a item \<Rightarrow> 'w ctx \<Rightarrow> 'a list \<Rightarrow> (('a, 'w) fifo, 'w) opoption list \<Rightarrow>
    ('a, 'w) fifo \<times> 'w \<Rightarrow> (int \<times> goerr option) outcome \<times> ('a, 'w) fifo \<times> 'w" where
  "fifo_Del it c vs options fw =
     resolve CallDel options (Unwinds, fw) (\<lambda>e. (Ret (0, Some e), fw)) (\<lambda>opts.
       case fw of (f0, w) \<Rightarrow>
         (let f = fifo_lock f0 in
          if f_closed f then (Ret (0, err_closed), fifo_unlock f, w)
          else (case fifo_del_loop it vs (f_hydrated f) 0 (fifo_live f) ([], [], 0) of
            (kept, removed, removedHydrated) \<Rightarrow>
              if length removed = 0 then
                (case RunSideEffect (oo_SideEffect opts) w of (r, w1) \<Rightarrow>
                   (map_outcome (\<lambda>e. (0, e)) r, fifo_unlock f, w1))
              else (case RunSideEffect (oo_SideEffect opts) w of
                  (Unwinds, w1) \<Rightarrow> (Unwinds, fifo_unlock f, w1)
                | (Ret (Some e), w1) \<Rightarrow> (Ret (0, Some e), fifo_unlock f, w1)
                | (Ret None, w1) \<Rightarrow>
                    (case (case f_backup f of None \<Rightarrow> (Returned None, w1) | Some b \<Rightarrow> bk_Del b c removed w1) of
                       (Unwound, w2) \<Rightarrow> (Unwinds, fifo_unlock f, w2)
                     | (Returned (Some e), w2) \<Rightarrow> (Ret (0, WrapBackup (Some e)), fifo_unlock f, w2)
                     | (Returned None, w2) \<Rightarrow>
                         (let f1 = f\<lparr>f_buf := slice_of (it_zero it) (length (fifo_live f)) kept, f_head := 0\<rparr>;
                              f2 = fifo_wake_producers (fifo_dropHydrated removedHydrated f1)
                          in (Ret (int (length removed), None), fifo_unlock f2, w2)))))))"

section \<open>Waiting for room or for items\<close>

definition fifo_notempty_round :: "nat \<Rightarrow> (('a, 'w) fifo, 'w) opoptions \<Rightarrow> ('a, 'w) fifo \<times> 'w \<Rightarrow>
    goerr option attempt \<times> ('a, 'w) fifo \<times> 'w" where
  "fifo_notempty_round g opts fw =
     (case fw of (f0, w) \<Rightarrow>
       (let f = fifo_rlock f0 in
        if f_closed f then (returns err_closed, fifo_runlock f, w)
        else if length (fifo_live f) > 0 then
          (case RunSideEffectLocked (oo_SideEffect opts) (\<lambda>f. fifo_runlock f) (f, w) of
             (Unwinds, f1, w1) \<Rightarrow> (Done Unwinds, f1, w1)
           | (Ret e, f1, w1) \<Rightarrow> (returns e, fifo_runlock f1, w1))
        else (Parked, fifo_runlock (f\<lparr>f_notEmpty := Wait_register g (f_notEmpty f)\<rparr>), w)))"

definition fifo_NotEmpty :: "nat \<Rightarrow> 'w ctx \<Rightarrow> (('a, 'w) fifo, 'w) opoption list \<Rightarrow>
    (('a, 'w) fifo \<times> 'w \<Rightarrow> ('a, 'w) fifo \<times> 'w) list \<Rightarrow> ('a, 'w) fifo \<times> 'w \<Rightarrow>
    goerr option attempt \<times> ('a, 'w) fifo \<times> 'w" where
  "fifo_NotEmpty g c options env fw =
     resolve CallNotEmpty options (Done Unwinds, fw) (\<lambda>e. (returns (Some e), fw)) (\<lambda>opts.
       wait_loop (fifo_notempty_round g opts) (fifo_resume_notEmpty g c id) env fw)"

definition fifo_notfull_round :: "nat \<Rightarrow> (('a, 'w) fifo, 'w) opoptions \<Rightarrow> ('a, 'w) fifo \<times> 'w \<Rightarrow>
    goerr option attempt \<times> ('a, 'w) fifo \<times> 'w" where
  "fifo_notfull_round g opts fw =
     (case fw of (f0, w) \<Rightarrow>
       (let f = fifo_rlock f0 in
        if f_closed f then (returns err_closed, fifo_runlock f, w)
        else if f_maxSize f = 0 \<or>
          int (length (fifo_live f)) - f_hydrated f + f_inflight f < f_maxSize f then
          (case RunSideEffectLocked (oo_SideEffect opts) (\<lambda>f. fifo_runlock f) (f, w) of
             (Unwinds, f1, w1) \<Rightarrow> (Done Unwinds, f1, w1)
           | (Ret e, f1, w1) \<Rightarrow> (returns e, fifo_runlock f1, w1))
        else (Parked, fifo_runlock (f\<lparr>f_notFull := Wait_register g (f_notFull f)\<rparr>), w)))"

definition fifo_NotFull :: "nat \<Rightarrow> 'w ctx \<Rightarrow> (('a, 'w) fifo, 'w) opoption list \<Rightarrow>
    (('a, 'w) fifo \<times> 'w \<Rightarrow> ('a, 'w) fifo \<times> 'w) list \<Rightarrow> ('a, 'w) fifo \<times> 'w \<Rightarrow>
    goerr option attempt \<times> ('a, 'w) fifo \<times> 'w" where
  "fifo_NotFull g c options env fw =
     resolve CallNotFull options (Done Unwinds, fw) (\<lambda>e. (returns (Some e), fw)) (\<lambda>opts.
       wait_loop (fifo_notfull_round g opts) (fifo_resume_notFull g c id) env fw)"

section \<open>Close and Clear\<close>

definition fifo_closeAndWake :: "('a, 'w) fifo \<Rightarrow> ('a, 'w) fifo" where
  "fifo_closeAndWake f =
     (let f1 = f\<lparr>f_closed := True\<rparr>;
          f2 = fifo_unlock f1;
          f3 = f2\<lparr>f_notEmpty := Signal_Signal (f_notEmpty f2)\<rparr>
      in f3\<lparr>f_notFull := Signal_Signal (f_notFull f3)\<rparr>)"

definition fifo_Close :: "'w ctx \<Rightarrow> (('a, 'w) fifo, 'w) opoption list \<Rightarrow> ('a, 'w) fifo \<times> 'w \<Rightarrow>
    goerr option outcome \<times> ('a, 'w) fifo \<times> 'w" where
  "fifo_Close c options fw =
     resolve CallClose options (Unwinds, fw) (\<lambda>e. (Ret (Some e), fw)) (\<lambda>opts.
       case fw of (f0, w) \<Rightarrow>
         (let f = fifo_lock f0 in
          if f_closed f then
            (case RunSideEffectLocked (oo_SideEffect opts) (\<lambda>f. fifo_unlock f) (f, w) of
               (Unwinds, f1, w1) \<Rightarrow> (Unwinds, f1, w1)
             | (Ret e, f1, w1) \<Rightarrow> (Ret e, fifo_unlock f1, w1))
          else
            (case RunSideEffectLocked (oo_SideEffect opts) (\<lambda>f. fifo_unlock f) (f, w) of
               (Unwinds, f1, w1) \<Rightarrow> (Unwinds, f1, w1)
             | (Ret (Some e), f1, w1) \<Rightarrow> (Ret (Some e), fifo_unlock f1, w1)
             | (Ret None, f1, w1) \<Rightarrow>
                 (case (case f_backup f1 of
                          None \<Rightarrow> (Ret None, f1, w1)
                        | Some b \<Rightarrow> RunBackup (bk_Close b c) fifo_closeAndWake (f1, w1)) of
                    (Unwinds, f2, w2) \<Rightarrow> (Unwinds, f2, w2)
                  | (Ret e, f2, w2) \<Rightarrow> (Ret e, fifo_closeAndWake f2, w2)))))"

definition fifo_Clear :: "'a item \<Rightarrow> 'w ctx \<Rightarrow> (('a, 'w) fifo, 'w) opoption list \<Rightarrow> ('a, 'w) fifo \<times> 'w \<Rightarrow>
    goerr option outcome \<times> ('a, 'w) fifo \<times> 'w" where
  "fifo_Clear it c options fw =
     resolve CallClear options (Unwinds, fw) (\<lambda>e. (Ret (Some e), fw)) (\<lambda>opts.
       case fw of (f0, w) \<Rightarrow>
         (let f = fifo_lock f0 in
          if f_closed f then (Ret err_closed, fifo_unlock f, w)
          else if length (fifo_live f) = 0 then
            (case RunSideEffect (oo_SideEffect opts) w of (r, w1) \<Rightarrow> (r, fifo_unlock f, w1))
          else (case RunSideEffect (oo_SideEffect opts) w of
              (Unwinds, w1) \<Rightarrow> (Unwinds, fifo_unlock f, w1)
            | (Ret (Some e), w1) \<Rightarrow> (Ret (Some e), fifo_unlock f, w1)
            | (Ret None, w1) \<Rightarrow>
                (case (case f_backup f of None \<Rightarrow> (Returned None, w1) | Some b \<Rightarrow> bk_Clear b c w1) of
                   (Unwound, w2) \<Rightarrow> (Unwinds, fifo_unlock f, w2)
                 | (Returned (Some e), w2) \<Rightarrow> (Ret (WrapBackup (Some e)), fifo_unlock f, w2)
                 | (Returned None, w2) \<Rightarrow>
                     (let f1 = f\<lparr>f_buf := slice_clear (it_zero it) (f_head f) (s_len (f_buf f)) (f_buf f)\<rparr>;
                          f2 = f1\<lparr>f_buf := slice_prefix 0 (f_buf f1), f_head := 0\<rparr>;
                          f3 = fifo_wake_producers (f2\<lparr>f_hydrated := 0\<rparr>)
                      in (Ret None, fifo_unlock f3, w2))))))"

section \<open>Iteration\<close>

definition fifo_All :: "'a item \<Rightarrow> 'w ctx \<Rightarrow> ('a, 'w) yield \<Rightarrow> ('a, 'w) fifo \<times> 'w \<Rightarrow>
    goerr option outcome \<times> ('a, 'w) fifo \<times> 'w" where
  "fifo_All it c yield fw =
     (case fw of (f0, w) \<Rightarrow>
       (let f = fifo_rlock f0 in
        case (if f_closed f then yield_last yield (it_zero it) err_closed w
              else range_loop (it_zero it) c yield (fifo_live f) w) of
          (r, w1) \<Rightarrow> (r, fifo_runlock f, w1)))"

text \<open>
  \<open>AllCOW\<close>. While the read lock is held, the only change another goroutine can make to the
  queue is to its lock's counter of blocked writers; \<open>wanted\<close> is what \<open>WriteWanted\<close> reports
  from one poll to the next. The loop returns whether the lock is still held, so that the deferred
  release can be applied.
\<close>

fun fifo_cow_loop :: "'a item \<Rightarrow> 'w ctx \<Rightarrow> ('a, 'w) yield \<Rightarrow> ('w \<Rightarrow> bool) \<Rightarrow> 'a list \<Rightarrow> ('a, 'w) fifo \<times> 'w \<Rightarrow>
    goerr option outcome \<times> bool \<times> ('a, 'w) fifo \<times> 'w" where
  "fifo_cow_loop it c yield wanted [] (f, w) = (Ret None, False, fifo_runlock f, w)"
| "fifo_cow_loop it c yield wanted (v # vs) (f, w) =
     (if wanted w then
        (case range_loop (it_zero it) c yield (v # vs) w of (r, w1) \<Rightarrow> (r, False, fifo_runlock f, w1))
      else if ctx_err c w then
        (case yield_last yield (it_zero it) (Some (ctx_cause c w)) w of (r, w1) \<Rightarrow>
           (r, False, fifo_runlock f, w1))
      else (case yield v None w of
          (None, w1) \<Rightarrow> (Unwinds, True, f, w1)
        | (Some False, w1) \<Rightarrow> (Ret None, False, fifo_runlock f, w1)
        | (Some True, w1) \<Rightarrow> fifo_cow_loop it c yield wanted vs (f, w1)))"

definition fifo_AllCOW :: "'a item \<Rightarrow> 'w ctx \<Rightarrow> ('a, 'w) yield \<Rightarrow> ('w \<Rightarrow> bool) \<Rightarrow> ('a, 'w) fifo \<times> 'w \<Rightarrow>
    goerr option outcome \<times> ('a, 'w) fifo \<times> 'w" where
  "fifo_AllCOW it c yield wanted fw =
     (case fw of (f0, w) \<Rightarrow>
       (let f = f0\<lparr>f_lk := qlock_RLock (qlock_CowEnter (f_lk f0))\<rparr>;
            release = (\<lambda>held f. if held then fifo_runlock f else f);
            exit = (\<lambda>f. f\<lparr>f_lk := qlock_CowExit (f_lk f)\<rparr>)
        in if f_closed f then
             (case yield_last yield (it_zero it) err_closed w of (r, w1) \<Rightarrow> (r, exit (fifo_runlock f), w1))
           else
             (case fifo_cow_loop it c yield wanted (fifo_live f) (f, w) of
                (r, held, f1, w1) \<Rightarrow> (r, exit (release held f1), w1))))"

section \<open>Representation\<close>

text \<open>The array is the dead prefix, the live contents and unused slots; everything outside the live
  contents holds zero values, so the array pins no item that has left the queue.\<close>

definition fifo_shape :: "'a \<Rightarrow> nat \<Rightarrow> 'a list \<Rightarrow> nat \<Rightarrow> 'a slice" where
  "fifo_shape zero h xs k =
     \<lparr>s_arr = replicate h zero @ xs @ replicate k zero, s_len = h + length xs\<rparr>"

definition fifo_shaped :: "'a \<Rightarrow> ('a, 'w) fifo \<Rightarrow> bool" where
  "fifo_shaped zero f = (\<exists>k. f_buf f = fifo_shape zero (f_head f) (fifo_live f) k)"

definition fifo_core :: "'a item \<Rightarrow> ('a, 'w) fifo \<Rightarrow> bool" where
  "fifo_core it f =
     (fifo_shaped (it_zero it) f \<and>
      0 \<le> f_hydrated f \<and> f_hydrated f \<le> int (length (fifo_live f)) \<and>
      0 \<le> f_inflight f \<and> 0 \<le> f_maxSize f \<and>
      (f_maxSize f = 0 \<or>
       int (length (fifo_live f)) - f_hydrated f + f_inflight f \<le> f_maxSize f) \<and>
      sig_ok (f_notFull f) \<and> sig_ok (f_notEmpty f))"

definition fifo_inv :: "'a item \<Rightarrow> ('a, 'w) fifo \<Rightarrow> bool" where
  "fifo_inv it f = (lk_ok (f_lk f) \<and> fifo_core it f)"

definition fifo_abs :: "('a, 'w) fifo \<Rightarrow> ('a, 'w) aq" where
  "fifo_abs f =
     \<lparr>aq_items = mark (nat (f_hydrated f)) (fifo_live f), aq_max = f_maxSize f,
      aq_inflight = f_inflight f, aq_closed = f_closed f, aq_backup = f_backup f,
      aq_notFull = f_notFull f, aq_notEmpty = f_notEmpty f\<rparr>"

lemma slice_list_shape [simp]: "slice_list (fifo_shape zero h xs k) = replicate h zero @ xs"
  by (simp add: slice_list_def fifo_shape_def)

lemma shape_len [simp]: "s_len (fifo_shape zero h xs k) = h + length xs"
  and shape_cap [simp]: "slice_cap (fifo_shape zero h xs k) = h + length xs + k"
  by (simp_all add: fifo_shape_def slice_cap_def)

lemma append_shape:
  "\<exists>k'. slice_append grow zero (fifo_shape zero h xs k) vs = fifo_shape zero h (xs @ vs) k'"
  by (cases "length vs \<le> k")
    (auto simp: slice_append_def fifo_shape_def slice_cap_def Let_def)

lemma clear_shape:
  "j \<le> length xs \<Longrightarrow>
     slice_clear zero h (h + j) (fifo_shape zero h xs k) = fifo_shape zero (h + j) (drop j xs) k"
  by (simp add: slice_clear_def fifo_shape_def replicate_add)

lemma slide_shape:
  "slice_copy_down h (fifo_shape zero h xs k) = (b1, n) \<Longrightarrow>
     slice_prefix n (slice_clear zero n (s_len b1) b1) = fifo_shape zero 0 xs (h + k)"
  by (auto simp: slice_copy_down_def slice_prefix_def slice_clear_def fifo_shape_def slice_list_def
      Let_def replicate_add [symmetric])

lemma fifo_live_simps [simp]:
  "fifo_live (f\<lparr>f_lk := l\<rparr>) = fifo_live f" "fifo_live (f\<lparr>f_notFull := s\<rparr>) = fifo_live f"
  "fifo_live (f\<lparr>f_notEmpty := s\<rparr>) = fifo_live f" "fifo_live (f\<lparr>f_hydrated := n\<rparr>) = fifo_live f"
  "fifo_live (f\<lparr>f_inflight := n\<rparr>) = fifo_live f" "fifo_live (f\<lparr>f_closed := b\<rparr>) = fifo_live f"
  "fifo_live (f\<lparr>f_backup := k\<rparr>) = fifo_live f"
  by (simp_all add: fifo_live_def)

lemma fifo_shaped_simps [simp]:
  "fifo_shaped z (f\<lparr>f_lk := l\<rparr>) = fifo_shaped z f" "fifo_shaped z (f\<lparr>f_notFull := s\<rparr>) = fifo_shaped z f"
  "fifo_shaped z (f\<lparr>f_notEmpty := s\<rparr>) = fifo_shaped z f" "fifo_shaped z (f\<lparr>f_hydrated := n\<rparr>) = fifo_shaped z f"
  "fifo_shaped z (f\<lparr>f_inflight := n\<rparr>) = fifo_shaped z f" "fifo_shaped z (f\<lparr>f_closed := b\<rparr>) = fifo_shaped z f"
  "fifo_shaped z (f\<lparr>f_backup := k\<rparr>) = fifo_shaped z f"
  by (simp_all add: fifo_shaped_def)

lemma fifo_core_simps [simp]:
  "fifo_core it (f\<lparr>f_lk := l\<rparr>) = fifo_core it f" "fifo_core it (f\<lparr>f_closed := b\<rparr>) = fifo_core it f"
  by (simp_all add: fifo_core_def)

lemma fifo_core_notFull [simp]: "fifo_core it f \<Longrightarrow> sig_ok s \<Longrightarrow> fifo_core it (f\<lparr>f_notFull := s\<rparr>)"
  and fifo_core_notEmpty [simp]: "fifo_core it f \<Longrightarrow> sig_ok s \<Longrightarrow> fifo_core it (f\<lparr>f_notEmpty := s\<rparr>)"
  by (simp_all add: fifo_core_def)

lemma fifo_core_sig:
  "fifo_core it f \<Longrightarrow> sig_ok (f_notFull f)" "fifo_core it f \<Longrightarrow> sig_ok (f_notEmpty f)"
  by (simp_all add: fifo_core_def)

lemma fifo_core_signalled [simp]:
  "fifo_core it f \<Longrightarrow> fifo_core it (f\<lparr>f_notFull := signal_gated (f_notFull f)\<rparr>)"
  "fifo_core it f \<Longrightarrow> fifo_core it (f\<lparr>f_notFull := ReleaseReservation opts (f_notFull f)\<rparr>)"
  "fifo_core it f \<Longrightarrow> fifo_core it (f\<lparr>f_notFull := Wait_register g (f_notFull f)\<rparr>)"
  "fifo_core it f \<Longrightarrow> fifo_core it (f\<lparr>f_notEmpty := Wait_register g (f_notEmpty f)\<rparr>)"
  by (simp_all add: fifo_core_sig)

lemma fifo_abs_simps [simp]:
  "aq_closed (fifo_abs f) = f_closed f" "aq_max (fifo_abs f) = f_maxSize f"
  "aq_inflight (fifo_abs f) = f_inflight f" "aq_backup (fifo_abs f) = f_backup f"
  "aq_notFull (fifo_abs f) = f_notFull f" "aq_notEmpty (fifo_abs f) = f_notEmpty f"
  "aq_contents (fifo_abs f) = fifo_live f" "aq_items (fifo_abs f) = mark (nat (f_hydrated f)) (fifo_live f)"
  by (simp_all add: fifo_abs_def aq_contents_def)

lemma fifo_abs_upd [simp]:
  "fifo_abs (f\<lparr>f_lk := l\<rparr>) = fifo_abs f"
  "fifo_abs (f\<lparr>f_notFull := s\<rparr>) = (fifo_abs f)\<lparr>aq_notFull := s\<rparr>"
  "fifo_abs (f\<lparr>f_notEmpty := s\<rparr>) = (fifo_abs f)\<lparr>aq_notEmpty := s\<rparr>"
  "fifo_abs (f\<lparr>f_inflight := n\<rparr>) = (fifo_abs f)\<lparr>aq_inflight := n\<rparr>"
  "fifo_abs (f\<lparr>f_closed := b\<rparr>) = (fifo_abs f)\<lparr>aq_closed := b\<rparr>"
  by (simp_all add: fifo_abs_def)

lemma fifo_admitted: "fifo_core it f \<Longrightarrow>
    aq_admitted (fifo_abs f) = int (length (fifo_live f)) - f_hydrated f"
  unfolding aq_admitted_def fifo_core_def fifo_abs_simps admitted_mark by linarith

lemma fifo_wake_eq: "fifo_wake_producers f = f\<lparr>f_notFull := signal_gated (f_notFull f)\<rparr>"
  by (simp add: fifo_wake_producers_def signal_gated_def)

lemma fifo_inv_bounded: "fifo_inv it f \<Longrightarrow> aq_bounded (fifo_abs f)"
  using fifo_admitted [of it f]
  by (auto simp: fifo_inv_def aq_bounded_def fifo_core_def)

section \<open>Refinement of the abstract queue\<close>

text \<open>Storing a batch that fits.\<close>

lemma fifo_store_live:
  assumes "fifo_shaped (it_zero it) f"
  shows "fifo_shaped (it_zero it) (fifo_store it grow vs f) \<and>
     fifo_live (fifo_store it grow vs f) = fifo_live f @ vs"
proof -
  let ?z = "it_zero it"
  obtain k where k: "f_buf f = fifo_shape ?z (f_head f) (fifo_live f) k"
    using assms by (auto simp: fifo_shaped_def)
  define f1 where "f1 = (if f_head f > 0 \<and> s_len (f_buf f) + length vs > slice_cap (f_buf f)
      then (case slice_copy_down (f_head f) (f_buf f) of (b1, n) \<Rightarrow>
             f\<lparr>f_buf := slice_prefix n (slice_clear ?z n (s_len b1) b1), f_head := 0\<rparr>)
      else f)"
  have "\<exists>k. f_buf f1 = fifo_shape ?z (f_head f1) (fifo_live f) k"
    using k slide_shape [of "f_head f" ?z "fifo_live f" k]
    by (auto simp: f1_def split: prod.splits)
  then obtain k1 where "f_buf f1 = fifo_shape ?z (f_head f1) (fifo_live f) k1" ..
  then obtain k2 where k2: "slice_append grow ?z (f_buf f1) vs =
      fifo_shape ?z (f_head f1) (fifo_live f @ vs) k2"
    using append_shape by metis
  show ?thesis
    unfolding fifo_store_def Let_def f1_def [symmetric] k2 fifo_shaped_def
    by (auto simp: fifo_live_def)
qed

lemma fifo_store_fields [simp]:
  "f_lk (fifo_store it grow vs f) = f_lk f" "f_hydrated (fifo_store it grow vs f) = f_hydrated f"
  "f_inflight (fifo_store it grow vs f) = f_inflight f" "f_maxSize (fifo_store it grow vs f) = f_maxSize f"
  "f_closed (fifo_store it grow vs f) = f_closed f" "f_backup (fifo_store it grow vs f) = f_backup f"
  "f_notFull (fifo_store it grow vs f) = f_notFull f"
  "f_notEmpty (fifo_store it grow vs f) =
     (if fifo_live f = [] then signal_gated (f_notEmpty f) else f_notEmpty f)"
  by (auto simp: fifo_store_def Let_def signal_gated_def split: prod.splits)

lemma fifo_store_abs:
  assumes "fifo_core it f"
  shows "fifo_abs (fifo_store it grow vs f) =
    (fifo_abs f)\<lparr>aq_items := place_all fifo_place (aq_items (fifo_abs f)) vs,
      aq_notEmpty := (if fifo_live f = [] then signal_gated (f_notEmpty f) else f_notEmpty f)\<rparr>"
proof -
  have "mark (nat (f_hydrated f)) (fifo_live f) @ map (\<lambda>v. (v, False)) vs =
      mark (nat (f_hydrated f)) (fifo_live f @ vs)"
    using assms by (intro mark_append) (simp add: fifo_core_def nat_le_iff)
  moreover have "fifo_live (fifo_store it grow vs f) = fifo_live f @ vs"
    using assms fifo_store_live [of it f grow vs] by (simp add: fifo_core_def)
  ultimately show ?thesis by (simp add: fifo_abs_def)
qed

lemma fifo_store_core:
  assumes "fifo_core it f"
    and "f_maxSize f = 0 \<or>
      int (length (fifo_live f)) - f_hydrated f + f_inflight f + int (length vs) \<le> f_maxSize f"
  shows "fifo_core it (fifo_store it grow vs f)"
  using assms fifo_store_live [of it f grow vs] by (auto simp: fifo_core_def)

lemma fifo_abandon_abs [simp]:
  "fifo_abs (fifo_abandon opts f) =
     (fifo_abs f)\<lparr>aq_notFull := ReleaseReservation opts (f_notFull f)\<rparr>"
  by (simp add: fifo_abandon_def)

lemma fifo_abandon_inv: "fifo_core it f \<Longrightarrow> lk_held (f_lk f) \<Longrightarrow> fifo_inv it (fifo_abandon opts f)"
  by (simp add: fifo_abandon_def fifo_inv_def)

lemma fifo_unlock_inv: "fifo_core it f \<Longrightarrow> lk_held (f_lk f) \<Longrightarrow> fifo_inv it (fifo_unlock f)"
  and fifo_runlock_inv: "fifo_core it f \<Longrightarrow> lk_rheld (f_lk f) \<Longrightarrow> fifo_inv it (fifo_runlock f)"
  by (simp_all add: fifo_inv_def)

text \<open>The commit, from a state in which the write lock is held and the batch fits.\<close>

lemma fifo_commit_refines:
  assumes "fifo_core it f" and "lk_held (f_lk f)" and "fits (length vs) (fifo_abs f)"
    and "fifo_push_commit it grow c vs opts (f, w) = (r, f', w')"
  shows "spec_commit fifo_place c vs (oo_SideEffect opts) (oo_OnAdmit opts \<noteq> None) (fifo_abs f, w) =
      (r, fifo_abs f', w') \<and> fifo_inv it f'"
proof -
  have st: "fifo_inv it (fifo_unlock (fifo_store it grow vs f))"
    using assms by (simp add: fifo_inv_def fifo_store_core fits_def fifo_admitted)
  show ?thesis
    using assms(4) st fifo_abandon_inv [OF assms(1,2)] assms(1,2)
    by (auto simp: fifo_push_commit_def spec_commit_def spec_effects_def RunSideEffectLocked_pair
        RunBackup_pair fifo_store_abs ReleaseReservation_def split: run_splits)
qed

lemma fifo_lock_core: "fifo_inv it f \<Longrightarrow> fifo_core it f \<and> lk_held (qlock_Lock (f_lk f))"
  and fifo_rlock_core: "fifo_inv it f \<Longrightarrow> fifo_core it f \<and> lk_rheld (qlock_RLock (f_lk f))"
  by (simp_all add: fifo_inv_def)

lemma fifo_push_round_refines:
  fixes opts :: "(('a, 'w) fifo, 'w) opoptions"
  assumes "oo_OnAdmit opts = None"
  shows "refines (fifo_inv it) fifo_abs (fifo_push_round it grow g c vs opts)
    (spec_push fifo_place g c vs (oo_SideEffect opts))"
  unfolding refines_def
proof (intro allI impI)
  fix f :: "('a, 'w) fifo" and w :: 'w
  assume inv: "fifo_inv it f"
  note core = fifo_lock_core [OF inv]
  have commit: "fits (length vs) (fifo_abs f) \<Longrightarrow>
      fifo_push_commit it grow c vs opts (fifo_lock f, w) = (r, f', w') \<Longrightarrow>
      spec_commit fifo_place c vs (oo_SideEffect opts) False (fifo_abs f, w) = (r, fifo_abs f', w') \<and>
        fifo_inv it f'" for r f' w'
    using fifo_commit_refines [of it "fifo_lock f" vs grow c opts w r f' w'] core assms by simp
  have fits: "fits (length vs) (fifo_abs f) \<longleftrightarrow> f_maxSize f = 0 \<or>
      int (length (fifo_live f)) - f_hydrated f + f_inflight f + int (length vs) \<le> f_maxSize f"
    using core fifo_admitted [of it f] by (simp add: fits_def)
  show "case fifo_push_round it grow g c vs opts (f, w) of (r, f', w') \<Rightarrow>
      spec_push fifo_place g c vs (oo_SideEffect opts) (fifo_abs f, w) = (r, fifo_abs f', w') \<and>
      fifo_inv it f'"
    using core commit inv
    by (cases "fifo_push_commit it grow c vs opts (fifo_lock f, w)")
      (auto simp: fifo_push_round_def spec_push_def spec_gate_def fits assms fifo_inv_def)
qed

text \<open>With a hook: up to the hook the room is reserved, and whatever the rest of the program did to
  the queue while the hook ran, the end of the push is the abstract one.\<close>

lemma fifo_push_round_hook:
  assumes "fifo_inv it f" and "oo_OnAdmit opts = Some hook"
    and "spec_gate (length vs) (fifo_abs f) = GateAdmit"
    and "hook (f\<lparr>f_inflight := f_inflight f + int (length vs)\<rparr>, w) = (r, f1, w1)"
    and "fifo_inv it f1" and "int (length vs) \<le> f_inflight f1"
  shows "case fifo_push_round it grow g c vs opts (f, w) of (r', f', w') \<Rightarrow>
    spec_admitted fifo_place c vs (oo_SideEffect opts) r (fifo_abs f1, w1) = (r', fifo_abs f', w') \<and>
    fifo_inv it f'"
proof -
  define f2 where "f2 = f1\<lparr>f_lk := qlock_Lock (f_lk f1), f_inflight := f_inflight f1 - int (length vs)\<rparr>"
  have abs2: "fifo_abs f2 = (fifo_abs f1)\<lparr>aq_inflight := f_inflight f1 - int (length vs)\<rparr>"
    by (simp add: f2_def)
  have core2: "fifo_core it f2" and held2: "lk_held (f_lk f2)"
    using assms(5,6) by (auto simp: f2_def fifo_inv_def fifo_core_def)
  have fits2: "fits (length vs) (fifo_abs f2)"
    using fifo_inv_bounded [OF assms(5)]
    by (simp add: abs2 fits_def aq_bounded_def aq_admitted_def)
  note commit = fifo_commit_refines [OF core2 held2 fits2, of grow c opts w1]
  have gate: "\<not> f_closed f" "\<not> (0 < f_maxSize f \<and> f_maxSize f < int (length vs))"
      "f_maxSize f = 0 \<or>
       int (length (fifo_live f)) - f_hydrated f + f_inflight f + int (length vs) \<le> f_maxSize f"
    using assms(1,3) fifo_admitted [of it f]
    by (auto simp: spec_gate_def fits_def fifo_inv_def split: if_splits)
  have enter: "RunOnAdmit_enter fifo_cells fifo_put_cells (int (length vs)) (fifo_lock f) =
      f\<lparr>f_inflight := f_inflight f + int (length vs)\<rparr>"
    using assms(1) by (simp add: RunOnAdmit_enter_def fifo_cells_def fifo_put_cells_def fifo_inv_def)
  have put: "fifo_put_cells (qlock_Lock (f_lk f1), f_inflight f1 - int (length vs), f_notFull f1) f1 = f2"
    by (cases f1) (simp add: f2_def fifo_put_cells_def)
  have wake: "fifo_put_cells (l, f_inflight f1 - int (length vs), signal_gated (f_notFull f1)) f1 =
      f2\<lparr>f_lk := l, f_notFull := signal_gated (f_notFull f2)\<rparr>" for l
    by (cases f1) (simp add: f2_def fifo_put_cells_def)
  have same: "f_closed f2 = f_closed f1" "f_notFull f2 = f_notFull f1" "f_lk f2 = qlock_Lock (f_lk f1)"
    by (simp_all add: f2_def)
  have woken: "fifo_core it (f2\<lparr>f_notFull := signal_gated (f_notFull f1)\<rparr>)"
      "fifo_core it (f2\<lparr>f_lk := l, f_notFull := signal_gated (f_notFull f1)\<rparr>)" for l
    using core2 assms(5) by (auto simp: fifo_inv_def fifo_core_sig)
  have rel: "qlock_Unlock (qlock_Lock (f_lk f1)) = f_lk f1" "lk_ok (f_lk f1)"
    using assms(5) by (simp_all add: fifo_inv_def)
  show ?thesis
    using gate core2 woken held2 commit assms(2,4) rel
    by (cases "fifo_push_commit it grow c vs opts (f2, w1)"; cases r)
      (auto simp: fifo_push_round_def RunOnAdmit_def RunOnAdmit_exit_def enter spec_admitted_def
        fifo_cells_def put wake same Let_def abs2 fifo_inv_def fifo_abandon_def ReleaseReservation_def
        split: option.splits)
qed

subsection \<open>Pop\<close>

lemma fifo_dropHydrated_eq: "fifo_dropHydrated n f = f\<lparr>f_hydrated := max 0 (f_hydrated f - n)\<rparr>"
  by (simp add: fifo_dropHydrated_def)

text \<open>The state after the first \<open>k\<close> items have been taken.\<close>

definition fifo_taken :: "'a \<Rightarrow> nat \<Rightarrow> ('a, 'w) fifo \<Rightarrow> ('a, 'w) fifo" where
  "fifo_taken zero k f =
     f\<lparr>f_buf := slice_clear zero (f_head f) (f_head f + k) (f_buf f), f_head := f_head f + k,
       f_hydrated := max 0 (f_hydrated f - int k)\<rparr>"

lemma fifo_taken_live:
  assumes "fifo_shaped zero f" and "k \<le> length (fifo_live f)"
  shows "fifo_live (fifo_taken zero k f) = drop k (fifo_live f) \<and> fifo_shaped zero (fifo_taken zero k f)"
proof -
  obtain j where "f_buf f = fifo_shape zero (f_head f) (fifo_live f) j"
    using assms(1) by (auto simp: fifo_shaped_def)
  then have "slice_clear zero (f_head f) (f_head f + k) (f_buf f) =
      fifo_shape zero (f_head f + k) (drop k (fifo_live f)) j"
    using assms(2) by (simp add: clear_shape)
  then show ?thesis by (simp add: fifo_taken_def fifo_shaped_def) (simp add: fifo_live_def, blast)
qed

lemma fifo_taken_abs:
  assumes "fifo_core it f" and "k = min n (length (fifo_live f))"
  shows "fifo_abs (fifo_taken (it_zero it) k f) = (fifo_abs f)\<lparr>aq_items := drop n (aq_items (fifo_abs f))\<rparr>"
proof -
  have hyd: "0 \<le> f_hydrated f" "f_hydrated f \<le> int (length (fifo_live f))"
    and live: "fifo_live (fifo_taken (it_zero it) k f) = drop k (fifo_live f)"
    using assms fifo_taken_live [of "it_zero it" f k] by (auto simp: fifo_core_def)
  have "mark (nat (max 0 (f_hydrated f - int k))) (drop k (fifo_live f)) =
      drop n (mark (nat (f_hydrated f)) (fifo_live f))"
    using assms(2) hyd by (cases "n \<le> length (fifo_live f)") (auto simp: drop_mark max_def nat_diff_distrib)
  then show ?thesis using live by (simp add: fifo_abs_def) (simp add: fifo_taken_def)
qed

lemma fifo_taken_core:
  assumes "fifo_core it f" and "k \<le> length (fifo_live f)"
  shows "fifo_core it (fifo_taken (it_zero it) k f)"
proof -
  have "f_notFull (fifo_taken (it_zero it) k f) = f_notFull f" "f_notEmpty (fifo_taken (it_zero it) k f) = f_notEmpty f"
    "f_inflight (fifo_taken (it_zero it) k f) = f_inflight f" "f_maxSize (fifo_taken (it_zero it) k f) = f_maxSize f"
    "f_hydrated (fifo_taken (it_zero it) k f) = max 0 (f_hydrated f - int k)"
    by (simp_all add: fifo_taken_def)
  then show ?thesis
    using assms fifo_taken_live [of "it_zero it" f k]
    by (auto simp: fifo_core_def of_nat_diff)
qed

lemma fifo_pop_round_refines:
  fixes opts :: "(('a, 'w) fifo, 'w) opoptions"
  shows "refines (fifo_inv it) fifo_abs (fifo_pop_round it g c n opts) (spec_pop g c n (oo_SideEffect opts))"
  unfolding refines_def
proof (intro allI impI)
  fix f :: "('a, 'w) fifo" and w :: 'w
  assume inv: "fifo_inv it f"
  define k where "k = min n (length (fifo_live f))"
  define f5 where "f5 = fifo_wake_producers (fifo_taken (it_zero it) k (fifo_lock f))"
  have core: "fifo_core it f" "lk_held (qlock_Lock (f_lk f))"
    using fifo_lock_core [OF inv] by auto
  have abs5: "fifo_abs f5 = (fifo_abs f)\<lparr>aq_items := drop n (aq_items (fifo_abs f)),
      aq_notFull := signal_gated (f_notFull f)\<rparr>"
    using fifo_taken_abs [of it "fifo_lock f" k n] core
    by (simp add: f5_def k_def fifo_wake_eq) (simp add: fifo_taken_def)
  have inv5: "fifo_inv it (fifo_unlock f5)"
    using fifo_taken_core [of it "fifo_lock f" k] core
    by (simp add: f5_def k_def fifo_wake_eq fifo_inv_def) (simp add: fifo_taken_def)
  have eq5: "fifo_wake_producers (fifo_dropHydrated (min (int j) (f_hydrated f))
      (f\<lparr>f_lk := l, f_buf := slice_clear (it_zero it) (f_head f) (f_head f + j) (f_buf f), f_head := f_head f + j\<rparr>)) =
      f5\<lparr>f_lk := l\<rparr>" if "j = k" for l j
    using core(1) that
    by (simp add: f5_def fifo_taken_def fifo_dropHydrated_eq fifo_wake_eq fifo_core_def max_def min_def)
  have f5_lk: "f_lk f5 = qlock_Lock (f_lk f)" by (simp add: f5_def fifo_taken_def fifo_wake_eq)
  show "case fifo_pop_round it g c n opts (f, w) of (r, f', w') \<Rightarrow>
      spec_pop g c n (oo_SideEffect opts) (fifo_abs f, w) = (r, fifo_abs f', w') \<and> fifo_inv it f'"
    using core inv inv5 abs5
    by (cases "f_backup f"; cases "RunSideEffect (oo_SideEffect opts) w"; cases "fst (RunSideEffect (oo_SideEffect opts) w)")
      (auto simp: fifo_pop_round_def spec_pop_def spec_effects_def RunSideEffectLocked_pair eq5 k_def
        RunBackup_pair Let_def fifo_inv_def f5_lk split: run_splits)
qed

subsection \<open>Reading\<close>

lemma fifo_exists_loop_iff: "fifo_exists_loop it v xs = list_ex (\<lambda>x. it_equal it x v) xs"
  by (induction xs) auto

lemma fifo_Peek_refines:
  assumes "ResolveOpOptions CallPeek options = Ret (opts, None)"
  shows "refines (fifo_inv it) fifo_abs (fifo_Peek it options) (spec_peek (it_zero it) (oo_SideEffect opts))"
proof (rule refinesI)
  fix f :: "('a, 'b) fifo" and w
  show "fifo_inv it f \<Longrightarrow> spec_peek (it_zero it) (oo_SideEffect opts) (fifo_abs f, w) =
      map_prod id (map_prod fifo_abs id) (fifo_Peek it options (f, w))"
    by (cases "fifo_live f")
      (auto simp: fifo_Peek_def resolve_def assms spec_peek_def fifo_inv_def Let_def split: prod.splits)
qed (auto simp: fifo_Peek_def resolve_def assms fifo_inv_def Let_def split: prod.splits)

lemma fifo_Exists_refines:
  assumes "ResolveOpOptions CallExists options = Ret (opts, None)"
  shows "refines (fifo_inv it) fifo_abs (fifo_Exists it v options) (spec_exists it v (oo_SideEffect opts))"
  by (rule refinesI)
    (auto simp: fifo_Exists_def resolve_def assms spec_exists_def fifo_inv_def fifo_exists_loop_iff Let_def
      split: prod.splits)

lemma fifo_Len_refines:
  "fifo_inv it f \<Longrightarrow> fifo_Len f = (int (length (aq_items (fifo_abs f))), f)"
  by (cases f) (simp add: fifo_Len_def fifo_inv_def fifo_live_def)

lemma fifo_notempty_round_refines:
  "refines (fifo_inv it) fifo_abs (fifo_notempty_round g opts) (spec_notempty g (oo_SideEffect opts))"
  by (rule refinesI)
    (auto simp: fifo_notempty_round_def spec_notempty_def fifo_inv_def RunSideEffectLocked_pair Let_def
      split: run_splits)

lemma fifo_notfull_round_refines:
  "refines (fifo_inv it) fifo_abs (fifo_notfull_round g opts) (spec_notfull g (oo_SideEffect opts))"
proof -
  have fits: "fifo_inv it f \<Longrightarrow> fits (Suc 0) (fifo_abs f) = (f_maxSize f = 0 \<or>
      int (length (fifo_live f)) - f_hydrated f + f_inflight f < f_maxSize f)" for f :: "('a, 'b) fifo"
    using fifo_admitted [of it f] by (auto simp: fits_def fifo_inv_def)
  show ?thesis
    by (rule refinesI)
      (auto simp: fifo_notfull_round_def spec_notfull_def fits RunSideEffectLocked_pair Let_def
        simp: fifo_inv_def split: run_splits)
qed

subsection \<open>Close\<close>

lemma fifo_closeAndWake_abs: "fifo_abs (fifo_closeAndWake f) = aq_close (fifo_abs f)"
  by (simp add: fifo_closeAndWake_def aq_close_def Let_def)

lemma fifo_closeAndWake_inv: "fifo_core it f \<Longrightarrow> lk_held (f_lk f) \<Longrightarrow> fifo_inv it (fifo_closeAndWake f)"
  by (simp add: fifo_closeAndWake_def fifo_inv_def Let_def fifo_core_sig)

lemma fifo_Close_refines:
  fixes options :: "(('a, 'w) fifo, 'w) opoption list"
  assumes "ResolveOpOptions CallClose options = Ret (opts, None)"
  shows "refines (fifo_inv it) fifo_abs (fifo_Close c options) (spec_close c (oo_SideEffect opts))"
  unfolding refines_def
proof (intro allI impI)
  fix f :: "('a, 'w) fifo" and w :: 'w
  assume inv: "fifo_inv it f"
  have core: "fifo_core it (fifo_lock f)" "lk_held (f_lk (fifo_lock f))"
    using fifo_lock_core [OF inv] by auto
  note fin = fifo_unlock_inv [OF core] fifo_closeAndWake_inv [OF core]
  show "case fifo_Close c options (f, w) of (r, f', w') \<Rightarrow>
      spec_close c (oo_SideEffect opts) (fifo_abs f, w) = (r, fifo_abs f', w') \<and> fifo_inv it f'"
    using fin
    by (cases "f_backup f"; cases "RunSideEffect (oo_SideEffect opts) w"; cases "fst (RunSideEffect (oo_SideEffect opts) w)")
      (auto simp: fifo_Close_def resolve_def assms spec_close_def RunSideEffectLocked_pair
        RunBackup_pair fifo_closeAndWake_abs Let_def split: run_splits)
qed

subsection \<open>Clear\<close>

lemma fifo_cleared:
  assumes "fifo_core it f"
    and "f3 = fifo_wake_producers (f\<lparr>f_buf := slice_prefix 0 (slice_clear (it_zero it) (f_head f)
      (s_len (f_buf f)) (f_buf f)), f_head := 0, f_hydrated := 0\<rparr>)"
  shows "fifo_core it f3 \<and> fifo_abs f3 = (fifo_abs f)\<lparr>aq_items := [], aq_notFull := signal_gated (f_notFull f)\<rparr>"
proof -
  obtain k where k: "f_buf f = fifo_shape (it_zero it) (f_head f) (fifo_live f) k"
    using assms(1) by (auto simp: fifo_core_def fifo_shaped_def)
  have "f_buf f3 = fifo_shape (it_zero it) 0 [] (f_head f + length (fifo_live f) + k)"
    using clear_shape [of "length (fifo_live f)" "fifo_live f" "it_zero it" "f_head f" k] k
    by (simp add: assms(2) fifo_wake_eq slice_prefix_def) (simp add: fifo_shape_def replicate_add)
  moreover have "f_head f3 = 0" "f_hydrated f3 = 0" "f_inflight f3 = f_inflight f" "f_maxSize f3 = f_maxSize f"
    "f_closed f3 = f_closed f" "f_backup f3 = f_backup f"
    "f_notFull f3 = signal_gated (f_notFull f)" "f_notEmpty f3 = f_notEmpty f"
    by (simp_all add: assms(2) fifo_wake_eq)
  moreover from calculation have "fifo_live f3 = []" by (simp add: fifo_live_def)
  ultimately show ?thesis
    using assms(1) by (auto simp: fifo_core_def fifo_shaped_def fifo_abs_def)
qed

lemma fifo_Clear_refines:
  fixes options :: "(('a, 'w) fifo, 'w) opoption list"
  assumes "ResolveOpOptions CallClear options = Ret (opts, None)"
  shows "refines (fifo_inv it) fifo_abs (fifo_Clear it c options) (spec_clear c (oo_SideEffect opts))"
  unfolding refines_def
proof (intro allI impI)
  fix f :: "('a, 'w) fifo" and w :: 'w
  assume inv: "fifo_inv it f"
  have core: "fifo_core it (fifo_lock f)" "lk_held (f_lk (fifo_lock f))"
    using fifo_lock_core [OF inv] by auto
  note cleared = fifo_cleared [OF core(1) refl]
  note fin = fifo_unlock_inv [OF core] fifo_unlock_inv [OF conjunct1 [OF cleared]]
  show "case fifo_Clear it c options (f, w) of (r, f', w') \<Rightarrow>
      spec_clear c (oo_SideEffect opts) (fifo_abs f, w) = (r, fifo_abs f', w') \<and> fifo_inv it f'"
    using fin fifo_cleared [OF conjunct1 [OF fifo_lock_core [OF inv]] refl] core
    by (cases "f_backup f"; cases "RunSideEffect (oo_SideEffect opts) w"; cases "fst (RunSideEffect (oo_SideEffect opts) w)")
      (auto simp: fifo_Clear_def resolve_def assms spec_clear_def spec_effects_def fifo_wake_eq Let_def
        split: run_splits)
qed

subsection \<open>Del\<close>

lemma fifo_del_loop_eq:
  "fifo_del_loop it vs hyd i xs (kept, removed, rh) =
     (kept @ filter (\<lambda>x. \<not> MatchesAny it x vs) xs, removed @ filter (\<lambda>x. MatchesAny it x vs) xs,
      rh + int (length (filter (\<lambda>x. MatchesAny it x vs) (take (nat (hyd - i)) xs))))"
proof (induction xs arbitrary: i kept removed rh)
  case (Cons x xs)
  have "take (nat (hyd - i)) (x # xs) = (if i < hyd then x # take (nat (hyd - (i + 1))) xs else [])"
    by (cases "nat (hyd - i)") (auto simp: nat_diff_distrib' nat_eq_iff2 intro!: arg_cong2 [of _ _ _ _ take])
  then show ?case using Cons.IH by simp
qed simp

lemma fifo_deleted:
  assumes core: "fifo_core it f"
    and f2: "f2 = fifo_wake_producers (fifo_dropHydrated
      (int (length (filter (\<lambda>x. MatchesAny it x vs) (take (nat (f_hydrated f)) (fifo_live f)))))
      (f\<lparr>f_buf := slice_of (it_zero it) (length (fifo_live f))
        (filter (\<lambda>x. \<not> MatchesAny it x vs) (fifo_live f)), f_head := 0\<rparr>))"
  shows "fifo_core it f2 \<and> fifo_abs f2 = (fifo_abs f)\<lparr>
      aq_items := filter (\<lambda>x. \<not> MatchesAny it (fst x) vs) (aq_items (fifo_abs f)),
      aq_notFull := signal_gated (f_notFull f)\<rparr>"
proof -
  let ?P = "\<lambda>x. \<not> MatchesAny it x vs" and ?h = "nat (f_hydrated f)" and ?xs = "fifo_live f"
  have h: "0 \<le> f_hydrated f" "f_hydrated f \<le> int (length ?xs)"
    using core by (auto simp: fifo_core_def)
  have split: "length (filter ?P (take ?h ?xs)) + length (filter (\<lambda>x. MatchesAny it x vs) (take ?h ?xs)) = ?h"
    using h filter_length_split [of "\<lambda>x. MatchesAny it x vs" "take ?h ?xs"] by simp
  have f2_fields: "f_buf f2 = slice_of (it_zero it) (length ?xs) (filter ?P ?xs)" "f_head f2 = 0"
    "f_hydrated f2 = int (length (filter ?P (take ?h ?xs)))"
    "f_inflight f2 = f_inflight f" "f_maxSize f2 = f_maxSize f" "f_closed f2 = f_closed f"
    "f_backup f2 = f_backup f" "f_notFull f2 = signal_gated (f_notFull f)" "f_notEmpty f2 = f_notEmpty f"
    using split h by (simp_all add: f2 fifo_wake_eq fifo_dropHydrated_eq)
  then have live: "fifo_live f2 = filter ?P ?xs" by (simp add: fifo_live_def)
  have shaped: "fifo_shaped (it_zero it) f2"
    unfolding fifo_shaped_def live f2_fields
    by (simp add: fifo_shape_def slice_of_def)
  have le: "length (filter ?P (take ?h ?xs)) \<le> length (filter ?P ?xs)"
    by (metis append_take_drop_id filter_append le_add1 length_append)
  have rest: "length (filter ?P ?xs) - length (filter ?P (take ?h ?xs)) \<le> length ?xs - ?h"
    by (metis append_take_drop_id diff_add_inverse filter_append length_append length_drop length_filter_le)
  have "int (length (filter ?P ?xs)) - int (length (filter ?P (take ?h ?xs))) \<le> int (length ?xs) - f_hydrated f"
    using rest le h by linarith
  then have "fifo_core it f2"
    using core shaped le unfolding fifo_core_def live f2_fields by auto
  moreover have "fifo_abs f2 = (fifo_abs f)\<lparr>aq_items := filter (\<lambda>x. ?P (fst x)) (aq_items (fifo_abs f)),
      aq_notFull := signal_gated (f_notFull f)\<rparr>"
    by (simp add: fifo_abs_def live f2_fields filter_mark [of ?P])
  ultimately show ?thesis by simp
qed

lemma fifo_Del_refines:
  fixes options :: "(('a, 'w) fifo, 'w) opoption list"
  assumes "ResolveOpOptions CallDel options = Ret (opts, None)" and inv: "fifo_inv it f"
  shows "case fifo_Del it c vs options (f, w) of (r, f', w') \<Rightarrow>
    spec_del it c vs (filter (\<lambda>x. MatchesAny it x vs) (aq_contents (fifo_abs f))) (oo_SideEffect opts)
      (fifo_abs f, w) = (r, fifo_abs f', w') \<and> fifo_inv it f'"
proof -
  have core: "fifo_core it (fifo_lock f)" "lk_held (f_lk (fifo_lock f))" "fifo_core it f"
    using fifo_lock_core [OF inv] by auto
  define f2 where "f2 = fifo_wake_producers (fifo_dropHydrated
      (int (length (filter (\<lambda>x. MatchesAny it x vs) (take (nat (f_hydrated f)) (fifo_live f)))))
      (fifo_lock f\<lparr>f_buf := slice_of (it_zero it) (length (fifo_live f))
        (filter (\<lambda>x. \<not> MatchesAny it x vs) (fifo_live f)), f_head := 0\<rparr>))"
  have del: "fifo_core it f2" "fifo_abs f2 = (fifo_abs f)\<lparr>
      aq_items := filter (\<lambda>x. \<not> MatchesAny it (fst x) vs) (aq_items (fifo_abs f)),
      aq_notFull := signal_gated (f_notFull f)\<rparr>"
    using fifo_deleted [OF core(1), of f2 vs] by (auto simp: f2_def)
  have "f_lk f2 = qlock_Lock (f_lk f)" by (simp add: f2_def fifo_wake_eq fifo_dropHydrated_eq)
  then have fin: "fifo_inv it (fifo_unlock (fifo_lock f))" "fifo_inv it (fifo_unlock f2)"
    using core inv del(1) by (auto simp: fifo_inv_def)
  show ?thesis
    using fin del
    by (cases "f_backup f"; cases "RunSideEffect (oo_SideEffect opts) w"; cases "fst (RunSideEffect (oo_SideEffect opts) w)")
      (auto simp: fifo_Del_def resolve_def assms spec_del_def spec_effects_def fifo_del_loop_eq
        f2_def [symmetric] Let_def split: run_splits)
qed

subsection \<open>Blocking\<close>

lemma fifo_resume_notFull_refines:
  assumes "fifo_inv it f" and "waits_full g (fifo_abs f)"
  shows "case fifo_resume_notFull g c mk (f, w) of (r, f', w') \<Rightarrow>
    spec_resume_notFull g c mk (fifo_abs f, w) = (r, fifo_abs f', w') \<and> fifo_inv it f'"
  using assms sig_ok_return [of g "f_notFull f" c w]
  by (auto simp: fifo_resume_notFull_def spec_resume_notFull_def fifo_ClosedOrCause_def closed_or_cause_def
      fifo_inv_def Let_def split: prod.splits option.splits)

lemma fifo_resume_notEmpty_refines:
  assumes "fifo_inv it f" and "waits_empty g (fifo_abs f)"
  shows "case fifo_resume_notEmpty g c mk (f, w) of (r, f', w') \<Rightarrow>
    spec_resume_notEmpty g c mk (fifo_abs f, w) = (r, fifo_abs f', w') \<and> fifo_inv it f'"
  using assms sig_ok_return [of g "f_notEmpty f" c w]
  by (auto simp: fifo_resume_notEmpty_def spec_resume_notEmpty_def fifo_ClosedOrCause_def closed_or_cause_def
      fifo_inv_def Let_def split: prod.splits option.splits)

lemma fifo_inv_sig: "fifo_inv it f \<Longrightarrow> sig_ok (f_notFull f) \<and> sig_ok (f_notEmpty f)"
  by (auto simp: fifo_inv_def fifo_core_sig)

lemma fifo_Push_refines:
  assumes "ResolveOpOptions CallPush options = Ret (opts, None)" and hook: "oo_OnAdmit opts = None"
    and "ValidateKind it False vs = None"
    and env: "list_all2 (env_refines (fifo_inv it) fifo_abs (waits_full g)) env aenv"
  shows "refines (fifo_inv it) fifo_abs (fifo_Push it grow g c vs options env)
    (spec_Push fifo_place g c vs (oo_SideEffect opts) aenv)"
proof -
  note round = fifo_push_round_refines [OF hook, of it grow g c vs]
  have "refines (fifo_inv it) fifo_abs
      (wait_loop (fifo_push_round it grow g c vs opts) (fifo_resume_notFull g c id) env)
      (spec_Push fifo_place g c vs (oo_SideEffect opts) aenv)"
    unfolding refines_from_same [symmetric]
    by (rule spec_Push_refines [OF round [folded refines_from_same] _ _ fifo_resume_notFull_refines env])
      (simp add: fifo_inv_sig [of it], use refinesD [OF round] in blast)
  then show ?thesis using assms by (simp add: fifo_Push_def resolve_def refines_def)
qed

lemma fifo_Pop_refines:
  assumes "ResolveOpOptions CallPop options = Ret (opts, None)"
    and env: "list_all2 (env_refines (fifo_inv it) fifo_abs (waits_empty g)) env aenv"
  shows "refines (fifo_inv it) fifo_abs (fifo_Pop it g c n options env)
    (spec_Pop g c n (oo_SideEffect opts) aenv)"
  using spec_Pop_refines [OF fifo_pop_round_refines [of it g c n opts] _ fifo_resume_notEmpty_refines env] assms fifo_inv_sig
  by (fastforce simp: fifo_Pop_def resolve_def refines_def)

lemma fifo_NotEmpty_refines:
  assumes "ResolveOpOptions CallNotEmpty options = Ret (opts, None)"
    and env: "list_all2 (env_refines (fifo_inv it) fifo_abs (waits_empty g)) env aenv"
  shows "refines (fifo_inv it) fifo_abs (fifo_NotEmpty g c options env)
    (spec_NotEmpty g c (oo_SideEffect opts) aenv)"
  using spec_NotEmpty_refines [OF fifo_notempty_round_refines [of it g opts] _ fifo_resume_notEmpty_refines env] assms fifo_inv_sig
  by (fastforce simp: fifo_NotEmpty_def resolve_def refines_def)

lemma fifo_NotFull_refines:
  assumes "ResolveOpOptions CallNotFull options = Ret (opts, None)"
    and env: "list_all2 (env_refines (fifo_inv it) fifo_abs (waits_full g)) env aenv"
  shows "refines (fifo_inv it) fifo_abs (fifo_NotFull g c options env)
    (spec_NotFull g c (oo_SideEffect opts) aenv)"
  using spec_NotFull_refines [OF fifo_notfull_round_refines [of it g opts] _ fifo_resume_notFull_refines env] assms fifo_inv_sig
  by (fastforce simp: fifo_NotFull_def resolve_def refines_def)

lemma fifo_Push_hook:
  assumes "ResolveOpOptions CallPush options = Ret (opts, None)" and "oo_OnAdmit opts = Some hook"
    and "ValidateKind it False vs = None" and inv: "fifo_inv it f"
    and gate: "spec_gate (length vs) (fifo_abs f) = GateAdmit"
    and hook: "hook (f\<lparr>f_inflight := f_inflight f + int (length vs)\<rparr>, w) = (r, f1, w1)"
    and inv1: "fifo_inv it f1" and "int (length vs) \<le> f_inflight f1"
  shows "case fifo_Push it grow g c vs options env (f, w) of (r', f', w') \<Rightarrow>
    spec_admitted fifo_place c vs (oo_SideEffect opts) r (fifo_abs f1, w1) = (r', fifo_abs f', w') \<and>
    fifo_inv it f'"
proof -
  obtain r' f' w' where round: "fifo_push_round it grow g c vs opts (f, w) = (r', f', w')"
    by (metis prod_cases3)
  note spec = fifo_push_round_hook [OF inv assms(2) gate hook inv1 assms(8), where grow = grow and g = g and c = c, unfolded round]
  obtain x where "r' = Done x"
    using spec by (cases r') (auto simp: spec_admitted_def spec_commit_def Let_def split: run_splits if_splits)
  then show ?thesis
    using spec round wait_loop_done [of "fifo_push_round it grow g c vs opts" "(f, w)" x] assms(1,3)
    by (simp add: fifo_Push_def resolve_def)
qed

lemma fifo_reserved_inv:
  "fifo_inv it f \<Longrightarrow> spec_gate n (fifo_abs f) = GateAdmit \<Longrightarrow>
     fifo_inv it (f\<lparr>f_inflight := f_inflight f + int n\<rparr>)"
  using fifo_admitted [of it f]
  by (auto simp: spec_gate_def fits_def fifo_inv_def fifo_core_def split: if_splits)

subsection \<open>Hydrate\<close>

lemma fifo_hydrate_loop_refines:
  assumes "fifo_core it f" and "f_hydrated f = int (length (fifo_live f))"
    and "fifo_hydrate_loop it grow c b rs (f, w) = (r, f', w')"
  shows "spec_hydrate_loop fifo_place it False c b rs (fifo_abs f, w) = (r, fifo_abs f', w') \<and>
    fifo_core it f' \<and> f_lk f' = f_lk f"
  using assms
proof (induction it grow c b rs "(f, w)" arbitrary: f w rule: fifo_hydrate_loop.induct)
  case (4 it grow c b v rs f w)
  define f1 where "f1 = f\<lparr>f_buf := slice_append grow (it_zero it) (f_buf f) [v], f_hydrated := f_hydrated f + 1\<rparr>"
  obtain k where "f_buf f = fifo_shape (it_zero it) (f_head f) (fifo_live f) k"
    using 4(2) by (auto simp: fifo_core_def fifo_shaped_def)
  then obtain k1 where k1: "f_buf f1 = fifo_shape (it_zero it) (f_head f1) (fifo_live f @ [v]) k1"
    using append_shape [of grow "it_zero it" "f_head f" "fifo_live f" k "[v]"] by (auto simp: f1_def)
  then have live: "fifo_live f1 = fifo_live f @ [v]" by (simp add: fifo_live_def)
  have core: "fifo_core it f1" "f_hydrated f1 = int (length (fifo_live f1))"
    using 4(2,3) k1 by (auto simp: fifo_core_def fifo_shaped_def live) (simp_all add: f1_def)
  have "mark (nat (f_hydrated f + 1)) (fifo_live f @ [v]) = mark (nat (f_hydrated f)) (fifo_live f) @ [(v, True)]"
    using 4(3) by (simp add: mark_def nat_add_distrib)
  then have abs: "fifo_abs f1 = (fifo_abs f)\<lparr>aq_items := fifo_place (aq_items (fifo_abs f)) (v, True)\<rparr>"
    by (simp add: fifo_abs_def live fifo_place_def) (simp add: f1_def)
  have lk: "f_lk f1 = f_lk f" by (simp add: f1_def)
  have IH: "spec_hydrate_loop fifo_place it False c b rs (fifo_abs f1, w1) = (r, fifo_abs f', w') \<and>
      fifo_core it f' \<and> f_lk f' = f_lk f1"
    if "ValidateKindOne it False v = None" "bk_OnLoad b c v w = (Returned None, w1)"
      "fifo_hydrate_loop it grow c b rs (f1, w1) = (r, f', w')" for w1
    using 4(1) [OF that(1) that(2) [symmetric] refl refl, folded f1_def] core that(3) by blast
  show ?case
    using IH 4(2,4) abs lk by (auto simp: f1_def [symmetric] split: run_splits)
qed auto

lemma fifo_Hydrate_refines:
  assumes "fifo_inv it f" and "\<forall>x \<in> set (aq_items (fifo_abs f)). snd x"
  shows "case fifo_Hydrate it grow c b (f, w) of (r, f', w') \<Rightarrow>
    spec_hydrate fifo_place it False c b (fifo_abs f, w) = (r, fifo_abs f', w') \<and> fifo_inv it f'"
proof -
  have core: "fifo_core it (fifo_lock f)" "lk_held (f_lk (fifo_lock f))"
    using fifo_lock_core [OF assms(1)] by auto
  have "drop (nat (f_hydrated f)) (fifo_live f) = []"
    using assms(2) by (cases "drop (nat (f_hydrated f)) (fifo_live f)") (auto simp: mark_def)
  then have "f_hydrated (fifo_lock f) = int (length (fifo_live (fifo_lock f)))"
    using core(1) by (auto simp: fifo_core_def)
  note loop = fifo_hydrate_loop_refines [OF core(1) this]
  obtain r f1 w1 where eq: "fifo_hydrate_loop it grow c b (bk_RangeAll b c w) (fifo_lock f, w) = (r, f1, w1)"
    by (metis prod_cases3)
  have fin: "fifo_inv it (fifo_unlock f1)" "fifo_inv it (fifo_unlock (f1\<lparr>f_backup := x\<rparr>))" for x
    using loop [OF eq] core(2) by (auto simp: fifo_inv_def fifo_core_def)
  have attach: "fifo_abs (f1\<lparr>f_backup := x, f_lk := l\<rparr>) = (fifo_abs f1)\<lparr>aq_backup := x\<rparr>" for x l
    by (simp add: fifo_abs_def fifo_live_def)
  show ?thesis
    using loop [OF eq] eq fin
    by (auto simp: fifo_Hydrate_def spec_hydrate_def attach split: outcome.splits option.splits)
qed

subsection \<open>Iteration\<close>

lemma fifo_All_run:
  "fifo_inv it f \<Longrightarrow> fifo_All it c yield (f, w) =
     (case (if f_closed f then yield_last yield (it_zero it) err_closed w
            else range_loop (it_zero it) c yield (fifo_live f) w) of (r, w1) \<Rightarrow> (r, f, w1))"
  by (auto simp: fifo_All_def fifo_inv_def Let_def split: prod.splits)

lemma fifo_All_refines: "refines (fifo_inv it) fifo_abs (fifo_All it c yield) (spec_range (it_zero it) c yield)"
  by (rule refinesI) (auto simp: fifo_All_run spec_range_def split: prod.splits)

text \<open>Whether and when a writer makes the loop copy the remainder does not change what is yielded,
  and the read lock is dropped exactly once.\<close>

lemma fifo_cow_loop_range:
  assumes "fifo_cow_loop it c yield wanted vs (f, w) = (r, held, f', w')"
  shows "range_loop (it_zero it) c yield vs w = (r, w') \<and> (if held then fifo_runlock f' else f') = fifo_runlock f"
  using assms
  by (induction it c yield wanted vs "(f, w)" arbitrary: w rule: fifo_cow_loop.induct)
    (auto split: if_splits prod.splits option.splits bool.splits)

lemma fifo_AllCOW_run:
  assumes "fifo_inv it f"
  shows "fifo_AllCOW it c yield wanted (f, w) = fifo_All it c yield (f, w)"
proof -
  define f1 where "f1 = f\<lparr>f_lk := qlock_RLock (qlock_CowEnter (f_lk f))\<rparr>"
  obtain r held f2 w2 where loop: "fifo_cow_loop it c yield wanted (fifo_live f1) (f1, w) = (r, held, f2, w2)"
    by (metis prod_cases4)
  note lr = fifo_cow_loop_range [OF loop]
  have exit: "(fifo_runlock f1)\<lparr>f_lk := qlock_CowExit (f_lk (fifo_runlock f1))\<rparr> = f"
    using assms by (cases f) (simp add: f1_def fifo_inv_def)
  have live: "fifo_live f1 = fifo_live f" "f_closed f1 = f_closed f" by (simp_all add: f1_def)
  have "fifo_AllCOW it c yield wanted (f, w) =
      (case (if f_closed f then yield_last yield (it_zero it) err_closed w else (r, w2)) of
         (r, w1) \<Rightarrow> (r, f, w1))"
    using loop lr exit live
    by (simp add: fifo_AllCOW_def Let_def f1_def [symmetric] split: prod.splits if_splits)
  then show ?thesis using lr live by (simp add: fifo_All_run [OF assms])
qed

lemma fifo_AllCOW_refines:
  "refines (fifo_inv it) fifo_abs (fifo_AllCOW it c yield wanted) (spec_range (it_zero it) c yield)"
  using fifo_All_refines [of it c yield] by (simp add: refines_def fifo_AllCOW_run)

section \<open>The interface\<close>

definition fifo_backing :: "'a item \<Rightarrow> (nat \<Rightarrow> nat \<Rightarrow> nat) \<Rightarrow> (('a, 'w) fifo, 'a, 'w) backing" where
  "fifo_backing it grow = \<lparr>
     bo_SetQueueLock = fifo_SetQueueLock, bo_QueueLock = f_lk,
     bo_SetMaxBatch = fifo_SetMaxBatch, bo_SetMaxSize = fifo_SetMaxSize,
     bo_Hydrate = fifo_Hydrate it grow, bo_Push = fifo_Push it grow, bo_Pop = fifo_Pop it,
     bo_Peek = fifo_Peek it, bo_Exists = fifo_Exists it, bo_Del = fifo_Del it,
     bo_NotEmpty = fifo_NotEmpty, bo_NotFull = fifo_NotFull, bo_Len = fifo_Len,
     bo_Close = fifo_Close, bo_Clear = fifo_Clear it, bo_All = fifo_All it, bo_AllCOW = fifo_AllCOW it\<rparr>"

lemma fifo_Hydrate_failed:
  assumes hyd: "fifo_Hydrate it grow c b (f, w) = (r, f1, w1)" "r \<noteq> Ret None"
    and inv: "fifo_inv it f" "\<forall>x \<in> set (aq_items (fifo_abs f)). snd x" and "f_backup f = None" and "\<not> f_closed f"
  shows "\<exists>f2. fifo_Close c [] (f1, w1) = (Ret None, f2, w1) \<and> fifo_abs f2 = aq_close (fifo_abs f1) \<and> lk_ok (f_lk f2)"
proof -
  have spec: "spec_hydrate fifo_place it False c b (fifo_abs f, w) = (r, fifo_abs f1, w1)" "fifo_inv it f1"
    using fifo_Hydrate_refines [OF inv, where grow = grow and c = c and b = b and w = w] hyd(1) by auto
  then have f1: "f_backup f1 = None" "\<not> f_closed f1"
    using spec_hydrate_loop_frame [of fifo_place it False c b "bk_RangeAll b c w" "fifo_abs f" w] hyd(2) assms(5,6)
    by (auto simp: spec_hydrate_def split: prod.splits outcome.splits option.splits)
  have "ResolveOpOptions CallClose [] = Ret (\<lparr>oo_Call = CallClose, oo_SideEffect = None, oo_OnAdmit = None\<rparr>, None)"
    by (simp add: ResolveOpOptions_def)
  note close = fifo_Close_refines [OF this, of it c]
  obtain r2 f2 w2 where cl: "fifo_Close c [] (f1, w1) = (r2, f2, w2)" by (metis prod_cases3)
  have "r2 = Ret None" "w2 = w1" "fifo_abs f2 = aq_close (fifo_abs f1)" "fifo_inv it f2"
    using refinesD [OF close spec(2) cl] f1 by (auto simp: spec_close_def RunSideEffect_def)
  then show ?thesis using cl by (auto simp: fifo_inv_def)
qed

lemma fifo_inv_lk: "fifo_inv it f \<Longrightarrow> lk_ok (f_lk f)"
  and fifo_inv_set_lk: "fifo_inv it f \<Longrightarrow> lk_ok l \<Longrightarrow> fifo_inv it (f\<lparr>f_lk := l\<rparr>)"
  by (simp_all add: fifo_inv_def)

interpretation ff: queue_backing "fifo_backing it grow" "fifo_inv it" fifo_abs fifo_place it False "\<lambda>_ _. True"
  for it :: "'a item" and grow :: "nat \<Rightarrow> nat \<Rightarrow> nat"
proof (unfold_locales, goal_cases)
  case (13 options opts hook vs s w c g env)
  then show ?case
    using fifo_Push_hook [OF 13(1-5), where w = w and grow = grow and g = g and c = c and env = env] fifo_reserved_inv [of it s "length vs"]
    by (intro exI [of _ "s\<lparr>f_inflight := f_inflight s + int (length vs)\<rparr>"]) (auto simp: fifo_backing_def)
next
  case (10 s n e s')
  then show ?case
    by (auto simp: fifo_backing_def fifo_SetMaxSize_def fifo_inv_def fifo_core_def fifo_abs_def fifo_shaped_def
        fifo_live_def split: if_splits)
next
  case (17 options opts s vs c w)
  then show ?case
    using fifo_Del_refines [of options opts it s c vs w]
    by (intro exI [of _ "filter (\<lambda>x. MatchesAny it x vs) (aq_contents (fifo_abs s))"]) (simp add: fifo_backing_def)
next
  case (25 s b c w r s' w')
  then show ?case
    using fifo_Hydrate_refines [where it = it and f = s and grow = grow and c = c and b = b and w = w] by (auto simp: fifo_backing_def)
next
  case (26 s b c w r s' w')
  then show ?case
    using fifo_Hydrate_failed [of it grow c b s w r s' w'] by (auto simp: fifo_backing_def)
qed (simp_all add: fifo_backing_def fifo_inv_bounded fifo_inv_sig refines_from_same fifo_Push_refines fifo_Pop_refines
  fifo_Peek_refines fifo_Exists_refines fifo_NotEmpty_refines fifo_NotFull_refines fifo_Len_refines
  fifo_Close_refines fifo_Clear_refines fifo_All_refines fifo_AllCOW_refines fifo_Hydrate_refines
  fifo_Push_def resolve_def fifo_SetQueueLock_def fifo_SetMaxBatch_def fifo_inv_lk fifo_inv_set_lk split: if_splits)

end
