(* ===== verification/Memory_Queue.thy ===== *)
theory Memory_Queue
  imports Fifo_Backing Builtin_Items
begin

text \<open>
  Queues over the in-memory slice backing: what a caller of \<open>queue.New\<close> with \<open>NewFIFO\<close> can rely on.
  The statements are those of the contract of theory \<open>Backing_Interface\<close> and of the lemmas of theory
  \<open>Queue_API\<close>, written out over the definitions that model the code.
\<close>

section \<open>Concrete callers\<close>

text \<open>A context that is never cancelled, a growth policy, an unnamed and a named queue of signed
  numbers; the statements below are evaluated on them.\<close>

definition background :: "unit ctx" where
  "background = \<lparr>ctx_nodone = True, ctx_err = (\<lambda>_. False), ctx_cause = (\<lambda>_. Foreign 0)\<rparr>"

definition grow2 :: "nat \<Rightarrow> nat \<Rightarrow> nat" where
  "grow2 cap n = 2 * n"

definition num :: "u64 \<Rightarrow> u64 \<Rightarrow> number" where
  "num v p = \<lparr>num_V = SignedInt v, num_P = p\<rparr>"

abbreviation int_item :: "number item" where
  "int_item \<equiv> number_item (SignedInt 0)"

definition fifo_queue :: "((number, unit) fifo, number, unit) queue" where
  "fifo_queue = \<lparr>q_backing = fifo_New, q_backup = None, q_maxBatch = 1000, q_met = Some newQueueMetrics\<rparr>"

lemma fifo_New_inv: "fifo_inv it fifo_New"
  by (simp add: fifo_inv_def fifo_core_def fifo_New_def fifo_shaped_def fifo_live_def fifo_shape_def
      nil_slice_def slice_list_def new_qlock_def lk_ok_def lk_free_def)

lemma fifo_New_simps [simp]:
  "f_closed fifo_New = False" "f_backup fifo_New = None" "f_hydrated fifo_New = 0" "f_inflight fifo_New = 0"
  "fifo_live (fifo_New\<lparr>f_maxSize := m\<rparr>) = []" "fifo_live fifo_New = []"
  by (simp_all add: fifo_New_def fifo_live_def)

lemma fifo_New_max_inv: "m \<ge> 0 \<Longrightarrow> fifo_inv it (fifo_New\<lparr>f_maxSize := m\<rparr>)"
  using fifo_New_inv [of it] by (auto simp: fifo_inv_def fifo_core_def fifo_shaped_def fifo_live_def fifo_New_def)

lemma fifo_contents: "map fst (aq_items (fifo_abs f)) = fifo_live f" and fifo_size: "length (aq_items (fifo_abs f)) = length (fifo_live f)"
  by (simp_all add: fifo_abs_def)

text \<open>The invariant of a queue over the slice backing: the backing's, and a depth counter that agrees with
  the contents.\<close>

definition fifo_queue_ok :: "'a item \<Rightarrow> (('a, 'w) fifo, 'a, 'w) queue \<Rightarrow> bool" where
  "fifo_queue_ok it q = (fifo_inv it (q_backing q) \<and>
     depth_sync (int (length (fifo_live (q_backing q)))) (q_met q))"

lemma fifo_queue_ok_iff:
  "fifo_queue_ok it q = (fifo_inv it (q_backing q) \<and>
     depth_sync (int (length (aq_items (fifo_abs (q_backing q))))) (q_met q))"
  by (simp add: fifo_queue_ok_def fifo_size)

lemma fifo_live_items: "fifo_live f = map fst (aq_items (fifo_abs f))"
  by (simp only: fifo_contents)

lemma fifo_queue_starts_ok: "fifo_queue_ok int_item fifo_queue"
  using fifo_New_inv [of int_item]
  by (simp add: fifo_queue_ok_def fifo_queue_def depth_sync_def newQueueMetrics_def fifo_live_def fifo_New_def)

lemma no_options: "call \<noteq> UnknownOpCall \<Longrightarrow>
    ResolveOpOptions call [] = Ret (\<lparr>oo_Call = call, oo_SideEffect = None, oo_OnAdmit = None\<rparr>, None)"
  by (simp add: ResolveOpOptions_def)

section \<open>The contract\<close>

text \<open>
  The slice backing implements a bounded blocking FIFO queue (C1). Every method of \<open>fifo.go\<close> refines the
  corresponding operation of the abstract queue with placing at the end: for every item type,
  growth policy, context, option list without error and every schedule of interference by other
  goroutines, it returns the same value, acts on the caller's world in the same way and ends in a state that
  represents the abstract final state and satisfies the representation invariant again, with the
  lock free.
\<close>

theorem fifo_keeps_contract:
  "queue_backing (fifo_backing it grow) (fifo_inv it) fifo_abs fifo_place it False (\<lambda>_ _. True)"
  by (rule ff.queue_backing_axioms)

section \<open>Operations of a queue\<close>

text \<open>
  \<open>Push\<close> is all or nothing (C25). On a queue over the slice backing, a \<open>Push\<close> that returns true has
  appended the whole batch in order; one that returns an error, that unwinds out of caller code, or that
  parks has left the contents as they were. Either way the invariant holds afterwards, the lock is
  free, the depth counter shows the number of items, and the boolean is true exactly when the error is nil.
\<close>

theorem fifo_queue_push_atomic:
  assumes "queue_Push (fifo_backing it grow) g c vs options [] (q, w) = (res, q', w')" and "fifo_queue_ok it q"
    and "ResolveOpOptions CallPush options = Ret (opts, None)" and "oo_OnAdmit opts = None"
    and "ValidateKind it False vs = None"
  shows "fifo_queue_ok it q' \<and> (\<forall>b e. res = returns (b, e) \<longrightarrow> b = (e = None)) \<and>
    fifo_live (q_backing q') =
      (if res = returns (True, None) then fifo_live (q_backing q) @ vs else fifo_live (q_backing q))"
proof -
  note push = ff.queue_Push_atomic [OF assms(1) assms(2) [unfolded fifo_queue_ok_iff] assms(3-5) TrueI]
  have live: "fifo_live (q_backing q') =
      (if res = returns (True, None) then fifo_live (q_backing q) @ vs else fifo_live (q_backing q))"
    using arg_cong [OF push [THEN conjunct2, THEN conjunct2], of "map fst"]
    by (simp only: fifo_live_items place_all_fifo) (simp add: comp_def)
  have "fifo_queue_ok it q'" using push unfolding fifo_queue_ok_iff by blast
  then show ?thesis using live push by blast
qed

lemma push_evaluates:
  "fst (queue_Push (fifo_backing int_item grow2) 7 background [num 1 0, num 2 0] [] [] (fifo_queue, ())) = returns (True, None)"
  by code_simp

theorem fifo_queue_push_atomic_witness:
  "fifo_live (q_backing (fst (snd (queue_Push (fifo_backing int_item grow2) 7 background [num 1 0, num 2 0] [] [] (fifo_queue, ()))))) =
     [num 1 0, num 2 0]"
proof -
  obtain res q' w' where r: "queue_Push (fifo_backing int_item grow2) 7 background [num 1 0, num 2 0] [] [] (fifo_queue, ()) = (res, q', w')"
    by (metis prod_cases3)
  then have "res = returns (True, None)" using push_evaluates by simp
  then show ?thesis
    using fifo_queue_push_atomic [OF r fifo_queue_starts_ok no_options] r
    by (simp add: ValidateKindOne_def number_item_def Number_Priority_def num_def fifo_queue_def fifo_New_def fifo_live_def)
qed

text \<open>
  First in, first out (C24). Run any sequence of \<open>Push\<close> and \<open>Pop\<close> calls, with or without side effects, on a
  queue over the slice backing. What the pops handed out, followed by what is left in the queue, is what was
  in the queue, followed by the batches of the pushes that returned true: no item is lost, duplicated
  or overtaken, whichever calls fail, unwind or park.
\<close>

theorem fifo_queue_in_order:
  assumes "run_cmds (fifo_backing it grow) c cs (q, w) = ((ins, outs), q', w')" and "fifo_queue_ok it q"
  shows "fifo_queue_ok it q' \<and> fifo_live (q_backing q) @ ins = outs @ fifo_live (q_backing q')"
  using ff.run_cmds_fifo [OF refl _ assms(1)] assms(2)
  by (simp add: fifo_queue_ok_iff fifo_live_items del: fifo_abs_simps)

definition run1 :: "(nat \<times> number cmd \<times> unit call option) list" where
  "run1 = [(0, DoPush [num 1 0, num 2 0], None), (1, DoPop 1, None), (2, DoPush [num 9 5], None),
     (3, DoPush [num 3 0], Some (\<lambda>w. (Returned (Some (Foreign 4)), w))), (4, DoPush [num 4 0], None), (5, DoPop 7, None)]"

lemma run1_evaluates:
  "fst (run_cmds (fifo_backing int_item grow2) background run1 (fifo_queue, ())) =
     ([num 1 0, num 2 0, num 4 0], [num 1 0, num 2 0, num 4 0])"
  by code_simp

theorem fifo_queue_in_order_witness:
  "fifo_live (q_backing (fst (snd (run_cmds (fifo_backing int_item grow2) background run1 (fifo_queue, ()))))) = []"
proof -
  obtain ins outs q' w' where r: "run_cmds (fifo_backing int_item grow2) background run1 (fifo_queue, ()) = ((ins, outs), q', w')"
    by (metis prod.collapse)
  then have "ins = outs" using run1_evaluates by simp
  then show ?thesis
    using fifo_queue_in_order [OF r fifo_queue_starts_ok] r by (simp add: fifo_queue_def fifo_New_def fifo_live_def)
qed


lemma run1_tight:
  "fst (run_cmds (fifo_backing int_item grow2) background run1 (fifo_queue\<lparr>q_backing := fifo_New\<lparr>f_maxSize := 1\<rparr>, q_met := None\<rparr>, ())) =
     ([num 4 0], [num 4 0])"
  by code_simp


text \<open>
  \<open>Pop\<close> is all or nothing (C30). On a queue over the slice backing, a \<open>Pop(n)\<close> that returns without an error
  hands out the oldest \<open>min n len\<close> items, at least one, and removes exactly those; one that fails, unwinds or
  parks removes nothing.
\<close>

theorem fifo_queue_pop_atomic:
  assumes "queue_Pop (fifo_backing it grow) g c n options [] (q, w) = (res, q', w')" and "fifo_queue_ok it q"
    and "ResolveOpOptions CallPop options = Ret (opts, None)" and "1 \<le> n"
  shows "fifo_queue_ok it q' \<and>
    ((\<exists>out. res = returns (out, None) \<and> out \<noteq> [] \<and> out = take (nat n) (fifo_live (q_backing q)) \<and>
        fifo_live (q_backing q') = drop (nat n) (fifo_live (q_backing q))) \<or>
     ((\<forall>out. res \<noteq> returns (out, None)) \<and> fifo_live (q_backing q') = fifo_live (q_backing q)))"
proof -
  note pop = ff.queue_Pop_atomic [OF assms(1) assms(2) [unfolded fifo_queue_ok_iff] assms(3,4)]
  have "fifo_queue_ok it q'" using pop unfolding fifo_queue_ok_iff by blast
  moreover note pop [THEN conjunct2]
  ultimately show ?thesis
    unfolding fifo_live_items drop_map by metis
qed

text \<open>A queue of four numbers, with an expected result per operation.\<close>

definition four :: "((number, unit) fifo, number, unit) queue" where
  "four = fst (snd (queue_Push (fifo_backing int_item grow2) 7 background [num 1 0, num 2 0, num 1 0, num 3 0] [] [] (fifo_queue, ())))"

lemma four_ok: "fifo_queue_ok int_item four"
  using ff.cmd_push_step [of int_item grow2 7 background "[num 1 0, num 2 0, num 1 0, num 3 0]" None fifo_queue "()"]
    fifo_queue_starts_ok
  unfolding fifo_queue_ok_iff four_def with_se_def option.case by (metis prod.collapse)

lemma four_live: "fifo_live (q_backing four) = [num 1 0, num 2 0, num 1 0, num 3 0]"
  by code_simp

lemma pop_evaluates:
  "fst (queue_Pop (fifo_backing int_item grow2) 7 background 3 [] [] (four, ())) = returns ([num 1 0, num 2 0, num 1 0], None)"
  by code_simp

theorem fifo_queue_pop_atomic_witness:
  "fifo_live (q_backing (fst (snd (queue_Pop (fifo_backing int_item grow2) 7 background 3 [] [] (four, ()))))) = [num 3 0]"
proof -
  obtain res q' w' where r: "queue_Pop (fifo_backing int_item grow2) 7 background 3 [] [] (four, ()) = (res, q', w')"
    by (metis prod_cases3)
  then have "res = returns ([num 1 0, num 2 0, num 1 0], None)" using pop_evaluates by simp
  then show ?thesis
    using fifo_queue_pop_atomic [OF r four_ok no_options] r by (simp add: four_live)
qed

text \<open>
  \<open>Del\<close> removes all matches and nothing else (C31). On a queue over the slice backing, a \<open>Del\<close> that returns without
  an error reports the number of items \<open>Equal\<close> to one of its arguments and leaves the others in their
  order; one that fails or unwinds leaves the contents alone.
\<close>

theorem fifo_queue_del_exact:
  assumes "queue_Del (fifo_backing it grow) c vs options (q, w) = (res, q', w')" and "fifo_queue_ok it q"
    and "ResolveOpOptions CallDel options = Ret (opts, None)"
  shows "fifo_queue_ok it q' \<and>
    ((res = Ret (int (length (filter (\<lambda>x. MatchesAny it x vs) (fifo_live (q_backing q)))), None) \<and>
        fifo_live (q_backing q') = filter (\<lambda>x. \<not> MatchesAny it x vs) (fifo_live (q_backing q))) \<or>
     ((\<forall>n. res \<noteq> Ret (n, None)) \<and> fifo_live (q_backing q') = fifo_live (q_backing q)))"
proof -
  note del = ff.queue_Del_atomic [OF assms(1) assms(2) [unfolded fifo_queue_ok_iff] assms(3)]
  have "fifo_queue_ok it q'" using del unfolding fifo_queue_ok_iff by blast
  moreover note del [THEN conjunct2]
  ultimately show ?thesis
    unfolding fifo_live_items filter_map comp_def length_map by metis
qed

lemma del_evaluates:
  "fst (queue_Del (fifo_backing int_item grow2) background [num 1 0] [] (four, ())) = Ret (2, None)"
  by code_simp

theorem fifo_queue_del_exact_witness:
  "fifo_live (q_backing (fst (snd (queue_Del (fifo_backing int_item grow2) background [num 1 0] [] (four, ()))))) = [num 2 0, num 3 0]"
proof -
  obtain res q' w' where r: "queue_Del (fifo_backing int_item grow2) background [num 1 0] [] (four, ()) = (res, q', w')"
    by (metis prod_cases3)
  then have "res = Ret (2, None)" using del_evaluates by simp
  then show ?thesis
    using fifo_queue_del_exact [OF r four_ok no_options] r
    by (simp add: four_live number_item_def Number_Equal_def num_def)
qed

section \<open>Iteration and construction\<close>



text \<open>
  A failed restore leaves nothing open (C32). When \<open>New\<close> over a fresh slice backing is given a Backup and
  \<open>Hydrate\<close> fails or unwinds, \<open>New\<close> returns no queue, the backing is closed and \<open>Close\<close> has been called on the
  Backup in the world in which \<open>Hydrate\<close> ended.
\<close>

theorem fifo_new_failed_restore:
  assumes "validateOptions (foldl (\<lambda>o1 opt. opt o1) queueOptions_defaults options) = (Some b, None)"
    and "fifo_Hydrate it grow c b (fifo_New\<lparr>f_maxSize := (if maxSize < 1 then 0 else maxSize)\<rparr>, w) = (r1, s1, w1)"
    and "r1 \<noteq> Ret None"
    and "queue_New (fifo_backing it grow) c named (Some fifo_New) maxSize options w = (r, s', w')"
  shows "(\<forall>q. r \<noteq> Ret (Inr q)) \<and> w' = snd (bk_Close b c w1) \<and> (\<exists>f. s' = Some f \<and> f_closed f \<and> lk_ok (f_lk f))"
proof -
  let ?f = "fifo_New\<lparr>f_maxSize := (if maxSize < 1 then 0 else maxSize)\<rparr> :: (_, _) fifo"
  have mb: "\<not> qo_maxBatch (foldl (\<lambda>o1 opt. opt o1) queueOptions_defaults options) < 1"
    using assms(1) by (auto simp: validateOptions_def split: if_splits)
  have inv: "fifo_inv it ?f" by (rule fifo_New_max_inv) simp
  obtain r2 s2 w2 where h: "New_hydrate (fifo_backing it grow) c b (?f, w) = (r2, s2, w2)" by (metis prod_cases3)
  have "aq_closed (fifo_abs s2) \<and> lk_ok (bo_QueueLock (fifo_backing it grow :: (('a, 'b) fifo, 'a, 'b) backing) s2) \<and>
      w2 = snd (bk_Close b c w1) \<and> r2 \<noteq> Ret None"
    by (rule ff.New_hydrate_closes [OF inv _ _ _ TrueI _ assms(3) h])
      (use assms(2) in \<open>simp_all add: fifo_backing_def\<close>)
  note closed = this
  let ?ops = "fifo_backing it grow"
  have lk: "bo_QueueLock ?ops = f_lk" by (simp add: fifo_backing_def)
  have steps: "bo_SetQueueLock ?ops new_qlock fifo_New = fifo_New"
    "bo_SetMaxSize ?ops (if maxSize < 1 then 0 else maxSize) fifo_New = (None, ?f)"
    "bo_SetMaxBatch ?ops (qo_maxBatch (foldl (\<lambda>o1 opt. opt o1) queueOptions_defaults options)) fifo_New = (None, fifo_New)"
    using mb by (simp_all add: fifo_backing_def fifo_SetQueueLock_def fifo_SetMaxSize_def fifo_SetMaxBatch_def fifo_New_def)
  show ?thesis
    using assms(1,4) closed
    by (auto simp: queue_New_def Let_def steps h lk split: outcome.splits option.splits)
qed

text \<open>A Backup whose iterator fails at its second item, in a world that counts the calls of \<open>Close\<close>.\<close>

definition failing_backup :: "(number, nat) backup" where
  "failing_backup = \<lparr>bk_Push = \<lambda>_ _ w. (Returned None, w), bk_Del = \<lambda>_ _ w. (Returned None, w),
     bk_Restore = \<lambda>_ _ w. (Returned None, w), bk_Close = \<lambda>_ w. (Returned None, w + 1),
     bk_Clear = \<lambda>_ w. (Returned None, w),
     bk_RangeAll = \<lambda>_ _. [Yielded (num 1 0) None, Yielded (num 2 0) (Some (Foreign 3))],
     bk_OnLoad = \<lambda>_ _ w. (Returned None, w)\<rparr>"

definition nat_ctx :: "nat ctx" where
  "nat_ctx = \<lparr>ctx_nodone = True, ctx_err = (\<lambda>_. False), ctx_cause = (\<lambda>_. Foreign 0)\<rparr>"

theorem fifo_new_failed_restore_witness:
  "snd (snd (queue_New (fifo_backing int_item grow2) nat_ctx True (Some fifo_New) 5 [WithBackup (ABackup failing_backup)] 0)) = 1"
proof -
  obtain r s' w' where n: "queue_New (fifo_backing int_item grow2) nat_ctx True (Some fifo_New) 5
      [WithBackup (ABackup failing_backup)] 0 = (r, s', w')"
    by (metis prod_cases3)
  obtain r1 s1 w1 where h: "fifo_Hydrate int_item grow2 nat_ctx failing_backup
      (fifo_New\<lparr>f_maxSize := (if (5::int) < 1 then 0 else 5)\<rparr>, 0) = (r1, s1, w1)"
    by (metis prod_cases3)
  then have "r1 \<noteq> Ret None" "w1 = 0"
    by (auto simp: fifo_Hydrate_def failing_backup_def ValidateKindOne_def number_item_def Number_Priority_def num_def
        split: if_splits)
  moreover have "validateOptions (foldl (\<lambda>o1 opt. opt o1) queueOptions_defaults [WithBackup (ABackup failing_backup)]) =
      (Some failing_backup, None)"
    by (simp add: validateOptions_def queueOptions_defaults_def WithBackup_def)
  ultimately show ?thesis
    using fifo_new_failed_restore [OF _ h _ n] n by (simp add: failing_backup_def)
qed

section \<open>Telemetry of a push\<close>


end
