(* ===== verification/Priority_Queue.thy ===== *)
theory Priority_Queue
  imports Heap_Contract Memory_Queue
begin

text \<open>
  Queues over the heap backing: what a caller of \<open>queue.New\<close> with \<open>NewPriority\<close> can rely on. The first
  part makes no assumption on the caller's comparator, which may end the frame at any comparison and need
  not be an order; the second part is for lawful item types, and is evaluated on the built-in \<open>Number\<close>.
\<close>

section \<open>Any comparator\<close>

text \<open>
  A \<open>Push\<close> that does not succeed is undone (C4). Whatever \<open>Item.Less\<close> does (it may panic in the middle of
  the insertion and it need not be an order), one round of \<open>Push\<close> on the heap backing that does not return
  nil leaves the array with the same entries in the same places, the sequence counter and the hydration
  count as they were, and the lock free.
\<close>

theorem heap_push_undone:
  assumes "heap_push_round it grow g c vs opts (p, w) = (r, p', w')" and "r \<noteq> returns None"
    and "oo_OnAdmit opts = None" and "mh_shaped (it_zero it) k (hb_h p)" and "lk_ok (hb_lk p)"
  shows "mh_list (hb_h p') = mh_list (hb_h p) \<and> hb_nextSeq p' = hb_nextSeq p \<and> hb_hydrated p' = hb_hydrated p \<and>
    lk_ok (hb_lk p')"
proof -
  have lk: "lk_held (qlock_Lock (hb_lk p))" "qlock_Unlock (qlock_Lock (hb_lk p)) = hb_lk p"
    using assms(5) by simp_all
  have ab: "mh_list (hb_h (heap_abandon opts (heap_lock p))) = mh_list (hb_h p) \<and>
      hb_nextSeq (heap_abandon opts (heap_lock p)) = hb_nextSeq p \<and>
      hb_hydrated (heap_abandon opts (heap_lock p)) = hb_hydrated p \<and> lk_ok (hb_lk (heap_abandon opts (heap_lock p)))"
    using assms(5) lk by (simp add: heap_abandon_def)
  have ins: "mh_list (hb_h p3) = mh_list (hb_h p) \<and> hb_nextSeq p3 = hb_nextSeq p \<and> hb_hydrated p3 = hb_hydrated p \<and> lk_ok (hb_lk p3)"
    if "heap_insert it grow vs opts (heap_lock p) = (Unwinds, p3)" for p3
  proof -
    have "p3 = (heap_abandon opts (heap_lock p))\<lparr>hb_h := hb_h p3\<rparr>" "mh_list (hb_h p3) = mh_list (hb_h p)"
      using heap_insert_unwinds [OF _ that, of k] assms(4) by simp_all
    then show ?thesis using ab by (metis hbacking.select_convs hbacking.surjective hbacking.update_convs(2))
  qed
  show ?thesis
  proof (cases "heap_push_commit it grow c vs opts (heap_lock p, w) = (r, p', w')")
    case True
    then show ?thesis
      using assms(2) ab ins
      by (cases "hb_backup p"; cases "RunSideEffect (oo_SideEffect opts) w"; cases "fst (RunSideEffect (oo_SideEffect opts) w)")
        (auto simp: heap_push_commit_def RunSideEffectLocked_pair RunBackup_pair Let_def split: run_splits)
  next
    case False
    then show ?thesis
      using assms(1,3,5) lk by (auto simp: heap_push_round_def Let_def split: if_splits)
  qed
qed

text \<open>A comparator that panics, and a heap of one entry: the second push has to compare.\<close>

definition panicking_item :: "number item" where
  "panicking_item = int_item\<lparr>it_less := \<lambda>_ _. None\<rparr>"

definition no_opts :: "opcall \<Rightarrow> ('s, 'w) opoptions" where
  "no_opts call = \<lparr>oo_Call = call, oo_SideEffect = None, oo_OnAdmit = None\<rparr>"

definition one_heap :: "(number, unit) hbacking" where
  "one_heap = heap_New\<lparr>hb_h := mh_new\<lparr>mh_items := \<lparr>s_arr = [\<lparr>si_Seq = 0, si_Item = num 1 5\<rparr>], s_len = 1\<rparr>\<rparr>, hb_nextSeq := 1\<rparr>"

lemma one_heap_shape: "mh_shaped (it_zero it) 0 (hb_h one_heap)" "lk_ok (hb_lk one_heap)"
  "mh_list (hb_h one_heap) = [\<lparr>si_Seq = 0, si_Item = num 1 5\<rparr>]"
  by (simp_all add: one_heap_def heap_New_def mh_shaped_def mh_list_def slice_list_def new_qlock_def lk_ok_def lk_free_def)

lemma panicking_push: "fst (heap_push_round panicking_item grow2 3 background [num 2 7] (no_opts CallPush) (one_heap, ())) = Done Unwinds"
  by code_simp

theorem heap_push_undone_witness:
  "mh_list (hb_h (fst (snd (heap_push_round panicking_item grow2 3 background [num 2 7] (no_opts CallPush) (one_heap, ()))))) =
     [\<lparr>si_Seq = 0, si_Item = num 1 5\<rparr>]"
proof -
  obtain r p' w' where h: "heap_push_round panicking_item grow2 3 background [num 2 7] (no_opts CallPush) (one_heap, ()) = (r, p', w')"
    by (metis prod_cases3)
  then have "r \<noteq> returns None" using panicking_push by auto
  then show ?thesis
    using heap_push_undone [OF h, of 0] h one_heap_shape(1) [of panicking_item] one_heap_shape(2,3) by (simp add: no_opts_def)
qed

text \<open>
  A \<open>Pop\<close> that does not succeed is undone (C5). Whatever \<open>Item.Less\<close> does, and whether the caller's side
  effect, the comparator or the Backup is what failed or unwound, one round of \<open>Pop\<close> on the heap backing that does not
  hand out items leaves every entry of the array where it was, the hydration count as it was and the lock free.
\<close>

theorem heap_pop_undone:
  assumes "heap_pop_round it g c n opts (p, w) = (r, p', w')" and "\<forall>out. r \<noteq> returns (out, None)"
    and "mh_shaped (it_zero it) k (hb_h p)" and "lk_ok (hb_lk p)"
  shows "mh_list (hb_h p') = mh_list (hb_h p) \<and> hb_hydrated p' = hb_hydrated p \<and> lk_ok (hb_lk p')"
proof -
  let ?xs = "mh_list (hb_h p)" and ?p = "heap_lock p"
  define m where "m = (if n > mh_Len (hb_h p) then mh_Len (hb_h p) else n)"
  have len: "mh_Len (hb_h p) = length ?xs" using mh_Len_list [OF assms(3)] .
  obtain b p2 pd where loop: "heap_pop_loop it m (?p\<lparr>hb_h := mh_journalOn (hb_h p)\<rparr>, []) = (b, p2, pd)"
    by (metis prod_cases3)
  have "journalled (it_zero it) ?xs [] (hb_h (?p\<lparr>hb_h := mh_journalOn (hb_h p)\<rparr>))"
    using journalled_On [OF assms(3)] by simp
  note j = heap_pop_loop_journalled [OF this _ _ loop]
  have j2: "journalled (it_zero it) ?xs pd (hb_h p2)" "length (mh_list (hb_h p2)) + length pd = length ?xs"
    and "\<exists>h. p2 = ?p\<lparr>hb_h := h\<rparr>"
  proof -
    have "m \<le> length ?xs" using len by (simp add: m_def)
    then show "journalled (it_zero it) ?xs pd (hb_h p2)" "length (mh_list (hb_h p2)) + length pd = length ?xs"
      "\<exists>h. p2 = ?p\<lparr>hb_h := h\<rparr>"
      using j by (simp, simp, fastforce)
  qed
  then obtain h where p2: "p2 = ?p\<lparr>hb_h := h\<rparr>" by blast
  have rest: "mh_list (hb_h (heap_restore it (mh_Len (hb_h p)) pd p2)) = ?xs"
    "hb_hydrated (heap_restore it (mh_Len (hb_h p)) pd p2) = hb_hydrated p"
    "lk_ok (hb_lk (heap_restore it (mh_Len (hb_h p)) pd p2))"
    using heap_restore_exact [OF j2] assms(4) by (simp_all add: len) (simp_all add: heap_restore_def p2)
  have bk: "hb_backup p2 = hb_backup p" by (simp add: p2)
  have run: "RunLockedNoErr (heap_pop_loop it m) (\<lambda>(p, pd). (heap_restore it (mh_Len (hb_h ?p)) pd p, pd))
      (?p\<lparr>hb_h := mh_journalOn (hb_h p)\<rparr>, []) =
      (if b then (Ret (), p2, pd) else (Unwinds, heap_restore it (mh_Len (hb_h p)) pd p2, pd))"
    using loop by (simp add: RunLockedNoErr_def)
  have ml: "(if mh_Len (hb_h ?p) < n then mh_Len (hb_h ?p) else n) = m" by (simp add: m_def)
  show ?thesis
  proof (cases "\<not> hb_closed p \<and> 0 < mh_Len (hb_h p)")
    case False
    then show ?thesis
      using assms(1,4) by (cases "hb_closed p") (auto simp: heap_pop_round_def Let_def)
  next
    case True
    then show ?thesis
      using assms(1,2,4) rest run bk
      unfolding heap_pop_round_def Let_def RunSideEffectLocked_pair prod.case ml
      by (cases "hb_backup p"; cases "RunSideEffect (oo_SideEffect opts) w"; cases "fst (RunSideEffect (oo_SideEffect opts) w)")
        (auto simp: RunBackup_pair split: run_splits if_splits)
  qed
qed

lemma panicking_pop:
  "fst (heap_pop_round panicking_item 3 background 1 (no_opts CallPop)
     (one_heap\<lparr>hb_h := mh_new\<lparr>mh_items := \<lparr>s_arr = [\<lparr>si_Seq = 0, si_Item = num 1 5\<rparr>, \<lparr>si_Seq = 1, si_Item = num 2 4\<rparr>,
        \<lparr>si_Seq = 2, si_Item = num 3 4\<rparr>], s_len = 3\<rparr>\<rparr>\<rparr>, ())) = Done Unwinds"
  by code_simp

theorem heap_pop_undone_witness:
  "mh_list (hb_h (fst (snd (heap_pop_round panicking_item 3 background 1 (no_opts CallPop)
     (one_heap\<lparr>hb_h := mh_new\<lparr>mh_items := \<lparr>s_arr = [\<lparr>si_Seq = 0, si_Item = num 1 5\<rparr>, \<lparr>si_Seq = 1, si_Item = num 2 4\<rparr>,
        \<lparr>si_Seq = 2, si_Item = num 3 4\<rparr>], s_len = 3\<rparr>\<rparr>\<rparr>, ()))))) =
   [\<lparr>si_Seq = 0, si_Item = num 1 5\<rparr>, \<lparr>si_Seq = 1, si_Item = num 2 4\<rparr>, \<lparr>si_Seq = 2, si_Item = num 3 4\<rparr>]"
proof -
  let ?p = "one_heap\<lparr>hb_h := mh_new\<lparr>mh_items := \<lparr>s_arr = [\<lparr>si_Seq = 0, si_Item = num 1 5\<rparr>, \<lparr>si_Seq = 1, si_Item = num 2 4\<rparr>,
        \<lparr>si_Seq = 2, si_Item = num 3 4\<rparr>], s_len = 3\<rparr>\<rparr>\<rparr>"
  obtain r p' w' where h: "heap_pop_round panicking_item 3 background 1 (no_opts CallPop) (?p, ()) = (r, p', w')"
    by (metis prod_cases3)
  then have "\<forall>out. r \<noteq> returns (out, None)" using panicking_pop by simp
  moreover have "mh_shaped (it_zero panicking_item) 0 (hb_h ?p)" "lk_ok (hb_lk ?p)"
    using one_heap_shape(2) by (simp_all add: mh_shaped_def mh_list_def slice_list_def)
  ultimately show ?thesis
    using heap_pop_undone [OF h] h by (simp add: mh_list_def slice_list_def)
qed


section \<open>Lawful items\<close>

context lawful_item
begin

lemma heap_contract:
  "queue_backing (heap_backing it grow) (heap_inv it lt) (heap_abs it) (priority_place lt) it True heap_fresh"
  by (rule hp.queue_backing_axioms)

end

text \<open>
  The heap backing implements a bounded blocking priority queue (C2). For every item type whose \<open>Less\<close> is total and a
  strict weak order, every method of \<open>heap.go\<close> refines the corresponding operation of the abstract queue in
  which a pushed item is placed before the first item that it is strictly less than: items come out by
  priority and, within a priority, in the order of insertion. The claim covers every growth policy, option list
  without error and schedule of interference, as long as the 64-bit sequence counter does not wrap.
\<close>

theorem heap_keeps_contract:
  assumes "lawful_item it lt"
  shows "queue_backing (heap_backing it grow) (heap_inv it lt) (heap_abs it) (priority_place lt) it True heap_fresh"
  by (rule lawful_item.heap_contract [OF assms])

theorem heap_keeps_contract_witness:
  "queue_backing (heap_backing int_item grow2 :: ((number, unit) hbacking, number, unit) backing) (heap_inv int_item Number_Less)
     (heap_abs int_item) (priority_place Number_Less) int_item True heap_fresh"
  using heap_keeps_contract num.lawful_item_axioms by blast

text \<open>Placing by priority is a stable insertion sort.\<close>

context lawful_item
begin

abbreviation tied :: "'a \<Rightarrow> 'a \<Rightarrow> bool" where
  "tied k x \<equiv> \<not> lt x k \<and> \<not> lt k x"

lemma lt_trans_left: "lt x y \<Longrightarrow> \<not> lt z y \<Longrightarrow> lt x z"
  using lt_neg_trans [of x z y] by blast

lemma priority_place_sorted:
  "sorted_wrt (\<lambda>a b. \<not> lt (fst b) (fst a)) xs \<Longrightarrow> sorted_wrt (\<lambda>a b. \<not> lt (fst b) (fst a)) (priority_place lt xs x)"
proof (induction xs)
  case (Cons y ys)
  have "set (priority_place lt ys x) = insert x (set ys)"
    by (metis mset_priority_place set_mset_add_mset_insert set_mset_mset)
  moreover have "\<not> lt (fst z) (fst x)" if "lt (fst x) (fst y)" "z \<in> set ys" for z
    using lt_trans_left [OF that(1), of "fst z"] lt_asym Cons.prems that(2) by auto
  moreover have "lt (fst x) (fst y) \<Longrightarrow> \<not> lt (fst y) (fst x)" by (rule lt_asym)
  ultimately show ?case using Cons by (cases "lt (fst x) (fst y)") simp_all
qed simp

lemma priority_place_stable:
  "sorted_wrt (\<lambda>a b. \<not> lt (fst b) (fst a)) xs \<Longrightarrow>
     filter (\<lambda>a. tied k (fst a)) (priority_place lt xs x) = filter (\<lambda>a. tied k (fst a)) (xs @ [x])"
proof (induction xs)
  case (Cons y ys)
  show ?case
  proof (cases "lt (fst x) (fst y)")
    case True
    have "\<not> tied k (fst z)" if "tied k (fst x)" "z \<in> set (y # ys)" for z
    proof
      assume z: "tied k (fst z)"
      have "z = y \<or> \<not> lt (fst z) (fst y)" using Cons.prems that(2) by auto
      then have "lt (fst x) (fst z)" using True lt_trans_left by blast
      then show False using lt_neg_trans [of "fst x" k "fst z"] that(1) z by blast
    qed
    then have "tied k (fst x) \<Longrightarrow> filter (\<lambda>a. tied k (fst a)) (y # ys) = []" by (simp add: filter_empty_conv)
    then show ?thesis using True by auto
  qed (use Cons in auto)
qed simp

lemma place_all_stable_sort:
  assumes "sorted_wrt (\<lambda>a b. \<not> lt (fst b) (fst a)) xs"
  shows "sorted_wrt (\<lambda>a b. \<not> lt (fst b) (fst a)) (place_all (priority_place lt) xs vs) \<and>
    filter (\<lambda>a. tied k (fst a)) (place_all (priority_place lt) xs vs) =
      filter (\<lambda>a. tied k (fst a)) (xs @ map (\<lambda>v. (v, False)) vs)"
  using assms
proof (induction vs arbitrary: xs)
  case (Cons v vs)
  show ?case
    using Cons.IH [OF priority_place_sorted [OF Cons.prems, of "(v, False)"]] priority_place_stable [OF Cons.prems, of k "(v, False)"]
    by (auto simp: place_all_def)
qed (simp add: place_all_def)

lemma queue_drains_sorted:
  fixes q :: "(('a, 'w) hbacking, 'a, 'w) queue"
  assumes push: "queue_Push (heap_backing it grow) g c vs [] [] (q, w) = (returns (True, None), q1, w1)"
    and pop: "queue_Pop (heap_backing it grow) g' c n [] [] (q1, w1) = (returns (out, None), q2, w2)"
    and start: "heap_inv it lt (q_backing q)" "mh_list (hb_h (q_backing q)) = []" "depth_sync 0 (q_met q)"
    and kind: "ValidateKind it True vs = None" and fresh: "heap_fresh (length vs) (q_backing q)"
    and n: "int (length vs) \<le> n" "1 \<le> n"
  shows "mset out = mset vs \<and> sorted_wrt (\<lambda>a b. \<not> lt b a) out \<and> filter (tied k) out = filter (tied k) vs"
proof -
  have ok: "hp.queue_ok q" using start by simp
  have opts: "ResolveOpOptions CallPush [] = Ret (\<lparr>oo_Call = CallPush, oo_SideEffect = None, oo_OnAdmit = None\<rparr>, None)"
    by (rule no_options) simp
  note p1 = hp.queue_Push_atomic [OF push ok opts _ kind fresh, unfolded opoptions.simps, OF refl]
  have ok1: "hp.queue_ok q1" using p1 by blast
  have i1: "aq_items (heap_abs it (q_backing q1)) = place_all (priority_place lt) [] vs"
    using p1 [THEN conjunct2, THEN conjunct2] start(2) by (simp add: heap_items_def)
  have out: "out = take (nat n) (map fst (aq_items (heap_abs it (q_backing q1))))"
    using hp.queue_Pop_atomic [OF pop ok1 no_options n(2)] by simp
  let ?xs = "place_all (priority_place lt) [] vs"
  have "length ?xs = length vs" using length_place_all [OF placing_priority, of lt "[]" vs] by simp
  then have eq: "out = map fst ?xs" using out n i1 by (simp del: heap_abs_simps)
  note st = place_all_stable_sort [of "[]" vs k, simplified]
  have "mset out = mset vs"
    using arg_cong [OF mset_place_all [OF placing_priority, of lt "[]" vs], of "image_mset fst"]
    by (simp add: eq image_mset.compositionality comp_def)
  moreover have "filter (tied k) out = map fst (filter (\<lambda>a. tied k (fst a)) ?xs)"
    by (simp add: eq filter_map comp_def)
  ultimately show ?thesis
    using st by (auto simp: eq sorted_wrt_map filter_map comp_def)
qed

end

text \<open>
  A priority queue drains in stable priority order (C3). Push a batch onto an empty queue over the heap backing and pop at
  least as many items: what comes out is the batch, sorted so that no item is strictly less than an earlier one,
  and items that are tied keep the order in which they were pushed.
\<close>

theorem heap_queue_drains_sorted:
  assumes "lawful_item it lt"
    and "queue_Push (heap_backing it grow) g c vs [] [] (q, w) = (returns (True, None), q1, w1)"
    and "queue_Pop (heap_backing it grow) g' c n [] [] (q1, w1) = (returns (out, None), q2, w2)"
    and "heap_inv it lt (q_backing q)" and "mh_list (hb_h (q_backing q)) = []" and "depth_sync 0 (q_met q)"
    and "ValidateKind it True vs = None" and "heap_fresh (length vs) (q_backing q)"
    and "int (length vs) \<le> n" and "1 \<le> n"
  shows "mset out = mset vs \<and> sorted_wrt (\<lambda>a b. \<not> lt b a) out \<and>
    filter (\<lambda>x. \<not> lt x k \<and> \<not> lt k x) out = filter (\<lambda>x. \<not> lt x k \<and> \<not> lt k x) vs"
  by (rule lawful_item.queue_drains_sorted [OF assms])

definition heap_queue :: "((number, unit) hbacking, number, unit) queue" where
  "heap_queue = \<lparr>q_backing = heap_New, q_backup = None, q_maxBatch = 1000, q_met = Some newQueueMetrics\<rparr>"

definition batch :: "number list" where
  "batch = [num 1 2, num 2 9, num 3 2, num 4 5, num 5 9]"

definition pushed :: "(bool \<times> goerr option) attempt \<times> ((number, unit) hbacking, number, unit) queue \<times> unit" where
  "pushed = queue_Push (heap_backing int_item grow2) 1 background batch [] [] (heap_queue, ())"

lemma pushed_evaluates: "fst pushed = returns (True, None)"
  by code_simp

lemma drained_evaluates: "fst (queue_Pop (heap_backing int_item grow2) 2 background 9 [] [] (snd pushed)) =
    returns ([num 2 9, num 5 9, num 4 5, num 1 2, num 3 2], None)"
  by code_simp

lemma heap_New_inv: "heap_inv it lt heap_New"
  by (simp add: heap_inv_def heap_core_def heap_New_def heap_good_def mh_new_def mh_shaped_def mh_list_def slice_list_def
      nil_slice_def heap_ordered_def heap_restored_def new_qlock_def lk_ok_def lk_free_def)

theorem heap_queue_drains_sorted_witness:
  "mset [num 2 9, num 5 9, num 4 5, num 1 2, num 3 2] = mset batch \<and>
   filter (\<lambda>x. \<not> Number_Less x (num 0 9) \<and> \<not> Number_Less (num 0 9) x) [num 2 9, num 5 9, num 4 5, num 1 2, num 3 2] =
   filter (\<lambda>x. \<not> Number_Less x (num 0 9) \<and> \<not> Number_Less (num 0 9) x) batch"
proof -
  obtain q1 where q1: "queue_Push (heap_backing int_item grow2) 1 background batch [] [] (heap_queue, ()) = (returns (True, None), q1, ())"
    using unit_result [OF pushed_evaluates] by (auto simp: pushed_def)
  then have snd: "snd pushed = (q1, ())" by (simp add: pushed_def)
  obtain q2 where q2: "queue_Pop (heap_backing int_item grow2) 2 background 9 [] [] (q1, ()) =
      (returns ([num 2 9, num 5 9, num 4 5, num 1 2, num 3 2], None), q2, ())"
    using unit_result [OF drained_evaluates] by (auto simp: snd)
  have kind: "ValidateKind int_item True batch = None"
    by (simp add: batch_def ValidateKindOne_def number_item_def Number_Priority_def num_def)
  have inv: "heap_inv int_item Number_Less (q_backing heap_queue)"
    using heap_New_inv by (simp add: heap_queue_def)
  have start: "mh_list (hb_h (q_backing heap_queue)) = []" "depth_sync 0 (q_met heap_queue)"
    "heap_fresh (length batch) (q_backing heap_queue)" "int (length batch) \<le> 9"
    by (simp_all add: heap_queue_def depth_sync_def newQueueMetrics_def heap_fresh_def batch_def heap_New_def mh_new_def
        mh_list_def slice_list_def nil_slice_def)
  show ?thesis
    using heap_queue_drains_sorted [OF num.lawful_item_axioms q1 q2 inv start(1,2) kind start(3,4), of "num 0 9"] by simp
qed

end
