(* ===== verification/Backing_Options.thy ===== *)
theory Backing_Options
  imports Go_Errors
begin

text \<open>
  \<open>core/backingopts.go\<close>, \<open>backing_options.go\<close> and the constructors of \<open>alias.go\<close>: the options of the backing
  constructors. An option sees the settings accumulated so far, among them which constructor it is
  given to, and answers with new settings or an error. The codec functions and the file opener are
  opaque to this code and are type parameters; the packages that build a backing from validated settings are
  arguments of the constructors.
\<close>

section \<open>Settings\<close>

datatype backingcall =
  UnknownBackingCall | CallBTreeFIFO | CallBTreePriority | CallBboltFIFO | CallBboltPriority

record ('enc, 'dec, 'file) backingopts =
  bs_Call :: backingcall
  bs_Width :: int
  bs_Index :: bool
  bs_BoltNoSync :: bool
  bs_BoltNoFreelistSync :: bool
  bs_BoltNoGrowSync :: bool
  bs_BoltPreLoadFreelist :: bool
  bs_BoltFreelistMap :: bool
  bs_BoltMlock :: bool
  bs_BoltMmapFlags :: int
  bs_BoltInitialMmapSize :: int
  bs_BoltPageSize :: int
  bs_BoltTimeout :: int
  bs_BoltOpenFile :: "'file option"
  bs_CodecEncode :: "'enc option"
  bs_CodecDecode :: "'dec option"

type_synonym ('enc, 'dec, 'file) backingoption =
  "('enc, 'dec, 'file) backingopts \<Rightarrow> ('enc, 'dec, 'file) backingopts \<times> goerr option"

definition backingopts_of :: "backingcall \<Rightarrow> ('enc, 'dec, 'file) backingopts" where
  "backingopts_of call = \<lparr>bs_Call = call, bs_Width = 32, bs_Index = False, bs_BoltNoSync = False,
     bs_BoltNoFreelistSync = False, bs_BoltNoGrowSync = False, bs_BoltPreLoadFreelist = False,
     bs_BoltFreelistMap = False, bs_BoltMlock = False, bs_BoltMmapFlags = 0, bs_BoltInitialMmapSize = 0,
     bs_BoltPageSize = 0, bs_BoltTimeout = 0, bs_BoltOpenFile = None, bs_CodecEncode = None,
     bs_CodecDecode = None\<rparr>"

definition BboltOnly :: "('enc, 'dec, 'file) backingopts \<Rightarrow> goerr option" where
  "BboltOnly o1 =
     (if bs_Call o1 = CallBboltFIFO \<or> bs_Call o1 = CallBboltPriority then None else bad_option)"

fun apply_backing_options :: "('enc, 'dec, 'file) backingoption list \<Rightarrow> ('enc, 'dec, 'file) backingopts \<Rightarrow>
    ('enc, 'dec, 'file) backingopts \<times> goerr option" where
  "apply_backing_options [] o1 = (o1, None)"
| "apply_backing_options (opt # opts) o1 =
     (case opt o1 of
        (o2, Some e) \<Rightarrow> (o2, Some e)
      | (o2, None) \<Rightarrow> apply_backing_options opts o2)"

definition ApplyBackingOptions :: "backingcall \<Rightarrow> ('enc, 'dec, 'file) backingoption list \<Rightarrow>
    (('enc, 'dec, 'file) backingopts \<times> goerr option) outcome" where
  "ApplyBackingOptions call options =
     (if call = UnknownBackingCall then Unwinds
      else Ret (apply_backing_options options (backingopts_of call)))"

section \<open>The options\<close>

definition WithCodec :: "'enc option \<Rightarrow> 'dec option \<Rightarrow> ('enc, 'dec, 'file) backingoption" where
  "WithCodec enc dec o1 =
     (case BboltOnly o1 of Some e \<Rightarrow> (o1, Some e)
      | None \<Rightarrow>
          if enc = None \<or> dec = None then (o1, bad_option)
          else (o1\<lparr>bs_CodecEncode := enc, bs_CodecDecode := dec\<rparr>, None))"

definition WithIndex :: "('enc, 'dec, 'file) backingoption" where
  "WithIndex o1 =
     (if bs_Call o1 = CallBTreeFIFO \<or> bs_Call o1 = CallBTreePriority \<or> bs_Call o1 = CallBboltFIFO \<or>
         bs_Call o1 = CallBboltPriority
      then (o1\<lparr>bs_Index := True\<rparr>, None) else (o1, bad_option))"

definition WithBTreeWidth :: "int \<Rightarrow> ('enc, 'dec, 'file) backingoption" where
  "WithBTreeWidth width o1 =
     (if bs_Call o1 = CallBTreeFIFO \<or> bs_Call o1 = CallBTreePriority
      then (if width < 2 then (o1, bad_option) else (o1\<lparr>bs_Width := width\<rparr>, None))
      else (o1, bad_option))"

text \<open>The shape of the options that are valid for the on-disk backings only.\<close>

definition bbolt_only :: "(('enc, 'dec, 'file) backingopts \<Rightarrow> ('enc, 'dec, 'file) backingopts) \<Rightarrow>
    ('enc, 'dec, 'file) backingoption" where
  "bbolt_only f o1 = (case BboltOnly o1 of Some e \<Rightarrow> (o1, Some e) | None \<Rightarrow> (f o1, None))"

definition WithNoSync :: "('enc, 'dec, 'file) backingoption" where
  "WithNoSync = bbolt_only (\<lambda>o1. o1\<lparr>bs_BoltNoSync := True\<rparr>)"

definition WithNoFreelistSync :: "('enc, 'dec, 'file) backingoption" where
  "WithNoFreelistSync = bbolt_only (\<lambda>o1. o1\<lparr>bs_BoltNoFreelistSync := True\<rparr>)"

definition WithNoGrowSync :: "('enc, 'dec, 'file) backingoption" where
  "WithNoGrowSync = bbolt_only (\<lambda>o1. o1\<lparr>bs_BoltNoGrowSync := True\<rparr>)"

definition WithBoltTimeout :: "int \<Rightarrow> ('enc, 'dec, 'file) backingoption" where
  "WithBoltTimeout d = bbolt_only (\<lambda>o1. o1\<lparr>bs_BoltTimeout := d\<rparr>)"

definition WithBoltPreLoadFreelist :: "('enc, 'dec, 'file) backingoption" where
  "WithBoltPreLoadFreelist = bbolt_only (\<lambda>o1. o1\<lparr>bs_BoltPreLoadFreelist := True\<rparr>)"

definition WithBoltFreelistMap :: "('enc, 'dec, 'file) backingoption" where
  "WithBoltFreelistMap = bbolt_only (\<lambda>o1. o1\<lparr>bs_BoltFreelistMap := True\<rparr>)"

definition WithBoltMlock :: "('enc, 'dec, 'file) backingoption" where
  "WithBoltMlock = bbolt_only (\<lambda>o1. o1\<lparr>bs_BoltMlock := True\<rparr>)"

definition WithBoltMmapFlags :: "int \<Rightarrow> ('enc, 'dec, 'file) backingoption" where
  "WithBoltMmapFlags flags = bbolt_only (\<lambda>o1. o1\<lparr>bs_BoltMmapFlags := flags\<rparr>)"

definition WithBoltInitialMmapSize :: "int \<Rightarrow> ('enc, 'dec, 'file) backingoption" where
  "WithBoltInitialMmapSize bytes = bbolt_only (\<lambda>o1. o1\<lparr>bs_BoltInitialMmapSize := bytes\<rparr>)"

definition WithBoltPageSize :: "int \<Rightarrow> ('enc, 'dec, 'file) backingoption" where
  "WithBoltPageSize bytes = bbolt_only (\<lambda>o1. o1\<lparr>bs_BoltPageSize := bytes\<rparr>)"

definition WithBoltOpenFile :: "'file option \<Rightarrow> ('enc, 'dec, 'file) backingoption" where
  "WithBoltOpenFile fn = bbolt_only (\<lambda>o1. o1\<lparr>bs_BoltOpenFile := fn\<rparr>)"

section \<open>The constructors\<close>

text \<open>\<open>new_positional\<close> and \<open>new_keyed\<close> are \<open>btype.New\<close> and \<open>btree.NewFIFO\<close> or \<open>btree.NewPriority\<close>;
  \<open>open_db\<close> is \<open>bbolt.NewFIFO\<close> or \<open>bbolt.NewPriority\<close>.\<close>

definition NewBTreeFIFO :: "(goerr + 'b) \<Rightarrow> (('enc, 'dec, 'file) backingopts \<Rightarrow> goerr + 'b) \<Rightarrow>
    ('enc, 'dec, 'file) backingoption list \<Rightarrow> (goerr + 'b) outcome" where
  "NewBTreeFIFO new_positional new_keyed options =
     (case ApplyBackingOptions CallBTreeFIFO options of
        Unwinds \<Rightarrow> Unwinds
      | Ret (o1, Some e) \<Rightarrow> Ret (Inl e)
      | Ret (o1, None) \<Rightarrow> if \<not> bs_Index o1 then Ret new_positional else Ret (new_keyed o1))"

definition NewBTreePriority :: "(('enc, 'dec, 'file) backingopts \<Rightarrow> goerr + 'b) \<Rightarrow>
    ('enc, 'dec, 'file) backingoption list \<Rightarrow> (goerr + 'b) outcome" where
  "NewBTreePriority new_keyed options =
     (case ApplyBackingOptions CallBTreePriority options of
        Unwinds \<Rightarrow> Unwinds
      | Ret (o1, Some e) \<Rightarrow> Ret (Inl e)
      | Ret (o1, None) \<Rightarrow> Ret (new_keyed o1))"

text \<open>\<open>requires\<close> says whether the item type has the method \<open>requiresDiskCodec\<close>.\<close>

definition needsCodec :: "bool \<Rightarrow> ('enc, 'dec, 'file) backingopts \<Rightarrow> bool" where
  "needsCodec requires o1 = (requires \<and> bs_CodecEncode o1 = None)"

definition NewBboltFIFO :: "bool \<Rightarrow> (('enc, 'dec, 'file) backingopts \<Rightarrow> goerr + 'b) \<Rightarrow>
    ('enc, 'dec, 'file) backingoption list \<Rightarrow> (goerr + 'b) outcome" where
  "NewBboltFIFO requires open_db options =
     (case ApplyBackingOptions CallBboltFIFO options of
        Unwinds \<Rightarrow> Unwinds
      | Ret (o1, Some e) \<Rightarrow> Ret (Inl e)
      | Ret (o1, None) \<Rightarrow>
          if needsCodec requires o1 then Ret (Inl (Sentinel ErrCodecRequired)) else Ret (open_db o1))"

definition NewBboltPriority :: "bool \<Rightarrow> (('enc, 'dec, 'file) backingopts \<Rightarrow> goerr + 'b) \<Rightarrow>
    ('enc, 'dec, 'file) backingoption list \<Rightarrow> (goerr + 'b) outcome" where
  "NewBboltPriority requires open_db options =
     (case ApplyBackingOptions CallBboltPriority options of
        Unwinds \<Rightarrow> Unwinds
      | Ret (o1, Some e) \<Rightarrow> Ret (Inl e)
      | Ret (o1, None) \<Rightarrow>
          if needsCodec requires o1 then Ret (Inl (Sentinel ErrCodecRequired)) else Ret (open_db o1))"

section \<open>What the constructors receive\<close>

text \<open>The options a caller can name.\<close>

inductive library_option :: "('enc, 'dec, 'file) backingoption \<Rightarrow> bool" where
  "library_option (WithCodec enc dec)"
| "library_option WithIndex"
| "library_option (WithBTreeWidth width)"
| "library_option WithNoSync"
| "library_option WithNoFreelistSync"
| "library_option WithNoGrowSync"
| "library_option (WithBoltTimeout n)"
| "library_option WithBoltPreLoadFreelist"
| "library_option WithBoltFreelistMap"
| "library_option WithBoltMlock"
| "library_option (WithBoltMmapFlags n)"
| "library_option (WithBoltInitialMmapSize n)"
| "library_option (WithBoltPageSize n)"
| "library_option (WithBoltOpenFile fn)"

lemmas option_defs = WithCodec_def WithIndex_def WithBTreeWidth_def WithNoSync_def WithNoFreelistSync_def
  WithNoGrowSync_def WithBoltTimeout_def WithBoltPreLoadFreelist_def WithBoltFreelistMap_def WithBoltMlock_def
  WithBoltMmapFlags_def WithBoltInitialMmapSize_def WithBoltPageSize_def WithBoltOpenFile_def bbolt_only_def
  BboltOnly_def

text \<open>Settings that are consistent with the constructor they are for: the width is usable and only a
  keyed tree has one other than the default, the on-disk settings are untouched for an in-memory tree, and the
  two codec functions come together.\<close>

definition bolt_untouched :: "('enc, 'dec, 'file) backingopts \<Rightarrow> bool" where
  "bolt_untouched o1 =
     (\<not> bs_BoltNoSync o1 \<and> \<not> bs_BoltNoFreelistSync o1 \<and> \<not> bs_BoltNoGrowSync o1 \<and> \<not> bs_BoltPreLoadFreelist o1 \<and>
      \<not> bs_BoltFreelistMap o1 \<and> \<not> bs_BoltMlock o1 \<and> bs_BoltMmapFlags o1 = 0 \<and> bs_BoltInitialMmapSize o1 = 0 \<and>
      bs_BoltPageSize o1 = 0 \<and> bs_BoltTimeout o1 = 0 \<and> bs_BoltOpenFile o1 = None \<and>
      bs_CodecEncode o1 = None \<and> bs_CodecDecode o1 = None)"

definition opts_consistent :: "('enc, 'dec, 'file) backingopts \<Rightarrow> bool" where
  "opts_consistent o1 =
     (2 \<le> bs_Width o1 \<and>
      (bs_Call o1 \<in> {CallBboltFIFO, CallBboltPriority} \<longrightarrow> bs_Width o1 = 32) \<and>
      (bs_Call o1 \<in> {CallBTreeFIFO, CallBTreePriority} \<longrightarrow> bolt_untouched o1) \<and>
      (bs_CodecEncode o1 = None) = (bs_CodecDecode o1 = None))"

lemma consistent_init: "opts_consistent (backingopts_of call)"
  by (simp add: opts_consistent_def bolt_untouched_def backingopts_of_def)

lemma bs_Call_of [simp]: "bs_Call (backingopts_of call) = call"
  by (simp add: backingopts_of_def)

definition keeps_consistent :: "('enc, 'dec, 'file) backingoption \<Rightarrow> bool" where
  "keeps_consistent opt = (\<forall>o1 o2 e. opt o1 = (o2, e) \<and> opts_consistent o1 \<longrightarrow>
     opts_consistent o2 \<and> bs_Call o2 = bs_Call o1 \<and> (e = None \<or> e = bad_option))"

lemma bbolt_only_consistent:
  assumes "\<And>o1. bs_Call (f o1) = bs_Call o1" and "\<And>o1. bs_Width (f o1) = bs_Width o1"
    and "\<And>o1. bs_CodecEncode (f o1) = bs_CodecEncode o1" and "\<And>o1. bs_CodecDecode (f o1) = bs_CodecDecode o1"
  shows "keeps_consistent (bbolt_only f)"
  using assms by (auto simp: keeps_consistent_def bbolt_only_def BboltOnly_def opts_consistent_def split: if_splits)

lemma WithCodec_consistent: "keeps_consistent (WithCodec enc dec)"
  by (auto simp: keeps_consistent_def WithCodec_def BboltOnly_def opts_consistent_def split: if_splits)

lemma WithIndex_consistent: "keeps_consistent WithIndex"
  by (auto simp: keeps_consistent_def WithIndex_def opts_consistent_def bolt_untouched_def split: if_splits)

lemma WithBTreeWidth_consistent: "keeps_consistent (WithBTreeWidth width)"
  by (auto simp: keeps_consistent_def WithBTreeWidth_def opts_consistent_def bolt_untouched_def split: if_splits)

lemma library_option_consistent: "library_option opt \<Longrightarrow> keeps_consistent opt"
  by (induction rule: library_option.induct)
    (simp_all add: WithCodec_consistent WithIndex_consistent WithBTreeWidth_consistent bbolt_only_consistent
      WithNoSync_def WithNoFreelistSync_def WithNoGrowSync_def WithBoltTimeout_def WithBoltPreLoadFreelist_def
      WithBoltFreelistMap_def WithBoltMlock_def WithBoltMmapFlags_def WithBoltInitialMmapSize_def
      WithBoltPageSize_def WithBoltOpenFile_def)

lemma apply_backing_options_consistent:
  assumes "\<forall>opt \<in> set opts. library_option opt" and "apply_backing_options opts o1 = (o2, e)"
    and "opts_consistent o1" and "bs_Call o1 \<noteq> UnknownBackingCall"
  shows "opts_consistent o2 \<and> bs_Call o2 = bs_Call o1 \<and> (e = None \<or> e = bad_option)"
  using assms
proof (induction opts arbitrary: o1)
  case (Cons opt opts)
  obtain o3 e3 where o3: "opt o1 = (o3, e3)" by fastforce
  have step: "opts_consistent o3 \<and> bs_Call o3 = bs_Call o1 \<and> (e3 = None \<or> e3 = bad_option)"
    using library_option_consistent [of opt] o3 Cons.prems by (simp add: keeps_consistent_def)
  then show ?case
    using Cons.IH [of o3] Cons.prems o3 by (cases e3) auto
qed auto

text \<open>
  What reaches a backing package (C38). For every constructor and every list of the library's options: either
  an option is refused, the error answers \<open>errors.Is(err, ErrBadOption)\<close> and is permanent, and no backing
  is built; or the package receives settings for this very constructor, with a width of at least 2, with
  no on-disk setting for an in-memory tree, and with both codec functions or none.
\<close>

theorem backing_options_validated:
  assumes "call \<noteq> UnknownBackingCall" and "\<forall>opt \<in> set options. library_option opt"
  shows "\<exists>o1 e. ApplyBackingOptions call options = Ret (o1, e) \<and> bs_Call o1 = call \<and> opts_consistent o1 \<and>
    (\<forall>err. e = Some err \<longrightarrow> errors_Is err ErrBadOption \<and> errors_Is err ErrPermanent)"
proof -
  obtain o1 e where r: "apply_backing_options options (backingopts_of call) = (o1, e)" by fastforce
  have "opts_consistent o1 \<and> bs_Call o1 = call \<and> (e = None \<or> e = bad_option)"
    using apply_backing_options_consistent [OF assms(2) r consistent_init] assms(1) by simp
  then show ?thesis
    using assms(1) r by (auto simp: ApplyBackingOptions_def sentinel_chain_def)
qed

theorem backing_options_validated_witness:
  "\<exists>o1 e. ApplyBackingOptions CallBTreeFIFO [WithIndex, WithBTreeWidth 1, WithNoSync] =
     Ret (o1 :: (unit, unit, unit) backingopts, e) \<and> bs_Call o1 = CallBTreeFIFO \<and> opts_consistent o1 \<and> e \<noteq> None"
proof -
  let ?opts = "[WithIndex, WithBTreeWidth 1, WithNoSync] :: (unit, unit, unit) backingoption list"
  have "\<forall>opt \<in> set ?opts. library_option opt" by (simp add: library_option.intros)
  moreover have "ApplyBackingOptions CallBTreeFIFO ?opts = Ret ((backingopts_of CallBTreeFIFO)\<lparr>bs_Index := True\<rparr>, bad_option)"
    by (simp add: ApplyBackingOptions_def option_defs)
  ultimately show ?thesis
    using backing_options_validated [of CallBTreeFIFO ?opts] by auto
qed

lemma option_keeps_index:
  assumes "library_option opt" and "opt o1 = (o2, None)"
  shows "bs_Index o2 = (bs_Index o1 \<or> opt = WithIndex)"
proof -
  have ne: "opt = WithIndex \<Longrightarrow> bs_Index o2" using assms(2) by (auto simp: WithIndex_def split: if_splits)
  have "opt \<noteq> WithIndex \<Longrightarrow> bs_Index o2 = bs_Index o1"
    using assms by (cases rule: library_option.cases) (auto simp: option_defs split: if_splits)
  then show ?thesis using ne by auto
qed

lemma apply_index:
  assumes "\<forall>opt \<in> set opts. library_option opt" and "apply_backing_options opts o1 = (o2, None)"
  shows "bs_Index o2 = (bs_Index o1 \<or> WithIndex \<in> set opts)"
  using assms
proof (induction opts arbitrary: o1)
  case (Cons opt opts)
  obtain o3 e3 where o3: "opt o1 = (o3, e3)" by fastforce
  then have "e3 = None" using Cons.prems by (cases e3) auto
  then show ?case
    using Cons.IH [of o3] Cons.prems o3 option_keeps_index [of opt o1 o3] by auto
qed auto

text \<open>
  The positional and the keyed tree (C39). \<open>NewBTreeFIFO\<close> builds the positional tree exactly when no
  \<open>WithIndex\<close> is among its options, and then every width option was still checked; with \<open>WithIndex\<close> it
  builds the keyed tree from settings that ask for an index.
\<close>

theorem btree_fifo_choice:
  assumes "\<forall>opt \<in> set options. library_option opt"
  shows "(\<exists>e. NewBTreeFIFO new_positional new_keyed options = Ret (Inl e) \<and> errors_Is e ErrBadOption) \<or>
    (if WithIndex \<in> set options
     then \<exists>o1. opts_consistent o1 \<and> bs_Index o1 \<and> NewBTreeFIFO new_positional new_keyed options = Ret (new_keyed o1)
     else NewBTreeFIFO new_positional new_keyed options = Ret new_positional)"
proof -
  obtain o1 e where r: "apply_backing_options options (backingopts_of CallBTreeFIFO) = (o1, e)" by fastforce
  have cons: "opts_consistent o1 \<and> (e = None \<or> e = bad_option)"
    using apply_backing_options_consistent [OF assms r consistent_init] by simp
  show ?thesis
  proof (cases e)
    case None
    then have "bs_Index o1 = (WithIndex \<in> set options)"
      using apply_index [OF assms, of "backingopts_of CallBTreeFIFO" o1] r by (simp add: backingopts_of_def)
    then show ?thesis using None r cons by (auto simp: NewBTreeFIFO_def ApplyBackingOptions_def)
  next
    case (Some err)
    then show ?thesis using r cons by (auto simp: NewBTreeFIFO_def ApplyBackingOptions_def sentinel_chain_def)
  qed
qed

theorem btree_fifo_choice_witness:
  "NewBTreeFIFO (Inr False) (\<lambda>o1 :: (unit, unit, unit) backingopts. Inr (bs_Index o1)) [WithBTreeWidth 8, WithIndex] = Ret (Inr True)"
proof -
  let ?opts = "[WithBTreeWidth 8, WithIndex] :: (unit, unit, unit) backingoption list"
  have "\<forall>opt \<in> set ?opts. library_option opt" by (simp add: library_option.intros)
  moreover have "WithIndex \<in> set ?opts" by simp
  moreover have "\<not> (\<exists>e. NewBTreeFIFO (Inr False) (\<lambda>o1. Inr (bs_Index o1)) ?opts = Ret (Inl e))"
    by (simp add: NewBTreeFIFO_def ApplyBackingOptions_def option_defs)
  ultimately show ?thesis
    using btree_fifo_choice [of ?opts "Inr False" "\<lambda>o1. Inr (bs_Index o1)"] by auto
qed

end
