(* ===== verification/Parking.thy ===== *)
theory Parking
  imports Go_Prelude
begin

text \<open>
  \<open>internal/parker/parker.go\<close>: the broadcast wake primitive on top of the runtime's
  \<open>gopark\<close> and \<open>goready\<close>, at the granularity of its atomic instructions, together with
  the way \<open>Signal.Wait\<close> uses it (arm a context callback, park, then release or detach).

  One \<open>Waiter\<close> is modelled; a parker is a number and so is the goroutine that owns it while it is
  registered. The steps are the critical sections under the waiter's mutex, the compare-and-swap
  of \<open>parkerUnlockf\<close>, and the atomic swap of \<open>Wake\<close> and of each iteration of
  \<open>Broadcast\<close>. \<open>goready\<close> is a step of its own only through its effect: it may be called
  for a goroutine that is descheduled, and \<open>ps_fault\<close> records any other call (the runtime
  throws on it).
\<close>

section \<open>State\<close>

datatype parkst = parkInit | parkParked | parkWoken

text \<open>Where the goroutine that owns a parker is.\<close>

datatype gpc =
    GFree       \<comment> \<open>the parker is in the pool\<close>
  | GReg        \<comment> \<open>\<open>Register\<close> returned, \<open>Park\<close> not called yet\<close>
  | GBlocked    \<comment> \<open>descheduled: \<open>parkerUnlockf\<close> returned true\<close>
  | GResumed    \<comment> \<open>\<open>Park\<close> returned\<close>
  | GGarbage    \<comment> \<open>detached: never handed out again\<close>

text \<open>The \<open>context.AfterFunc\<close> callback that runs \<open>Wake\<close>.\<close>

datatype cbst = CbNone | CbArmed | CbStarted | CbRan | CbStopped

record psys =
  ps_state :: "nat \<Rightarrow> parkst"
  ps_gpc :: "nat \<Rightarrow> gpc"
  ps_cb :: "nat \<Rightarrow> cbst"
  ps_list :: "nat list"    \<comment> \<open>\<open>Waiter.parkers\<close>\<close>
  ps_pool :: "nat list"    \<comment> \<open>parkers a running \<open>Broadcast\<close> has taken and not yet swapped\<close>
  ps_fault :: bool

definition psys_init :: psys where
  "psys_init = \<lparr>ps_state = (\<lambda>_. parkInit), ps_gpc = (\<lambda>_. GFree), ps_cb = (\<lambda>_. CbNone),
     ps_list = [], ps_pool = [], ps_fault = False\<rparr>"

section \<open>Operations\<close>

definition Register :: "nat \<Rightarrow> psys \<Rightarrow> psys" where
  "Register p s = s\<lparr>ps_gpc := (ps_gpc s)(p := GReg), ps_list := ps_list s @ [p]\<rparr>"

text \<open>\<open>Park\<close>: the runtime moves the goroutine to the waiting state and runs
  \<open>parkerUnlockf\<close>; if its compare-and-swap fails the park is aborted.\<close>

definition Park :: "nat \<Rightarrow> psys \<Rightarrow> psys" where
  "Park p s =
     (if ps_state s p = parkInit
      then s\<lparr>ps_state := (ps_state s)(p := parkParked), ps_gpc := (ps_gpc s)(p := GBlocked)\<rparr>
      else s\<lparr>ps_gpc := (ps_gpc s)(p := GResumed)\<rparr>)"

definition goready :: "nat \<Rightarrow> psys \<Rightarrow> psys" where
  "goready p s =
     (if ps_gpc s p = GBlocked then s\<lparr>ps_gpc := (ps_gpc s)(p := GResumed)\<rparr>
      else s\<lparr>ps_fault := True\<rparr>)"

text \<open>\<open>Wake\<close>, and the body of the loop of \<open>Broadcast\<close>.\<close>

definition Wake :: "nat \<Rightarrow> psys \<Rightarrow> psys" where
  "Wake p s =
     (let s1 = s\<lparr>ps_state := (ps_state s)(p := parkWoken)\<rparr> in
      if ps_state s p = parkParked then goready p s1 else s1)"

text \<open>\<open>Broadcast\<close> takes the list under the mutex and then wakes its members one by one.\<close>

definition Broadcast_take :: "psys \<Rightarrow> psys" where
  "Broadcast_take s = s\<lparr>ps_list := [], ps_pool := ps_pool s @ ps_list s\<rparr>"

definition Broadcast_wake :: "nat \<Rightarrow> psys \<Rightarrow> psys" where
  "Broadcast_wake p s = Wake p (s\<lparr>ps_pool := remove1 p (ps_pool s)\<rparr>)"

fun Broadcast_run :: "nat list \<Rightarrow> psys \<Rightarrow> psys" where
  "Broadcast_run [] s = s"
| "Broadcast_run (p # ps) s = Broadcast_run ps (Broadcast_wake p s)"

definition Broadcast :: "psys \<Rightarrow> psys" where
  "Broadcast s = Broadcast_run (ps_list s) (Broadcast_take s)"

definition Reset :: "nat \<Rightarrow> psys \<Rightarrow> psys" where
  "Reset p s = s\<lparr>ps_state := (ps_state s)(p := parkInit), ps_cb := (ps_cb s)(p := CbNone)\<rparr>"

definition Detach :: "nat \<Rightarrow> psys \<Rightarrow> psys" where
  "Detach p s = s\<lparr>ps_list := remove1 p (ps_list s), ps_gpc := (ps_gpc s)(p := GGarbage)\<rparr>"

definition Release :: "nat \<Rightarrow> psys \<Rightarrow> psys" where
  "Release p s =
     Reset p (s\<lparr>ps_list := remove1 p (ps_list s), ps_gpc := (ps_gpc s)(p := GFree)\<rparr>)"

section \<open>Steps\<close>

inductive pstep :: "psys \<Rightarrow> psys \<Rightarrow> bool" where
  p_register: "ps_gpc s p = GFree \<Longrightarrow> pstep s (Register p s)"
| p_arm: "ps_gpc s p = GReg \<Longrightarrow> ps_cb s p = CbNone \<Longrightarrow>
     pstep s (s\<lparr>ps_cb := (ps_cb s)(p := CbArmed)\<rparr>)"
| p_park: "ps_gpc s p = GReg \<Longrightarrow> pstep s (Park p s)"
| p_cancel: "ps_cb s p = CbArmed \<Longrightarrow> pstep s (s\<lparr>ps_cb := (ps_cb s)(p := CbStarted)\<rparr>)"
| p_callback: "ps_cb s p = CbStarted \<Longrightarrow>
     pstep s (Wake p (s\<lparr>ps_cb := (ps_cb s)(p := CbRan)\<rparr>))"
| p_take: "pstep s (Broadcast_take s)"
| p_wake: "p \<in> set (ps_pool s) \<Longrightarrow> pstep s (Broadcast_wake p s)"
| p_release: "ps_gpc s p = GResumed \<Longrightarrow> ps_cb s p \<in> {CbNone, CbArmed} \<Longrightarrow>
     pstep s (Release p s)"
| p_detach: "ps_gpc s p = GResumed \<Longrightarrow> ps_cb s p \<in> {CbStarted, CbRan} \<Longrightarrow>
     pstep s (Detach p s)"

inductive preach :: "psys \<Rightarrow> bool" where
  pr_init: "preach psys_init"
| pr_step: "preach s \<Longrightarrow> pstep s s' \<Longrightarrow> preach s'"

section \<open>Invariant\<close>

text \<open>
  What holds of one parker, from where its owner is, its state word, its callback, and whether the
  waiter's list or a running broadcast still names it. A descheduled goroutine is one whose parker
  is in the parked state and is still named; a parker in the pool is in its initial state and named
  by nobody.
\<close>

fun pk_ok :: "gpc \<Rightarrow> parkst \<Rightarrow> cbst \<Rightarrow> bool \<Rightarrow> bool" where
  "pk_ok GFree st cb named = (st = parkInit \<and> cb = CbNone \<and> \<not> named)"
| "pk_ok GReg st cb named =
     (st \<noteq> parkParked \<and> (st = parkInit \<longrightarrow> named \<and> cb \<noteq> CbRan) \<and>
      (st = parkWoken \<and> cb \<noteq> CbRan \<longrightarrow> \<not> named))"
| "pk_ok GBlocked st cb named = (st = parkParked \<and> named \<and> cb \<noteq> CbRan)"
| "pk_ok GResumed st cb named = (st = parkWoken \<and> (cb \<noteq> CbRan \<longrightarrow> \<not> named))"
| "pk_ok GGarbage st cb named = (st = parkWoken)"

definition named :: "psys \<Rightarrow> nat \<Rightarrow> bool" where
  "named s p = (p \<in> set (ps_list s) \<or> p \<in> set (ps_pool s))"

definition pinv :: "psys \<Rightarrow> bool" where
  "pinv s =
     (\<not> ps_fault s \<and> distinct (ps_list s @ ps_pool s) \<and>
      (\<forall>p. pk_ok (ps_gpc s p) (ps_state s p) (ps_cb s p) (named s p)))"

lemmas park_defs = Register_def Park_def goready_def Wake_def Broadcast_take_def
  Broadcast_wake_def Reset_def Detach_def Release_def named_def Let_def

lemma pinvD:
  "pinv s \<Longrightarrow> pk_ok (ps_gpc s p) (ps_state s p) (ps_cb s p) (named s p)"
  by (simp add: pinv_def)

lemma pinv_init: "pinv psys_init"
  by (simp add: pinv_def psys_init_def named_def)

lemma pstep_pinv:
  assumes "pstep s s'" and inv: "pinv s"
  shows "pinv s'"
  using assms(1)
proof (cases rule: pstep.cases)
  case (p_register p)
  then show ?thesis using inv pinvD [OF inv, of p] by (auto simp: pinv_def park_defs)
next
  case (p_park p)
  then show ?thesis using inv pinvD [OF inv, of p]
    by (cases "ps_state s p") (auto simp: pinv_def park_defs)
next
  case (p_arm p)
  then show ?thesis using inv pinvD [OF inv, of p] by (auto simp: pinv_def park_defs)
next
  case (p_cancel p)
  then show ?thesis using inv pinvD [OF inv, of p]
    by (cases "ps_gpc s p") (auto simp: pinv_def park_defs)
next
  case (p_callback p)
  then show ?thesis using inv pinvD [OF inv, of p]
    by (cases "ps_gpc s p") (auto simp: pinv_def park_defs)
next
  case p_take
  then show ?thesis using inv by (auto simp: pinv_def park_defs disj_commute)
next
  case (p_wake p)
  then show ?thesis using inv pinvD [OF inv, of p]
    by (cases "ps_gpc s p") (auto simp: pinv_def park_defs)
next
  case (p_release p)
  then show ?thesis using inv pinvD [OF inv, of p] by (auto simp: pinv_def park_defs)
next
  case (p_detach p)
  then show ?thesis using inv pinvD [OF inv, of p] by (auto simp: pinv_def park_defs)
qed

lemma preach_pinv: "preach s \<Longrightarrow> pinv s"
  by (induction rule: preach.induct) (auto intro: pinv_init pstep_pinv)

section \<open>Properties\<close>

text \<open>
  Wake safety of the parking primitive (C27). In every state reachable by any interleaving of
  registrations, parks, broadcasts, context callbacks, releases and detaches: \<open>goready\<close> has never
  been called for a goroutine that was not descheduled; every descheduled goroutine is still named
  by the waiter's list or by a running broadcast, so a wake is still owed to it; and a parker that
  the pool can hand out is in its initial state and named by no list and no broadcast, so no stale
  wake can reach its next owner.
\<close>

theorem parker_wake_safety:
  assumes "preach s"
  shows "\<not> ps_fault s \<and>
    (\<forall>p. ps_gpc s p = GBlocked \<longrightarrow> ps_state s p = parkParked \<and> p \<in> set (ps_list s) \<union> set (ps_pool s)) \<and>
    (\<forall>p. ps_gpc s p = GFree \<longrightarrow> ps_state s p = parkInit \<and> p \<notin> set (ps_list s) \<union> set (ps_pool s))"
proof -
  have inv: "pinv s" using assms by (rule preach_pinv)
  have blocked: "ps_gpc s p = GBlocked \<Longrightarrow>
      ps_state s p = parkParked \<and> p \<in> set (ps_list s) \<union> set (ps_pool s)" for p
    using pinvD [OF inv, of p] by (simp add: named_def)
  have free: "ps_gpc s p = GFree \<Longrightarrow>
      ps_state s p = parkInit \<and> p \<notin> set (ps_list s) \<union> set (ps_pool s)" for p
    using pinvD [OF inv, of p] by (simp add: named_def)
  show ?thesis using inv blocked free by (simp add: pinv_def)
qed

lemma preach_blocked_example:
  "preach (Park 0 (Register 0 psys_init))"
  by (intro pr_step [OF pr_step [OF pr_init p_register [of _ 0]] p_park [of _ 0]])
    (simp_all add: psys_init_def Register_def)

theorem parker_wake_safety_witness:
  "ps_gpc (Park 0 (Register 0 psys_init)) 0 = GBlocked \<and>
   0 \<in> set (ps_list (Park 0 (Register 0 psys_init)))"
  using parker_wake_safety [OF preach_blocked_example]
  by (simp add: psys_init_def Register_def Park_def)

lemma Wake_frame:
  "ps_list (Broadcast_wake p s) = ps_list s"
  "q \<noteq> p \<Longrightarrow> ps_gpc (Broadcast_wake p s) q = ps_gpc s q"
  "q \<noteq> p \<Longrightarrow> ps_state (Broadcast_wake p s) q = ps_state s q"
  "ps_state (Broadcast_wake p s) p = parkWoken"
  by (simp_all add: park_defs)

lemma Wake_unblocks:
  "pinv s \<Longrightarrow> p \<in> set (ps_pool s) \<Longrightarrow> ps_gpc (Broadcast_wake p s) p \<noteq> GBlocked"
  using pinvD [of s p] by (cases "ps_gpc s p") (auto simp: park_defs)

lemma Broadcast_run_inv:
  assumes "pinv s" and "ps_pool s = ps" and "ps_list s = []"
  shows "pinv (Broadcast_run ps s) \<and> ps_pool (Broadcast_run ps s) = [] \<and>
    ps_list (Broadcast_run ps s) = []"
  using assms
proof (induction ps arbitrary: s)
  case (Cons p ps)
  have "pinv (Broadcast_wake p s)"
    using Cons.prems pstep_pinv [OF p_wake] by simp
  moreover have "ps_pool (Broadcast_wake p s) = ps" using Cons.prems by (simp add: park_defs)
  ultimately show ?case using Cons.IH Cons.prems by (simp add: Wake_frame)
qed simp



end
