(* ===== verification/CBWFQ.thy ===== *)
theory CBWFQ
  imports Queue_API
begin

text \<open>
  \<open>cbwfq/cbwfq.go\<close>, \<open>cbwfq/signal.go\<close> and \<open>cbwfq/metrics.go\<close>: the scheduler that spreads items over a fixed
  set of class queues and serves them by strict priority and deficit weighted round robin.

  The pointers to class states are indices into the list of class states. The class queues are queues of the
  package \<open>queue\<close> over one set of backing methods; a scheduler over queues of several backings is
  the case where the state type of the backing is their sum. No two classes share a queue. Go ranges over the map
  of classes in an unspecified order, which is an argument of \<open>Close\<close>.

  The scheduler is proved correct against the interface \<open>class_queue\<close>: what it relies on of a queue.
\<close>

section \<open>Data\<close>

record ('s, 'a, 'w) Class =
  cl_Name :: string
  cl_Weight :: int
  cl_Queue :: "('s, 'a, 'w) queue option"   \<comment> \<open>\<open>None\<close> is a nil pointer\<close>
  cl_Default :: bool
  cl_Priority :: bool

record ('s, 'a, 'w) classState =
  cs_name :: string
  cs_weight :: int
  cs_queue :: "('s, 'a, 'w) queue"
  cs_priority :: bool
  cs_deficit :: int
  cs_lastDepth :: int

datatype sop = SchedPush | SchedPull | SchedClose

text \<open>What has been added to the instruments; \<open>sm_spans\<close> counts the spans not yet ended and the depth
  counter has one series per class.\<close>

record schedMetrics =
  sm_ops :: "sop \<Rightarrow> nat"
  sm_errs :: "sop \<Rightarrow> nat"
  sm_latency :: "sop \<Rightarrow> nat"
  sm_depth :: "string \<Rightarrow> int"
  sm_spans :: int

definition newSchedMetrics :: schedMetrics where
  "newSchedMetrics = \<lparr>sm_ops = (\<lambda>_. 0), sm_errs = (\<lambda>_. 0), sm_latency = (\<lambda>_. 0), sm_depth = (\<lambda>_. 0), sm_spans = 0\<rparr>"

text \<open>\<open>cb_mu\<close> says whether the mutex is held. A classifier may panic (\<open>None\<close>).\<close>

record ('s, 'a, 'w) CBWFQ =
  cb_mu :: bool
  cb_classifier :: "'a \<Rightarrow> string option"
  cb_classes :: "('s, 'a, 'w) classState list"
  cb_byName :: "string \<rightharpoonup> nat"
  cb_weighted :: "nat list"
  cb_cursor :: nat
  cb_priority :: "nat option"
  cb_def :: "nat option"
  cb_pending :: int
  cb_closed :: bool
  cb_sig :: signal
  cb_met :: "schedMetrics option"

text \<open>How far a call got: it is over, it is parked on a signal (the scheduler's, or that of a full class
  queue), or it is blocked in \<open>mu.Lock\<close> or in a class queue while it holds the mutex.\<close>

datatype 'r progress = Finished "'r outcome" | Waiting | Stuck

section \<open>Construction\<close>

text \<open>One class: the checks of the loop body in their order, then the entry.\<close>

definition New_class :: "('s, 'a, 'w) backing \<Rightarrow> ('s, 'a, 'w) Class \<Rightarrow>
    ('s, 'a, 'w) CBWFQ \<times> int \<times> int \<times> int \<Rightarrow> goerr + ('s, 'a, 'w) CBWFQ \<times> int \<times> int \<times> int" where
  "New_class ops c acc =
     (case acc of (s, defaults, priorities, tot) \<Rightarrow>
       if cl_Name c = '''' then Inl (Errorf [])
       else if cb_byName s (cl_Name c) \<noteq> None then Inl (Errorf [])
       else (case cl_Queue c of
               None \<Rightarrow> Inl (Errorf [])
             | Some q \<Rightarrow>
                 if \<not> cl_Priority c \<and> cl_Weight c < 1 then Inl (Errorf [])
                 else
                   (case queue_Len ops q of (len, q1) \<Rightarrow>
                      (let i = length (cb_classes s);
                           cs = \<lparr>cs_name = cl_Name c, cs_weight = cl_Weight c, cs_queue = q1,
                                 cs_priority = cl_Priority c, cs_deficit = 0, cs_lastDepth = 0\<rparr>;
                           s1 = s\<lparr>cb_classes := cb_classes s @ [cs], cb_byName := (cb_byName s)(cl_Name c \<mapsto> i)\<rparr>;
                           s2 = (if cl_Priority c then s1\<lparr>cb_priority := Some i\<rparr>
                                 else s1\<lparr>cb_weighted := cb_weighted s1 @ [i]\<rparr>);
                           s3 = (if cl_Default c then s2\<lparr>cb_def := Some i\<rparr> else s2)
                       in Inr (s3, defaults + (if cl_Default c then 1 else 0),
                               priorities + (if cl_Priority c then 1 else 0), tot + len)))))"

fun New_classes :: "('s, 'a, 'w) backing \<Rightarrow> ('s, 'a, 'w) Class list \<Rightarrow>
    ('s, 'a, 'w) CBWFQ \<times> int \<times> int \<times> int \<Rightarrow> goerr + ('s, 'a, 'w) CBWFQ \<times> int \<times> int \<times> int" where
  "New_classes ops [] acc = Inr acc"
| "New_classes ops (c # cs) acc =
     (case New_class ops c acc of Inl e \<Rightarrow> Inl e | Inr acc1 \<Rightarrow> New_classes ops cs acc1)"

definition cbwfq_New :: "('s, 'a, 'w) backing \<Rightarrow> bool \<Rightarrow> ('a \<Rightarrow> string option) option \<Rightarrow>
    ('s, 'a, 'w) Class list \<Rightarrow> goerr + ('s, 'a, 'w) CBWFQ" where
  "cbwfq_New ops named classifier classes =
     (case classifier of
        None \<Rightarrow> Inl (Errorf [])
      | Some f \<Rightarrow>
          if classes = [] then Inl (Errorf [])
          else
            (let s = \<lparr>cb_mu = False, cb_classifier = f, cb_classes = [], cb_byName = Map.empty, cb_weighted = [],
                      cb_cursor = 0, cb_priority = None, cb_def = None, cb_pending = 0, cb_closed = False,
                      cb_sig = NewSignal, cb_met = None\<rparr>
             in case New_classes ops classes (s, 0, 0, 0) of
                  Inl e \<Rightarrow> Inl e
                | Inr (s1, defaults, priorities, tot) \<Rightarrow>
                    if defaults = 0 then Inl (Errorf [])
                    else if defaults > 1 then Inl (Errorf [])
                    else if priorities > 1 then Inl (Errorf [])
                    else Inr (s1\<lparr>cb_pending := tot,
                                 cb_met := (if named then Some newSchedMetrics else None)\<rparr>)))"

section \<open>Telemetry\<close>

definition sched_instrument :: "sop \<Rightarrow> schedMetrics option \<Rightarrow> schedMetrics option" where
  "sched_instrument op met =
     (case met of None \<Rightarrow> None
      | Some m \<Rightarrow> Some (m\<lparr>sm_spans := sm_spans m + 1, sm_ops := (sm_ops m)(op := sm_ops m op + 1)\<rparr>))"

text \<open>The function \<open>instrument\<close> returns, called deferred with the address of the named error. When the
  call is unwound that error is still nil.\<close>

definition sched_done :: "sop \<Rightarrow> goerr option \<Rightarrow> schedMetrics option \<Rightarrow> schedMetrics option" where
  "sched_done op err met =
     (case met of None \<Rightarrow> None
      | Some m \<Rightarrow>
          (let m1 = m\<lparr>sm_latency := (sm_latency m)(op := sm_latency m op + 1)\<rparr>;
               m2 = (if err \<noteq> None then m1\<lparr>sm_errs := (sm_errs m1)(op := sm_errs m1 op + 1)\<rparr> else m1)
           in Some (m2\<lparr>sm_spans := sm_spans m2 - 1\<rparr>)))"

definition sched_bracket :: "sop \<Rightarrow> ('r \<Rightarrow> goerr option) \<Rightarrow>
    (('s, 'a, 'w) CBWFQ \<times> 'w \<Rightarrow> 'r progress \<times> ('s, 'a, 'w) CBWFQ \<times> 'w) \<Rightarrow>
    ('s, 'a, 'w) CBWFQ \<times> 'w \<Rightarrow> 'r progress \<times> ('s, 'a, 'w) CBWFQ \<times> 'w" where
  "sched_bracket op err body sw =
     (case sw of (s, w) \<Rightarrow>
       (case body (s\<lparr>cb_met := sched_instrument op (cb_met s)\<rparr>, w) of
          (Finished r, s1, w1) \<Rightarrow>
            (Finished r, s1\<lparr>cb_met := sched_done op (case r of Ret x \<Rightarrow> err x | Unwinds \<Rightarrow> None) (cb_met s1)\<rparr>, w1)
        | (p, s1, w1) \<Rightarrow> (p, s1, w1)))"

section \<open>Class queues\<close>

abbreviation class_of :: "('s, 'a, 'w) CBWFQ \<Rightarrow> nat \<Rightarrow> ('s, 'a, 'w) classState" where
  "class_of s i \<equiv> cb_classes s ! i"

definition upd_class :: "nat \<Rightarrow> (('s, 'a, 'w) classState \<Rightarrow> ('s, 'a, 'w) classState) \<Rightarrow> ('s, 'a, 'w) CBWFQ \<Rightarrow>
    ('s, 'a, 'w) CBWFQ" where
  "upd_class i f s = s\<lparr>cb_classes := (cb_classes s)[i := f (class_of s i)]\<rparr>"

abbreviation set_queue :: "nat \<Rightarrow> ('s, 'a, 'w) queue \<Rightarrow> ('s, 'a, 'w) CBWFQ \<Rightarrow> ('s, 'a, 'w) CBWFQ" where
  "set_queue i q \<equiv> upd_class i (\<lambda>cs. cs\<lparr>cs_queue := q\<rparr>)"

abbreviation set_deficit :: "nat \<Rightarrow> int \<Rightarrow> ('s, 'a, 'w) CBWFQ \<Rightarrow> ('s, 'a, 'w) CBWFQ" where
  "set_deficit i d \<equiv> upd_class i (\<lambda>cs. cs\<lparr>cs_deficit := d\<rparr>)"

text \<open>\<open>cs.queue.Len()\<close>\<close>

definition class_Len :: "('s, 'a, 'w) backing \<Rightarrow> nat \<Rightarrow> ('s, 'a, 'w) CBWFQ \<Rightarrow> int \<times> ('s, 'a, 'w) CBWFQ" where
  "class_Len ops i s = (case queue_Len ops (cs_queue (class_of s i)) of (n, q) \<Rightarrow> (n, set_queue i q s))"

definition sched_recordDepth :: "('s, 'a, 'w) backing \<Rightarrow> nat \<Rightarrow> ('s, 'a, 'w) CBWFQ \<Rightarrow> ('s, 'a, 'w) CBWFQ" where
  "sched_recordDepth ops i s =
     (case cb_met s of None \<Rightarrow> s
      | Some m \<Rightarrow>
          (case class_Len ops i s of (cur, s1) \<Rightarrow>
             (let old = cs_lastDepth (class_of s1 i);
                  s2 = upd_class i (\<lambda>cs. cs\<lparr>cs_lastDepth := cur\<rparr>) s1;
                  nm = cs_name (class_of s1 i)
              in s2\<lparr>cb_met := Some (m\<lparr>sm_depth := (sm_depth m)(nm := sm_depth m nm + (cur - old))\<rparr>)\<rparr>)))"

section \<open>Push\<close>

text \<open>Up to the return of the class queue's \<open>Push\<close>: \<open>Inl\<close> when the call ends or waits there, and otherwise the
  class that took the item.\<close>

definition Push_enqueue :: "('s, 'a, 'w) backing \<Rightarrow> nat \<Rightarrow> 'w ctx \<Rightarrow> 'a \<Rightarrow> ('s, 'w) opoption list \<Rightarrow>
    ('s \<times> 'w \<Rightarrow> 's \<times> 'w) list \<Rightarrow> ('s, 'a, 'w) CBWFQ \<times> 'w \<Rightarrow>
    (goerr option progress + nat \<times> goerr option) \<times> ('s, 'a, 'w) CBWFQ \<times> 'w" where
  "Push_enqueue ops g c item options env sw =
     (case sw of (s, w) \<Rightarrow>
       (case cb_classifier s item of
          None \<Rightarrow> (Inl (Finished Unwinds), s, w)
        | Some nm \<Rightarrow>
            (case (case cb_byName s nm of Some i \<Rightarrow> Some i | None \<Rightarrow> cb_def s) of
               None \<Rightarrow> (Inl (Finished Unwinds), s, w)
             | Some i \<Rightarrow>
                 (case queue_Push ops g c [item] options env (cs_queue (class_of s i), w) of
                    (Done (Ret (True, err)), q, w1) \<Rightarrow> (Inr (i, err), set_queue i q s, w1)
                  | (Done (Ret (False, err)), q, w1) \<Rightarrow> (Inl (Finished (Ret err)), set_queue i q s, w1)
                  | (Done Unwinds, q, w1) \<Rightarrow> (Inl (Finished Unwinds), set_queue i q s, w1)
                  | (Parked, q, w1) \<Rightarrow> (Inl Waiting, set_queue i q s, w1)))))"

text \<open>The critical section that follows.\<close>

definition Push_commit :: "('s, 'a, 'w) backing \<Rightarrow> nat \<Rightarrow> goerr option \<Rightarrow> ('s, 'a, 'w) CBWFQ \<times> 'w \<Rightarrow>
    goerr option progress \<times> ('s, 'a, 'w) CBWFQ \<times> 'w" where
  "Push_commit ops i err sw =
     (case sw of (s, w) \<Rightarrow>
       if cb_mu s then (Stuck, s, w)
       else
         (let s1 = s\<lparr>cb_mu := True\<rparr>;
              s2 = s1\<lparr>cb_pending := cb_pending s1 + 1\<rparr>;
              s3 = sched_recordDepth ops i s2;
              s4 = s3\<lparr>cb_sig := signal_gated (cb_sig s3)\<rparr>
          in (Finished (Ret err), s4\<lparr>cb_mu := False\<rparr>, w)))"

text \<open>\<open>env\<close> is what the rest of the program does to the class queue while the call is parked in it, and
  \<open>mid\<close> what it does between the two sections.\<close>

definition cbwfq_Push :: "('s, 'a, 'w) backing \<Rightarrow> nat \<Rightarrow> 'w ctx \<Rightarrow> 'a \<Rightarrow> ('s, 'w) opoption list \<Rightarrow>
    ('s \<times> 'w \<Rightarrow> 's \<times> 'w) list \<Rightarrow> (('s, 'a, 'w) CBWFQ \<times> 'w \<Rightarrow> ('s, 'a, 'w) CBWFQ \<times> 'w) \<Rightarrow>
    ('s, 'a, 'w) CBWFQ \<times> 'w \<Rightarrow> goerr option progress \<times> ('s, 'a, 'w) CBWFQ \<times> 'w" where
  "cbwfq_Push ops g c item options env mid = sched_bracket SchedPush id (\<lambda>sw.
     case Push_enqueue ops g c item options env sw of
       (Inl p, sw1) \<Rightarrow> (p, sw1)
     | (Inr (i, err), sw1) \<Rightarrow> Push_commit ops i err (mid sw1))"

section \<open>Pull\<close>

definition advance :: "('s, 'a, 'w) CBWFQ \<Rightarrow> ('s, 'a, 'w) CBWFQ" where
  "advance s = s\<lparr>cb_cursor := (cb_cursor s + 1) mod length (cb_weighted s)\<rparr>"

text \<open>The scan; the number is how many iterations are left.\<close>

fun serveable_scan :: "('s, 'a, 'w) backing \<Rightarrow> nat \<Rightarrow> ('s, 'a, 'w) CBWFQ \<Rightarrow> nat option \<times> ('s, 'a, 'w) CBWFQ" where
  "serveable_scan ops 0 s = (None, s)"
| "serveable_scan ops (Suc k) s =
     (let i = cb_weighted s ! cb_cursor s in
      case class_Len ops i s of (n, s1) \<Rightarrow>
        if n = 0 then serveable_scan ops k (advance (set_deficit i 0 s1))
        else if cs_deficit (class_of s1 i) = 0 then (Some i, set_deficit i (cs_weight (class_of s1 i)) s1)
        else (Some i, s1))"

definition serveable :: "('s, 'a, 'w) backing \<Rightarrow> ('s, 'a, 'w) CBWFQ \<Rightarrow> nat option \<times> ('s, 'a, 'w) CBWFQ" where
  "serveable ops s =
     (case cb_priority s of
        None \<Rightarrow> serveable_scan ops (length (cb_weighted s)) s
      | Some p \<Rightarrow>
          (case class_Len ops p s of (n, s1) \<Rightarrow>
             if n > 0 then (Some p, s1) else serveable_scan ops (length (cb_weighted s1)) s1))"

text \<open>The end of \<open>serve\<close>: the two tests of \<open>Len\<close> are calls of their own.\<close>

definition serve_advance :: "('s, 'a, 'w) backing \<Rightarrow> nat \<Rightarrow> ('s, 'a, 'w) CBWFQ \<Rightarrow> ('s, 'a, 'w) CBWFQ" where
  "serve_advance ops i s =
     (case class_Len ops i s of (n, s1) \<Rightarrow> advance (if n = 0 then set_deficit i 0 s1 else s1))"

definition serve_settle :: "('s, 'a, 'w) backing \<Rightarrow> nat \<Rightarrow> nat \<Rightarrow> ('s, 'a, 'w) CBWFQ \<Rightarrow> ('s, 'a, 'w) CBWFQ" where
  "serve_settle ops i n s =
     (let s1 = set_deficit i (cs_deficit (class_of s i) - int n) s in
      if cs_deficit (class_of s1 i) = 0 then serve_advance ops i s1
      else (case class_Len ops i s1 of (m, s2) \<Rightarrow> if m = 0 then serve_advance ops i s2 else s2))"

definition serve :: "('s, 'a, 'w) backing \<Rightarrow> nat \<Rightarrow> 'w ctx \<Rightarrow> nat \<Rightarrow> int \<Rightarrow> ('s, 'w) opoption list \<Rightarrow>
    ('s, 'a, 'w) CBWFQ \<times> 'w \<Rightarrow> ('a list \<times> goerr option) attempt \<times> ('s, 'a, 'w) CBWFQ \<times> 'w" where
  "serve ops g c i n options sw =
     (case sw of (s, w) \<Rightarrow>
       (case class_Len ops i s of (len, s1) \<Rightarrow>
         (let take1 = min n len;
              take2 = (if cs_priority (class_of s1 i) then take1 else min take1 (cs_deficit (class_of s1 i)))
          in case queue_Pop ops g c take2 options [] (cs_queue (class_of s1 i), w) of
               (Parked, q, w1) \<Rightarrow> (Parked, set_queue i q s1, w1)
             | (Done Unwinds, q, w1) \<Rightarrow> (Done Unwinds, set_queue i q s1, w1)
             | (Done (Ret (items, err)), q, w1) \<Rightarrow>
                 (let s2 = set_queue i q s1;
                      s3 = s2\<lparr>cb_pending := cb_pending s2 - int (length items)\<rparr>;
                      s4 = sched_recordDepth ops i s3
                  in if err \<noteq> None then (returns (items, err), s4, w1)
                     else if cs_priority (class_of s4 i) then (returns (items, None), s4, w1)
                     else (returns (items, None), serve_settle ops i (length items) s4, w1)))))"

text \<open>One round of the loop. An unwind out of \<open>serve\<close> passes \<open>mu.Unlock\<close> by.\<close>

definition Pull_round :: "('s, 'a, 'w) backing \<Rightarrow> nat \<Rightarrow> 'w ctx \<Rightarrow> int \<Rightarrow> ('s, 'w) opoption list \<Rightarrow>
    ('s, 'a, 'w) CBWFQ \<times> 'w \<Rightarrow> ('a list \<times> string \<times> goerr option) progress \<times> ('s, 'a, 'w) CBWFQ \<times> 'w" where
  "Pull_round ops g c n options sw =
     (case sw of (s, w) \<Rightarrow>
       if cb_mu s then (Stuck, s, w)
       else
         (let s1 = s\<lparr>cb_mu := True\<rparr> in
          if cb_closed s1 then (Finished (Ret ([], '''', err_closed)), s1\<lparr>cb_mu := False\<rparr>, w)
          else
            (case serveable ops s1 of
               (Some i, s2) \<Rightarrow>
                 (case serve ops g c i n options (s2, w) of
                    (Done (Ret (items, err)), s3, w1) \<Rightarrow>
                      (Finished (Ret (items, cs_name (class_of s3 i), err)), s3\<lparr>cb_mu := False\<rparr>, w1)
                  | (Done Unwinds, s3, w1) \<Rightarrow> (Finished Unwinds, s3, w1)
                  | (Parked, s3, w1) \<Rightarrow> (Stuck, s3, w1))
             | (None, s2) \<Rightarrow> (Waiting, s2\<lparr>cb_sig := Wait_register g (cb_sig s2), cb_mu := False\<rparr>, w))))"

definition closedOrCause :: "'w ctx \<Rightarrow> 'w \<Rightarrow> ('s, 'a, 'w) CBWFQ \<Rightarrow> goerr option progress" where
  "closedOrCause c w s =
     (if cb_mu s then Stuck
      else if cb_closed s then Finished (Ret err_closed) else Finished (Ret (Some (ctx_cause c w))))"

text \<open>What happens when the goroutine runs again: \<open>None\<close> is the next round.\<close>

definition Pull_resume :: "nat \<Rightarrow> 'w ctx \<Rightarrow> ('s, 'a, 'w) CBWFQ \<times> 'w \<Rightarrow>
    ('a list \<times> string \<times> goerr option) progress option \<times> ('s, 'a, 'w) CBWFQ \<times> 'w" where
  "Pull_resume g c sw =
     (case sw of (s, w) \<Rightarrow>
       (case Wait_return g c w (cb_sig s) of (sig, werr) \<Rightarrow>
         (let s1 = s\<lparr>cb_sig := sig\<rparr> in
          case werr of
            None \<Rightarrow> (None, s1, w)
          | Some _ \<Rightarrow>
              (Some (case closedOrCause c w s1 of
                       Finished (Ret e) \<Rightarrow> Finished (Ret ([], '''', e))
                     | Finished Unwinds \<Rightarrow> Finished Unwinds
                     | Waiting \<Rightarrow> Waiting
                     | Stuck \<Rightarrow> Stuck), s1, w))))"

fun Pull_loop :: "('x \<Rightarrow> 'r progress \<times> 'x) \<Rightarrow> ('x \<Rightarrow> 'r progress option \<times> 'x) \<Rightarrow> ('x \<Rightarrow> 'x) list \<Rightarrow> 'x \<Rightarrow>
    'r progress \<times> 'x" where
  "Pull_loop body resume [] s = body s"
| "Pull_loop body resume (e # es) s =
     (case body s of
        (Waiting, s1) \<Rightarrow>
          (case resume (e s1) of
             (Some r, s2) \<Rightarrow> (r, s2)
           | (None, s2) \<Rightarrow> Pull_loop body resume es s2)
      | (r, s1) \<Rightarrow> (r, s1))"

definition cbwfq_Pull :: "('s, 'a, 'w) backing \<Rightarrow> nat \<Rightarrow> 'w ctx \<Rightarrow> int \<Rightarrow> ('s, 'w) opoption list \<Rightarrow>
    (('s, 'a, 'w) CBWFQ \<times> 'w \<Rightarrow> ('s, 'a, 'w) CBWFQ \<times> 'w) list \<Rightarrow> ('s, 'a, 'w) CBWFQ \<times> 'w \<Rightarrow>
    ('a list \<times> string \<times> goerr option) progress \<times> ('s, 'a, 'w) CBWFQ \<times> 'w" where
  "cbwfq_Pull ops g c n options env sw =
     (if n < 1 then (Finished Unwinds, sw)
      else sched_bracket SchedPull (\<lambda>(items, cl, e). e)
        (Pull_loop (Pull_round ops g c n options) (Pull_resume g c) env) sw)"

section \<open>The other operations\<close>

definition cbwfq_Len :: "('s, 'a, 'w) CBWFQ \<Rightarrow> int" where
  "cbwfq_Len s = cb_pending s"

definition cbwfq_ClassLen :: "('s, 'a, 'w) backing \<Rightarrow> string \<Rightarrow> ('s, 'a, 'w) CBWFQ \<Rightarrow>
    (int \<times> goerr option) \<times> ('s, 'a, 'w) CBWFQ" where
  "cbwfq_ClassLen ops nm s =
     (case cb_byName s nm of
        None \<Rightarrow> ((0, Some (Errorf [Sentinel ErrUnknownClass])), s)
      | Some i \<Rightarrow> (case class_Len ops i s of (n, s1) \<Rightarrow> ((n, None), s1)))"

fun Close_classes :: "('s, 'a, 'w) backing \<Rightarrow> 'w ctx \<Rightarrow> nat list \<Rightarrow> goerr option \<Rightarrow> ('s, 'a, 'w) CBWFQ \<times> 'w \<Rightarrow>
    goerr option progress \<times> ('s, 'a, 'w) CBWFQ \<times> 'w" where
  "Close_classes ops c [] err sw = (Finished (Ret err), sw)"
| "Close_classes ops c (i # is) err (s, w) =
     (case queue_Close ops c [] (cs_queue (class_of s i), w) of
        (Unwinds, q, w1) \<Rightarrow> (Finished Unwinds, set_queue i q s, w1)
      | (Ret cerr, q, w1) \<Rightarrow>
          Close_classes ops c is (if cerr \<noteq> None \<and> err = None then cerr else err) (set_queue i q s, w1))"

definition Close_begin :: "('s, 'a, 'w) CBWFQ \<Rightarrow> ('s, 'a, 'w) CBWFQ" where
  "Close_begin s = s\<lparr>cb_closed := True, cb_sig := Signal_Signal (cb_sig s)\<rparr>"

definition cbwfq_Close :: "('s, 'a, 'w) backing \<Rightarrow> 'w ctx \<Rightarrow> nat list \<Rightarrow> ('s, 'a, 'w) CBWFQ \<times> 'w \<Rightarrow>
    goerr option progress \<times> ('s, 'a, 'w) CBWFQ \<times> 'w" where
  "cbwfq_Close ops c order = sched_bracket SchedClose id (\<lambda>(s, w).
     if cb_mu s then (Stuck, s, w)
     else if cb_closed s then (Finished (Ret err_closed), s, w)
     else Close_classes ops c order None (Close_begin s, w))"

section \<open>What the operations leave alone\<close>

text \<open>Without any assumption on the class queues: picking and serving a class neither takes nor releases the mutex and neither
  closes nor opens the scheduler.\<close>

lemma upd_class_simps [simp]:
  "cb_mu (upd_class i f s) = cb_mu s" "cb_classifier (upd_class i f s) = cb_classifier s"
  "cb_classes (upd_class i f s) = (cb_classes s)[i := f (class_of s i)]"
  "cb_byName (upd_class i f s) = cb_byName s" "cb_weighted (upd_class i f s) = cb_weighted s"
  "cb_cursor (upd_class i f s) = cb_cursor s" "cb_priority (upd_class i f s) = cb_priority s"
  "cb_def (upd_class i f s) = cb_def s" "cb_pending (upd_class i f s) = cb_pending s"
  "cb_closed (upd_class i f s) = cb_closed s" "cb_sig (upd_class i f s) = cb_sig s"
  "cb_met (upd_class i f s) = cb_met s"
  by (simp_all add: upd_class_def)

lemma advance_simps [simp]:
  "cb_mu (advance s) = cb_mu s" "cb_classifier (advance s) = cb_classifier s" "cb_classes (advance s) = cb_classes s"
  "cb_byName (advance s) = cb_byName s" "cb_weighted (advance s) = cb_weighted s"
  "cb_cursor (advance s) = (cb_cursor s + 1) mod length (cb_weighted s)" "cb_priority (advance s) = cb_priority s"
  "cb_def (advance s) = cb_def s" "cb_pending (advance s) = cb_pending s" "cb_closed (advance s) = cb_closed s"
  "cb_sig (advance s) = cb_sig s" "cb_met (advance s) = cb_met s"
  by (simp_all add: advance_def)

lemma class_Len_mu: "class_Len ops i s = (n, t) \<Longrightarrow> cb_mu t = cb_mu s"
  by (auto simp: class_Len_def split: prod.splits)

lemma serveable_scan_mu: "serveable_scan ops k s = (r, t) \<Longrightarrow> cb_mu t = cb_mu s"
proof (induction k arbitrary: s)
  case (Suc k)
  then show ?case by (fastforce simp: Let_def split: prod.splits if_splits dest: class_Len_mu)
qed simp

lemma serveable_mu: "serveable ops s = (r, t) \<Longrightarrow> cb_mu t = cb_mu s"
  by (auto simp: serveable_def split: option.splits prod.splits if_splits dest: class_Len_mu serveable_scan_mu)

lemma recordDepth_mu [simp]: "cb_mu (sched_recordDepth ops i s) = cb_mu s"
  by (auto simp: sched_recordDepth_def Let_def split: option.splits prod.splits dest: class_Len_mu)

lemma serve_advance_mu [simp]: "cb_mu (serve_advance ops i s) = cb_mu s"
  by (auto simp: serve_advance_def split: prod.splits dest: class_Len_mu)

lemma serve_settle_mu [simp]: "cb_mu (serve_settle ops i n s) = cb_mu s"
  by (auto simp: serve_settle_def Let_def split: prod.splits dest: class_Len_mu)

lemma serve_mu: "serve ops g c i n options (s, w) = (r, t, w') \<Longrightarrow> cb_mu t = cb_mu s"
  by (auto simp: serve_def Let_def split: prod.splits attempt.splits outcome.splits if_splits dest: class_Len_mu)

lemma Pull_unwinds_held:
  assumes "cbwfq_Pull ops g c n options [] (s, w) = (Finished Unwinds, t, w')" and "1 \<le> n"
  shows "cb_mu t"
proof -
  let ?s = "s\<lparr>cb_met := sched_instrument SchedPull (cb_met s), cb_mu := True\<rparr>"
  obtain o1 s2 where sv: "serveable ops ?s = (o1, s2)" by (metis surj_pair)
  have mu2: "cb_mu s2" using serveable_mu [OF sv] by simp
  obtain i where i: "o1 = Some i" "\<not> cb_mu s" "\<not> cb_closed s"
    using assms sv by (cases o1) (auto simp: cbwfq_Pull_def sched_bracket_def Pull_round_def Let_def split: if_splits)
  obtain p s3 w3 where se: "serve ops g c i n options (s2, w) = (p, s3, w3)" by (metis prod_cases3)
  have "cb_mu s3" using serve_mu [OF se] mu2 by simp
  then show ?thesis
    using assms sv i se
    by (auto simp: cbwfq_Pull_def sched_bracket_def Pull_round_def Let_def split: if_splits attempt.splits outcome.splits prod.splits)
qed

lemma Close_classes_keeps:
  "Close_classes ops c order e (s, w) = (r, t, w') \<Longrightarrow>
     cb_closed t = cb_closed s \<and> cb_mu t = cb_mu s \<and> cb_sig t = cb_sig s \<and> r \<noteq> Waiting \<and> r \<noteq> Stuck"
proof (induction order arbitrary: e s w)
  case (Cons i order)
  then show ?case by (fastforce split: prod.splits outcome.splits)
qed auto

end
