(* ===== verification/Class_Scheduling.thy ===== *)
theory Class_Scheduling
  imports CBWFQ
begin

text \<open>
  What the scheduler of theory \<open>CBWFQ\<close> relies on of its class queues (the locale \<open>class_queue\<close>), the
  scheduler's invariant, and the effect of each operation under it: which class is served, how the
  deficits and the cursor move, and that every operation keeps the invariant. Every queue over a backing that keeps
  the contract of theory \<open>Backing_Interface\<close> provides the interface.
\<close>

section \<open>The invariant\<close>

text \<open>What \<open>New\<close> fixes: the names, the index by name, the priority class, the weighted classes in the
  order they were given, and the default.\<close>

definition sched_static :: "('s, 'a, 'w) CBWFQ \<Rightarrow> bool" where
  "sched_static s =
     ((\<forall>nm i. cb_byName s nm = Some i \<longleftrightarrow> i < length (cb_classes s) \<and> cs_name (class_of s i) = nm) \<and>
      (\<forall>i. cb_priority s = Some i \<longleftrightarrow> i < length (cb_classes s) \<and> cs_priority (class_of s i)) \<and>
      cb_weighted s = filter (\<lambda>i. \<not> cs_priority (class_of s i)) [0..<length (cb_classes s)] \<and>
      (\<exists>d < length (cb_classes s). cb_def s = Some d) \<and>
      (\<forall>i \<in> set (cb_weighted s). 1 \<le> cs_weight (class_of s i)))"

text \<open>The round robin: the cursor is in range, no deficit exceeds the weight of its class, and only the
  class at the cursor has one.\<close>

definition robin_ok :: "('s, 'a, 'w) CBWFQ \<Rightarrow> bool" where
  "robin_ok s =
     ((cb_weighted s \<noteq> [] \<longrightarrow> cb_cursor s < length (cb_weighted s)) \<and>
      (\<forall>i \<in> set (cb_weighted s). 0 \<le> cs_deficit (class_of s i) \<and> cs_deficit (class_of s i) \<le> cs_weight (class_of s i) \<and>
         (cs_deficit (class_of s i) \<noteq> 0 \<longrightarrow> i = cb_weighted s ! cb_cursor s)))"

definition stored :: "(('s, 'a, 'w) queue \<Rightarrow> 'a list) \<Rightarrow> ('s, 'a, 'w) CBWFQ \<Rightarrow> 'a list list" where
  "stored contents s = map (\<lambda>cs. contents (cs_queue cs)) (cb_classes s)"

text \<open>\<open>lag\<close> is the number of pushes between their two sections.\<close>

definition sched_ok :: "(('s, 'a, 'w) queue \<Rightarrow> bool) \<Rightarrow> (('s, 'a, 'w) queue \<Rightarrow> 'a list) \<Rightarrow> nat \<Rightarrow>
    ('s, 'a, 'w) CBWFQ \<Rightarrow> bool" where
  "sched_ok qok contents lag s =
     (sched_static s \<and> robin_ok s \<and> (\<forall>cs \<in> set (cb_classes s). qok (cs_queue cs)) \<and>
      cb_pending s + int lag = int (length (concat (stored contents s))) \<and> sig_ok (cb_sig s))"

lemma sched_frame [simp]:
  "sched_static (s\<lparr>cb_mu := x1\<rparr>) = sched_static s" "robin_ok (s\<lparr>cb_mu := x1\<rparr>) = robin_ok s"
  "stored contents (s\<lparr>cb_mu := x1\<rparr>) = stored contents s"
  "sched_static (s\<lparr>cb_pending := x2\<rparr>) = sched_static s" "robin_ok (s\<lparr>cb_pending := x2\<rparr>) = robin_ok s"
  "stored contents (s\<lparr>cb_pending := x2\<rparr>) = stored contents s"
  "sched_static (s\<lparr>cb_closed := x3\<rparr>) = sched_static s" "robin_ok (s\<lparr>cb_closed := x3\<rparr>) = robin_ok s"
  "stored contents (s\<lparr>cb_closed := x3\<rparr>) = stored contents s"
  "sched_static (s\<lparr>cb_sig := x4\<rparr>) = sched_static s" "robin_ok (s\<lparr>cb_sig := x4\<rparr>) = robin_ok s"
  "stored contents (s\<lparr>cb_sig := x4\<rparr>) = stored contents s"
  "sched_static (s\<lparr>cb_met := x5\<rparr>) = sched_static s" "robin_ok (s\<lparr>cb_met := x5\<rparr>) = robin_ok s"
  "stored contents (s\<lparr>cb_met := x5\<rparr>) = stored contents s"
  by (simp_all add: sched_static_def robin_ok_def stored_def)

lemma sched_static_weighted:
  "sched_static s \<Longrightarrow> i \<in> set (cb_weighted s) \<longleftrightarrow> i < length (cb_classes s) \<and> \<not> cs_priority (class_of s i)"
  by (simp add: sched_static_def)

lemma sched_static_priority:
  "sched_static s \<Longrightarrow> cb_priority s = Some i \<longleftrightarrow> i < length (cb_classes s) \<and> cs_priority (class_of s i)"
  by (simp add: sched_static_def)

lemma sched_static_byName:
  "sched_static s \<Longrightarrow> cb_byName s nm = Some i \<longleftrightarrow> i < length (cb_classes s) \<and> cs_name (class_of s i) = nm"
  by (simp add: sched_static_def)

lemma sched_static_distinct: "sched_static s \<Longrightarrow> distinct (cb_weighted s)"
  by (simp add: sched_static_def)

lemma sched_static_names:
  "sched_static s \<Longrightarrow> i < length (cb_classes s) \<Longrightarrow> j < length (cb_classes s) \<Longrightarrow>
     cs_name (class_of s i) = cs_name (class_of s j) \<longleftrightarrow> i = j"
  unfolding sched_static_def by (metis option.inject)

lemma at_cursor:
  "sched_static s \<Longrightarrow> robin_ok s \<Longrightarrow> cb_weighted s \<noteq> [] \<Longrightarrow>
     cb_weighted s ! cb_cursor s < length (cb_classes s) \<and> cb_weighted s ! cb_cursor s \<in> set (cb_weighted s)"
  using sched_static_weighted [of s "cb_weighted s ! cb_cursor s"] by (simp add: robin_ok_def)

text \<open>The static part only looks at the identity of the classes.\<close>

definition same_ident :: "('s, 'a, 'w) classState \<Rightarrow> ('s, 'a, 'w) classState \<Rightarrow> bool" where
  "same_ident c d = (cs_name c = cs_name d \<and> cs_weight c = cs_weight d \<and> cs_priority c = cs_priority d)"

definition same_static :: "('s, 'a, 'w) CBWFQ \<Rightarrow> ('s, 'a, 'w) CBWFQ \<Rightarrow> bool" where
  "same_static s t =
     (list_all2 same_ident (cb_classes s) (cb_classes t) \<and> cb_byName s = cb_byName t \<and>
      cb_weighted s = cb_weighted t \<and> cb_priority s = cb_priority t \<and> cb_def s = cb_def t \<and>
      cb_classifier s = cb_classifier t)"

lemma same_ident_refl [simp]: "same_ident c c"
  by (simp add: same_ident_def)

lemma same_static_refl [simp]: "same_static s s"
  by (simp add: same_static_def list_all2_refl)

lemma same_static_trans [trans]: "same_static s t \<Longrightarrow> same_static t u \<Longrightarrow> same_static s u"
  unfolding same_static_def same_ident_def by (auto simp: list_all2_conv_all_nth)

lemma same_static_len: "same_static s t \<Longrightarrow> length (cb_classes t) = length (cb_classes s)"
  by (auto simp: same_static_def dest: list_all2_lengthD)

lemma same_static_class:
  "same_static s t \<Longrightarrow> i < length (cb_classes s) \<Longrightarrow>
     cs_name (class_of t i) = cs_name (class_of s i) \<and> cs_weight (class_of t i) = cs_weight (class_of s i) \<and>
     cs_priority (class_of t i) = cs_priority (class_of s i)"
  by (auto simp: same_static_def list_all2_conv_all_nth same_ident_def)

lemma same_static_upd [simp]:
  assumes "\<And>c. same_ident c (f c)"
  shows "same_static s (upd_class i f s)"
proof -
  have "same_ident (class_of s j) ((cb_classes s)[i := f (class_of s i)] ! j)" if "j < length (cb_classes s)" for j
    using assms that by (cases "j = i") simp_all
  then show ?thesis by (simp add: same_static_def list_all2_conv_all_nth)
qed

lemma same_static_advance [simp]: "same_static s (advance s)"
  by (simp add: same_static_def list_all2_refl)

lemma same_static_static:
  assumes "same_static s t" and st: "sched_static s"
  shows "sched_static t"
proof -
  note len = same_static_len [OF assms(1)] and cl = same_static_class [OF assms(1)]
  have f: "filter (\<lambda>i. \<not> cs_priority (class_of t i)) [0..<length (cb_classes s)] =
      filter (\<lambda>i. \<not> cs_priority (class_of s i)) [0..<length (cb_classes s)]"
    by (rule filter_cong) (use cl in auto)
  have w: "\<forall>i \<in> set (cb_weighted s). i < length (cb_classes s)"
    using st by (simp add: sched_static_weighted)
  show ?thesis
    using st assms(1) w unfolding sched_static_def same_static_def len f
    by (auto simp: cl)
qed

text \<open>The class an item goes to.\<close>

definition route :: "('s, 'a, 'w) CBWFQ \<Rightarrow> 'a \<Rightarrow> nat option" where
  "route s v = Option.bind (cb_classifier s v) (\<lambda>nm. case cb_byName s nm of Some i \<Rightarrow> Some i | None \<Rightarrow> cb_def s)"

section \<open>The interface of a class queue\<close>

text \<open>\<open>room\<close> says that the queue can number one more item, and \<open>grows v xs ys\<close> that \<open>ys\<close> is \<open>xs\<close> with
  \<open>v\<close> put in its place.\<close>

locale class_queue =
  fixes ops :: "('s, 'a, 'w) backing"
    and qok :: "('s, 'a, 'w) queue \<Rightarrow> bool"
    and contents :: "('s, 'a, 'w) queue \<Rightarrow> 'a list"
    and room :: "('s, 'a, 'w) queue \<Rightarrow> bool"
    and grows :: "'a \<Rightarrow> 'a list \<Rightarrow> 'a list \<Rightarrow> bool"
  assumes grows_mset: "grows v xs ys \<Longrightarrow> mset ys = add_mset v (mset xs)"
    and len_is: "qok q \<Longrightarrow> queue_Len ops q = (int (length (contents q)), q)"
    and push_is: "qok q \<Longrightarrow> room q \<Longrightarrow> queue_Push ops g c [v] (with_se se) [] (q, w) = (ans, q', w') \<Longrightarrow>
      qok q' \<and> (\<forall>b e. ans = returns (b, e) \<longrightarrow> b = (e = None)) \<and>
      (if ans = returns (True, None) then grows v (contents q) (contents q')
       else contents q' = contents q)"
    and pop_is: "qok q \<Longrightarrow> 1 \<le> n \<Longrightarrow> queue_Pop ops g c n (with_se se) [] (q, w) = (res, q', w') \<Longrightarrow>
      qok q' \<and> contents q = handed_out res @ contents q' \<and>
      handed_out res = (if \<exists>out. res = returns (out, None) then take (nat n) (contents q) else [])"
    and pop_waits: "qok q \<Longrightarrow> 1 \<le> n \<Longrightarrow> queue_Pop ops g c n (with_se se) [] (q, w) = (Parked, q', w') \<Longrightarrow>
      contents q = []"
    and close_is: "qok q \<Longrightarrow> queue_Close ops c [] (q, w) = (r, q', w') \<Longrightarrow> qok q' \<and> contents q' = contents q"

section \<open>A queue over any backing provides it\<close>

lemma spec_close_items: "spec_close c se (a, w) = (r, a', w') \<Longrightarrow> aq_items a' = aq_items a"
  by (auto simp: spec_close_def aq_close_def split: if_splits run_splits option.splits)

context queue_backing
begin

abbreviation placed :: "'a \<Rightarrow> 'a list \<Rightarrow> 'a list \<Rightarrow> bool" where
  "placed v xs ys \<equiv> \<exists>its. xs = map fst its \<and> ys = map fst (place its (v, False))"

lemma queue_Push_single:
  assumes "queue_ok q" and "fresh 1 (q_backing q)"
    and "queue_Push ops g c [v] (with_se se) [] (q, w) = (res, q', w')"
  shows "queue_ok q' \<and> (\<forall>b e. res = returns (b, e) \<longrightarrow> b = (e = None)) \<and>
    (if res = returns (True, None) then placed v (map fst (items q)) (map fst (items q'))
     else map fst (items q') = map fst (items q))"
proof -
  have "\<forall>b e. res = returns (b, e) \<longrightarrow> b = (e = None)"
    using assms(3)
    by (auto simp: queue_Push_def bracket_wait_def queue_push_def split: if_splits prod.splits attempt.splits outcome.splits option.splits)
  moreover have "placed v (map fst (items q)) (map fst (place_all place (items q) [v]))"
    by (auto simp: place_all_def)
  moreover have "fresh (length [v]) (q_backing q)" using assms(2) by simp
  moreover from cmd_push_step [OF assms(3,1) this]
  have "queue_ok q'" and "items q' = (if res = returns (True, None) then place_all place (items q) [v] else items q)"
    by blast+
  ultimately show ?thesis
    by (cases "res = returns (True, None)") (simp_all only: if_True if_False simp_thms)
qed

lemma queue_Pop_takes:
  assumes "queue_ok q" and "1 \<le> n" and "queue_Pop ops g c n (with_se se) [] (q, w) = (res, q', w')"
  shows "queue_ok q' \<and> map fst (items q) = handed_out res @ map fst (items q') \<and>
    handed_out res = (if \<exists>out. res = returns (out, None) then take (nat n) (map fst (items q)) else [])"
  using cmd_pop_step [OF assms(3,1)] queue_Pop_atomic [OF assms(3,1) with_se_resolves assms(2)]
    handed_out_failed [OF assms(3)]
  by (auto simp: handed_out_def)

lemma queue_Pop_waits:
  assumes "queue_ok q" and "1 \<le> n" and "queue_Pop ops g c n (with_se se) [] (q, w) = (Parked, q', w')"
  shows "map fst (items q) = []"
proof -
  obtain s1 w1 where pop: "bo_Pop ops g c (nat n) (with_se se) [] (q_backing q, w) = (Parked, s1, w1)"
    using assms(2,3)
    by (auto simp: queue_Pop_def bracket_wait_def on_backing_def split: prod.splits attempt.splits outcome.splits option.splits if_splits)
  have "spec_pop g c (nat n) se (rep (q_backing q), w) = (Parked, rep s1, w1)"
    using refinesD [OF pop_now [OF with_se_resolves] _ pop] assms(1,2) by simp
  then show ?thesis
    by (auto simp: spec_pop_def Let_def split: if_splits run_splits option.splits)
qed

lemma queue_Close_keeps:
  assumes "queue_ok q" and "queue_Close ops c [] (q, w) = (r, q', w')"
  shows "queue_ok q' \<and> items q' = items q"
proof -
  obtain r1 s1 w1 where cl: "bo_Close ops c [] (q_backing q, w) = (r1, s1, w1)"
    by (metis prod_cases3)
  have opts: "ResolveOpOptions CallClose [] = Ret (\<lparr>oo_Call = CallClose, oo_SideEffect = None, oo_OnAdmit = None\<rparr>, None)"
    by (simp add: ResolveOpOptions_def)
  have "spec_close c None (rep (q_backing q), w) = (r1, rep s1, w1)" "ok s1"
    using refinesD [OF close_law [OF opts] _ cl] assms(1) by auto
  moreover from this(1) have "aq_items (rep s1) = aq_items (rep (q_backing q))" by (rule spec_close_items)
  ultimately show ?thesis
    using assms cl by (auto simp: queue_Close_def bracket_def on_backing_def)
qed

end

sublocale queue_backing \<subseteq> cq: class_queue ops queue_ok "\<lambda>q. map fst (items q)" "\<lambda>q. fresh 1 (q_backing q)" placed
proof
  show "placed v xs ys \<Longrightarrow> mset ys = add_mset v (mset xs)" for v xs ys
    using ok_placing by (auto simp: placing_def)
  show "queue_ok q \<Longrightarrow> queue_Len ops q = (int (length (map fst (items q))), q)" for q
    by (simp add: queue_Len_def len_law)
  show "queue_ok q' \<and> map fst (items q') = map fst (items q)"
    if "queue_ok q" "queue_Close ops c [] (q, w) = (r, q', w')" for q c w r q' w'
    using queue_Close_keeps [OF that] by metis
qed (fact queue_Push_single queue_Pop_takes queue_Pop_waits)+

context queue_backing
begin

lemma provides_class_queue:
  "class_queue ops queue_ok (\<lambda>q. map fst (items q)) (\<lambda>q. fresh 1 (q_backing q)) placed"
  by (rule cq.class_queue_axioms)

end

section \<open>Effect of the operations\<close>

text \<open>Steps that move only the round robin and the telemetry.\<close>

definition moved :: "('s, 'a, 'w) CBWFQ \<Rightarrow> ('s, 'a, 'w) CBWFQ \<Rightarrow> bool" where
  "moved s t =
     (same_static s t \<and> map cs_queue (cb_classes t) = map cs_queue (cb_classes s) \<and> cb_pending t = cb_pending s \<and>
      cb_closed t = cb_closed s \<and> cb_sig t = cb_sig s \<and> cb_mu t = cb_mu s)"

lemma moved_refl [simp]: "moved s s"
  by (simp add: moved_def)

lemma moved_trans [trans]: "moved s t \<Longrightarrow> moved t u \<Longrightarrow> moved s u"
  unfolding moved_def by (metis same_static_trans)

lemma moved_advance [simp]: "moved s (advance s)"
  by (simp add: moved_def)

lemma moved_upd [simp]:
  assumes "\<And>c. same_ident c (f c) \<and> cs_queue (f c) = cs_queue c"
  shows "moved s (upd_class i f s)"
proof -
  have "map cs_queue ((cb_classes s)[i := f (class_of s i)]) = map cs_queue (cb_classes s)"
    using assms by (intro nth_equalityI) (simp_all add: nth_list_update_total)
  then show ?thesis
    using assms by (simp add: moved_def)
qed

lemma moved_class:
  "moved s t \<Longrightarrow> i < length (cb_classes s) \<Longrightarrow> cs_queue (class_of t i) = cs_queue (class_of s i)"
  unfolding moved_def using same_static_len [of s t] nth_map [of i _ cs_queue] by metis

lemma moved_stored: "moved s t \<Longrightarrow> stored contents t = stored contents s"
proof -
  assume "moved s t"
  then have "map contents (map cs_queue (cb_classes t)) = map contents (map cs_queue (cb_classes s))"
    by (simp only: moved_def)
  then show ?thesis by (simp add: stored_def comp_def)
qed

lemma moved_ok:
  "moved s t \<Longrightarrow> sched_ok qok contents lag s \<Longrightarrow> robin_ok t \<Longrightarrow> sched_ok qok contents lag t"
proof -
  assume m: "moved s t" and ok: "sched_ok qok contents lag s" and r: "robin_ok t"
  have "sched_static t" using m ok same_static_static by (auto simp: moved_def sched_ok_def)
  moreover have "cs_queue ` set (cb_classes t) = cs_queue ` set (cb_classes s)"
    using m by (metis moved_def set_map)
  then have "\<forall>cs \<in> set (cb_classes t). qok (cs_queue cs)"
    using ok unfolding sched_ok_def by (metis (mono_tags, lifting) image_iff)
  ultimately show ?thesis
    using m ok r by (simp add: sched_ok_def moved_stored [OF m]) (simp add: moved_def)
qed

definition unmoved :: "('s, 'a, 'w) CBWFQ \<Rightarrow> ('s, 'a, 'w) CBWFQ \<Rightarrow> bool" where
  "unmoved s t = (cb_cursor t = cb_cursor s \<and> (\<forall>j < length (cb_classes s). cs_deficit (class_of t j) = cs_deficit (class_of s j)))"

definition frame :: "('s, 'a, 'w) CBWFQ \<Rightarrow> ('s, 'a, 'w) CBWFQ \<Rightarrow> bool" where
  "frame s t = (same_static s t \<and> cb_closed t = cb_closed s \<and> cb_sig t = cb_sig s \<and> cb_mu t = cb_mu s)"

lemma moved_frame: "moved s t \<Longrightarrow> frame s t"
  by (simp add: moved_def frame_def)

lemma frame_trans: "frame s t \<Longrightarrow> frame t u \<Longrightarrow> frame s u"
  by (auto simp: frame_def intro: same_static_trans)

lemma robin_unmoved:
  assumes "sched_static s" "same_static s t" "robin_ok s" "unmoved s t"
  shows "robin_ok t"
proof -
  have w: "cb_weighted t = cb_weighted s" using assms(2) by (simp add: same_static_def)
  have "i < length (cb_classes s)" if "i \<in> set (cb_weighted s)" for i
    using that sched_static_weighted [OF assms(1)] by simp
  then show ?thesis
    using assms(3,4) same_static_class [OF assms(2)] by (simp add: robin_ok_def unmoved_def w)
qed

text \<open>The class that strict priority and the cyclic search from the cursor designate.\<close>

definition next_class :: "(('s, 'a, 'w) queue \<Rightarrow> 'a list) \<Rightarrow> ('s, 'a, 'w) CBWFQ \<Rightarrow> nat option" where
  "next_class contents s =
     (let busy = (\<lambda>i. contents (cs_queue (class_of s i)) \<noteq> []);
          robin = find busy (rotate (cb_cursor s) (cb_weighted s))
      in case cb_priority s of Some p \<Rightarrow> if busy p then Some p else robin | None \<Rightarrow> robin)"

abbreviation at_cur :: "('s, 'a, 'w) CBWFQ \<Rightarrow> nat" where
  "at_cur s \<equiv> cb_weighted s ! cb_cursor s"

lemma sched_static_weight: "sched_static s \<Longrightarrow> i \<in> set (cb_weighted s) \<Longrightarrow> 1 \<le> cs_weight (class_of s i)"
  by (simp add: sched_static_def)

lemma class_of_upd:
  "i < length (cb_classes s) \<Longrightarrow> class_of (upd_class i f s) j = (if j = i then f (class_of s i) else class_of s j)"
  by simp

lemma robin_skip:
  assumes "sched_static s" "robin_ok s" "cb_weighted s \<noteq> []"
  shows "robin_ok (advance (set_deficit (at_cur s) 0 s))"
  using assms(2,3) at_cursor [OF assms] sched_static_weight [OF assms(1)]
  by (fastforce simp: robin_ok_def nth_list_update)

lemma robin_grant:
  assumes "sched_static s" "robin_ok s" "cb_weighted s \<noteq> []" and "0 \<le> d" "d \<le> cs_weight (class_of s (at_cur s))"
  shows "robin_ok (set_deficit (at_cur s) d s)"
  using assms(4,5) assms(2,3) at_cursor [OF assms(1-3)] sched_static_weight [OF assms(1)]
  by (fastforce simp: robin_ok_def nth_list_update)

text \<open>The quantum with which a class is served: what is left of it, or a fresh one.\<close>

definition grant :: "int \<Rightarrow> ('s, 'a, 'w) CBWFQ \<Rightarrow> nat \<Rightarrow> int" where
  "grant n s i =
     (if cs_priority (class_of s i) then n
      else min n (if cs_deficit (class_of s i) = 0 then cs_weight (class_of s i) else cs_deficit (class_of s i)))"

context class_queue
begin

abbreviation inv :: "nat \<Rightarrow> ('s, 'a, 'w) CBWFQ \<Rightarrow> bool" where
  "inv \<equiv> sched_ok qok contents"

abbreviation backlog :: "('s, 'a, 'w) CBWFQ \<Rightarrow> nat \<Rightarrow> 'a list" where
  "backlog s i \<equiv> contents (cs_queue (class_of s i))"

lemma inv_qok: "inv lag s \<Longrightarrow> i < length (cb_classes s) \<Longrightarrow> qok (cs_queue (class_of s i))"
  by (simp add: sched_ok_def)

lemma inv_parts: "inv lag s \<Longrightarrow> sched_static s \<and> robin_ok s"
  by (simp add: sched_ok_def)

lemma set_queue_same [simp]: "set_queue i (cs_queue (class_of s i)) s = s"
  by (simp add: upd_class_def)

lemma class_Len_is: "inv lag s \<Longrightarrow> i < length (cb_classes s) \<Longrightarrow> class_Len ops i s = (int (length (backlog s i)), s)"
  using inv_qok by (simp add: class_Len_def len_is)

text \<open>Induction over the scan.\<close>

lemma scan_induct:
  assumes "serveable_scan ops k s = (r, t)" and "inv lag s" and "cb_weighted s \<noteq> [] \<or> k = 0" and "J s"
    and skip: "\<And>s. inv lag s \<Longrightarrow> cb_weighted s \<noteq> [] \<Longrightarrow> J s \<Longrightarrow> backlog s (at_cur s) = [] \<Longrightarrow> J (advance (set_deficit (at_cur s) 0 s))"
    and grant: "\<And>s. inv lag s \<Longrightarrow> cb_weighted s \<noteq> [] \<Longrightarrow> J s \<Longrightarrow> backlog s (at_cur s) \<noteq> [] \<Longrightarrow> cs_deficit (class_of s (at_cur s)) = 0 \<Longrightarrow>
      J (set_deficit (at_cur s) (cs_weight (class_of s (at_cur s))) s)"
  shows "J t \<and> inv lag t \<and> moved s t \<and>
    (\<forall>i. r = Some i \<longrightarrow> cb_weighted s \<noteq> [] \<and> i = at_cur t \<and> backlog t i \<noteq> [] \<and> 0 < cs_deficit (class_of t i))"
  using assms(1-4)
proof (induction k arbitrary: s)
  case 0
  then show ?case by auto
next
  case (Suc k)
  let ?i = "at_cur s"
  have w: "cb_weighted s \<noteq> []" using Suc.prems(3) by simp
  note st = inv_parts [OF Suc.prems(2), THEN conjunct1] inv_parts [OF Suc.prems(2), THEN conjunct2]
  have i: "?i < length (cb_classes s)" "?i \<in> set (cb_weighted s)" using at_cursor [OF st w] by auto
  have wt: "1 \<le> cs_weight (class_of s ?i)" using st(1) i(2) by (simp add: sched_static_def)
  show ?case
  proof (cases "backlog s ?i = []")
    case True
    let ?s = "advance (set_deficit ?i 0 s)"
    have m: "moved s ?s"
      by (rule moved_trans [OF moved_upd moved_advance]) (simp add: same_ident_def)
    have inv: "inv lag ?s" by (rule moved_ok [OF m Suc.prems(2) robin_skip [OF st w]])
    have "serveable_scan ops k ?s = (r, t)"
      using Suc.prems(1) True by (simp add: Let_def class_Len_is [OF Suc.prems(2) i(1)])
    from Suc.IH [OF this inv _ skip [OF Suc.prems(2) w Suc.prems(4) True]] w
    show ?thesis using moved_trans [OF m] by simp
  next
    case False
    let ?s = "set_deficit ?i (cs_weight (class_of s ?i)) s"
    have m: "moved s ?s" by (rule moved_upd) (simp add: same_ident_def)
    have inv: "inv lag ?s" using wt by (intro moved_ok [OF m Suc.prems(2) robin_grant [OF st w]]) auto
    have d: "0 \<le> cs_deficit (class_of s ?i)" using st(2) i(2) by (simp add: robin_ok_def)
    show ?thesis
      using Suc.prems False m inv d wt w i grant [OF Suc.prems(2) w Suc.prems(4) False]
      by (auto simp: Let_def class_Len_is [OF Suc.prems(2) i(1)] split: if_splits)
  qed
qed

lemma scan_find:
  assumes "serveable_scan ops k s = (r, t)" and "inv lag s" and "k \<le> length (cb_weighted s)"
  shows "r = find (\<lambda>i. backlog s i \<noteq> []) (take k (rotate (cb_cursor s) (cb_weighted s)))"
  using assms
proof (induction k arbitrary: s)
  case 0
  then show ?case by simp
next
  case (Suc k)
  let ?i = "at_cur s"
  let ?s = "advance (set_deficit ?i 0 s)"
  have w: "cb_weighted s \<noteq> []" using Suc.prems(3) by auto
  note st = inv_parts [OF Suc.prems(2), THEN conjunct1] inv_parts [OF Suc.prems(2), THEN conjunct2]
  have i: "?i < length (cb_classes s)" using at_cursor [OF st w] by auto
  have m: "moved s ?s"
    by (rule moved_trans [OF moved_upd moved_advance]) (simp add: same_ident_def)
  have inv: "inv lag ?s" by (rule moved_ok [OF m Suc.prems(2) robin_skip [OF st w]])
  have c: "cb_cursor s < length (cb_weighted s)" using st(2) w by (simp add: robin_ok_def)
  have same: "backlog ?s j = backlog s j" if "j \<in> set (cb_weighted s)" for j
    using moved_class [OF m] that sched_static_weighted [OF st(1)] by simp
  have rot: "take (Suc k) (rotate (cb_cursor s) (cb_weighted s)) =
      ?i # take k (rotate (cb_cursor ?s) (cb_weighted ?s))"
    using take_rotate_Suc [OF c] Suc.prems(3) by simp
  show ?case
  proof (cases "backlog s ?i = []")
    case True
    have "serveable_scan ops k ?s = (r, t)"
      using Suc.prems(1) True by (simp add: Let_def class_Len_is [OF Suc.prems(2) i])
    note Suc.IH [OF this inv]
    also have "find (\<lambda>i. backlog ?s i \<noteq> []) (take k (rotate (cb_cursor ?s) (cb_weighted ?s))) =
        find (\<lambda>i. backlog s i \<noteq> []) (take k (rotate (cb_cursor ?s) (cb_weighted ?s)))"
      by (rule find_cong [OF refl]) (use same in \<open>auto dest: in_set_takeD\<close>)
    finally show ?thesis using rot True Suc.prems(3) by simp
  next
    case False
    then show ?thesis
      using Suc.prems rot by (auto simp: Let_def class_Len_is [OF Suc.prems(2) i] split: if_splits)
  qed
qed

text \<open>\<open>serveable\<close> designates a class exactly when some class is not empty, and the class it designates is
  ready to be served.\<close>

definition ready :: "('s, 'a, 'w) CBWFQ \<Rightarrow> nat \<Rightarrow> bool" where
  "ready s i = (i < length (cb_classes s) \<and> backlog s i \<noteq> [] \<and>
     (\<not> cs_priority (class_of s i) \<longrightarrow> i = at_cur s \<and> 0 < cs_deficit (class_of s i)))"

lemma serveable_next:
  assumes s: "serveable ops s = (r, t)" and inv: "inv lag s"
  shows "inv lag t \<and> moved s t \<and> r = next_class contents s \<and> (\<forall>i. r = Some i \<longrightarrow> ready t i)"
proof (cases "\<exists>p. cb_priority s = Some p \<and> backlog s p \<noteq> []")
  case True
  then obtain p where p: "cb_priority s = Some p" "backlog s p \<noteq> []" by blast
  then have "p < length (cb_classes s)" "cs_priority (class_of s p)"
    using sched_static_priority inv_parts [OF inv] by auto
  then show ?thesis
    using s p inv by (auto simp: serveable_def class_Len_is next_class_def ready_def Let_def split: option.splits)
next
  case False
  then have scan: "serveable_scan ops (length (cb_weighted s)) s = (r, t)"
  proof (cases "cb_priority s")
    case None
    then show ?thesis using s by (simp add: serveable_def)
  next
    case (Some p)
    then have "p < length (cb_classes s)" using sched_static_priority inv_parts [OF inv] by auto
    then show ?thesis using s Some False by (simp add: serveable_def class_Len_is [OF inv])
  qed
  have nx: "next_class contents s = find (\<lambda>i. backlog s i \<noteq> []) (rotate (cb_cursor s) (cb_weighted s))"
    using False by (auto simp: next_class_def Let_def split: option.splits)
  have ind: "inv lag t \<and> moved s t \<and>
    (\<forall>i. r = Some i \<longrightarrow> cb_weighted s \<noteq> [] \<and> i = at_cur t \<and> backlog t i \<noteq> [] \<and> 0 < cs_deficit (class_of t i))"
    using scan_induct [OF scan inv, of "\<lambda>_. True"] by simp
  moreover have "cb_weighted t = cb_weighted s" using ind by (simp add: moved_def same_static_def)
  ultimately show ?thesis
    using scan_find [OF scan inv] at_cursor [of t] inv_parts [of lag t] nx by (auto simp: ready_def)
qed

lemma next_class_None:
  assumes "inv lag s"
  shows "next_class contents s = None \<longleftrightarrow> concat (stored contents s) = []"
proof -
  note st = inv_parts [OF assms, THEN conjunct1]
  have "concat (stored contents s) = [] \<longleftrightarrow> (\<forall>i < length (cb_classes s). backlog s i = [])"
    by (simp add: stored_def all_set_conv_all_nth)
  also have "\<dots> \<longleftrightarrow> (\<forall>i. cb_priority s = Some i \<longrightarrow> backlog s i = []) \<and> (\<forall>i \<in> set (cb_weighted s). backlog s i = [])"
    using sched_static_priority [OF st] sched_static_weighted [OF st] by metis
  also have "\<dots> \<longleftrightarrow> next_class contents s = None"
    by (auto simp: next_class_def Let_def find_None_iff split: option.splits)
  finally show ?thesis ..
qed

lemma recordDepth_moved:
  assumes "inv lag s" and "i < length (cb_classes s)"
  shows "moved s (sched_recordDepth ops i s) \<and> cb_cursor (sched_recordDepth ops i s) = cb_cursor s \<and>
    (\<forall>j. cs_deficit (class_of (sched_recordDepth ops i s) j) = cs_deficit (class_of s j))"
  using assms
  by (auto simp: sched_recordDepth_def class_Len_is [OF assms] Let_def moved_def same_static_def same_ident_def
      list_all2_conv_all_nth nth_list_update_total map_update split: option.splits intro!: nth_equalityI)

lemma class_Len_qok: "qok (cs_queue (class_of s i)) \<Longrightarrow> class_Len ops i s = (int (length (backlog s i)), s)"
  by (simp add: class_Len_def len_is)

lemma serve_settle_is:
  assumes "inv lag s" and "i < length (cb_classes s)"
  shows "serve_settle ops i n s =
    (let d = cs_deficit (class_of s i) - int n in
     if d = 0 \<or> backlog s i = [] then advance (set_deficit i 0 s) else set_deficit i d s)"
  using assms inv_qok [OF assms]
  by (simp add: serve_settle_def serve_advance_def class_Len_qok Let_def upd_class_def)

lemma settle_ok:
  assumes inv: "inv lag s" and i: "i < length (cb_classes s)" "\<not> cs_priority (class_of s i)" "i = at_cur s"
    and n: "int n \<le> cs_deficit (class_of s i)"
  shows "inv lag (serve_settle ops i n s) \<and> moved s (serve_settle ops i n s)"
proof -
  note st = inv_parts [OF inv, THEN conjunct1] inv_parts [OF inv, THEN conjunct2]
  have iw: "i \<in> set (cb_weighted s)" using i sched_static_weighted [OF st(1)] by simp
  then have w: "cb_weighted s \<noteq> []" by auto
  have d: "cs_deficit (class_of s i) \<le> cs_weight (class_of s i)" using iw st(2) by (simp add: robin_ok_def)
  have m: "moved s (advance (set_deficit i 0 s))" "moved s (set_deficit i d s)" for d
    by (auto intro!: moved_trans [OF moved_upd moved_advance] moved_upd simp: same_ident_def)
  have "robin_ok (advance (set_deficit i 0 s))" "robin_ok (set_deficit i (cs_deficit (class_of s i) - int n) s)"
    using robin_skip [OF st w] robin_grant [OF st w] n d i(3) by simp_all
  then show ?thesis
    using moved_ok [OF m(1) inv] moved_ok [OF m(2) inv] m
    unfolding serve_settle_is [OF inv i(1)] Let_def by presburger
qed

lemma stored_set_queue:
  "i < length (cb_classes s) \<Longrightarrow> stored contents (set_queue i q s) = (stored contents s)[i := contents q]"
  by (simp add: stored_def map_update)

lemma inv_set_queue:
  assumes "inv lag s" and "i < length (cb_classes s)" and "qok q"
    and "p + int lag' + int (length (backlog s i)) = cb_pending s + int lag + int (length (contents q))"
  shows "inv lag' ((set_queue i q s)\<lparr>cb_pending := p\<rparr>)"
proof -
  have m: "same_static s (set_queue i q s)" by (simp add: same_ident_def)
  have "length (concat (stored contents (set_queue i q s))) + length (backlog s i) =
      length (concat (stored contents s)) + length (contents q)"
    using length_concat_update [of i "stored contents s" "contents q"] assms(2) stored_set_queue [OF assms(2)]
    by (simp add: stored_def)
  moreover have "robin_ok (set_queue i q s)"
    using inv_parts [OF assms(1)] by (simp add: robin_ok_def nth_list_update_total)
  moreover have "\<forall>cs \<in> set (cb_classes (set_queue i q s)). qok (cs_queue cs)"
    using assms(1,3) by (auto simp: sched_ok_def dest: subsetD [OF set_update_subset_insert])
  moreover note same_static_static [OF m] inv_parts [OF assms(1)]
  ultimately show ?thesis
    using assms(1,4)
    by (simp add: sched_ok_def)
qed

text \<open>\<open>serve\<close> on a class that is ready: it never parks, hands out the front of that class up to the quantum, and
  charges the quantum; a failed or unwound one changes neither the contents nor the round robin.\<close>

definition quantum :: "int \<Rightarrow> ('s, 'a, 'w) CBWFQ \<Rightarrow> nat \<Rightarrow> int" where
  "quantum n s i = (if cs_priority (class_of s i) then n else min n (cs_deficit (class_of s i)))"

definition charged :: "nat \<Rightarrow> nat \<Rightarrow> ('s, 'a, 'w) CBWFQ \<Rightarrow> ('s, 'a, 'w) CBWFQ \<Rightarrow> bool" where
  "charged i k s t =
     (let d = cs_deficit (class_of s i) - int k; over = (d = 0 \<or> backlog t i = []) in
      cb_cursor t = (if over then (cb_cursor s + 1) mod length (cb_weighted s) else cb_cursor s) \<and>
      (\<forall>j < length (cb_classes s). cs_deficit (class_of t j) = (if j = i then if over then 0 else d else cs_deficit (class_of s j))))"

lemma settle_charged:
  assumes "inv lag s" and "i < length (cb_classes s)"
  shows "charged i n s (serve_settle ops i n s)"
  using assms
  by (auto simp: serve_settle_is [OF assms] charged_def Let_def nth_list_update_total)

lemma pop_take:
  assumes q: "qok q" and n: "1 \<le> n" and pop: "queue_Pop ops g c n (with_se se) [] (q, w) = (Done (Ret (xs, err)), q', w')"
  shows "qok q' \<and> contents q = xs @ contents q' \<and> xs = (if err = None then take (nat n) (contents q) else [])"
proof -
  have h: "handed_out (Done (Ret (xs, err))) = xs" by (simp add: handed_out_def)
  have e: "(\<exists>out. (Done (Ret (xs, err)) :: ('a list \<times> goerr option) attempt) = returns (out, None)) = (err = None)" by simp
  show ?thesis using pop_is [OF q n pop] unfolding h e .
qed

lemma popped:
  assumes inv: "inv lag s" and i: "i < length (cb_classes s)" and q: "qok q"
    and split: "backlog s i = xs @ contents q"
    and t: "t = sched_recordDepth ops i ((set_queue i q s)\<lparr>cb_pending := cb_pending s - int (length xs)\<rparr>)"
  shows "inv lag t" "frame s t" "unmoved s t" "backlog t i = contents q"
    and "j < length (cb_classes s) \<Longrightarrow> j \<noteq> i \<Longrightarrow> backlog t j = backlog s j"
proof -
  let ?s = "(set_queue i q s)\<lparr>cb_pending := cb_pending s - int (length xs)\<rparr>"
  have "inv lag ?s" using split by (intro inv_set_queue [OF inv i q]) simp
  note rd = this recordDepth_moved [OF this, of i]
  have same: "same_static s ?s" by (simp add: same_static_def same_ident_def list_all2_conv_all_nth nth_list_update_total)
  have m: "moved ?s t" "cb_cursor t = cb_cursor s" "\<And>j. cs_deficit (class_of t j) = cs_deficit (class_of s j)"
    using rd(2) i t by (auto simp: nth_list_update_total)
  show "inv lag t"
    using inv_parts [OF rd(1)] m
    by (intro moved_ok [OF m(1) rd(1)] robin_unmoved [of ?s t]) (auto simp: moved_def unmoved_def nth_list_update_total)
  show "frame s t" using same_static_trans [OF same] m(1) by (auto simp: frame_def moved_def)
  show "unmoved s t" using m by (simp add: unmoved_def)
  show "backlog t i = contents q" using moved_class [OF m(1)] i by simp
  show "backlog t j = backlog s j" if "j < length (cb_classes s)" "j \<noteq> i"
    using moved_class [OF m(1)] that by simp
qed

text \<open>What \<open>serve\<close> does to the class it serves.\<close>

definition served :: "int \<Rightarrow> nat \<Rightarrow> ('a list \<times> goerr option) attempt \<Rightarrow> ('s, 'a, 'w) CBWFQ \<Rightarrow> ('s, 'a, 'w) CBWFQ \<Rightarrow> bool" where
  "served n i r s t =
     (if \<exists>xs. r = returns (xs, None)
      then handed_out r = take (nat (quantum n s i)) (backlog s i) \<and>
        (if cs_priority (class_of s i) then unmoved s t else charged i (length (handed_out r)) s t)
      else handed_out r = [] \<and> unmoved s t)"

lemma serve_eq:
  assumes "inv lag s" and "i < length (cb_classes s)"
  shows "serve ops g c i n options (s, w) =
    (case queue_Pop ops g c (min (int (length (backlog s i))) (quantum n s i)) options [] (cs_queue (class_of s i), w) of
       (Parked, q, w1) \<Rightarrow> (Parked, set_queue i q s, w1)
     | (Done Unwinds, q, w1) \<Rightarrow> (Done Unwinds, set_queue i q s, w1)
     | (Done (Ret (items, err)), q, w1) \<Rightarrow>
         (let s4 = sched_recordDepth ops i ((set_queue i q s)\<lparr>cb_pending := cb_pending s - int (length items)\<rparr>)
          in if err \<noteq> None \<or> cs_priority (class_of s4 i) then (returns (items, err), s4, w1)
             else (returns (items, None), serve_settle ops i (length items) s4, w1)))"
proof -
  let ?k = "min (int (length (backlog s i))) (quantum n s i)"
  have k: "(if cs_priority (class_of s i) then min n (int (length (backlog s i)))
      else min (min n (int (length (backlog s i)))) (cs_deficit (class_of s i))) = ?k"
    by (simp add: quantum_def min_def)
  obtain p q w1 where pop: "queue_Pop ops g c ?k options [] (cs_queue (class_of s i), w) = (p, q, w1)"
    by (metis prod_cases3)
  show ?thesis
    unfolding serve_def prod.case class_Len_is [OF assms] Let_def k pop
    by (simp split: attempt.split outcome.split prod.split)
qed

lemma serve_ready:
  assumes serve: "serve ops g c i n (with_se se) (s, w) = (r, t, w')" and inv: "inv lag s" and ready: "ready s i" and n: "1 \<le> n"
  shows "inv lag t \<and> frame s t \<and> r \<noteq> Parked \<and> (\<forall>j < length (cb_classes s). j \<noteq> i \<longrightarrow> backlog t j = backlog s j) \<and>
    backlog s i = handed_out r @ backlog t i \<and> served n i r s t"
proof -
  let ?k = "min (int (length (backlog s i))) (quantum n s i)"
  have i: "i < length (cb_classes s)" "backlog s i \<noteq> []" using ready by (auto simp: ready_def)
  have k: "1 \<le> ?k" using ready n by (auto simp: ready_def quantum_def Suc_le_eq)
  note q = inv_qok [OF inv i(1)] and eq = serve_eq [OF inv i(1), of g c n "with_se se" w]
  have static: "sched_static s" using inv_parts [OF inv] by simp
  obtain p q' w1 where pop: "queue_Pop ops g c ?k (with_se se) [] (cs_queue (class_of s i), w) = (p, q', w1)"
    by (metis prod_cases3)
  consider (parked) "p = Parked" | (unwinds) "p = Done Unwinds" | (ret) xs err where "p = Done (Ret (xs, err))"
    by (metis attempt.exhaust outcome.exhaust surj_pair)
  then show ?thesis
  proof cases
    case parked
    then show ?thesis using pop_waits [OF q k pop [unfolded parked]] i by simp
  next
    case unwinds
    then have qs: "qok q'" "contents q' = backlog s i" using pop_is [OF q k pop] by (auto simp: handed_out_def)
    have rt: "r = Done Unwinds" "t = (set_queue i q' s)\<lparr>cb_pending := cb_pending s\<rparr>"
      using serve pop unwinds unfolding eq by auto
    have "inv lag t" unfolding rt by (rule inv_set_queue [OF inv i(1) qs(1)]) (simp add: qs)
    moreover have "frame s t" "unmoved s t"
      by (auto simp: rt frame_def unmoved_def same_static_def same_ident_def list_all2_conv_all_nth nth_list_update_total)
    ultimately show ?thesis using i qs by (auto simp: rt served_def handed_out_def)
  next
    case (ret xs err)
    let ?s4 = "sched_recordDepth ops i ((set_queue i q' s)\<lparr>cb_pending := cb_pending s - int (length xs)\<rparr>)"
    note pp = pop_take [OF q k pop [unfolded ret]]
    note s4 = popped [OF inv i(1) conjunct1 [OF pp] conjunct1 [OF conjunct2 [OF pp]] refl]
    have prio: "cs_priority (class_of ?s4 i) = cs_priority (class_of s i)"
      using s4(2) same_static_class i(1) by (auto simp: frame_def)
    have len: "length (cb_classes ?s4) = length (cb_classes s)" using s4(2) same_static_len by (auto simp: frame_def)
    note split = conjunct1 [OF conjunct2 [OF pp]]
    have nil: "err \<noteq> None \<Longrightarrow> xs = []" by (metis conjunct2 [OF conjunct2 [OF pp]])
    have tk: "take (nat ?k) (backlog s i) = take (nat (quantum n s i)) (backlog s i)" by (simp add: min_def)
    have xs: "err = None \<Longrightarrow> xs = take (nat (quantum n s i)) (backlog s i)"
      using conjunct2 [OF conjunct2 [OF pp]] tk by (simp only: simp_thms if_True)
    have h: "handed_out (Done (Ret (xs, err))) = xs" by (simp add: handed_out_def)
    have rt: "(r, t) = (if err \<noteq> None \<or> cs_priority (class_of s i) then (returns (xs, err), ?s4)
        else (returns (xs, err), serve_settle ops i (length xs) ?s4))"
      using serve pop ret unfolding eq by (auto simp: Let_def prio split: if_splits)
    show ?thesis
    proof (cases "err \<noteq> None \<or> cs_priority (class_of s i)")
      case True
      then have "r = Done (Ret (xs, err))" "t = ?s4" using rt by simp_all
      note rt = this
      have "served n i r s t"
        using xs nil s4(3) True h by (cases err) (simp_all add: served_def rt)
      then show ?thesis using s4 split h by (simp add: rt)
    next
      case False
      then have e: "err = None" "\<not> cs_priority (class_of s i)" by auto
      have rt: "r = Done (Ret (xs, err))" "t = serve_settle ops i (length xs) ?s4" using rt False by simp_all
      have w: "cb_weighted ?s4 = cb_weighted s" using s4(2) by (simp add: frame_def same_static_def)
      have d: "cs_deficit (class_of ?s4 i) = cs_deficit (class_of s i)" and cur: "i = at_cur ?s4"
        using s4(3) i(1) ready e w by (auto simp: unmoved_def ready_def)
      have lx: "length xs \<le> nat (quantum n s i)" using xs [OF e(1)] by simp
      have n4: "int (length xs) \<le> cs_deficit (class_of ?s4 i)"
        using ready e lx unfolding d by (auto simp: quantum_def ready_def le_nat_iff)
      have i4: "i < length (cb_classes ?s4)" "\<not> cs_priority (class_of ?s4 i)" using i(1) len e prio by auto
      note st = settle_ok [OF s4(1) i4 cur n4]
      have bl: "backlog t j = backlog ?s4 j" if "j < length (cb_classes s)" for j
        using st moved_class [of ?s4 t] len that by (simp add: rt)
      have "charged i (length xs) s t"
        using settle_charged [OF s4(1) i4(1), of "length xs"] s4(3) i(1) w d
        by (simp add: charged_def unmoved_def len rt Let_def)
      then have sv: "served n i r s t"
        using xs e h by (simp add: rt served_def)
      then show ?thesis
        using st s4 split bl i(1) sv h frame_trans [OF s4(2) moved_frame] by (simp add: rt)
    qed
  qed
qed

subsection \<open>Pull\<close>

lemma next_class_frame [simp]: "next_class contents (s\<lparr>cb_mu := b\<rparr>) = next_class contents s"
  by (simp add: next_class_def)

lemma inv_frame [simp]:
  "inv lag (s\<lparr>cb_mu := b\<rparr>) = inv lag s" "inv lag (s\<lparr>cb_met := m\<rparr>) = inv lag s" "inv lag (s\<lparr>cb_closed := b\<rparr>) = inv lag s"
  by (simp_all add: sched_ok_def)

lemma Pull_round_cases:
  assumes pull: "Pull_round ops g c n (with_se se) (s, w) = (r, t, w')" and inv: "inv lag s" and n: "1 \<le> n"
  obtains (stuck) "cb_mu s" "r = Stuck" "t = s" "w' = w"
  | (closed) "\<not> cb_mu s" "cb_closed s" "r = Finished (Ret ([], '''', err_closed))" "t = s" "w' = w"
  | (wait) s2 where "\<not> cb_mu s" "\<not> cb_closed s" "next_class contents s = None"
      "serveable ops (s\<lparr>cb_mu := True\<rparr>) = (None, s2)"
      "r = Waiting" "t = s2\<lparr>cb_sig := Wait_register g (cb_sig s2), cb_mu := False\<rparr>" "w' = w"
  | (serve) i s2 p s3 where "\<not> cb_mu s" "\<not> cb_closed s" "next_class contents s = Some i"
      "serveable ops (s\<lparr>cb_mu := True\<rparr>) = (Some i, s2)" "inv lag s2" "ready s2 i" "moved (s\<lparr>cb_mu := True\<rparr>) s2"
      "serve ops g c i n (with_se se) (s2, w) = (Done p, s3, w')"
      "r = (case p of Ret (xs, err) \<Rightarrow> Finished (Ret (xs, cs_name (class_of s i), err)) | Unwinds \<Rightarrow> Finished Unwinds)"
      "t = (case p of Ret _ \<Rightarrow> s3\<lparr>cb_mu := False\<rparr> | Unwinds \<Rightarrow> s3)"
proof -
  let ?s = "s\<lparr>cb_mu := True\<rparr>"
  have inv': "inv lag ?s" using inv by simp
  obtain o1 s2 where sv: "serveable ops ?s = (o1, s2)" by (metis surj_pair)
  note nx = serveable_next [OF sv inv']
  consider "cb_mu s" | "\<not> cb_mu s" "cb_closed s" | "\<not> cb_mu s" "\<not> cb_closed s" "o1 = None"
    | i where "\<not> cb_mu s" "\<not> cb_closed s" "o1 = Some i"
    by (metis option.exhaust)
  then show thesis
  proof cases
    case 1
    then show thesis using stuck pull by (simp add: Pull_round_def)
  next
    case 2
    have same: "s\<lparr>cb_mu := False\<rparr> = s" using 2 by simp
    have "r = Finished (Ret ([], [], err_closed)) \<and> t = s\<lparr>cb_mu := False\<rparr> \<and> w' = w"
      using 2 pull by (auto simp: Pull_round_def Let_def)
    then show thesis using 2 closed unfolding same by blast
  next
    case 3
    then show thesis using wait [of s2] pull sv nx by (simp add: Pull_round_def Let_def)
  next
    case (4 i)
    obtain p s3 w3 where se: "serve ops g c i n (with_se se) (s2, w) = (p, s3, w3)" by (metis prod_cases3)
    have ready: "ready s2 i" "inv lag s2" "moved ?s s2" "next_class contents s = Some i" using nx 4(3) by auto
    note sr = serve_ready [OF se ready(2,1) n]
    then obtain p1 where p: "p = Done p1" by (cases p) auto
    have "i < length (cb_classes s)"
      using ready(1,3) same_static_len [of ?s s2] by (simp add: ready_def moved_def)
    then have name: "cs_name (class_of s3 i) = cs_name (class_of s i)"
      using sr ready(1,3) same_static_class [of s2 s3 i] same_static_class [of ?s s2 i]
      by (simp add: frame_def ready_def moved_def)
    have w: "w3 = w'" using pull 4 sv se p by (auto simp: Pull_round_def Let_def split: outcome.splits prod.splits)
    show thesis
      by (rule serve [of i s2 p1 s3])
        (use 4 pull sv se ready p name w in \<open>auto simp: Pull_round_def Let_def split: outcome.splits prod.splits\<close>)
  qed
qed

text \<open>A call of \<open>Pull\<close> with no interference: the bracket only touches the telemetry.\<close>

lemma Pull_round_of_Pull:
  assumes "cbwfq_Pull ops g c n options [] (s, w) = (r, t, w')" and "1 \<le> n"
  obtains m t0 m' where "Pull_round ops g c n options (s\<lparr>cb_met := m\<rparr>, w) = (r, t0, w')" "t = t0\<lparr>cb_met := m'\<rparr>"
proof -
  obtain p t0 w0 where round: "Pull_round ops g c n options (s\<lparr>cb_met := sched_instrument SchedPull (cb_met s)\<rparr>, w) = (p, t0, w0)"
    by (metis prod_cases3)
  have same: "t0\<lparr>cb_met := cb_met t0\<rparr> = t0" by simp
  have "p = r \<and> w0 = w' \<and> (\<exists>m'. t = t0\<lparr>cb_met := m'\<rparr>)"
  proof (cases p)
    case (Finished x)
    then show ?thesis using assms round by (auto simp: cbwfq_Pull_def sched_bracket_def)
  qed (use assms round same in \<open>auto simp: cbwfq_Pull_def sched_bracket_def intro: exI [of _ "cb_met t0"]\<close>)
  then show thesis using that round by blast
qed

text \<open>What one \<open>Pull\<close> does, whatever way it ends.\<close>

definition pull_out :: "('a list \<times> string \<times> goerr option) progress \<Rightarrow> 'a list" where
  "pull_out r = (case r of Finished (Ret (xs, cl, e)) \<Rightarrow> xs | _ \<Rightarrow> [])"

lemma inv_register: "inv lag s \<Longrightarrow> inv lag (s\<lparr>cb_sig := Wait_register g (cb_sig s)\<rparr>)"
  by (simp add: sched_ok_def)

lemma Pull_round_inv:
  assumes "Pull_round ops g c n (with_se se) (s, w) = (r, t, w')" and inv: "inv lag s" and n: "1 \<le> n"
  shows "inv lag t \<and> same_static s t \<and> cb_closed t = cb_closed s"
  using assms
proof (cases rule: Pull_round_cases)
  case (wait s2)
  have "inv lag (s\<lparr>cb_mu := True\<rparr>)" using inv by simp
  from serveable_next [OF wait(4) this] inv_register [of lag s2 g] wait show ?thesis
    by (auto simp: moved_def same_static_def)
next
  case (serve i s2 p s3)
  have "same_static s s2" "cb_closed s2 = cb_closed s" using serve(7) by (auto simp: moved_def same_static_def)
  then show ?thesis
    using serve_ready [OF serve(8,5,6) n] same_static_trans [of s s2 s3] serve(10)
    by (auto simp: frame_def same_static_def split: outcome.splits)
qed (use inv in auto)

lemma Pull_inv:
  assumes "cbwfq_Pull ops g c n (with_se se) [] (s, w) = (r, t, w')" and inv: "inv lag s"
  shows "inv lag t \<and> same_static s t \<and> cb_closed t = cb_closed s"
proof (cases "n < 1")
  case True
  then show ?thesis using assms by (simp add: cbwfq_Pull_def)
next
  case False
  then have n: "1 \<le> n" by simp
  show ?thesis
    using assms(1) n
  proof (rule Pull_round_of_Pull)
    fix m t0 m'
    assume r: "Pull_round ops g c n (with_se se) (s\<lparr>cb_met := m\<rparr>, w) = (r, t0, w')" and t: "t = t0\<lparr>cb_met := m'\<rparr>"
    have "inv lag (s\<lparr>cb_met := m\<rparr>)" using inv by simp
    from Pull_round_inv [OF r this n] t show ?thesis by (simp add: same_static_def)
  qed
qed

subsection \<open>What one call of \<open>Pull\<close> hands out\<close>

lemma serveable_quantum:
  assumes sv: "serveable ops s = (Some i, t)" and inv: "inv lag s"
  shows "quantum n t i = grant n s i"
proof (cases "serveable_scan ops (length (cb_weighted s)) s = (Some i, t)")
  case False
  have p: "p < length (cb_classes s)" "cs_priority (class_of s p)" if "cb_priority s = Some p" for p
    using that sched_static_priority inv_parts [OF inv] by auto
  then have "t = s \<and> cb_priority s = Some i"
    using sv False by (auto simp: serveable_def class_Len_is [OF inv] split: option.splits if_splits)
  then show ?thesis using p by (auto simp: quantum_def grant_def)
next
  case True
  note nx = serveable_next [OF sv inv]
  have same: "same_static s t" and i: "i < length (cb_classes s)"
    using nx same_static_len [of s t] by (auto simp: moved_def ready_def)
  let ?J = "\<lambda>u. moved s u \<and> (\<forall>j < length (cb_classes s). backlog s j \<noteq> [] \<longrightarrow>
      cs_deficit (class_of u j) = cs_deficit (class_of s j) \<or>
      cs_deficit (class_of s j) = 0 \<and> cs_deficit (class_of u j) = cs_weight (class_of s j))"
  have "?J t \<and> inv lag t \<and> moved s t \<and>
    (\<forall>i'. Some i = Some i' \<longrightarrow> cb_weighted s \<noteq> [] \<and> i' = at_cur t \<and> backlog t i' \<noteq> [] \<and> 0 < cs_deficit (class_of t i'))"
  proof (rule scan_induct [OF True inv])
    fix u
    assume J: "?J u" and e: "backlog u (at_cur u) = []"
    have "moved u (advance (set_deficit (at_cur u) 0 u))"
      by (rule moved_trans [OF moved_upd moved_advance]) (simp add: same_ident_def)
    then have "moved s (advance (set_deficit (at_cur u) 0 u))" using J moved_trans by blast
    moreover have "j \<noteq> at_cur u" if "j < length (cb_classes s)" "backlog s j \<noteq> []" for j
      using J e that moved_class [of s u j] by auto
    ultimately show "?J (advance (set_deficit (at_cur u) 0 u))" using J by (simp add: nth_list_update_total)
  next
    fix u
    assume J: "?J u" and z: "cs_deficit (class_of u (at_cur u)) = 0" and "inv lag u" "cb_weighted u \<noteq> []"
    let ?v = "set_deficit (at_cur u) (cs_weight (class_of u (at_cur u))) u"
    have "moved u ?v" by (rule moved_upd) (simp add: same_ident_def)
    then have "moved s ?v" using J moved_trans by blast
    moreover have su: "same_static s u" using J by (simp add: moved_def)
    moreover have "1 \<le> cs_weight (class_of u (at_cur u))"
      using \<open>inv lag u\<close> \<open>cb_weighted u \<noteq> []\<close> inv_parts at_cursor sched_static_weight by blast
    ultimately show "?J ?v"
      using J z same_static_class [OF su] same_static_len [OF su] by (auto simp: nth_list_update_total)
  qed (auto intro: inv)
  then have t: "?J t" "0 < cs_deficit (class_of t i)" by auto
  then have "backlog s i \<noteq> []" using nx moved_class [of s t i] i by (auto simp: ready_def)
  then show ?thesis
    using t i same_static_class [OF same i] by (auto simp: quantum_def grant_def)
qed

lemma Pull_serves:
  assumes pull: "cbwfq_Pull ops g c n (with_se se) [] (s, w) = (r, t, w')" and inv: "inv lag s" and n: "1 \<le> n"
    and run: "\<not> cb_mu s" "\<not> cb_closed s"
  shows "case next_class contents s of
      None \<Rightarrow> r = Waiting \<and> stored contents t = stored contents s
    | Some i \<Rightarrow>
        (\<exists>xs. r = Finished (Ret (xs, cs_name (class_of s i), None)) \<and> xs \<noteq> [] \<and> xs = take (nat (grant n s i)) (backlog s i) \<and>
           backlog t i = drop (nat (grant n s i)) (backlog s i)) \<or>
        (\<exists>e. r = Finished (Ret ([], cs_name (class_of s i), Some e))) \<and> stored contents t = stored contents s \<or>
        r = Finished Unwinds \<and> stored contents t = stored contents s"
  using pull n
proof (rule Pull_round_of_Pull)
  fix m t0 m'
  assume round: "Pull_round ops g c n (with_se se) (s\<lparr>cb_met := m\<rparr>, w) = (r, t0, w')" and t: "t = t0\<lparr>cb_met := m'\<rparr>"
  have nx: "next_class contents (s\<lparr>cb_met := m\<rparr>) = next_class contents s" by (simp add: next_class_def)
  have "inv lag (s\<lparr>cb_met := m\<rparr>)" using inv by simp
  with round show ?thesis using n
  proof (cases rule: Pull_round_cases)
    case (wait s2)
    have "inv lag (s\<lparr>cb_met := m, cb_mu := True\<rparr>)" using inv by simp
    then have "moved (s\<lparr>cb_met := m, cb_mu := True\<rparr>) s2" using serveable_next [OF wait(4)] by simp
    from moved_stored [OF this, of contents] wait nx t show ?thesis by simp
  next
    case (serve i s2 p s3)
    let ?s = "s\<lparr>cb_met := m, cb_mu := True\<rparr>"
    have inv2: "inv lag ?s" using inv by simp
    note sr = serve_ready [OF serve(8,5,6) n] and q = serveable_quantum [OF serve(4) inv2, of n]
    have gr: "grant n ?s i = grant n s i" by (simp add: grant_def)
    have len: "length (cb_classes s2) = length (cb_classes s)" "length (cb_classes s3) = length (cb_classes s2)"
      using serve(7) sr same_static_len [of ?s s2] same_static_len [of s2 s3] by (simp_all add: moved_def frame_def)
    have i: "i < length (cb_classes s)" using serve(6) len by (simp add: ready_def)
    have bl: "backlog s2 j = backlog s j" if "j < length (cb_classes s)" for j using moved_class [OF serve(7)] that by simp
    have t3: "cb_classes t = cb_classes s3" using t serve(10) by (simp split: outcome.splits)
    have same: "stored contents t = stored contents s" if "handed_out (Done p) = []"
    proof (rule nth_equalityI)
      show "stored contents t ! j = stored contents s ! j" if "j < length (stored contents t)" for j
        using that sr bl [of j] len \<open>handed_out (Done p) = []\<close> by (cases "j = i") (simp_all add: stored_def t3)
    qed (simp add: stored_def t3 len)
    have sv: "served n i (Done p) s2 s3" and split: "backlog s2 i = handed_out (Done p) @ backlog s3 i"
      using sr by blast+
    consider (ok) xs where "p = Ret (xs, None)" | (err) xs e where "p = Ret (xs, Some e)" | (unw) "p = Unwinds"
      by (metis outcome.exhaust option.exhaust surj_pair)
    then show ?thesis
    proof cases
      case ok
      then have xs: "xs = take (nat (grant n s i)) (backlog s i)"
        using sv q gr bl [OF i] by (simp add: served_def handed_out_def)
      moreover have "backlog s i = xs @ backlog s3 i" using split bl [OF i] ok by (simp add: handed_out_def)
      then have "backlog s3 i = drop (nat (grant n s i)) (backlog s i)"
        using xs by (metis append_same_eq append_take_drop_id same_append_eq)
      moreover have "xs \<noteq> []"
        using xs n serve(6) q gr bl [OF i] by (auto simp: ready_def quantum_def split: if_splits)
      ultimately show ?thesis using serve(3,9) nx ok t3 by simp
    next
      case err
      then have "handed_out (Done p) = []" "xs = []" using sv by (auto simp: served_def handed_out_def)
      then show ?thesis using serve(3,9) nx err same by simp
    next
      case unw
      then show ?thesis using serve(3,9) nx same by (simp add: handed_out_def)
    qed
  qed (use run in auto)
qed

subsection \<open>Push\<close>

lemma route_bound: "inv lag s \<Longrightarrow> route s v = Some i \<Longrightarrow> i < length (cb_classes s)"
  by (auto simp: route_def sched_ok_def sched_static_def bind_eq_Some_conv split: option.splits)

lemma Push_enqueue_effect:
  assumes push: "Push_enqueue ops g c v (with_se se) [] (s, w) = (res, t, w')" and inv: "inv lag s" and room: "\<And>q. room q"
  shows "same_static s t \<and> cb_closed t = cb_closed s \<and> cb_mu t = cb_mu s \<and> cb_sig t = cb_sig s \<and> unmoved s t \<and>
    (case res of
       Inl p \<Rightarrow> inv lag t \<and> stored contents t = stored contents s \<and> p \<noteq> Stuck \<and> p \<noteq> Finished (Ret None)
     | Inr (i, err) \<Rightarrow> inv (Suc lag) t \<and> err = None \<and> route s v = Some i \<and>
         grows v (backlog s i) (backlog t i) \<and>
         (\<forall>j < length (cb_classes s). j \<noteq> i \<longrightarrow> backlog t j = backlog s j))"
proof (cases "route s v")
  case None
  then show ?thesis
    using push inv by (auto simp: Push_enqueue_def route_def unmoved_def split: option.splits)
next
  case (Some i)
  note i = route_bound [OF inv Some]
  obtain r q w1 where qp: "queue_Push ops g c [v] (with_se se) [] (cs_queue (class_of s i), w) = (r, q, w1)"
    by (metis prod_cases3)
  note ps = push_is [OF inv_qok [OF inv i] room qp]
  have t: "t = set_queue i q s"
    using push Some qp
    by (auto simp: Push_enqueue_def route_def bind_eq_Some_conv split: option.splits attempt.splits outcome.splits bool.splits)
  have res: "res = (case r of Done (Ret (True, err)) \<Rightarrow> Inr (i, err) | Done (Ret (False, err)) \<Rightarrow> Inl (Finished (Ret err))
      | Done Unwinds \<Rightarrow> Inl (Finished Unwinds) | Parked \<Rightarrow> Inl Waiting)"
    using push Some qp
    by (auto simp: Push_enqueue_def route_def bind_eq_Some_conv split: option.splits attempt.splits outcome.splits bool.splits)
  have same: "(set_queue i q s)\<lparr>cb_pending := cb_pending s\<rparr> = set_queue i q s" by (simp add: upd_class_def)
  have frame: "same_static s t \<and> cb_closed t = cb_closed s \<and> cb_mu t = cb_mu s \<and> cb_sig t = cb_sig s \<and> unmoved s t"
    by (auto simp: t same_ident_def unmoved_def nth_list_update_total)
  show ?thesis
  proof (cases "r = returns (True, None)")
    case True
    have m: "grows v (backlog s i) (contents q)" using ps True by simp
    have "inv (Suc lag) t"
      using inv_set_queue [OF inv i conjunct1 [OF ps], of "cb_pending s" "Suc lag"] arg_cong [OF grows_mset [OF m], of size] unfolding same t by simp
    then show ?thesis using frame m i by (simp add: res True Some t)
  next
    case False
    then have c: "contents q = backlog s i" using ps by simp
    have "inv lag t" using inv_set_queue [OF inv i conjunct1 [OF ps], of "cb_pending s" lag] c unfolding same t by simp
    moreover have "stored contents t = stored contents s"
      using stored_set_queue [OF i, of q] i by (simp add: t c) (simp add: stored_def list_update_same_conv)
    ultimately show ?thesis
      using frame False ps by (auto simp: res split: attempt.splits outcome.splits bool.splits)
  qed
qed

lemma Push_commit_effect:
  assumes "Push_commit ops i err (s, w) = (r, t, w')" and inv: "inv (Suc lag) s" and i: "i < length (cb_classes s)"
  shows "same_static s t \<and> cb_closed t = cb_closed s \<and> cb_mu t = cb_mu s \<and> unmoved s t \<and>
    stored contents t = stored contents s \<and> w' = w \<and>
    (if cb_mu s then r = Stuck \<and> t = s else r = Finished (Ret err) \<and> inv lag t \<and> sig_parkers (cb_sig t) = [])"
proof (cases "cb_mu s")
  case True
  then show ?thesis using assms by (simp add: Push_commit_def unmoved_def)
next
  case False
  let ?s = "s\<lparr>cb_mu := True, cb_pending := cb_pending s + 1\<rparr>"
  have inv': "inv lag ?s" using inv by (simp add: sched_ok_def)
  note rd = recordDepth_moved [OF inv', of i]
  let ?t = "sched_recordDepth ops i ?s"
  have t: "t = ?t\<lparr>cb_sig := signal_gated (cb_sig ?t), cb_mu := False\<rparr>" "r = Finished (Ret err)" "w' = w"
    using assms(1) False by (auto simp: Push_commit_def Let_def)
  have m: "moved ?s ?t" "unmoved ?s ?t" using rd i by (auto simp: unmoved_def)
  have inv_t: "inv lag ?t"
    using m inv_parts [OF inv'] by (intro moved_ok [OF m(1) inv'] robin_unmoved [of ?s ?t]) (auto simp: moved_def)
  have "same_static s ?s" "same_static ?t t" by (auto simp: t same_static_def list_all2_refl)
  then have "same_static s t" using m(1) unfolding moved_def by (blast intro: same_static_trans)
  moreover have "inv lag t" using inv_t by (simp add: t sched_ok_def)
  moreover have "sig_ok (cb_sig ?t)" using inv_t by (simp add: sched_ok_def)
  ultimately show ?thesis
    using False m moved_stored [OF m(1), of contents] by (simp add: t moved_def unmoved_def)
qed

end

end
