(* ===== verification/Scheduler_Setup.thy ===== *)
theory Scheduler_Setup
  imports Class_Scheduling
begin

text \<open>
  The constructor of the scheduler: which class lists \<open>New\<close> of \<open>cbwfq.go\<close> accepts, the state it builds, and that
  this state satisfies the invariant of theory \<open>Class_Scheduling\<close>.
\<close>

section \<open>Accepted class lists\<close>

text \<open>The documented conditions.\<close>

definition class_valid :: "('s, 'a, 'w) Class \<Rightarrow> bool" where
  "class_valid c = (cl_Name c \<noteq> '''' \<and> cl_Queue c \<noteq> None \<and> (cl_Priority c \<or> 1 \<le> cl_Weight c))"

definition classes_valid :: "('s, 'a, 'w) Class list \<Rightarrow> bool" where
  "classes_valid classes =
     (classes \<noteq> [] \<and> distinct (map cl_Name classes) \<and> list_all class_valid classes \<and>
      length (filter cl_Default classes) = 1 \<and> length (filter cl_Priority classes) \<le> 1)"

section \<open>The state built by the loop\<close>

definition class_entry :: "('s, 'a, 'w) backing \<Rightarrow> ('s, 'a, 'w) Class \<Rightarrow> ('s, 'a, 'w) classState" where
  "class_entry ops c = \<lparr>cs_name = cl_Name c, cs_weight = cl_Weight c, cs_queue = snd (queue_Len ops (the (cl_Queue c))),
     cs_priority = cl_Priority c, cs_deficit = 0, cs_lastDepth = 0\<rparr>"

fun last_index :: "('x \<Rightarrow> bool) \<Rightarrow> nat \<Rightarrow> 'x list \<Rightarrow> nat option" where
  "last_index P k [] = None"
| "last_index P k (x # xs) = (case last_index P (Suc k) xs of Some i \<Rightarrow> Some i | None \<Rightarrow> if P x then Some k else None)"

lemma last_index_append [simp]: "last_index P k (xs @ [x]) = (if P x then Some (k + length xs) else last_index P k xs)"
  by (induction xs arbitrary: k) auto

lemma last_index_Some: "last_index P k xs = Some i \<Longrightarrow> k \<le> i \<and> i < k + length xs \<and> P (xs ! (i - k))"
proof (induction xs arbitrary: k)
  case (Cons x xs)
  then show ?case
    by (cases "last_index P (Suc k) xs") (force split: if_splits simp: nth_Cons')+
qed simp

lemma last_index_None: "last_index P k xs = None \<longleftrightarrow> filter P xs = []"
  by (induction xs arbitrary: k) (auto split: option.splits)

lemma last_index_unique:
  assumes "length (filter P xs) \<le> 1"
  shows "last_index P 0 xs = Some i \<longleftrightarrow> i < length xs \<and> P (xs ! i)"
proof
  assume "last_index P 0 xs = Some i"
  then show "i < length xs \<and> P (xs ! i)" using last_index_Some [of P 0 xs i] by simp
next
  assume i: "i < length xs \<and> P (xs ! i)"
  then have "xs ! i \<in> set (filter P xs)" by simp
  then have "filter P xs \<noteq> []" by (metis list.set(1) empty_iff)
  then obtain j where j: "last_index P 0 xs = Some j" using last_index_None [of P 0 xs] by auto
  then have jj: "j < length xs" "P (xs ! j)" using last_index_Some [of P 0 xs j] by auto
  have "card {k. k < length xs \<and> P (xs ! k)} \<le> 1" using assms by (simp add: length_filter_conv_card)
  moreover have "{i, j} \<subseteq> {k. k < length xs \<and> P (xs ! k)}" using i jj by auto
  ultimately have "card {i, j} \<le> 1" using card_mono [of "{k. k < length xs \<and> P (xs ! k)}" "{i, j}"] by simp
  then have "i = j" by (cases "i = j") auto
  then show "last_index P 0 xs = Some i" using j by simp
qed

text \<open>What the loop has built after the classes \<open>pre\<close>.\<close>

definition built :: "('s, 'a, 'w) backing \<Rightarrow> ('a \<Rightarrow> string option) \<Rightarrow> ('s, 'a, 'w) Class list \<Rightarrow>
    ('s, 'a, 'w) CBWFQ \<times> int \<times> int \<times> int" where
  "built ops f pre =
     (\<lparr>cb_mu = False, cb_classifier = f, cb_classes = map (class_entry ops) pre,
       cb_byName = (\<lambda>nm. last_index (\<lambda>c. cl_Name c = nm) 0 pre),
       cb_weighted = filter (\<lambda>i. \<not> cl_Priority (pre ! i)) [0..<length pre], cb_cursor = 0,
       cb_priority = last_index cl_Priority 0 pre, cb_def = last_index cl_Default 0 pre, cb_pending = 0,
       cb_closed = False, cb_sig = NewSignal, cb_met = None\<rparr>,
      int (length (filter cl_Default pre)), int (length (filter cl_Priority pre)),
      sum_list (map (\<lambda>c. fst (queue_Len ops (the (cl_Queue c)))) pre))"

lemma New_class_built:
  "New_class ops c (built ops f pre) =
     (if class_valid c \<and> cl_Name c \<notin> cl_Name ` set pre then Inr (built ops f (pre @ [c])) else Inl (Errorf []))"
proof -
  have known: "last_index (\<lambda>d. cl_Name d = nm) 0 pre \<noteq> None \<longleftrightarrow> nm \<in> cl_Name ` set pre" for nm
    by (auto simp: last_index_None filter_empty_conv)
  have byName: "(\<lambda>nm. last_index (\<lambda>d. cl_Name d = nm) 0 pre)(cl_Name c \<mapsto> length pre) =
      (\<lambda>nm. last_index (\<lambda>d. cl_Name d = nm) 0 (pre @ [c]))"
    by (rule ext) auto
  have w: "filter (\<lambda>i. \<not> cl_Priority ((pre @ [c]) ! i)) [0..<length pre] = filter (\<lambda>i. \<not> cl_Priority (pre ! i)) [0..<length pre]"
    by (rule filter_cong) (auto simp: nth_append)
  show ?thesis
    using known [of "cl_Name c"] byName w
    by (auto simp: New_class_def built_def class_valid_def Let_def class_entry_def split: option.splits prod.splits)
qed

lemma New_classes_built:
  "New_classes ops cs (built ops f pre) =
     (if list_all class_valid cs \<and> distinct (map cl_Name cs) \<and> cl_Name ` set cs \<inter> cl_Name ` set pre = {}
      then Inr (built ops f (pre @ cs)) else Inl (Errorf []))"
proof (induction cs arbitrary: pre)
  case (Cons c cs)
  then show ?case by (auto simp: New_class_built)
qed simp

lemma cbwfq_New_eq:
  "cbwfq_New ops named classifier classes =
     (case classifier of None \<Rightarrow> Inl (Errorf [])
      | Some f \<Rightarrow>
          if classes_valid classes
          then (case built ops f classes of (s, d, p, tot) \<Rightarrow>
                  Inr (s\<lparr>cb_pending := tot, cb_met := (if named then Some newSchedMetrics else None)\<rparr>))
          else Inl (Errorf []))"
proof (cases classifier)
  case (Some f)
  have start: "(\<lparr>cb_mu = False, cb_classifier = f, cb_classes = [], cb_byName = Map.empty, cb_weighted = [],
      cb_cursor = 0, cb_priority = None, cb_def = None, cb_pending = 0, cb_closed = False,
      cb_sig = NewSignal, cb_met = None\<rparr>, 0, 0, 0) = built ops f []"
    by (simp add: built_def)
  show ?thesis
    unfolding cbwfq_New_def Some option.case start Let_def New_classes_built
    by (cases "filter cl_Default classes") (auto simp: classes_valid_def built_def)
qed (simp add: cbwfq_New_def)

section \<open>The invariant holds\<close>

context class_queue
begin

lemma New_inv:
  assumes "cbwfq_New ops named classifier classes = Inr s" and "\<forall>cl \<in> set classes. \<forall>q. cl_Queue cl = Some q \<longrightarrow> qok q"
  shows "inv 0 s \<and> cb_cursor s = 0 \<and> (\<forall>i < length (cb_classes s). cs_deficit (class_of s i) = 0) \<and> \<not> cb_mu s \<and> \<not> cb_closed s \<and>
    length (cb_classes s) = length classes \<and>
    (\<forall>i < length classes. cs_name (class_of s i) = cl_Name (classes ! i) \<and> cs_weight (class_of s i) = cl_Weight (classes ! i) \<and>
       cs_priority (class_of s i) = cl_Priority (classes ! i) \<and> Some (cs_queue (class_of s i)) = cl_Queue (classes ! i))"
proof -
  from assms(1) obtain f where f: "classifier = Some f" "classes_valid classes"
    and s: "s = (fst (built ops f classes))\<lparr>cb_pending := snd (snd (snd (built ops f classes))), cb_met := (if named then Some newSchedMetrics else None)\<rparr>"
    by (auto simp: cbwfq_New_eq split: option.splits if_splits prod.splits)
  have valid: "\<And>c. c \<in> set classes \<Longrightarrow> class_valid c" and dist: "distinct (map cl_Name classes)"
    using f(2) by (auto simp: classes_valid_def list_all_iff)
  have qs: "qok (the (cl_Queue c))" "Some (the (cl_Queue c)) = cl_Queue c" if "c \<in> set classes" for c
    using valid [OF that] assms(2) that by (auto simp: class_valid_def)
  have entry: "cs_queue (class_entry ops c) = the (cl_Queue c)" if "c \<in> set classes" for c
    using qs [OF that] by (simp add: class_entry_def len_is)
  have cl: "cb_classes s = map (class_entry ops) classes" by (simp add: s built_def)
  have n: "length (filter (\<lambda>c. cl_Name c = nm) classes) \<le> 1" for nm
    using dist by (induction classes) (fastforce simp: filter_empty_conv image_iff)+
  have static: "sched_static s"
  proof -
    have "\<exists>d < length classes. last_index cl_Default 0 classes = Some d"
      using f(2) last_index_None [of cl_Default 0 classes] last_index_Some [of cl_Default 0 classes]
      by (cases "last_index cl_Default 0 classes") (auto simp: classes_valid_def)
    moreover have "length (filter cl_Priority classes) \<le> 1" using f(2) by (simp add: classes_valid_def)
    moreover have "1 \<le> cl_Weight (classes ! i)" if "i < length classes" "\<not> cl_Priority (classes ! i)" for i
      using valid [of "classes ! i"] that by (simp add: class_valid_def)
    moreover have "filter (\<lambda>i. \<not> cs_priority (map (class_entry ops) classes ! i)) [0..<length classes] =
        filter (\<lambda>i. \<not> cl_Priority (classes ! i)) [0..<length classes]"
      by (rule filter_cong) (auto simp: class_entry_def)
    ultimately show ?thesis
      unfolding sched_static_def
      by (intro conjI allI ballI;
          simp add: s built_def last_index_unique [OF n] last_index_unique class_entry_def cong: conj_cong)
  qed
  have "cs_deficit (class_of s i) = 0 \<and> 0 \<le> cs_weight (class_of s i)" if "i \<in> set (cb_weighted s)" for i
    using that sched_static_weight [OF static that] sched_static_weighted [OF static, of i] by (simp add: cl class_entry_def)
  moreover have "cb_cursor s = 0" by (simp add: s built_def)
  ultimately have "robin_ok s" by (simp add: robin_ok_def)
  moreover have "\<forall>cs \<in> set (cb_classes s). qok (cs_queue cs)" using entry qs by (auto simp: cl)
  moreover have "cb_pending s = int (length (concat (stored contents s)))"
  proof -
    have "sum_list (map (\<lambda>c. fst (queue_Len ops (the (cl_Queue c)))) cs) =
        int (length (concat (map (\<lambda>c. contents (the (cl_Queue c))) cs)))" if "set cs \<subseteq> set classes" for cs
      using that qs(1) by (induction cs) (auto simp: len_is)
    moreover have "stored contents s = map (\<lambda>c. contents (the (cl_Queue c))) classes"
      using entry by (simp add: stored_def cl)
    ultimately show ?thesis by (simp add: s built_def)
  qed
  ultimately have "inv 0 s" using static by (simp add: sched_ok_def) (simp add: s built_def)
  moreover have "\<forall>i < length classes. cs_name (class_of s i) = cl_Name (classes ! i) \<and> cs_weight (class_of s i) = cl_Weight (classes ! i) \<and>
       cs_priority (class_of s i) = cl_Priority (classes ! i) \<and> Some (cs_queue (class_of s i)) = cl_Queue (classes ! i)"
    using entry qs by (auto simp: cl) (auto simp: class_entry_def)
  ultimately show ?thesis by (simp add: cl) (auto simp: s built_def class_entry_def)
qed

end

end
