(* ===== verification/Fair_Shares.thy ===== *)
theory Fair_Shares
  imports Scheduler_Setup
begin

text \<open>
  Runs of the scheduler of theory \<open>CBWFQ\<close>: a client that pushes and pulls one call after the other. The lemmas
  are the guarantees of deficit weighted round robin (a class that is never empty gets its weight in every round,
  no class gets more) and that no item is lost, duplicated or moved to another class.
\<close>

section \<open>Runs\<close>

datatype 'a scmd = PushItem 'a | PullUpTo int

text \<open>What a call of \<open>Pull\<close> handed out, with the class it named.\<close>

definition pulled :: "('a list \<times> string \<times> goerr option) progress \<Rightarrow> (string \<times> 'a list) list" where
  "pulled r = (case r of Finished (Ret (xs, cl, e)) \<Rightarrow> if xs = [] then [] else [(cl, xs)] | _ \<Rightarrow> [])"

text \<open>Each call runs on a goroutine of its own, with or without a side effect; a call that waits or is stuck
  stays so. The result is the log of what was handed out.\<close>

fun run_sched :: "('s, 'a, 'w) backing \<Rightarrow> 'w ctx \<Rightarrow> (nat \<times> 'a scmd \<times> 'w call option) list \<Rightarrow>
    ('s, 'a, 'w) CBWFQ \<times> 'w \<Rightarrow> (string \<times> 'a list) list \<times> ('s, 'a, 'w) CBWFQ \<times> 'w" where
  "run_sched ops c [] sw = ([], sw)"
| "run_sched ops c ((g, PushItem v, se) # cs) sw =
     (case cbwfq_Push ops g c v (with_se se) [] id sw of (r, sw1) \<Rightarrow> run_sched ops c cs sw1)"
| "run_sched ops c ((g, PullUpTo n, se) # cs) sw =
     (case cbwfq_Pull ops g c n (with_se se) [] sw of (r, sw1) \<Rightarrow>
       (case run_sched ops c cs sw1 of (out, sw2) \<Rightarrow> (pulled r @ out, sw2)))"

text \<open>A whole call of \<open>Push\<close>. The item is in the queue of its class if the call returned nil, and if it is stuck before
  its second section.\<close>

definition accepted :: "goerr option progress \<Rightarrow> bool" where
  "accepted r = (case r of Finished (Ret None) \<Rightarrow> True | Stuck \<Rightarrow> True | _ \<Rightarrow> False)"

text \<open>What the pushes of a run put where: the class and the item, in order.\<close>

fun run_ins :: "('s, 'a, 'w) backing \<Rightarrow> 'w ctx \<Rightarrow> (nat \<times> 'a scmd \<times> 'w call option) list \<Rightarrow>
    ('s, 'a, 'w) CBWFQ \<times> 'w \<Rightarrow> (nat \<times> 'a) list" where
  "run_ins ops c [] sw = []"
| "run_ins ops c ((g, PushItem v, se) # cs) sw =
     (case cbwfq_Push ops g c v (with_se se) [] id sw of (r, sw1) \<Rightarrow>
       (if accepted r then (case route (fst sw) v of Some i \<Rightarrow> [(i, v)] | None \<Rightarrow> []) else []) @ run_ins ops c cs sw1)"
| "run_ins ops c ((g, PullUpTo n, se) # cs) sw =
     run_ins ops c cs (snd (cbwfq_Pull ops g c n (with_se se) [] sw))"

definition into :: "nat \<Rightarrow> (nat \<times> 'a) list \<Rightarrow> 'a list" where
  "into i ins = map snd (filter (\<lambda>x. fst x = i) ins)"

lemma into_simps [simp]: "into i [] = []" "into i (xs @ ys) = into i xs @ into i ys" "into i [(j, v)] = (if j = i then [v] else [])"
  by (simp_all add: into_def)

text \<open>The states between the calls, the first one included.\<close>

fun sched_states :: "('s, 'a, 'w) backing \<Rightarrow> 'w ctx \<Rightarrow> (nat \<times> 'a scmd \<times> 'w call option) list \<Rightarrow>
    ('s, 'a, 'w) CBWFQ \<times> 'w \<Rightarrow> ('s, 'a, 'w) CBWFQ list" where
  "sched_states ops c [] sw = [fst sw]"
| "sched_states ops c ((g, PushItem v, se) # cs) sw =
     fst sw # sched_states ops c cs (snd (cbwfq_Push ops g c v (with_se se) [] id sw))"
| "sched_states ops c ((g, PullUpTo n, se) # cs) sw =
     fst sw # sched_states ops c cs (snd (cbwfq_Pull ops g c n (with_se se) [] sw))"

text \<open>The items of one class in a log.\<close>

definition out_of :: "string \<Rightarrow> (string \<times> 'a list) list \<Rightarrow> 'a list" where
  "out_of nm out = concat (map snd (filter (\<lambda>x. fst x = nm) out))"

lemma out_of_simps [simp]: "out_of nm [] = []" "out_of nm (xs @ ys) = out_of nm xs @ out_of nm ys"
  by (simp_all add: out_of_def)

section \<open>Fair shares\<close>

text \<open>
  What class number \<open>k\<close> of the round robin has been handed out when \<open>m\<close> rounds are over and the cursor is at
  \<open>c\<close>: its weight for each round and for this one if the cursor is past it, and what it has used of its
  quantum if the cursor is at it.
\<close>

definition share :: "int \<Rightarrow> nat \<Rightarrow> int \<Rightarrow> int \<Rightarrow> nat \<Rightarrow> int" where
  "share m c weight deficit k =
     (m + (if k < c then 1 else 0)) * weight + (if k = c \<and> 0 < deficit then weight - deficit else 0)"

lemma share_bounds:
  assumes "0 \<le> d" "d \<le> w"
  shows "m * w \<le> share m c w d k" "share m c w d k \<le> (m + 1) * w"
  using assms by (auto simp: share_def algebra_simps)

lemma share_advance:
  assumes "c < n" "k < n"
  shows "share (if Suc c = n then m + 1 else m) (Suc c mod n) w 0 k = (if k = c then (m + 1) * w else share m c w 0 k)"
  using assms by (auto simp: share_def)

text \<open>The classes have at most their share, and those in \<open>B\<close> at least theirs.\<close>

definition fair_at :: "(nat \<Rightarrow> int) \<Rightarrow> nat set \<Rightarrow> int \<Rightarrow> ('s, 'a, 'w) CBWFQ \<Rightarrow> bool" where
  "fair_at S B m s =
     (\<forall>k < length (cb_weighted s).
        let i = cb_weighted s ! k;
            x = share m (cb_cursor s) (cs_weight (class_of s i)) (cs_deficit (class_of s i)) k
        in S i \<le> x \<and> (i \<in> B \<longrightarrow> x \<le> S i))"

lemma fair_advance:
  assumes st: "sched_static s" "robin_ok s" "cb_weighted s \<noteq> []" and same: "same_static s t" and fair: "fair_at S B m s"
    and cur: "cb_cursor t = Suc (cb_cursor s) mod length (cb_weighted s)"
    and def: "\<And>j. j \<in> set (cb_weighted s) \<Longrightarrow> cs_deficit (class_of t j) = (if j = at_cur s then 0 else cs_deficit (class_of s j))"
    and S': "\<And>j. j \<in> set (cb_weighted s) \<Longrightarrow> j \<noteq> at_cur s \<Longrightarrow> S' j = S j"
    and up: "S' (at_cur s) \<le> (m + 1) * cs_weight (class_of s (at_cur s))"
    and low: "at_cur s \<in> B \<Longrightarrow> (m + 1) * cs_weight (class_of s (at_cur s)) \<le> S' (at_cur s)"
  shows "\<exists>m. fair_at S' B m t"
proof -
  let ?n = "length (cb_weighted s)" and ?m = "if Suc (cb_cursor s) = length (cb_weighted s) then m + 1 else m"
  have w: "cb_weighted t = cb_weighted s" using same by (simp add: same_static_def)
  have c: "cb_cursor s < ?n" using st by (simp add: robin_ok_def)
  have "S' i \<le> share ?m (cb_cursor t) (cs_weight (class_of t i)) (cs_deficit (class_of t i)) k \<and>
      (i \<in> B \<longrightarrow> share ?m (cb_cursor t) (cs_weight (class_of t i)) (cs_deficit (class_of t i)) k \<le> S' i)"
    if k: "k < ?n" and i: "i = cb_weighted s ! k" for k i
  proof -
    have iw: "i \<in> set (cb_weighted s)" using k i by simp
    then have "i < length (cb_classes s)" using sched_static_weighted [OF st(1)] by simp
    then have wt: "cs_weight (class_of t i) = cs_weight (class_of s i)" using same_static_class [OF same] by simp
    have cmp: "i = at_cur s \<longleftrightarrow> k = cb_cursor s"
      using nth_eq_iff_index_eq [OF sched_static_distinct [OF st(1)] k c] i by simp
    have zero: "k \<noteq> cb_cursor s \<Longrightarrow> cs_deficit (class_of s i) = 0" using st(2) iw cmp by (auto simp: robin_ok_def)
    have old: "S i \<le> share m (cb_cursor s) (cs_weight (class_of s i)) (cs_deficit (class_of s i)) k \<and>
        (i \<in> B \<longrightarrow> share m (cb_cursor s) (cs_weight (class_of s i)) (cs_deficit (class_of s i)) k \<le> S i)"
      using fair k i by (simp add: fair_at_def Let_def)
    show ?thesis
      using share_advance [OF c k, of m "cs_weight (class_of s i)"] old zero def [OF iw] cmp up low S' [OF iw] cur wt
      by (cases "k = cb_cursor s") auto
  qed
  then show ?thesis unfolding fair_at_def Let_def w by blast
qed

lemma fair_pay:
  assumes st: "sched_static s" "robin_ok s" and same: "same_static s t" and fair: "fair_at S B m s"
    and cur: "cb_cursor t = cb_cursor s"
    and def: "\<And>j. j \<in> set (cb_weighted s) \<Longrightarrow> cs_deficit (class_of t j) = (if j = at_cur s then d else cs_deficit (class_of s j))"
    and S': "\<And>j. j \<in> set (cb_weighted s) \<Longrightarrow> j \<noteq> at_cur s \<Longrightarrow> S' j = S j"
    and pay: "S' (at_cur s) = S (at_cur s) + (if 0 < d then cs_weight (class_of s (at_cur s)) - d else 0) -
       (if 0 < cs_deficit (class_of s (at_cur s)) then cs_weight (class_of s (at_cur s)) - cs_deficit (class_of s (at_cur s)) else 0)"
  shows "fair_at S' B m t"
proof -
  let ?n = "length (cb_weighted s)"
  have w: "cb_weighted t = cb_weighted s" using same by (simp add: same_static_def)
  have "S' i \<le> share m (cb_cursor t) (cs_weight (class_of t i)) (cs_deficit (class_of t i)) k \<and>
      (i \<in> B \<longrightarrow> share m (cb_cursor t) (cs_weight (class_of t i)) (cs_deficit (class_of t i)) k \<le> S' i)"
    if k: "k < ?n" and i: "i = cb_weighted s ! k" for k i
  proof -
    have iw: "i \<in> set (cb_weighted s)" using k i by simp
    then have "i < length (cb_classes s)" using sched_static_weighted [OF st(1)] by simp
    then have wt: "cs_weight (class_of t i) = cs_weight (class_of s i)" using same_static_class [OF same] by simp
    have c: "cb_cursor s < ?n" using st(2) k by (auto simp: robin_ok_def)
    have cmp: "i = at_cur s \<longleftrightarrow> k = cb_cursor s"
      using nth_eq_iff_index_eq [OF sched_static_distinct [OF st(1)] k c] i by simp
    have old: "S i \<le> share m (cb_cursor s) (cs_weight (class_of s i)) (cs_deficit (class_of s i)) k \<and>
        (i \<in> B \<longrightarrow> share m (cb_cursor s) (cs_weight (class_of s i)) (cs_deficit (class_of s i)) k \<le> S i)"
      using fair k i by (simp add: fair_at_def Let_def)
    show ?thesis
      using old def [OF iw] cmp S' [OF iw] cur wt pay
      by (cases "k = cb_cursor s") (auto simp: share_def)
  qed
  then show ?thesis unfolding fair_at_def Let_def w by blast
qed

lemma fair_at_cong:
  assumes "same_static s t" and "sched_static s" and "\<And>i. i < length (cb_classes s) \<Longrightarrow> S i = S' i"
  shows "fair_at S B m t = fair_at S' B m t"
proof -
  have "cb_weighted t ! k < length (cb_classes s)" if "k < length (cb_weighted t)" for k
    using that assms(1) sched_static_weighted [OF assms(2), of "cb_weighted s ! k"] by (simp add: same_static_def)
  then show ?thesis using assms(3) by (simp add: fair_at_def Let_def)
qed

lemma fair_unmoved:
  assumes st: "sched_static s" and same: "same_static s t" and "unmoved s t" and fair: "fair_at S B m s"
  shows "fair_at S B m t"
proof -
  have w: "cb_weighted t = cb_weighted s" using same by (simp add: same_static_def)
  have "cb_weighted s ! k < length (cb_classes s)" if "k < length (cb_weighted s)" for k
    using that sched_static_weighted [OF st, of "cb_weighted s ! k"] by simp
  then show ?thesis
    using fair assms(3) same_static_class [OF same] by (simp add: fair_at_def unmoved_def w Let_def)
qed

context class_queue
begin

lemma serveable_fair:
  assumes sv: "serveable ops s = (r, t)" and inv: "inv lag s" and fair: "\<exists>m. fair_at S B m s"
    and B: "\<forall>i \<in> B. i \<in> set (cb_weighted s) \<and> backlog s i \<noteq> []"
  shows "\<exists>m. fair_at S B m t"
proof (cases "serveable_scan ops (length (cb_weighted s)) s = (r, t)")
  case False
  have "p < length (cb_classes s)" if "cb_priority s = Some p" for p
    using that sched_static_priority inv_parts [OF inv] by auto
  then have "t = s" using sv False by (auto simp: serveable_def class_Len_is [OF inv] split: option.splits if_splits)
  then show ?thesis using fair by simp
next
  case True
  let ?J = "\<lambda>s. (\<exists>m. fair_at S B m s) \<and> (\<forall>i \<in> B. i \<in> set (cb_weighted s) \<and> backlog s i \<noteq> [])"
  have "?J t \<and> inv lag t \<and> moved s t \<and>
    (\<forall>i. r = Some i \<longrightarrow> cb_weighted s \<noteq> [] \<and> i = at_cur t \<and> backlog t i \<noteq> [] \<and> 0 < cs_deficit (class_of t i))"
  proof (rule scan_induct [OF True inv])
    fix s
    assume inv: "inv lag s" and w: "cb_weighted s \<noteq> []" and J: "?J s" and empty: "backlog s (at_cur s) = []"
    note st = inv_parts [OF inv, THEN conjunct1] inv_parts [OF inv, THEN conjunct2]
    note i = at_cursor [OF st w]
    obtain m where m: "fair_at S B m s" using J by blast
    have d: "0 \<le> cs_deficit (class_of s (at_cur s))" "cs_deficit (class_of s (at_cur s)) \<le> cs_weight (class_of s (at_cur s))"
      using st(2) i by (auto simp: robin_ok_def)
    have "cb_cursor s < length (cb_weighted s)" using st(2) w by (simp add: robin_ok_def)
    then have "S (at_cur s) \<le> share m (cb_cursor s) (cs_weight (class_of s (at_cur s))) (cs_deficit (class_of s (at_cur s))) (cb_cursor s)"
      using m by (auto simp: fair_at_def Let_def)
    then have up: "S (at_cur s) \<le> (m + 1) * cs_weight (class_of s (at_cur s))" using share_bounds(2) [OF d] order_trans by blast
    have mv: "moved s (advance (set_deficit (at_cur s) 0 s))"
      by (rule moved_trans [OF moved_upd moved_advance]) (simp add: same_ident_def)
    have "\<exists>m. fair_at S B m (advance (set_deficit (at_cur s) 0 s))"
      by (rule fair_advance [OF st w _ m])
        (use J empty i mv up in \<open>auto simp: moved_def nth_list_update_total\<close>)
    then show "?J (advance (set_deficit (at_cur s) 0 s))"
      using J moved_class [OF mv] sched_static_weighted [OF st(1)] by simp
  next
    fix s
    assume inv: "inv lag s" and w: "cb_weighted s \<noteq> []" and J: "?J s" and zero: "cs_deficit (class_of s (at_cur s)) = 0"
    note st = inv_parts [OF inv, THEN conjunct1] inv_parts [OF inv, THEN conjunct2]
    note i = at_cursor [OF st w]
    let ?t = "set_deficit (at_cur s) (cs_weight (class_of s (at_cur s))) s"
    obtain m where m: "fair_at S B m s" using J by blast
    have mv: "moved s ?t" by (rule moved_upd) (simp add: same_ident_def)
    have "fair_at S B m ?t"
      by (rule fair_pay [OF st _ m, where d = "cs_weight (class_of s (at_cur s))"])
        (use i mv zero in \<open>auto simp: moved_def nth_list_update_total\<close>)
    then show "?J ?t"
      using J moved_class [OF mv] sched_static_weighted [OF st(1)] by auto
  qed (use fair B in auto)
  then show ?thesis by blast
qed

lemma served_fair:
  assumes serve: "serve ops g c i n (with_se se) (s, w) = (Done p, t, w')" and inv: "inv lag s" and ready: "ready s i" and n: "1 \<le> n"
    and fair: "\<exists>m. fair_at S B m s" and B: "i \<in> B \<Longrightarrow> backlog t i \<noteq> []"
    and S': "\<And>j. j \<in> set (cb_weighted s) \<Longrightarrow> S' j = S j + (if j = i then int (length (handed_out (Done p))) else 0)"
  shows "\<exists>m. fair_at S' B m t"
proof -
  note sr = serve_ready [OF serve inv ready n]
  note st = inv_parts [OF inv, THEN conjunct1] inv_parts [OF inv, THEN conjunct2]
  obtain m where m: "fair_at S B m s" using fair by blast
  have same: "same_static s t" using sr by (simp add: frame_def)
  show ?thesis
  proof (cases "unmoved s t \<and> (\<forall>j \<in> set (cb_weighted s). S' j = S j)")
    case True
    then have "fair_at S' B m s" using m by (auto simp: fair_at_def Let_def)
    then show ?thesis using fair_unmoved [OF st(1) same] True by blast
  next
    case False
    let ?k = "int (length (handed_out (Done p)))"
    have np: "\<not> cs_priority (class_of s i)"
      using False sr S' sched_static_weighted [OF st(1)] by (auto simp: served_def split: if_splits)
    then have iw: "i \<in> set (cb_weighted s)" "i = at_cur s" "0 < cs_deficit (class_of s i)"
      using ready sched_static_weighted [OF st(1)] by (auto simp: ready_def)
    then have w: "cb_weighted s \<noteq> []" by auto
    have "handed_out (Done p) = [] \<Longrightarrow> \<not> unmoved s t" using False S' by (auto split: if_splits)
    have "served n i (Done p) s t" using sr by simp
    have sv: "handed_out (Done p) = take (nat (quantum n s i)) (backlog s i) \<and> charged i (length (handed_out (Done p))) s t"
    proof (cases "\<exists>xs. Done p = returns (xs, None)")
      case True
      show ?thesis using \<open>served n i (Done p) s t\<close> unfolding served_def if_P [OF True] if_not_P [OF np] .
    next
      case failed: False
      have "handed_out (Done p) = [] \<and> unmoved s t"
        using \<open>served n i (Done p) s t\<close> failed unfolding served_def by (auto split: if_splits)
      then show ?thesis using \<open>handed_out (Done p) = [] \<Longrightarrow> \<not> unmoved s t\<close> by blast
    qed
    note h = conjunct1 [OF sv] and ch = conjunct2 [OF sv]
    have "length (handed_out (Done p)) \<le> nat (quantum n s i)" by (simp add: h)
    then have k: "?k \<le> cs_deficit (class_of s i)" using iw(3) np by (auto simp: quantum_def le_nat_iff)
    have d: "cs_deficit (class_of s i) \<le> cs_weight (class_of s i)" using st(2) iw(1) by (simp add: robin_ok_def)
    have "cb_cursor s < length (cb_weighted s)" using st(2) w by (simp add: robin_ok_def)
    then have old: "S i \<le> m * cs_weight (class_of s i) + cs_weight (class_of s i) - cs_deficit (class_of s i)"
      "i \<in> B \<Longrightarrow> m * cs_weight (class_of s i) + cs_weight (class_of s i) - cs_deficit (class_of s i) \<le> S i"
      using m iw by (auto simp: fair_at_def Let_def share_def)
    show ?thesis
    proof (cases "cs_deficit (class_of s i) - ?k = 0 \<or> backlog t i = []")
      case True
      show ?thesis
        by (rule fair_advance [OF st w same m])
          (use True ch iw S' old k d B sched_static_weighted [OF st(1)] in \<open>auto simp: charged_def Let_def algebra_simps\<close>)
    next
      case notover: False
      show ?thesis
        by (rule exI, rule fair_pay [OF st same m, where d = "cs_deficit (class_of s i) - ?k"])
          (use notover ch iw S' k sched_static_weighted [OF st(1)] in \<open>auto simp: charged_def Let_def\<close>)
    qed
  qed
qed

lemma fair_at_frame [simp]:
  "fair_at S B m (s\<lparr>cb_mu := b\<rparr>) = fair_at S B m s" "fair_at S B m (s\<lparr>cb_met := x\<rparr>) = fair_at S B m s"
  "fair_at S B m (s\<lparr>cb_sig := y\<rparr>) = fair_at S B m s"
  by (simp_all add: fair_at_def)

lemma out_of_pulled:
  "out_of nm (pulled (Finished (Ret (xs, cl, e)))) = (if nm = cl then xs else [])"
  by (simp add: out_of_def pulled_def)

lemma Pull_round_fair:
  assumes "Pull_round ops g c n (with_se se) (s, w) = (r, t, w')" and inv: "inv lag s" and n: "1 \<le> n"
    and fair: "\<exists>m. fair_at S B m s"
    and B: "\<forall>i \<in> B. i \<in> set (cb_weighted s) \<and> backlog s i \<noteq> [] \<and> backlog t i \<noteq> []"
  shows "\<exists>m. fair_at (\<lambda>i. S i + int (length (out_of (cs_name (class_of s i)) (pulled r)))) B m t"
  using assms(1-3)
proof (cases rule: Pull_round_cases)
  case (wait s2)
  have "inv lag (s\<lparr>cb_mu := True\<rparr>)" using inv by simp
  from serveable_fair [OF wait(4) this] fair B wait show ?thesis by (simp add: pulled_def)
next
  case (serve i s2 p s3)
  have inv': "inv lag (s\<lparr>cb_mu := True\<rparr>)" using inv by simp
  have f2: "\<exists>m. fair_at S B m s2" using serveable_fair [OF serve(4) inv'] fair B by simp
  have w2: "cb_weighted s2 = cb_weighted s" using serve(7) by (simp add: moved_def same_static_def)
  have len: "length (cb_classes s2) = length (cb_classes s)" using serve(7) same_static_len [of "s\<lparr>cb_mu := True\<rparr>" s2] by (simp add: moved_def)
  note st = inv_parts [OF inv, THEN conjunct1]
  have i: "i < length (cb_classes s)" using serve(6) len by (simp add: ready_def)
  have names: "cs_name (class_of s j) = cs_name (class_of s i) \<longleftrightarrow> j = i" if "j \<in> set (cb_weighted s)" for j
    using that sched_static_weighted [OF st] sched_static_names [OF st _ i] by blast
  have "\<exists>m. fair_at (\<lambda>j. S j + int (length (out_of (cs_name (class_of s j)) (pulled r)))) B m s3"
  proof (rule served_fair [OF serve(8,5,6) n f2])
    show "backlog s3 i \<noteq> []" if "i \<in> B"
      using that B serve(10) by (auto split: outcome.splits)
    show "S j + int (length (out_of (cs_name (class_of s j)) (pulled r))) = S j + (if j = i then int (length (handed_out (Done p))) else 0)"
      if "j \<in> set (cb_weighted s2)" for j
      using that names [of j] serve(9) w2 by (cases p) (auto simp: out_of_def handed_out_def pulled_def split: prod.splits)
  qed
  then show ?thesis using serve(10) by (auto split: outcome.splits)
qed (use fair in \<open>auto simp: pulled_def\<close>)

lemma Pull_fair:
  assumes pull: "cbwfq_Pull ops g c n (with_se se) [] (s, w) = (r, t, w')" and inv: "inv lag s" and fair: "\<exists>m. fair_at S B m s"
    and B: "\<forall>i \<in> B. i \<in> set (cb_weighted s) \<and> backlog s i \<noteq> [] \<and> backlog t i \<noteq> []"
  shows "\<exists>m. fair_at (\<lambda>i. S i + int (length (out_of (cs_name (class_of s i)) (pulled r)))) B m t"
proof (cases "n < 1")
  case True
  then show ?thesis using pull fair by (auto simp: cbwfq_Pull_def pulled_def)
next
  case False
  then have n: "1 \<le> n" by simp
  from pull n show ?thesis
  proof (rule Pull_round_of_Pull)
    fix m t0 m'
    assume r: "Pull_round ops g c n (with_se se) (s\<lparr>cb_met := m\<rparr>, w) = (r, t0, w')" and t: "t = t0\<lparr>cb_met := m'\<rparr>"
    have "inv lag (s\<lparr>cb_met := m\<rparr>)" using inv by simp
    from Pull_round_fair [OF r this n, of S B] fair B t show ?thesis by simp
  qed
qed

lemma Push_effect:
  assumes push: "cbwfq_Push ops g c v (with_se se) [] id (s, w) = (r, t, w')" and inv: "inv lag s" and room: "\<And>q. room q"
  shows "(\<exists>lag. inv lag t) \<and> same_static s t \<and> unmoved s t \<and>
    (if accepted r then \<exists>i. route s v = Some i \<and> grows v (backlog s i) (backlog t i) \<and>
        (\<forall>j < length (cb_classes s). j \<noteq> i \<longrightarrow> backlog t j = backlog s j)
     else stored contents t = stored contents s)"
proof -
  let ?s = "s\<lparr>cb_met := sched_instrument SchedPush (cb_met s)\<rparr>"
  have inv': "inv lag ?s" using inv by simp
  obtain res s1 w1 where e: "Push_enqueue ops g c v (with_se se) [] (?s, w) = (res, s1, w1)" by (metis prod_cases3)
  note ee = Push_enqueue_effect [OF e inv' room]
  have st: "same_static s u \<longleftrightarrow> same_static ?s u" "unmoved s u \<longleftrightarrow> unmoved ?s u" "route ?s v = route s v" for u
    by (simp_all add: same_static_def unmoved_def route_def cong: option.case_cong)
  have fr: "same_static ?s (u\<lparr>cb_met := m\<rparr>) = same_static ?s u" "unmoved ?s (u\<lparr>cb_met := m\<rparr>) = unmoved ?s u" for u m
    by (simp_all add: same_static_def unmoved_def)
  show ?thesis
  proof (cases res)
    case (Inl p)
    then have "r = p \<and> (\<exists>m. t = s1\<lparr>cb_met := m\<rparr>)"
      using push e by (cases p) (auto simp: cbwfq_Push_def sched_bracket_def intro: exI [of _ "cb_met s1"])
    moreover have "\<not> accepted p" using ee Inl by (auto simp: accepted_def split: progress.splits outcome.splits option.splits)
    ultimately show ?thesis using ee Inl by (auto simp: st fr)
  next
    case (Inr ie)
    then obtain i err where ie: "res = Inr (i, err)" by (cases ie) auto
    obtain p s2 w2 where cm: "Push_commit ops i err (s1, w1) = (p, s2, w2)" by (metis prod_cases3)
    have len: "length (cb_classes s1) = length (cb_classes s)" using ee same_static_len [of ?s s1] by simp
    have i: "i < length (cb_classes s1)" using ee ie route_bound [OF inv', of v i] len by simp
    have inv1: "inv (Suc lag) s1" using ee ie by simp
    note cc = Push_commit_effect [OF cm inv1 i]
    have r: "r = p \<and> (\<exists>m. t = s2\<lparr>cb_met := m\<rparr>)"
      using push e ie cm by (cases p) (auto simp: cbwfq_Push_def sched_bracket_def intro: exI [of _ "cb_met s2"])
    have acc: "accepted p" using cc ee ie by (auto simp: accepted_def split: if_splits)
    have bl: "backlog s2 j = backlog s1 j" if "j < length (cb_classes s)" for j
      using cc that len same_static_len [of s1 s2] by (metis (mono_tags, lifting) length_map nth_map stored_def)
    have "same_static ?s s2" "unmoved ?s s2"
      using ee cc same_static_trans [of ?s s1 s2] len by (auto simp: unmoved_def)
    moreover have "\<exists>lag. inv lag s2" using cc inv1 by (auto split: if_splits)
    ultimately show ?thesis
      using r acc ee ie bl i len by (auto simp: st fr)
  qed
qed

section \<open>Whole runs\<close>

lemma run_sched_fair:
  assumes "run_sched ops c cs (s, w) = (out, t, w')" and "inv lag s" and "\<exists>m. fair_at S B m s" and room: "\<And>q. room q"
    and "B \<subseteq> set (cb_weighted s)" and "\<forall>u \<in> set (sched_states ops c cs (s, w)). \<forall>i \<in> B. backlog u i \<noteq> []"
  shows "(\<exists>lag. inv lag t) \<and> same_static s t \<and> (\<exists>m. fair_at (\<lambda>i. S i + int (length (out_of (cs_name (class_of s i)) out))) B m t)"
  using assms(1,2,3,5,6)
proof (induction cs arbitrary: s w S lag out)
  case Nil
  then show ?case by auto
next
  case (Cons y cs)
  obtain g cmd se where y: "y = (g, cmd, se)" by (cases y)
  note static = inv_parts [OF Cons.prems(2), THEN conjunct1]
  have states: "fst (s1, w1) \<in> set (sched_states ops c cs (s1, w1))" for s1 w1
    by (induction cs rule: list.induct; (metis (no_types, lifting) list.set_intros(1) sched_states.simps scmd.exhaust surj_pair)?)
  show ?case
  proof (cases cmd)
    case (PushItem v)
    obtain r s1 w1 where p: "cbwfq_Push ops g c v (with_se se) [] id (s, w) = (r, s1, w1)" by (metis prod_cases3)
    from Push_effect [OF p Cons.prems(2) room] obtain lag1 where
      e: "inv lag1 s1" "same_static s s1" "unmoved s s1" by blast
    have f: "\<exists>m. fair_at S B m s1" using fair_unmoved [OF static e(2,3)] Cons.prems(3) by blast
    have w: "cb_weighted s1 = cb_weighted s" using e(2) by (simp add: same_static_def)
    have "run_sched ops c cs (s1, w1) = (out, t, w')" using Cons.prems(1) p y PushItem by simp
    from Cons.IH [OF this e(1) f] have ih: "(\<exists>lag. inv lag t) \<and> same_static s1 t \<and>
        (\<exists>m. fair_at (\<lambda>i. S i + int (length (out_of (cs_name (class_of s1 i)) out))) B m t)"
      using Cons.prems(4,5) p y PushItem w by simp
    have "same_static s t" using ih e(2) same_static_trans by blast
    then have "fair_at (\<lambda>i. S i + int (length (out_of (cs_name (class_of s1 i)) out))) B m t =
        fair_at (\<lambda>i. S i + int (length (out_of (cs_name (class_of s i)) out))) B m t" for m
      by (intro fair_at_cong [OF _ static]) (use same_static_class [OF e(2)] in auto)
    then show ?thesis using ih \<open>same_static s t\<close> by simp
  next
    case (PullUpTo n)
    obtain r s1 w1 where p: "cbwfq_Pull ops g c n (with_se se) [] (s, w) = (r, s1, w1)" by (metis prod_cases3)
    note e = Pull_inv [OF p Cons.prems(2)]
    obtain out1 where out1: "run_sched ops c cs (s1, w1) = (out1, t, w')" "out = pulled r @ out1"
      using Cons.prems(1) p y PullUpTo by (auto split: prod.splits)
    have st: "\<forall>u \<in> set (sched_states ops c cs (s1, w1)). \<forall>i \<in> B. backlog u i \<noteq> []"
      using Cons.prems(5) p y PullUpTo by simp
    have w: "cb_weighted s1 = cb_weighted s" using e by (simp add: same_static_def)
    have "\<forall>i \<in> B. i \<in> set (cb_weighted s) \<and> backlog s i \<noteq> [] \<and> backlog s1 i \<noteq> []"
      using Cons.prems(4,5) states [of s1 w1] st y PullUpTo by auto
    note f = Pull_fair [OF p Cons.prems(2,3) this]
    from Cons.IH [OF out1(1) conjunct1 [OF e] f] have ih: "(\<exists>lag. inv lag t) \<and> same_static s1 t \<and>
        (\<exists>m. fair_at (\<lambda>i. S i + int (length (out_of (cs_name (class_of s i)) (pulled r))) + int (length (out_of (cs_name (class_of s1 i)) out1))) B m t)"
      using Cons.prems(4) st w by simp
    have "same_static s t" using ih e same_static_trans by blast
    then have "fair_at (\<lambda>i. S i + int (length (out_of (cs_name (class_of s i)) (pulled r))) + int (length (out_of (cs_name (class_of s1 i)) out1))) B m t =
        fair_at (\<lambda>i. S i + int (length (out_of (cs_name (class_of s i)) out))) B m t" for m
      by (intro fair_at_cong [OF _ static]) (use same_static_class [of s s1] e in \<open>auto simp: out1(2)\<close>)
    then show ?thesis using ih \<open>same_static s t\<close> by simp
  qed
qed

text \<open>No item is lost, duplicated or handed out by another class.\<close>

lemma Pull_round_conserves:
  assumes "Pull_round ops g c n (with_se se) (s, w) = (r, t, w')" and inv: "inv lag s" and n: "1 \<le> n"
    and j: "j < length (cb_classes s)"
  shows "backlog s j = out_of (cs_name (class_of s j)) (pulled r) @ backlog t j"
  using assms(1-3)
proof (cases rule: Pull_round_cases)
  case (wait s2)
  have "inv lag (s\<lparr>cb_mu := True\<rparr>)" using inv by simp
  then have "moved (s\<lparr>cb_mu := True\<rparr>) s2" using serveable_next [OF wait(4)] by simp
  from moved_class [OF this] wait j show ?thesis by (simp add: pulled_def)
next
  case (serve i s2 p s3)
  note sr = serve_ready [OF serve(8,5,6) n] and st = inv_parts [OF inv, THEN conjunct1]
  have len: "length (cb_classes s2) = length (cb_classes s)" using serve(7) same_static_len [of "s\<lparr>cb_mu := True\<rparr>" s2] by (simp add: moved_def)
  have i: "i < length (cb_classes s)" using serve(6) len by (simp add: ready_def)
  have s2: "backlog s2 j = backlog s j" using moved_class [OF serve(7)] j by simp
  have names: "cs_name (class_of s j) = cs_name (class_of s i) \<longleftrightarrow> j = i" by (rule sched_static_names [OF st j i])
  have out: "out_of (cs_name (class_of s j)) (pulled r) = (if j = i then handed_out (Done p) else [])"
    using serve(9) names by (cases p) (auto simp: out_of_def pulled_def handed_out_def split: prod.splits)
  have t: "backlog t j = backlog s3 j" using serve(10) by (simp split: outcome.splits)
  have "backlog s2 j = (if j = i then handed_out (Done p) else []) @ backlog s3 j"
    using sr j len by (cases "j = i") simp_all
  then show ?thesis unfolding out t s2 .
qed (auto simp: pulled_def)

lemma Pull_conserves:
  assumes pull: "cbwfq_Pull ops g c n (with_se se) [] (s, w) = (r, t, w')" and inv: "inv lag s" and j: "j < length (cb_classes s)"
  shows "backlog s j = out_of (cs_name (class_of s j)) (pulled r) @ backlog t j"
proof (cases "n < 1")
  case True
  then show ?thesis using pull by (auto simp: cbwfq_Pull_def pulled_def)
next
  case False
  then have n: "1 \<le> n" by simp
  from pull n show ?thesis
  proof (rule Pull_round_of_Pull)
    fix m t0 m'
    assume r: "Pull_round ops g c n (with_se se) (s\<lparr>cb_met := m\<rparr>, w) = (r, t0, w')" and t: "t = t0\<lparr>cb_met := m'\<rparr>"
    have "inv lag (s\<lparr>cb_met := m\<rparr>)" using inv by simp
    from Pull_round_conserves [OF r this n, of j] j t show ?thesis by simp
  qed
qed

lemma run_sched_fifo:
  assumes "run_sched ops c cs (s, w) = (out, t, w')" and "inv lag s" and room: "\<And>q. room q"
    and fifo: "\<And>v xs ys. grows v xs ys \<Longrightarrow> ys = xs @ [v]" and "j < length (cb_classes s)"
  shows "backlog s j @ into j (run_ins ops c cs (s, w)) = out_of (cs_name (class_of s j)) out @ backlog t j"
  using assms(1,2,5)
proof (induction cs arbitrary: s w lag out)
  case Nil
  then show ?case by simp
next
  case (Cons y cs)
  obtain g cmd se where y: "y = (g, cmd, se)" by (cases y)
  show ?case
  proof (cases cmd)
    case (PushItem v)
    obtain r s1 w1 where p: "cbwfq_Push ops g c v (with_se se) [] id (s, w) = (r, s1, w1)" by (metis prod_cases3)
    note pe = Push_effect [OF p Cons.prems(2) room]
    then obtain lag1 where e: "inv lag1 s1" "same_static s s1" by blast
    have run: "run_sched ops c cs (s1, w1) = (out, t, w')" using Cons.prems(1) p y PushItem by simp
    have j: "j < length (cb_classes s1)" "cs_name (class_of s1 j) = cs_name (class_of s j)"
      using Cons.prems(3) same_static_len [OF e(2)] same_static_class [OF e(2)] by auto
    note ih = Cons.IH [OF run e(1) j(1)]
    have "backlog s1 j = backlog s j @ (if accepted r \<and> route s v = Some j then [v] else [])"
    proof (cases "accepted r")
      case True
      then show ?thesis using pe fifo Cons.prems(3) by (auto split: if_splits)
    next
      case False
      then have "stored contents s1 ! j = stored contents s ! j" using pe by simp
      then show ?thesis using False j(1) Cons.prems(3) by (simp add: stored_def)
    qed
    then show ?thesis
      using ih j(2) y PushItem p by (auto split: option.splits if_splits)
  next
    case (PullUpTo n)
    obtain r s1 w1 where p: "cbwfq_Pull ops g c n (with_se se) [] (s, w) = (r, s1, w1)" by (metis prod_cases3)
    note e = Pull_inv [OF p Cons.prems(2)]
    obtain out1 where out1: "run_sched ops c cs (s1, w1) = (out1, t, w')" "out = pulled r @ out1"
      using Cons.prems(1) p y PullUpTo by (auto split: prod.splits)
    have j: "j < length (cb_classes s1)" "cs_name (class_of s1 j) = cs_name (class_of s j)"
      using Cons.prems(3) same_static_len [of s s1] same_static_class [of s s1 j] e by auto
    show ?thesis
      using Cons.IH [OF out1(1) conjunct1 [OF e] j(1)] Pull_conserves [OF p Cons.prems(2,3)] y PullUpTo p j(2)
      by (simp add: out1(2))
  qed
qed

text \<open>From the state \<open>New\<close> returns.\<close>

lemma fair_start:
  assumes "inv 0 s \<and> cb_cursor s = 0 \<and> (\<forall>i < length (cb_classes s). cs_deficit (class_of s i) = 0)"
  shows "\<exists>m. fair_at (\<lambda>_. 0) B m s"
proof -
  have "cb_weighted s ! k < length (cb_classes s)" if "k < length (cb_weighted s)" for k
    using that sched_static_weighted [of s "cb_weighted s ! k"] assms inv_parts by auto
  then have "fair_at (\<lambda>_. 0) B 0 s" using assms by (simp add: fair_at_def share_def)
  then show ?thesis by blast
qed

lemma run_sched_shares:
  assumes new: "cbwfq_New ops named f classes = Inr s" and qs: "\<forall>cl \<in> set classes. \<forall>q. cl_Queue cl = Some q \<longrightarrow> qok q"
    and run: "run_sched ops c cs (s, w) = (out, t, w')" and room: "\<And>q. room q"
  shows "\<exists>m. \<forall>i < length classes. \<not> cl_Priority (classes ! i) \<longrightarrow>
    int (length (out_of (cl_Name (classes ! i)) out)) \<le> (m + 1) * cl_Weight (classes ! i) \<and>
    ((\<forall>u \<in> set (sched_states ops c cs (s, w)). backlog u i \<noteq> []) \<longrightarrow>
       m * cl_Weight (classes ! i) \<le> int (length (out_of (cl_Name (classes ! i)) out)))"
proof -
  note n = New_inv [OF new qs]
  let ?B = "{i \<in> set (cb_weighted s). \<forall>u \<in> set (sched_states ops c cs (s, w)). backlog u i \<noteq> []}"
  have "\<exists>m. fair_at (\<lambda>_. 0) ?B m s" using n by (intro fair_start) simp
  from run_sched_fair [OF run conjunct1 [OF n] this room] obtain lag m where
    inv: "inv lag t" and same: "same_static s t" and fair: "fair_at (\<lambda>i. 0 + int (length (out_of (cs_name (class_of s i)) out))) ?B m t"
    by blast
  note st = inv_parts [OF conjunct1 [OF n], THEN conjunct1]
  have w: "cb_weighted t = cb_weighted s" using same by (simp add: same_static_def)
  have "int (length (out_of (cl_Name (classes ! i)) out)) \<le> (m + 1) * cl_Weight (classes ! i) \<and>
    ((\<forall>u \<in> set (sched_states ops c cs (s, w)). backlog u i \<noteq> []) \<longrightarrow>
       m * cl_Weight (classes ! i) \<le> int (length (out_of (cl_Name (classes ! i)) out)))"
    if i: "i < length classes" "\<not> cl_Priority (classes ! i)" for i
  proof -
    have cl: "cs_name (class_of s i) = cl_Name (classes ! i)" "cs_weight (class_of s i) = cl_Weight (classes ! i)"
      "\<not> cs_priority (class_of s i)" "i < length (cb_classes s)"
      using n i by auto
    then have iw: "i \<in> set (cb_weighted s)" using sched_static_weighted [OF st] by simp
    then obtain k where k: "k < length (cb_weighted s)" "i = cb_weighted s ! k" by (metis in_set_conv_nth)
    have d: "0 \<le> cs_deficit (class_of t i)" "cs_deficit (class_of t i) \<le> cs_weight (class_of t i)"
      using inv_parts [OF inv] iw w by (auto simp: robin_ok_def)
    have wt: "cs_weight (class_of t i) = cl_Weight (classes ! i)" using same_static_class [OF same cl(4)] cl by simp
    let ?x = "share m (cb_cursor t) (cs_weight (class_of t i)) (cs_deficit (class_of t i)) k"
    have "int (length (out_of (cl_Name (classes ! i)) out)) \<le> ?x \<and> (i \<in> ?B \<longrightarrow> ?x \<le> int (length (out_of (cl_Name (classes ! i)) out)))"
      using fair [unfolded fair_at_def Let_def w, THEN HOL.spec, THEN mp, OF k(1), folded k(2)] by (simp add: cl(1))
    then show ?thesis
      using share_bounds [OF d, of m "cb_cursor t" k] iw unfolding wt by fastforce
  qed
  then show ?thesis by blast
qed

end

end
