(* ===== verification/Scheduler_Threads.thy ===== *)
theory Scheduler_Threads
  imports Scheduler_Setup
begin

text \<open>
  The scheduler of \<open>cbwfq.go\<close> under interleaving. A step is one critical section or one call of a class queue; between
  two steps any other goroutine may run. The state adds to the scheduler's the pushes that are between their two sections
  (the classes they went to) and the goroutines inside \<open>signal.Wait\<close>. The point of the comment in
  \<open>Push\<close> is proved for all interleavings: a \<open>Pull\<close> that sleeps does not miss an item.
\<close>

record ('s, 'a, 'w) threads =
  th_sched :: "('s, 'a, 'w) CBWFQ"
  th_world :: 'w
  th_flight :: "nat list"
  th_waits :: "nat list"

inductive sched_step :: "('s, 'a, 'w) backing \<Rightarrow> 'w ctx \<Rightarrow> ('s, 'a, 'w) threads \<Rightarrow> ('s, 'a, 'w) threads \<Rightarrow> bool"
  for ops c where
  st_enqueue: "Push_enqueue ops g c v (with_se se) [] (th_sched x, th_world x) = (Inr (i, err), s', w') \<Longrightarrow>
     sched_step ops c x (x\<lparr>th_sched := s', th_world := w', th_flight := i # th_flight x\<rparr>)"
| st_refused: "Push_enqueue ops g c v (with_se se) [] (th_sched x, th_world x) = (Inl p, s', w') \<Longrightarrow>
     sched_step ops c x (x\<lparr>th_sched := s', th_world := w'\<rparr>)"
| st_commit: "i \<in> set (th_flight x) \<Longrightarrow> Push_commit ops i None (th_sched x, th_world x) = (Finished r, s', w') \<Longrightarrow>
     sched_step ops c x (x\<lparr>th_sched := s', th_world := w', th_flight := remove1 i (th_flight x)\<rparr>)"
| st_pull: "1 \<le> n \<Longrightarrow> Pull_round ops g c n (with_se se) (th_sched x, th_world x) = (r, s', w') \<Longrightarrow>
     sched_step ops c x (x\<lparr>th_sched := s', th_world := w',
       th_waits := (if r = Waiting then g # th_waits x else th_waits x)\<rparr>)"
| st_wakes: "g \<in> set (th_waits x) \<Longrightarrow> Pull_resume g c (th_sched x, th_world x) = (r, s', w') \<Longrightarrow>
     sched_step ops c x (x\<lparr>th_sched := s', th_world := w', th_waits := remove1 g (th_waits x)\<rparr>)"
| st_close: "\<not> cb_mu (th_sched x) \<Longrightarrow> \<not> cb_closed (th_sched x) \<Longrightarrow>
     sched_step ops c x (x\<lparr>th_sched := Close_begin (th_sched x)\<rparr>)"
| st_close_class: "cb_closed (th_sched x) \<Longrightarrow> i < length (cb_classes (th_sched x)) \<Longrightarrow>
     queue_Close ops c [] (cs_queue (class_of (th_sched x) i), th_world x) = (r, q, w') \<Longrightarrow>
     sched_step ops c x (x\<lparr>th_sched := set_queue i q (th_sched x), th_world := w'\<rparr>)"
| st_world: "sched_step ops c x (x\<lparr>th_world := w'\<rparr>)"

inductive sched_reach :: "('s, 'a, 'w) backing \<Rightarrow> 'w ctx \<Rightarrow> ('s, 'a, 'w) CBWFQ \<Rightarrow> ('s, 'a, 'w) threads \<Rightarrow> bool"
  for ops c s0 where
  sr_start: "sched_reach ops c s0 \<lparr>th_sched = s0, th_world = w, th_flight = [], th_waits = []\<rparr>"
| sr_step: "sched_reach ops c s0 x \<Longrightarrow> sched_step ops c x y \<Longrightarrow> sched_reach ops c s0 y"

text \<open>The goroutines asleep in \<open>Wait\<close>: registered and not released since.\<close>

abbreviation asleep :: "('s, 'a, 'w) threads \<Rightarrow> nat list" where
  "asleep x \<equiv> sig_parkers (cb_sig (th_sched x))"

definition threads_ok :: "(('s, 'a, 'w) queue \<Rightarrow> bool) \<Rightarrow> (('s, 'a, 'w) queue \<Rightarrow> 'a list) \<Rightarrow> ('s, 'a, 'w) threads \<Rightarrow> bool" where
  "threads_ok qok contents x =
     (sched_ok qok contents (length (th_flight x)) (th_sched x) \<and>
      (\<forall>i \<in> set (th_flight x). i < length (cb_classes (th_sched x))) \<and>
      sig_waiters (cb_sig (th_sched x)) = int (length (th_waits x)) \<and> mset (asleep x) \<subseteq># mset (th_waits x) \<and>
      (asleep x \<noteq> [] \<longrightarrow> \<not> cb_closed (th_sched x) \<and>
         (concat (stored contents (th_sched x)) \<noteq> [] \<longrightarrow> th_flight x \<noteq> [])))"

lemma wait_return_sig:
  assumes "Wait_return g c w sig = (sig', e)" and "sig_waiters sig = int (length ws)" and "mset (sig_parkers sig) \<subseteq># mset ws"
    and "g \<in> set ws"
  shows "sig_waiters sig' = int (length (remove1 g ws)) \<and> mset (sig_parkers sig') \<subseteq># mset (remove1 g ws) \<and>
    set (sig_parkers sig') \<subseteq> set (sig_parkers sig) \<and> sig_ok sig'"
proof -
  have s: "sig_waiters sig' = int (length (remove1 g ws))" "sig_parkers sig' = remove1 g (sig_parkers sig)"
    using assms(1,2,4) by (auto simp: Wait_return_def length_remove1 of_nat_diff Suc_le_eq dest: length_pos_if_in_set)
  have m: "mset (sig_parkers sig') \<subseteq># mset (remove1 g ws)"
    using assms(3) by (simp add: s(2) subseteq_mset_def diff_le_mono)
  then have "length (sig_parkers sig') \<le> length (remove1 g ws)" by (metis size_mset size_mset_mono)
  then show ?thesis using s m notin_set_remove1 by (auto simp: sig_ok_def dest: set_remove1_subset [THEN subsetD])
qed

context class_queue
begin

lemma start_threads:
  assumes "cbwfq_New ops named f classes = Inr s" and "\<forall>cl \<in> set classes. \<forall>q. cl_Queue cl = Some q \<longrightarrow> qok q"
  shows "threads_ok qok contents \<lparr>th_sched = s, th_world = w, th_flight = [], th_waits = []\<rparr>"
proof -
  have "cb_sig s = NewSignal"
    using assms(1) by (auto simp: cbwfq_New_eq built_def split: option.splits if_splits)
  then show ?thesis using New_inv [OF assms] by (simp add: threads_ok_def NewSignal_def)
qed

lemma pull_threads:
  assumes ok: "threads_ok qok contents x" and n: "1 \<le> n"
    and pull: "Pull_round ops g c n (with_se se) (th_sched x, th_world x) = (r, s', w')"
  shows "threads_ok qok contents (x\<lparr>th_sched := s', th_world := w', th_waits := (if r = Waiting then g # th_waits x else th_waits x)\<rparr>)"
proof -
  let ?s = "th_sched x"
  have inv: "inv (length (th_flight x)) ?s" using ok by (simp add: threads_ok_def)
  note pi = Pull_round_inv [OF pull inv n]
  have len: "length (cb_classes s') = length (cb_classes ?s)" using pi same_static_len by blast
  from pull inv n show ?thesis
  proof (cases rule: Pull_round_cases)
    case (wait s2)
    have "inv (length (th_flight x)) (?s\<lparr>cb_mu := True\<rparr>)" using inv by simp
    note sv = serveable_next [OF wait(4) this]
    have "concat (stored contents s') = []"
      using next_class_None [OF inv] wait(3,6) sv moved_stored [of "?s\<lparr>cb_mu := True\<rparr>" s2 contents] by simp
    then show ?thesis
      using ok pi len wait sv by (simp add: threads_ok_def Wait_register_def moved_def)
  next
    case (serve i s2 p s3)
    note sr = serve_ready [OF serve(8,5,6) n]
    have sig: "cb_sig s' = cb_sig ?s" using serve(7,10) sr by (auto simp: moved_def frame_def split: outcome.splits)
    have "r \<noteq> Waiting" using serve(9) by (auto split: outcome.splits prod.splits)
    moreover have "concat (stored contents ?s) \<noteq> []" using next_class_None [OF inv] serve(3) by auto
    ultimately show ?thesis using ok pi len sig by (auto simp: threads_ok_def)
  qed (use ok in \<open>auto simp: threads_ok_def\<close>)
qed

lemma commit_waiters:
  assumes "Push_commit ops i err (s, w) = (r, t, w')" and "inv (Suc lag) s" and "i < length (cb_classes s)"
  shows "sig_waiters (cb_sig t) = sig_waiters (cb_sig s)"
proof -
  have "inv lag (s\<lparr>cb_mu := True, cb_pending := cb_pending s + 1\<rparr>)" using assms(2) by (simp add: sched_ok_def)
  from recordDepth_moved [OF this, of i] assms(1,3) show ?thesis
    by (auto simp: Push_commit_def Let_def moved_def split: if_splits)
qed

lemma step_threads:
  assumes "sched_step ops c x y" and ok: "threads_ok qok contents x" and room: "\<And>q. room q"
  shows "threads_ok qok contents y"
proof -
  let ?s = "th_sched x"
  have inv: "inv (length (th_flight x)) ?s" using ok by (simp add: threads_ok_def)
  from assms(1) show ?thesis
  proof cases
    case (st_enqueue g v se i err s' w')
    note e = Push_enqueue_effect [OF st_enqueue(2) inv room]
    have "length (cb_classes s') = length (cb_classes ?s)" using e same_static_len by blast
    moreover have "i < length (cb_classes ?s)" using e route_bound [OF inv, of v i] by simp
    ultimately show ?thesis using ok e st_enqueue(1) by (simp add: threads_ok_def)
  next
    case (st_refused g v se p s' w')
    note e = Push_enqueue_effect [OF st_refused(2) inv room]
    have "length (cb_classes s') = length (cb_classes ?s)" using e same_static_len by blast
    then show ?thesis using ok e st_refused(1) by (simp add: threads_ok_def)
  next
    case (st_commit i r s' w')
    have i: "i < length (cb_classes ?s)" using ok st_commit(2) by (simp add: threads_ok_def)
    define k where "k = length (remove1 i (th_flight x))"
    have k: "length (th_flight x) = Suc k" "length (remove1 i (th_flight x)) = k"
      using length_pos_if_in_set [OF st_commit(2)] st_commit(2) by (simp_all add: k_def length_remove1)
    note e = Push_commit_effect [OF st_commit(3) inv [unfolded k] i] and ws = commit_waiters [OF st_commit(3) inv [unfolded k] i]
    have "length (cb_classes s') = length (cb_classes ?s)" using e same_static_len by blast
    then show ?thesis
      using ok e ws st_commit(1) k
      by (auto simp: threads_ok_def split: if_splits dest: set_remove1_subset [THEN subsetD])
  next
    case (st_pull n g se r s' w')
    then show ?thesis using pull_threads [OF ok] by simp
  next
    case (st_wakes g r s' w')
    obtain sig e where wr: "Wait_return g c (th_world x) (cb_sig ?s) = (sig, e)" by (metis surj_pair)
    have s': "s' = ?s\<lparr>cb_sig := sig\<rparr>" "w' = th_world x"
      using st_wakes(3) wr by (auto simp: Pull_resume_def Let_def split: option.splits)
    have "sig_waiters sig = int (length (remove1 g (th_waits x))) \<and> mset (sig_parkers sig) \<subseteq># mset (remove1 g (th_waits x)) \<and>
      set (sig_parkers sig) \<subseteq> set (sig_parkers (cb_sig ?s)) \<and> sig_ok sig"
      by (rule wait_return_sig [OF wr]) (use ok st_wakes(2) in \<open>auto simp: threads_ok_def\<close>)
    then show ?thesis using ok st_wakes(1) by (auto simp: threads_ok_def sched_ok_def s')
  next
    case st_close
    then show ?thesis using ok by (simp add: threads_ok_def Close_begin_def sched_ok_def Signal_Signal_def sig_ok_def)
  next
    case (st_close_class i r q w')
    have q: "qok q \<and> contents q = backlog ?s i" by (rule close_is [OF inv_qok [OF inv st_close_class(3)] st_close_class(4)])
    have same: "(set_queue i q ?s)\<lparr>cb_pending := cb_pending ?s\<rparr> = set_queue i q ?s" by (simp add: upd_class_def)
    have "inv (length (th_flight x)) (set_queue i q ?s)"
      using inv_set_queue [OF inv st_close_class(3), of q "cb_pending ?s"] q unfolding same by simp
    then show ?thesis using ok st_close_class(1,2) by (auto simp: threads_ok_def)
  qed (use ok in \<open>simp add: threads_ok_def\<close>)
qed

lemma reach_threads:
  assumes "sched_reach ops c s0 x" and "cbwfq_New ops named f classes = Inr s0"
    and "\<forall>cl \<in> set classes. \<forall>q. cl_Queue cl = Some q \<longrightarrow> qok q" and room: "\<And>q. room q"
  shows "threads_ok qok contents x"
  using assms(1)
proof induction
  case (sr_start w)
  show ?case by (rule start_threads [OF assms(2,3)])
next
  case (sr_step x y)
  then show ?case using step_threads room by blast
qed

end

end
