(* ===== verification/Weighted_Queues.thy ===== *)
theory Weighted_Queues
  imports Fair_Shares Scheduler_Threads Memory_Queue
begin

text \<open>
  The scheduler over class queues with the in-memory slice backing: what a caller of \<open>cbwfq.New\<close> can rely on.
\<close>

abbreviation live :: "(('a, 'w) fifo, 'a, 'w) queue \<Rightarrow> 'a list" where
  "live q \<equiv> fifo_live (q_backing q)"

lemma fifo_queue_ok_fun:
  "(\<lambda>q. fifo_inv it (q_backing q) \<and> depth_sync (int (length (aq_items (fifo_abs (q_backing q))))) (q_met q)) = fifo_queue_ok it"
  by (rule ext) (simp only: fifo_queue_ok_iff)

lemma fifo_placed:
  "(\<lambda>v xs ys. \<exists>its. xs = map fst its \<and> ys = map fst (fifo_place its (v, False))) = (\<lambda>v xs ys. ys = xs @ [v])"
proof (intro ext iffI)
  fix v :: 'a and xs ys
  assume "ys = xs @ [v]"
  then show "\<exists>its. xs = map fst its \<and> ys = map fst (fifo_place its (v, False))"
    by (intro exI [of _ "map (\<lambda>x. (x, False)) xs"]) (simp add: fifo_place_def comp_def)
qed (auto simp: fifo_place_def)

interpretation fq: class_queue "fifo_backing it grow" "fifo_queue_ok it" live "\<lambda>_. True" "\<lambda>v xs ys. ys = xs @ [v]"
  for it :: "'a item" and grow
  using queue_backing.provides_class_queue [OF ff.queue_backing_axioms]
  unfolding fifo_queue_ok_fun fifo_placed fifo_contents .

section \<open>Concrete schedulers\<close>

text \<open>Two weighted classes and a priority class over empty queues; negative numbers are control messages, small ones
  iron.\<close>

definition empty_queue :: "((number, unit) fifo, number, unit) queue" where
  "empty_queue = fifo_queue\<lparr>q_met := None\<rparr>"

definition three_classes :: "((number, unit) fifo, number, unit) Class list" where
  "three_classes =
     [\<lparr>cl_Name = ''gold'', cl_Weight = 2, cl_Queue = Some empty_queue, cl_Default = True, cl_Priority = False\<rparr>,
      \<lparr>cl_Name = ''iron'', cl_Weight = 1, cl_Queue = Some empty_queue, cl_Default = False, cl_Priority = False\<rparr>,
      \<lparr>cl_Name = ''ctl'', cl_Weight = 0, cl_Queue = Some empty_queue, cl_Default = False, cl_Priority = True\<rparr>]"

definition by_value :: "number \<Rightarrow> string option" where
  "by_value x = Some (if x = num 0 0 then ''ctl'' else if x = num 1 0 then ''iron'' else ''other'')"

definition scheduler :: "((number, unit) fifo, number, unit) CBWFQ" where
  "scheduler = projr (cbwfq_New (fifo_backing int_item grow2) False (Some by_value) three_classes)"

lemma scheduler_New: "cbwfq_New (fifo_backing int_item grow2) False (Some by_value) three_classes = Inr scheduler"
proof -
  have v: "classes_valid three_classes" by code_simp
  obtain s d p tot where b: "built (fifo_backing int_item grow2) by_value three_classes = (s, d, p, tot)" by (metis prod_cases4)
  show ?thesis unfolding scheduler_def cbwfq_New_eq option.case if_P [OF v] b prod.case sum.sel ..
qed

lemma empty_queue_ok: "fifo_queue_ok int_item empty_queue"
  using fifo_New_inv by (simp add: fifo_queue_ok_def empty_queue_def fifo_queue_def depth_sync_def)

lemma three_classes_ok: "\<forall>cl \<in> set three_classes. \<forall>q. cl_Queue cl = Some q \<longrightarrow> fifo_queue_ok int_item q"
  using empty_queue_ok by (simp add: three_classes_def)

definition push_then_pull :: "(nat \<times> number scmd \<times> unit call option) list" where
  "push_then_pull =
     [(0, PushItem (num 1 0), None), (1, PushItem (num 1 0), None), (2, PushItem (num 5 0), None), (3, PushItem (num 6 0), None),
      (4, PushItem (num 7 0), None), (5, PushItem (num 0 0), None), (6, PullUpTo 9, None), (7, PullUpTo 9, None), (8, PullUpTo 9, None)]"

lemma scheduler_run:
  "fst (run_sched (fifo_backing int_item grow2) background push_then_pull (scheduler, ())) =
     [(''ctl'', [num 0 0]), (''gold'', [num 5 0, num 6 0]), (''iron'', [num 1 0])]"
  by code_simp

section \<open>Construction\<close>

text \<open>
  \<open>New\<close> of the scheduler checks what it documents (C12). Over any backing it returns a scheduler exactly when there is a
  classifier, at least one class, the names are distinct and not empty, every class has a queue and, unless it is the priority
  class, a weight of at least one, exactly one class is the default and at most one has priority.
\<close>

theorem cbwfq_new_validates:
  "(\<exists>s. cbwfq_New ops named classifier classes = Inr s) \<longleftrightarrow> classifier \<noteq> None \<and> classes_valid classes"
  by (auto simp: cbwfq_New_eq split: option.splits prod.splits)

section \<open>Service\<close>

text \<open>
  What \<open>Pull\<close> hands out (C7). On an open scheduler whose mutex is free and whose class queues satisfy their invariant, \<open>Pull(n)\<close>
  sleeps exactly when every class is empty. Otherwise it serves one class: the priority class if it holds an item, else the first class
  that holds one in cyclic order from the cursor. It hands out the front of that class, at least one item and at most \<open>n\<close>, and for
  a weighted class at most what is left of its quantum, a fresh quantum being its weight. If the side effect or the Backup fails or
  unwinds, no class loses an item.
\<close>

theorem cbwfq_pull_serves:
  assumes "cbwfq_Pull (fifo_backing it grow) g c n (with_se se) [] (s, w) = (r, t, w')" and "sched_ok (fifo_queue_ok it) live lag s"
    and "1 \<le> n" and "\<not> cb_mu s" and "\<not> cb_closed s"
  shows "(next_class live s = None \<longleftrightarrow> concat (stored live s) = []) \<and>
    (case next_class live s of
      None \<Rightarrow> r = Waiting \<and> stored live t = stored live s
    | Some i \<Rightarrow>
        (\<exists>xs. r = Finished (Ret (xs, cs_name (class_of s i), None)) \<and> xs \<noteq> [] \<and>
           xs = take (nat (grant n s i)) (live (cs_queue (class_of s i))) \<and>
           live (cs_queue (class_of t i)) = drop (nat (grant n s i)) (live (cs_queue (class_of s i)))) \<or>
        (\<exists>e. r = Finished (Ret ([], cs_name (class_of s i), Some e))) \<and> stored live t = stored live s \<or>
        r = Finished Unwinds \<and> stored live t = stored live s)"
  using fq.Pull_serves [OF assms] fq.next_class_None [OF assms(2)] by blast

definition loaded :: "((number, unit) fifo, number, unit) CBWFQ" where
  "loaded = fst (snd (run_sched (fifo_backing int_item grow2) background
     [(0, PushItem (num 1 0), None), (1, PushItem (num 5 0), None), (2, PushItem (num 6 0), None), (3, PushItem (num 7 0), None)]
     (scheduler, ())))"

lemma scheduler_ok: "sched_ok (fifo_queue_ok int_item) live 0 scheduler"
  using fq.New_inv [OF scheduler_New three_classes_ok] by blast

lemma loaded_ok: "\<exists>lag. sched_ok (fifo_queue_ok int_item) live lag loaded"
proof -
  have start: "\<exists>m. fair_at (\<lambda>_. 0) {} m scheduler"
    using fq.New_inv [OF scheduler_New three_classes_ok] by (intro fq.fair_start) blast
  let ?cmds = "[(0, PushItem (num 1 0), None), (1, PushItem (num 5 0), None), (2, PushItem (num 6 0), None), (3, PushItem (num 7 0), None)]"
  obtain out t w where r: "run_sched (fifo_backing int_item grow2) background ?cmds (scheduler, ()) = (out, t, w)"
    by (metis prod_cases3)
  have "\<exists>lag. sched_ok (fifo_queue_ok int_item) live lag t"
    using fq.run_sched_fair [OF r scheduler_ok start] by simp
  then show ?thesis using r by (simp add: loaded_def)
qed

lemma loaded_runs:
  "next_class live loaded = Some 0" "cb_mu loaded = False" "cb_closed loaded = False" "grant 9 loaded 0 = 2"
  "live (cs_queue (class_of loaded 0)) = [num 5 0, num 6 0, num 7 0]"
  "fst (cbwfq_Pull (fifo_backing int_item grow2) 4 background 9 [] [] (loaded, ())) = Finished (Ret ([num 5 0, num 6 0], ''gold'', None))"
  by code_simp+

theorem cbwfq_pull_serves_witness:
  "live (cs_queue (class_of (fst (snd (cbwfq_Pull (fifo_backing int_item grow2) 4 background 9 [] [] (loaded, ())))) 0)) = [num 7 0]"
proof -
  obtain r t w where p: "cbwfq_Pull (fifo_backing int_item grow2) 4 background 9 [] [] (loaded, ()) = (r, t, w)"
    by (metis prod_cases3)
  then have "r = Finished (Ret ([num 5 0, num 6 0], ''gold'', None))" using loaded_runs(6) by simp
  moreover obtain lag where "sched_ok (fifo_queue_ok int_item) live lag loaded" using loaded_ok by blast
  ultimately show ?thesis
    using cbwfq_pull_serves [of int_item grow2 4 background 9 None loaded "()" r t w lag] p loaded_runs
    by (simp add: with_se_def numeral_eq_Suc)
qed



text \<open>
  Every class is a FIFO queue of its own (C9). Start from \<open>New\<close> and run any sequence of \<open>Push\<close> and \<open>Pull\<close> calls. For every class, what
  was in its queue followed by the accepted items that the classifier (or the default) routes to it is what \<open>Pull\<close> handed out under its
  name followed by what is left in its queue, in order: no item is lost, duplicated, overtaken within its class or handed out
  under another name.
\<close>

theorem cbwfq_class_fifo:
  assumes "cbwfq_New (fifo_backing it grow) named f classes = Inr s"
    and "\<forall>cl \<in> set classes. \<forall>q. cl_Queue cl = Some q \<longrightarrow> fifo_queue_ok it q"
    and "run_sched (fifo_backing it grow) c cmds (s, w) = (out, t, w')" and "j < length classes" and "cl_Queue (classes ! j) = Some q"
  shows "live q @ into j (run_ins (fifo_backing it grow) c cmds (s, w)) =
    out_of (cl_Name (classes ! j)) out @ live (cs_queue (class_of t j))"
proof -
  have n: "sched_ok (fifo_queue_ok it) live 0 s \<and> length (cb_classes s) = length classes \<and>
      cs_name (class_of s j) = cl_Name (classes ! j) \<and> Some (cs_queue (class_of s j)) = cl_Queue (classes ! j)"
    using fq.New_inv [OF assms(1,2)] assms(4) by blast
  then have "j < length (cb_classes s)" "cs_queue (class_of s j) = q" using assms(4,5) by auto
  then show ?thesis using fq.run_sched_fifo [OF assms(3) conjunct1 [OF n], of j] n by simp
qed

theorem cbwfq_class_fifo_witness:
  "into 0 (run_ins (fifo_backing int_item grow2) background push_then_pull (scheduler, ())) =
     [num 5 0, num 6 0] @ live (cs_queue (class_of (fst (snd (run_sched (fifo_backing int_item grow2) background push_then_pull (scheduler, ())))) 0))"
proof -
  obtain out t w where r: "run_sched (fifo_backing int_item grow2) background push_then_pull (scheduler, ()) = (out, t, w)"
    by (metis prod_cases3)
  moreover from this have "out_of ''gold'' out = [num 5 0, num 6 0]" using scheduler_run by (simp add: out_of_def)
  ultimately show ?thesis
    using cbwfq_class_fifo [OF scheduler_New three_classes_ok r, of 0 empty_queue]
    by (simp add: three_classes_def empty_queue_def fifo_queue_def)
qed

section \<open>Interleavings\<close>


text \<open>A \<open>Pull\<close> falls asleep on the empty scheduler and a \<open>Push\<close> has stored an item and not taken the mutex yet.\<close>

definition late_push :: "((number, unit) fifo, number, unit) threads" where
  "late_push =
     (let x = \<lparr>th_sched = fst (snd (Pull_round (fifo_backing int_item grow2) 7 background 5 [] (scheduler, ()))),
               th_world = (), th_flight = [], th_waits = [7]\<rparr>
      in x\<lparr>th_sched := fst (snd (Push_enqueue (fifo_backing int_item grow2) 2 background (num 5 0) [] [] (th_sched x, ()))),
           th_flight := [0]\<rparr>)"

lemma pull_sleeps: "fst (Pull_round (fifo_backing int_item grow2) 7 background 5 [] (scheduler, ())) = Waiting"
  by code_simp

lemma push_enqueues:
  "fst (Push_enqueue (fifo_backing int_item grow2) 2 background (num 5 0) [] []
     (fst (snd (Pull_round (fifo_backing int_item grow2) 7 background 5 [] (scheduler, ()))), ())) = Inr (0, None)"
  by code_simp

lemma late_push_reached: "sched_reach (fifo_backing int_item grow2) background scheduler late_push"
proof -
  let ?ops = "fifo_backing int_item grow2 :: ((number, unit) fifo, number, unit) backing"
  obtain s1 where p: "Pull_round ?ops 7 background 5 [] (scheduler, ()) = (Waiting, s1, ())"
    using unit_result [OF pull_sleeps] by blast
  have s1: "s1 = fst (snd (Pull_round ?ops 7 background 5 [] (scheduler, ())))" using p by simp
  obtain s2 where e: "Push_enqueue ?ops 2 background (num 5 0) [] [] (s1, ()) = (Inr (0, None), s2, ())"
    using unit_result [OF push_enqueues] unfolding s1 by blast
  let ?x = "\<lparr>th_sched = scheduler, th_world = (), th_flight = [], th_waits = []\<rparr>"
  have "sched_step ?ops background ?x (?x\<lparr>th_sched := s1, th_world := (), th_waits := [7]\<rparr>)"
    using st_pull [of 5 ?ops 7 background None ?x Waiting s1 "()"] p by (simp add: with_se_def)
  moreover have "sched_step ?ops background (?x\<lparr>th_sched := s1, th_world := (), th_waits := [7]\<rparr>) late_push"
    using st_enqueue [of ?ops 2 background "num 5 0" None "?x\<lparr>th_sched := s1, th_world := (), th_waits := [7]\<rparr>" 0 None s2 "()"] e
    by (simp add: with_se_def late_push_def Let_def p)
  ultimately show ?thesis by (meson sr_start sr_step)
qed

lemma late_push_asleep: "asleep late_push = [7]" and late_push_stored: "concat (stored live (th_sched late_push)) = [num 5 0]"
  by code_simp+




section \<open>Panics, Close and lookups\<close>

text \<open>
  A panic inside \<open>Pull\<close> blocks the scheduler for good (C11). Over any backing: when \<open>Pull\<close> is unwound out of caller code (a side effect,
  a Backup method or a comparator that panics or calls \<open>runtime.Goexit\<close>), the mutex stays locked, because \<open>mu.Unlock\<close> is not
  deferred. Every later \<open>Pull\<close> and \<open>Close\<close> blocks, and so does every \<open>Push\<close> whose item its class queue has accepted.
\<close>

theorem cbwfq_pull_unwind_blocks:
  assumes "cbwfq_Pull ops g c n options [] (s, w) = (Finished Unwinds, t, w')" and "1 \<le> n"
  shows "cb_mu t \<and> (\<forall>g c n options. 1 \<le> n \<longrightarrow> fst (cbwfq_Pull ops g c n options [] (t, w')) = Stuck) \<and>
    (\<forall>c order. fst (cbwfq_Close ops c order (t, w')) = Stuck) \<and>
    (\<forall>i err. fst (Push_commit ops i err (t, w')) = Stuck)"
proof -
  have mu: "cb_mu t" by (rule Pull_unwinds_held [OF assms])
  then show ?thesis
    by (simp add: cbwfq_Pull_def cbwfq_Close_def sched_bracket_def Pull_round_def Push_commit_def)
qed

lemma pull_unwinds:
  "fst (cbwfq_Pull (fifo_backing int_item grow2) 4 background 9 [WithSideEffect (Some (\<lambda>w. (Unwound, w)))] [] (loaded, ())) = Finished Unwinds"
  by code_simp

theorem cbwfq_pull_unwind_blocks_witness:
  "fst (cbwfq_Close (fifo_backing int_item grow2) background [0, 1, 2]
     (snd (cbwfq_Pull (fifo_backing int_item grow2) 4 background 9 [WithSideEffect (Some (\<lambda>w. (Unwound, w)))] [] (loaded, ())))) = Stuck"
proof -
  obtain t where t: "cbwfq_Pull (fifo_backing int_item grow2) 4 background 9 [WithSideEffect (Some (\<lambda>w. (Unwound, w)))] [] (loaded, ()) =
      (Finished Unwinds, t, ())"
    using unit_result [OF pull_unwinds] by blast
  then show ?thesis using cbwfq_pull_unwind_blocks [OF t] by simp
qed

text \<open>
  \<open>Close\<close> is final (C13). Over any backing, a \<open>Close\<close> that finds the scheduler open and its mutex free leaves it closed with no \<open>Pull\<close> asleep,
  even when it is unwound while it closes the class queues; afterwards every \<open>Pull\<close> and every \<open>Close\<close> returns \<open>ErrClosed\<close> and changes nothing but the telemetry.
\<close>

theorem cbwfq_close_final:
  assumes "cbwfq_Close ops c order (s, w) = (r, t, w')" and "\<not> cb_closed s" and "\<not> cb_mu s"
  shows "cb_closed t \<and> sig_parkers (cb_sig t) = [] \<and>
    (\<forall>g c n options. 1 \<le> n \<longrightarrow> (\<exists>m. cbwfq_Pull ops g c n options [] (t, w') = (Finished (Ret ([], '''', err_closed)), t\<lparr>cb_met := m\<rparr>, w'))) \<and>
    (\<forall>c order. \<exists>m. cbwfq_Close ops c order (t, w') = (Finished (Ret err_closed), t\<lparr>cb_met := m\<rparr>, w'))"
proof -
  let ?s = "Close_begin (s\<lparr>cb_met := sched_instrument SchedClose (cb_met s)\<rparr>)"
  obtain r1 t1 w1 where cl: "Close_classes ops c order None (?s, w) = (r1, t1, w1)" by (metis prod_cases3)
  note keeps = Close_classes_keeps [OF cl]
  have "\<exists>m. t = t1\<lparr>cb_met := m\<rparr>" "w' = w1"
    using assms cl keeps by (auto simp: cbwfq_Close_def sched_bracket_def split: progress.splits)
  then have t: "cb_closed t" "\<not> cb_mu t" "sig_parkers (cb_sig t) = []"
    using keeps assms(3) by (auto simp: Close_begin_def Signal_Signal_def)
  have pull: "cbwfq_Pull ops g c n options [] (t, w') = (Finished (Ret ([], '''', err_closed)),
      t\<lparr>cb_met := sched_done SchedPull err_closed (sched_instrument SchedPull (cb_met t))\<rparr>, w')" if "1 \<le> n" for g c n options
    using t that by (simp add: cbwfq_Pull_def sched_bracket_def Pull_round_def)
  then have "\<exists>m. cbwfq_Pull ops g c n options [] (t, w') = (Finished (Ret ([], '''', err_closed)), t\<lparr>cb_met := m\<rparr>, w')" if "1 \<le> n" for g c n options
    using that by blast
  moreover have "\<exists>m. cbwfq_Close ops c order (t, w') = (Finished (Ret err_closed), t\<lparr>cb_met := m\<rparr>, w')" for c order
    using t by (auto simp: cbwfq_Close_def sched_bracket_def)
  ultimately show ?thesis using t by blast
qed

theorem cbwfq_close_final_witness:
  "cb_closed (fst (snd (cbwfq_Close (fifo_backing int_item grow2) background [2, 0, 1] (scheduler, ()))))"
proof -
  obtain r t w where cl: "cbwfq_Close (fifo_backing int_item grow2) background [2, 0, 1] (scheduler, ()) = (r, t, w)"
    by (metis prod_cases3)
  have "\<not> cb_closed scheduler" "\<not> cb_mu scheduler" using fq.New_inv [OF scheduler_New three_classes_ok] by blast+
  from cbwfq_close_final [OF cl this] cl show ?thesis by simp
qed

text \<open>
  \<open>ClassLen\<close>: on a scheduler that satisfies its invariant it returns the number of items in the queue of the class with that name, or
  zero and an error that is \<open>ErrUnknownClass\<close> if no class has it, and changes nothing.
\<close>

lemma cbwfq_class_len:
  assumes "sched_ok (fifo_queue_ok it) live lag s" and "cbwfq_ClassLen (fifo_backing it grow) nm s = ((n, e), t)"
  shows "t = s \<and> (case find (\<lambda>cs. cs_name cs = nm) (cb_classes s) of
      Some cs \<Rightarrow> n = int (length (live (cs_queue cs))) \<and> e = None
    | None \<Rightarrow> n = 0 \<and> (\<exists>err. e = Some err \<and> errors_Is err ErrUnknownClass))"
proof (cases "cb_byName s nm")
  case None
  have "sched_static s" using assms(1) by (simp add: sched_ok_def)
  from sched_static_byName [OF this, of nm] None have "\<forall>i < length (cb_classes s). cs_name (class_of s i) \<noteq> nm" by simp
  then have "find (\<lambda>cs. cs_name cs = nm) (cb_classes s) = None" by (auto simp: find_None_iff in_set_conv_nth)
  then show ?thesis using None assms(2) by (auto simp: cbwfq_ClassLen_def sentinel_chain_def)
next
  case (Some i)
  have st: "sched_static s" using assms(1) by (simp add: sched_ok_def)
  have i: "i < length (cb_classes s)" "cs_name (class_of s i) = nm"
    using Some sched_static_byName [OF st] by auto
  obtain cs where f: "find (\<lambda>cs. cs_name cs = nm) (cb_classes s) = Some cs"
    using i by (cases "find (\<lambda>cs. cs_name cs = nm) (cb_classes s)") (auto simp: find_None_iff)
  then obtain j where "j < length (cb_classes s)" "cs_name (class_of s j) = nm" "cs = class_of s j"
    by (auto simp: find_Some_iff)
  then have "find (\<lambda>cs. cs_name cs = nm) (cb_classes s) = Some (class_of s i)"
    using sched_static_names [OF st _ i(1), of j] i(2) f by simp
  then show ?thesis
    using Some assms(2) fq.class_Len_is [OF assms(1) i(1)] by (auto simp: cbwfq_ClassLen_def)
qed

end
