(* ===== verification/Btype_Tree.thy ===== *)
theory Btype_Tree
  imports Go_Prelude
begin

text \<open>
  \<open>internal/backings/btype/btype_btree.go\<close>: the positional copy-on-write B-tree.

  A node object of the program is a value of the datatype \<open>node\<close>: its address, its first
  \<open>len\<close> key/value pairs and, for a branch, its \<open>len + 1\<close> children with their counts (a leaf has
  no child, which is the test \<open>branch == nil\<close>). A tree value is what a walk from a pointer sees.
  The reference counters are kept by address in an \<open>arena\<close>, which also hands out addresses for
  \<open>newNode\<close> and records the address of every node object that is written, so that two trees that
  share nodes can be compared with what the operations on one of them write. An operation takes
  the node it works on and returns the node after its writes.

  The flags and functions of \<open>tree\<close> that are for outer types which the repository does not have
  (\<open>strprefix\<close> with the prefix arrays, \<open>dataCopy\<close>, \<open>dataRelease\<close>) are nil for every tree the
  program creates and are left out.
\<close>

section \<open>Nodes\<close>

definition fanout :: nat where
  "fanout = 64"

definition maxItems :: nat where
  "maxItems = fanout - 1"

definition minItems :: nat where
  "minItems = maxItems div 2"

datatype ('k, 'v) node =
  Node (n_addr: nat) (n_items: "('k \<times> 'v) list") (n_kids: "('k, 'v) node list") (n_counts: "int list")

record arena =
  ar_rc :: "nat \<Rightarrow> int"
  ar_next :: nat
  ar_written :: "nat list"

definition leaf :: "('k, 'v) node \<Rightarrow> bool" where
  "leaf n = (n_kids n = [])"

definition newNode :: "arena \<Rightarrow> nat \<times> arena" where
  "newNode st = (ar_next st, st\<lparr>ar_rc := (ar_rc st)(ar_next st := 0), ar_next := Suc (ar_next st)\<rparr>)"

definition wrote :: "nat \<Rightarrow> arena \<Rightarrow> arena" where
  "wrote a st = st\<lparr>ar_written := a # ar_written st\<rparr>"

definition rc_add :: "nat \<Rightarrow> int \<Rightarrow> arena \<Rightarrow> arena" where
  "rc_add a d st = st\<lparr>ar_rc := (ar_rc st)(a := ar_rc st a + d)\<rparr>"

text \<open>The number of items of a subtree, from the counts of its top node.\<close>

definition count_node :: "('k, 'v) node \<Rightarrow> int" where
  "count_node n = int (length (n_items n)) + (if leaf n then 0 else sum_list (n_counts n))"

definition insertItemAt :: "('k, 'v) node \<Rightarrow> 'k \<times> 'v \<Rightarrow> nat \<Rightarrow> arena \<Rightarrow> ('k, 'v) node \<times> arena" where
  "insertItemAt n e i st =
     (case n of Node a its ks cs \<Rightarrow> (Node a (take i its @ e # drop i its) ks cs, wrote a st))"

text \<open>The count of the new child is left to the caller: its slot keeps what it held.\<close>

definition insertChildAt :: "('k, 'v) node \<Rightarrow> ('k, 'v) node \<Rightarrow> nat \<Rightarrow> arena \<Rightarrow> ('k, 'v) node \<times> arena" where
  "insertChildAt n c i st =
     (case n of Node a its ks cs \<Rightarrow>
       (Node a its (take i ks @ c # drop i ks)
          (take i cs @ (if i < length cs then cs ! i else 0) # drop i cs), wrote a st))"

text \<open>\<open>n.branch.counts[i] = n.branch.children[i].count()\<close>; the slot of a nil child is beyond
  the node.\<close>

definition recount :: "('k, 'v) node \<Rightarrow> nat \<Rightarrow> arena \<Rightarrow> ('k, 'v) node \<times> arena" where
  "recount n i st =
     (case n of Node a its ks cs \<Rightarrow>
       (if i < length ks then Node a its ks (cs[i := count_node (ks ! i)]) else n, wrote a st))"

section \<open>Splitting\<close>

definition splitNode :: "('k, 'v) node \<Rightarrow> arena \<Rightarrow>
    ('k, 'v) node \<times> ('k, 'v) node \<times> ('k \<times> 'v) \<times> arena" where
  "splitNode n st =
     (case n of Node a its ks cs \<Rightarrow>
       (let m = maxItems - minItems - 1 in
        case newNode st of (b, st1) \<Rightarrow>
          (Node a (take m its) (take (m + 1) ks) (take (m + 1) cs),
           Node b (drop (m + 1) its) (drop (m + 1) ks) (drop (m + 1) cs),
           its ! m, wrote b (wrote a st1))))"

definition set_child :: "('k, 'v) node \<Rightarrow> nat \<Rightarrow> ('k, 'v) node \<Rightarrow> ('k, 'v) node" where
  "set_child n i c = (case n of Node a its ks cs \<Rightarrow> Node a its (ks[i := c]) cs)"

definition splitBranch :: "('k, 'v) node \<Rightarrow> nat \<Rightarrow> arena \<Rightarrow> ('k, 'v) node \<times> arena" where
  "splitBranch n i st =
     (case splitNode (n_kids n ! i) st of (left, right, mid, st1) \<Rightarrow>
      case insertItemAt (set_child n i left) mid i st1 of (n1, st2) \<Rightarrow>
      case insertChildAt n1 right (i + 1) st2 of (n2, st3) \<Rightarrow>
      case recount n2 i st3 of (n3, st4) \<Rightarrow>
      recount n3 (i + 1) st4)"

definition ensureBranch :: "('k, 'v) node \<Rightarrow> nat \<Rightarrow> arena \<Rightarrow> bool \<times> ('k, 'v) node \<times> arena" where
  "ensureBranch n i st =
     (if length (n_items (n_kids n ! i)) = maxItems then (True, splitBranch n i st) else (False, n, st))"

text \<open>The old root becomes the left child of a new root. \<open>splitRoot\<close> also allocates a node for
  that slot, which it overwrites at once.\<close>

definition splitRoot :: "('k, 'v) node \<Rightarrow> arena \<Rightarrow> ('k, 'v) node \<times> arena" where
  "splitRoot n st =
     (case newNode st of (b, st1) \<Rightarrow>
      case splitNode n st1 of (left, right, mid, st2) \<Rightarrow>
      case newNode st2 of (_, st3) \<Rightarrow>
      case insertItemAt (Node b [] [left, right] [0, 0]) mid 0 st3 of (n1, st4) \<Rightarrow>
      case recount n1 0 st4 of (n2, st5) \<Rightarrow>
      recount n2 1 st5)"

definition ensureRoot :: "('k, 'v) node \<Rightarrow> arena \<Rightarrow> bool \<times> ('k, 'v) node \<times> arena" where
  "ensureRoot n st = (if length (n_items n) = maxItems then (True, splitRoot n st) else (False, n, st))"

section \<open>Copy on write\<close>

fun releaseNode :: "('k, 'v) node \<Rightarrow> arena \<Rightarrow> arena" where
  "releaseNode (Node a its ks cs) st =
     (let st1 = rc_add a (- 1) st in
      if ar_rc st1 a < 0 then fold releaseNode ks st1 else st1)"

definition copyNode :: "('k, 'v) node \<Rightarrow> arena \<Rightarrow> ('k, 'v) node \<times> arena" where
  "copyNode n st =
     (case newNode st of (b, st1) \<Rightarrow>
       (Node b (n_items n) (n_kids n) (n_counts n),
        wrote b (fold (\<lambda>k. rc_add (n_addr k) 1) (n_kids n) st1)))"

definition cow0 :: "('k, 'v) node \<Rightarrow> arena \<Rightarrow> ('k, 'v) node \<times> arena" where
  "cow0 n st = (case copyNode n st of (n2, st1) \<Rightarrow> (n2, releaseNode n st1))"

text \<open>\<open>cp\<close> is the flag \<open>copied\<close> of the tree.\<close>

definition cowRoot :: "bool \<Rightarrow> ('k, 'v) node \<Rightarrow> bool \<Rightarrow> arena \<Rightarrow> ('k, 'v) node \<times> arena" where
  "cowRoot cp n mut st = (if mut \<and> cp \<and> ar_rc st (n_addr n) > 0 then cow0 n st else (n, st))"

definition cowChild :: "bool \<Rightarrow> ('k, 'v) node \<Rightarrow> nat \<Rightarrow> bool \<Rightarrow> arena \<Rightarrow> ('k, 'v) node \<times> arena" where
  "cowChild cp n i mut st =
     (if mut \<and> cp \<and> ar_rc st (n_addr (n_kids n ! i)) > 0
      then (case cow0 (n_kids n ! i) st of (c, st1) \<Rightarrow> (set_child n i c, wrote (n_addr n) st1))
      else (n, st))"

section \<open>Rebalancing\<close>

definition merge_kids :: "('k, 'v) node \<Rightarrow> nat \<Rightarrow> arena \<Rightarrow> ('k, 'v) node \<times> arena" where
  "merge_kids n i st =
     (case n of Node a its ks cs \<Rightarrow>
      case ks ! i of Node la li lk lc \<Rightarrow>
      case ks ! (i + 1) of Node ra ri rk rcs \<Rightarrow>
        (Node a (take i its @ drop (i + 1) its)
           (take i ks @ Node la (li @ its ! i # ri) (lk @ rk) (lc @ rcs) # drop (i + 2) ks)
           (take (i + 1) cs @ drop (i + 2) cs),
         wrote a (wrote la st)))"

definition rotate_right :: "('k, 'v) node \<Rightarrow> nat \<Rightarrow> arena \<Rightarrow> ('k, 'v) node \<times> arena" where
  "rotate_right n i st =
     (case n of Node a its ks cs \<Rightarrow>
      case ks ! i of Node la li lk lc \<Rightarrow>
      case ks ! (i + 1) of Node ra ri rk rcs \<Rightarrow>
        (Node a (its[i := last li])
           (ks[i := Node la (butlast li) (take (length li) lk) (take (length li) lc),
               i + 1 := Node ra (its ! i # ri) (drop (length li) lk @ rk) (drop (length li) lc @ rcs)]) cs,
         wrote a (wrote ra (wrote la st))))"

definition rotate_left :: "('k, 'v) node \<Rightarrow> nat \<Rightarrow> arena \<Rightarrow> ('k, 'v) node \<times> arena" where
  "rotate_left n i st =
     (case n of Node a its ks cs \<Rightarrow>
      case ks ! i of Node la li lk lc \<Rightarrow>
      case ks ! (i + 1) of Node ra ri rk rcs \<Rightarrow>
        (Node a (its[i := hd ri])
           (ks[i := Node la (li @ [its ! i]) (lk @ take 1 rk) (lc @ take 1 rcs),
               i + 1 := Node ra (tl ri) (drop 1 rk) (drop 1 rcs)]) cs,
         wrote a (wrote ra (wrote la st))))"

definition rebalance :: "bool \<Rightarrow> ('k, 'v) node \<Rightarrow> nat \<Rightarrow> arena \<Rightarrow> ('k, 'v) node \<times> arena" where
  "rebalance cp n i0 st =
     (let i = (if i0 = length (n_items n) then i0 - 1 else i0) in
      case cowChild cp n i True st of (n1, st1) \<Rightarrow>
      case cowChild cp n1 (i + 1) True st1 of (n2, st2) \<Rightarrow>
      (let l = length (n_items (n_kids n2 ! i)); r = length (n_items (n_kids n2 ! (i + 1))) in
       case (if l + r < maxItems then merge_kids n2 i st2
             else if l > r then rotate_right n2 i st2
             else rotate_left n2 i st2) of (n3, st3) \<Rightarrow>
       case recount n3 i st3 of (n4, st4) \<Rightarrow>
       recount n4 (i + 1) st4))"

section \<open>Descending\<close>

text \<open>The height of a node, which bounds every descent.\<close>

fun depth :: "('k, 'v) node \<Rightarrow> nat" where
  "depth (Node a its ks cs) = (if ks = [] then 0 else Suc (Max (set (map depth ks))))"

definition add_count :: "('k, 'v) node \<Rightarrow> nat \<Rightarrow> int \<Rightarrow> ('k, 'v) node" where
  "add_count n i d = (case n of Node a its ks cs \<Rightarrow> Node a its ks (cs[i := cs ! i + d]))"

lemma node_sel_simps [simp]:
  "n_addr (set_child n i c) = n_addr n" "n_items (set_child n i c) = n_items n"
  "n_kids (set_child n i c) = (n_kids n)[i := c]" "n_counts (set_child n i c) = n_counts n"
  "n_addr (add_count n i d) = n_addr n" "n_items (add_count n i d) = n_items n"
  "n_kids (add_count n i d) = n_kids n" "n_counts (add_count n i d) = (n_counts n)[i := n_counts n ! i + d]"
  by (cases n; simp add: set_child_def add_count_def)+

lemma depth_kid: "k \<in> set (n_kids n) \<Longrightarrow> depth k < depth n"
  by (cases n) (auto simp: less_Suc_eq_le)

lemma depth_le:
  assumes "\<And>k. k \<in> set (n_kids n) \<Longrightarrow> \<exists>k' \<in> set (n_kids n'). depth k \<le> depth k'"
  shows "depth n \<le> depth n'"
proof -
  obtain a its ks cs where n: "n = Node a its ks cs" by (cases n)
  obtain a' its' ks' cs' where n': "n' = Node a' its' ks' cs'" by (cases n')
  show ?thesis
  proof (cases "ks = []")
    case False
    then have "Max (depth ` set ks) \<in> depth ` set ks" by (intro Max_in) auto
    then obtain k where k: "k \<in> set ks" "depth k = Max (depth ` set ks)" by auto
    then obtain k' where k': "k' \<in> set ks'" "depth k \<le> depth k'" using assms n n' by force
    then have "depth k \<le> Max (depth ` set ks')" by (intro order.trans [OF k'(2)] Max_ge) auto
    then show ?thesis using k k'(1) n n' False by (auto simp: Max.coboundedI)
  qed (simp add: n)
qed

lemma cow0_shape:
  "cow0 n st = (n2, st1) \<Longrightarrow> n_items n2 = n_items n \<and> n_kids n2 = n_kids n \<and> n_counts n2 = n_counts n"
  by (auto simp: cow0_def copyNode_def split: prod.splits)

lemma depth_cong: "n_kids n = n_kids n' \<Longrightarrow> depth n = depth n'"
  by (cases n; cases n') simp

lemma cowChild_shape:
  assumes "cowChild cp n i mut st = (n1, st1)"
  shows "n_addr n1 = n_addr n \<and> n_items n1 = n_items n \<and> n_counts n1 = n_counts n \<and>
    length (n_kids n1) = length (n_kids n) \<and> (\<forall>j. j \<noteq> i \<longrightarrow> n_kids n1 ! j = n_kids n ! j) \<and>
    (i < length (n_kids n) \<longrightarrow> n_items (n_kids n1 ! i) = n_items (n_kids n ! i) \<and>
      n_kids (n_kids n1 ! i) = n_kids (n_kids n ! i) \<and> n_counts (n_kids n1 ! i) = n_counts (n_kids n ! i))"
  using assms cow0_shape [of "n_kids n ! i" st]
  by (auto simp: cowChild_def split: if_splits prod.splits)

lemma depth_cowChild:
  assumes "cowChild cp n i mut st = (n1, st1)"
  shows "depth n1 = depth n" and "j < length (n_kids n) \<Longrightarrow> depth (n_kids n1 ! j) = depth (n_kids n ! j)"
proof -
  note shape = cowChild_shape [OF assms]
  show kid: "depth (n_kids n1 ! j) = depth (n_kids n ! j)" if "j < length (n_kids n)" for j
    using shape that by (cases "j = i") (auto intro: depth_cong)
  show "depth n1 = depth n"
  proof (rule antisym)
    show "depth n1 \<le> depth n" using shape kid by (intro depth_le) (metis in_set_conv_nth order_refl)
    show "depth n \<le> depth n1" using shape kid by (intro depth_le) (metis in_set_conv_nth order_refl)
  qed
qed

lemma depth_cow_kid:
  assumes "(n1, st1) = cowChild cp n i mut st" and "i < length (n_kids n)"
  shows "depth (n_kids n1 ! i) < depth n"
  using depth_cowChild(2) [OF assms(1) [symmetric] assms(2)] depth_kid [OF nth_mem [OF assms(2)]] by simp

lemma splitNode_eq:
  assumes "splitNode n st = (l, r, e, st1)"
  shows "n_items l = take (maxItems - minItems - 1) (n_items n)"
    "n_items r = drop (maxItems - minItems) (n_items n)"
    "n_kids l = take (maxItems - minItems) (n_kids n)" "n_kids r = drop (maxItems - minItems) (n_kids n)"
    "n_counts l = take (maxItems - minItems) (n_counts n)" "n_counts r = drop (maxItems - minItems) (n_counts n)"
    "e = n_items n ! (maxItems - minItems - 1)"
  using assms
  by (cases n; auto simp: splitNode_def Let_def newNode_def fanout_def maxItems_def minItems_def)+

lemma depth_splitNode:
  assumes "splitNode n st = (l, r, e, st1)"
  shows "depth l \<le> depth n" "depth r \<le> depth n"
  using splitNode_eq(3,4) [OF assms]
  by (intro depth_le; auto dest!: in_set_takeD in_set_dropD)+

definition split_kids :: "('k, 'v) node list \<Rightarrow> nat \<Rightarrow> ('k, 'v) node \<Rightarrow> ('k, 'v) node \<Rightarrow> ('k, 'v) node list" where
  "split_kids ks i l r = take i ks @ l # r # drop (Suc i) ks"

lemma splitBranch_eq:
  assumes "splitNode (n_kids n ! i) st = (l, r, e, st1)" and "i < length (n_kids n)"
    and "length (n_counts n) = length (n_kids n)"
  shows "splitBranch n i st =
    (Node (n_addr n) (take i (n_items n) @ e # drop i (n_items n)) (split_kids (n_kids n) i l r)
       (take i (n_counts n) @ count_node l # count_node r # drop (Suc i) (n_counts n)),
     wrote (n_addr n) (wrote (n_addr n) (wrote (n_addr n) (wrote (n_addr n) st1))))"
  using assms
  by (cases n) (auto simp: splitBranch_def insertItemAt_def insertChildAt_def recount_def set_child_def
      split_kids_def take_update_swap upd_conv_take_nth_drop nth_append list_update_append min_def
      take_Suc_conv_app_nth)

lemma splitBranch_kids:
  assumes "splitNode (n_kids n ! i) st = (l, r, e, st1)" and "i < length (n_kids n)"
  shows "n_kids (fst (splitBranch n i st)) = split_kids (n_kids n) i l r"
    and "n_items (fst (splitBranch n i st)) = take i (n_items n) @ e # drop i (n_items n)"
    and "n_addr (fst (splitBranch n i st)) = n_addr n"
  using assms
  by (cases n; auto simp: splitBranch_def insertItemAt_def insertChildAt_def recount_def set_child_def
      split_kids_def upd_conv_take_nth_drop min_def take_Suc_conv_app_nth)+

text \<open>The kids a node has after \<open>ensureBranch\<close>, whatever it did, are no deeper than before, and
  a split leaves one full kid less.\<close>

definition full_kids :: "('k, 'v) node \<Rightarrow> nat" where
  "full_kids n = length (filter (\<lambda>k. length (n_items k) = maxItems) (n_kids n))"

lemma ensureBranch_depth:
  assumes "ensureBranch n i st = (b, n1, st1)" and "i < length (n_kids n)"
  shows "i < length (n_kids n1)" and "length (n_kids n1) = (if b then Suc (length (n_kids n)) else length (n_kids n))"
    and "depth n1 \<le> depth n" and "j < length (n_kids n1) \<Longrightarrow> depth (n_kids n1 ! j) < depth n"
    and "b \<Longrightarrow> full_kids n1 < full_kids n"
proof -
  have less: "depth k < depth n" if "k \<in> set (n_kids n)" for k
    using that by (rule depth_kid)
  obtain l r e st2 where split: "splitNode (n_kids n ! i) st = (l, r, e, st2)" by (metis prod_cases4)
  note kids = splitBranch_kids [OF split assms(2)]
  have d: "depth l \<le> depth (n_kids n ! i)" "depth r \<le> depth (n_kids n ! i)"
    using depth_splitNode [OF split] by auto
  have n1: "n_kids n1 = (if b then split_kids (n_kids n) i l r else n_kids n)"
    using assms(1) kids(1) by (auto simp: ensureBranch_def split: if_splits)
  have covered: "\<exists>k' \<in> set (n_kids n). depth k \<le> depth k'" if "k \<in> set (n_kids n1)" for k
    using that n1 d assms(2)
    by (auto simp: split_kids_def split: if_splits dest!: in_set_takeD in_set_dropD intro: bexI [of _ "n_kids n ! i"])
  then show "depth n1 \<le> depth n" by (rule depth_le)
  show "depth (n_kids n1 ! j) < depth n" if "j < length (n_kids n1)"
    using covered [OF nth_mem [OF that]] less by fastforce
  show len: "length (n_kids n1) = (if b then Suc (length (n_kids n)) else length (n_kids n))"
    using n1 assms(2) by (auto simp: split_kids_def)
  then show "i < length (n_kids n1)" using assms(2) by simp
  show "full_kids n1 < full_kids n" if b
  proof -
    have fullc: "length (n_items (n_kids n ! i)) = maxItems"
      using assms(1) that by (auto simp: ensureBranch_def split: if_splits)
    then have "length (n_items l) \<noteq> maxItems" "length (n_items r) \<noteq> maxItems"
      using splitNode_eq(1,2) [OF split] by (simp_all add: maxItems_def minItems_def fanout_def)
    moreover have "n_kids n = take i (n_kids n) @ n_kids n ! i # drop (Suc i) (n_kids n)"
      using assms(2) by (simp add: id_take_nth_drop)
    then have "full_kids n = length (filter (\<lambda>k. length (n_items k) = maxItems)
        (take i (n_kids n) @ n_kids n ! i # drop (Suc i) (n_kids n)))"
      unfolding full_kids_def by simp
    ultimately show ?thesis using n1 that fullc by (simp add: full_kids_def split_kids_def)
  qed
qed

lemma full_kids_cow:
  assumes "cowChild cp n i mut st = (n1, st1)" and "i < length (n_kids n)"
  shows "full_kids n1 = full_kids n"
proof -
  have "map (\<lambda>k. length (n_items k)) (n_kids n1) = map (\<lambda>k. length (n_items k)) (n_kids n)"
    using cowChild_shape [OF assms(1)] assms(2) by (intro nth_equalityI) (auto, metis)
  then have "filter (\<lambda>m. m = maxItems) (map (\<lambda>k. length (n_items k)) (n_kids n1)) =
      filter (\<lambda>m. m = maxItems) (map (\<lambda>k. length (n_items k)) (n_kids n))" by (rule arg_cong)
  then have "length (filter (\<lambda>m. m = maxItems) (map (\<lambda>k. length (n_items k)) (n_kids n1))) =
      length (filter (\<lambda>m. m = maxItems) (map (\<lambda>k. length (n_items k)) (n_kids n)))" by (rule arg_cong)
  then show ?thesis by (simp add: full_kids_def filter_map comp_def)
qed

text \<open>One level of a descent that copies a shared child and splits a full one.\<close>

lemma descent_decreases:
  assumes "(n1, st1) = cowChild cp n i mut st" and "(b, n2, st2) = ensureBranch n1 i st1"
    and "i < length (n_kids n)"
  shows "depth (n_kids n2 ! i) < depth n" and "depth (n_kids n2 ! (length (n_kids n2) - 1)) < depth n"
    and "b \<Longrightarrow> depth n2 < depth n \<or> depth n2 = depth n \<and> full_kids n2 < full_kids n"
proof -
  have i: "i < length (n_kids n1)" using cowChild_shape [OF assms(1) [symmetric]] assms(3) by simp
  note ens = ensureBranch_depth [OF assms(2) [symmetric] i]
  note d1 = depth_cowChild(1) [OF assms(1) [symmetric]]
  show "depth (n_kids n2 ! i) < depth n" using ens(4) [OF ens(1)] d1 by simp
  have "length (n_kids n2) - 1 < length (n_kids n2)" using ens(1) by auto
  then show "depth (n_kids n2 ! (length (n_kids n2) - 1)) < depth n" using ens(4) d1 by simp
  show "b \<Longrightarrow> depth n2 < depth n \<or> depth n2 = depth n \<and> full_kids n2 < full_kids n"
    using ens(3,5) d1 full_kids_cow [OF assms(1) [symmetric] assms(3)] by (auto simp: order_le_less)
qed

section \<open>Removing\<close>

text \<open>What every removal does on its way back: the child is one item shorter, and is rebalanced
  when it has become too short.\<close>

definition after_delete :: "bool \<Rightarrow> ('k, 'v) node \<Rightarrow> nat \<Rightarrow> ('k, 'v) node \<Rightarrow> arena \<Rightarrow> ('k, 'v) node \<times> arena" where
  "after_delete cp n i c st =
     (let n1 = add_count (set_child n i c) i (- 1); st1 = wrote (n_addr n) st in
      if length (n_items c) < minItems then rebalance cp n1 i st1 else (n1, st1))"

text \<open>The child in slot \<open>n.len\<close> is the last one.\<close>

function nodeDeleteMax :: "bool \<Rightarrow> ('k, 'v) node \<Rightarrow> arena \<Rightarrow> ('k \<times> 'v) \<times> ('k, 'v) node \<times> arena" where
  "nodeDeleteMax cp (Node a its [] cs) st = (last its, Node a (butlast its) [] cs, wrote a st)"
| "nodeDeleteMax cp (Node a its (k # ks) cs) st =
     (let i = length ks in
      case cowChild cp (Node a its (k # ks) cs) i True st of (n1, st1) \<Rightarrow>
      case nodeDeleteMax cp (n_kids n1 ! i) st1 of (e, c, st2) \<Rightarrow>
        (e, after_delete cp n1 i c st2))"
  by pat_completeness auto
termination
  by (relation "measure (\<lambda>(cp, n, st). depth n)")
    (auto dest: depth_cow_kid simp del: depth.simps)

function nodePopFront :: "bool \<Rightarrow> ('k, 'v) node \<Rightarrow> arena \<Rightarrow> ('k \<times> 'v) \<times> ('k, 'v) node \<times> arena" where
  "nodePopFront cp (Node a its [] cs) st = (hd its, Node a (tl its) [] cs, wrote a st)"
| "nodePopFront cp (Node a its (k # ks) cs) st =
     (case cowChild cp (Node a its (k # ks) cs) 0 True st of (n1, st1) \<Rightarrow>
      case nodePopFront cp (n_kids n1 ! 0) st1 of (e, c, st2) \<Rightarrow>
        (e, after_delete cp n1 0 c st2))"
  by pat_completeness auto
termination
  by (relation "measure (\<lambda>(cp, n, st). depth n)")
    (auto dest: depth_cow_kid simp del: depth.simps)

function nodePopBack :: "bool \<Rightarrow> ('k, 'v) node \<Rightarrow> arena \<Rightarrow> ('k \<times> 'v) \<times> ('k, 'v) node \<times> arena" where
  "nodePopBack cp (Node a its [] cs) st = (last its, Node a (butlast its) [] cs, wrote a st)"
| "nodePopBack cp (Node a its (k # ks) cs) st =
     (let i = length ks in
      case cowChild cp (Node a its (k # ks) cs) i True st of (n1, st1) \<Rightarrow>
      case nodePopBack cp (n_kids n1 ! i) st1 of (e, c, st2) \<Rightarrow>
        (e, after_delete cp n1 i c st2))"
  by pat_completeness auto
termination
  by (relation "measure (\<lambda>(cp, n, st). depth n)")
    (auto dest: depth_cow_kid simp del: depth.simps)

text \<open>The scan of the counts that turns a position in the subtree into a slot of the node: the
  slot, whether the position is that of the item in the slot, and else the position in the child.\<close>

fun find_slot :: "int list \<Rightarrow> int \<Rightarrow> nat \<times> bool \<times> int" where
  "find_slot [] index = (0, False, index)"
| "find_slot (c # cs) index =
     (if index \<le> c then (0, index = c, index)
      else (case find_slot cs (index - (c + 1)) of (i, found, j) \<Rightarrow> (Suc i, found, j)))"

text \<open>From here on an operation on a position is undefined (\<open>None\<close>) where the program would
  index outside the items or follow a nil child.\<close>

function nodeDeleteAt :: "bool \<Rightarrow> ('k, 'v) node \<Rightarrow> int \<Rightarrow> arena \<Rightarrow> (('k \<times> 'v) \<times> ('k, 'v) node \<times> arena) option" where
  "nodeDeleteAt cp (Node a its [] cs) index st =
     (if 0 \<le> index \<and> index < int (length its)
      then Some (its ! nat index, Node a (take (nat index) its @ drop (nat index + 1) its) [] cs, wrote a st)
      else None)"
| "nodeDeleteAt cp (Node a its (k # ks) cs) index st =
     (case find_slot (take (length its) cs) index of (i, found, j) \<Rightarrow>
      if length ks < i then None
      else case cowChild cp (Node a its (k # ks) cs) i True st of (n1, st1) \<Rightarrow>
        if found
        then (case nodeDeleteMax cp (n_kids n1 ! i) st1 of (e, c, st2) \<Rightarrow>
                Some (its ! i, after_delete cp (Node a (its[i := e]) (n_kids n1) cs) i c st2))
        else (case nodeDeleteAt cp (n_kids n1 ! i) j st1 of
                None \<Rightarrow> None
              | Some (e, c, st2) \<Rightarrow> Some (e, after_delete cp n1 i c st2)))"
  by pat_completeness auto
termination
  by (relation "measure (\<lambda>(cp, n, index, st). depth n)")
    (auto dest: depth_cow_kid simp del: depth.simps)

section \<open>Inserting\<close>

text \<open>The descents of \<open>PushFront\<close> and \<open>PushBack\<close>: full children are split and counts
  incremented on the way down. \<open>cmp\<close> is \<open>dataCompare\<close>; a pair that does not belong at the end
  is refused in the leaf, after which a second walk takes the counts back.\<close>

type_synonym ('k, 'v) compare = "'k \<times> 'v \<Rightarrow> 'k \<times> 'v \<Rightarrow> int"

definition gte :: "('k, 'v) compare \<Rightarrow> 'k \<times> 'v \<Rightarrow> 'k \<times> 'v \<Rightarrow> bool" where
  "gte cmp x y = (cmp x y \<ge> 0)"

definition lte :: "('k, 'v) compare \<Rightarrow> 'k \<times> 'v \<Rightarrow> 'k \<times> 'v \<Rightarrow> bool" where
  "lte cmp x y = (cmp x y \<le> 0)"

definition eq_item :: "('k, 'v) compare \<Rightarrow> 'k \<times> 'v \<Rightarrow> 'k \<times> 'v \<Rightarrow> bool" where
  "eq_item cmp x y = (cmp x y = 0)"

function pushFront_loop :: "bool \<Rightarrow> ('k, 'v) compare option \<Rightarrow> ('k, 'v) node \<Rightarrow> 'k \<times> 'v \<Rightarrow> arena \<Rightarrow>
    bool \<times> ('k, 'v) node \<times> arena" where
  "pushFront_loop cp cmp (Node a its [] cs) e st =
     (if (case cmp of None \<Rightarrow> False | Some f \<Rightarrow> gte f e (its ! 0))
      then (False, Node a its [] cs, st)
      else (True, insertItemAt (Node a its [] cs) e 0 st))"
| "pushFront_loop cp cmp (Node a its (k # ks) cs) e st =
     (case cowChild cp (Node a its (k # ks) cs) 0 True st of (n1, st1) \<Rightarrow>
      case ensureBranch n1 0 st1 of (_, n2, st2) \<Rightarrow>
      case pushFront_loop cp cmp (n_kids n2 ! 0) e (wrote a st2) of (ok, c, st3) \<Rightarrow>
        (ok, set_child (add_count n2 0 1) 0 c, st3))"
  by pat_completeness auto
termination
  by (relation "measure (\<lambda>(cp, cmp, n, e, st). depth n)")
    (auto simp del: depth.simps dest: descent_decreases(1))

text \<open>The comparison of \<open>PushBack\<close> takes the key of the last item of the leaf and the value of its
  first one.\<close>

function pushBack_loop :: "bool \<Rightarrow> ('k, 'v) compare option \<Rightarrow> ('k, 'v) node \<Rightarrow> 'k \<times> 'v \<Rightarrow> arena \<Rightarrow>
    bool \<times> ('k, 'v) node \<times> arena" where
  "pushBack_loop cp cmp (Node a its [] cs) e st =
     (if (case cmp of None \<Rightarrow> False | Some f \<Rightarrow> lte f e (fst (last its), snd (its ! 0)))
      then (False, Node a its [] cs, st)
      else (True, insertItemAt (Node a its [] cs) e (length its) st))"
| "pushBack_loop cp cmp (Node a its (k # ks) cs) e st =
     (case cowChild cp (Node a its (k # ks) cs) (length ks) True st of (n1, st1) \<Rightarrow>
      case ensureBranch n1 (length ks) st1 of (_, n2, st2) \<Rightarrow>
      let i = length (n_kids n2) - 1 in
      case pushBack_loop cp cmp (n_kids n2 ! i) e (wrote a st2) of (ok, c, st3) \<Rightarrow>
        (ok, set_child (add_count n2 i 1) i c, st3))"
  by pat_completeness auto
termination
  by (relation "measure (\<lambda>(cp, cmp, n, e, st). depth n)")
    (auto simp del: depth.simps dest: descent_decreases(2))

fun rollback_front :: "('k, 'v) node \<Rightarrow> arena \<Rightarrow> ('k, 'v) node \<times> arena" where
  "rollback_front (Node a its [] cs) st = (Node a its [] cs, st)"
| "rollback_front (Node a its (k # ks) cs) st =
     (case rollback_front k (wrote a st) of (c, st1) \<Rightarrow>
        (add_count (Node a its (c # ks) cs) 0 (- 1), st1))"

function rollback_back :: "('k, 'v) node \<Rightarrow> arena \<Rightarrow> ('k, 'v) node \<times> arena" where
  "rollback_back (Node a its [] cs) st = (Node a its [] cs, st)"
| "rollback_back (Node a its (k # ks) cs) st =
     (let i = length ks in
      case rollback_back ((k # ks) ! i) (wrote a st) of (c, st1) \<Rightarrow>
        (add_count (Node a its ((k # ks)[i := c]) cs) i (- 1), st1))"
  by pat_completeness auto
termination
  by (relation "measure (\<lambda>(n, st). depth n)")
    (auto simp del: depth.simps intro!: depth_kid simp: nth_Cons')

text \<open>The loop of \<open>InsertAt\<close>: when the child had to be split, the scan starts again.\<close>

function insertAt_loop :: "bool \<Rightarrow> ('k, 'v) node \<Rightarrow> int \<Rightarrow> 'k \<times> 'v \<Rightarrow> arena \<Rightarrow> (('k, 'v) node \<times> arena) option" where
  "insertAt_loop cp (Node a its [] cs) index e st =
     (if 0 \<le> index \<and> index \<le> int (length its)
      then Some (insertItemAt (Node a its [] cs) e (nat index) st) else None)"
| "insertAt_loop cp (Node a its (k # ks) cs) index e st =
     (case find_slot (take (length its) cs) index of (i, _, j) \<Rightarrow>
      if length ks < i then None
      else case cowChild cp (Node a its (k # ks) cs) i True st of (n1, st1) \<Rightarrow>
        case ensureBranch n1 i st1 of (split, n2, st2) \<Rightarrow>
        if split then insertAt_loop cp n2 index e st2
        else (case insertAt_loop cp (n_kids n2 ! i) j e (wrote a st2) of
                None \<Rightarrow> None
              | Some (c, st3) \<Rightarrow> Some (set_child (add_count n2 i 1) i c, st3)))"
  by pat_completeness auto
termination
  by (relation "measures [\<lambda>(cp, n, index, e, st). depth n, \<lambda>(cp, n, index, e, st). full_kids n]")
    (auto simp del: depth.simps dest: descent_decreases(1,3))

end
