(* ===== verification/Btype_Ops.thy ===== *)
theory Btype_Ops
  imports Btype_Tree
begin

text \<open>
  The walks over a node and the methods of \<open>tree\<close> in
  \<open>internal/backings/btype/btype_btree.go\<close>. A callback takes a pair and the state of its caller
  and answers whether the walk goes on; a walk in mutable mode copies the shared nodes it enters.
  The three results \<open>(key, value, true)\<close> and \<open>(zero, zero, false)\<close> are \<open>Some\<close> and \<open>None\<close>.
\<close>

section \<open>Walking a node\<close>

type_synonym ('k, 'v, 's) visit = "'k \<times> 'v \<Rightarrow> 's \<Rightarrow> bool \<times> 's"

text \<open>\<open>cowChild\<close> on the child \<open>k\<close> of the node at \<open>a\<close>.\<close>

definition cow_kid :: "bool \<Rightarrow> nat \<Rightarrow> ('k, 'v) node \<Rightarrow> bool \<Rightarrow> arena \<Rightarrow> ('k, 'v) node \<times> arena" where
  "cow_kid cp a k mut st =
     (if mut \<and> cp \<and> ar_rc st (n_addr k) > 0
      then (case cow0 k st of (c, st1) \<Rightarrow> (c, wrote a st1)) else (k, st))"

lemma cow_kid_depth: "(c, st1) = cow_kid cp a k mut st \<Longrightarrow> depth c = depth k"
  using cow0_shape [of k st] by (auto simp: cow_kid_def intro!: depth_cong split: if_splits prod.splits)

lemma cow_kid_shallower:
  "(c, st1) = cow_kid cp b (ks ! i) mut st \<Longrightarrow> i < length ks \<Longrightarrow> depth c < depth (Node a its ks cs)"
  using cow_kid_depth [of c st1 cp b "ks ! i" mut st] depth_kid [of "ks ! i" "Node a its ks cs"] by simp

text \<open>\<open>nodeAll\<close>: the first child, then each item with the child after it (\<open>ascend_rest\<close>, the loop
  that \<open>nodeAscend\<close> and \<open>nodeAscendAt\<close> run as well from the slot they have found).\<close>

function nodeAll :: "bool \<Rightarrow> ('k, 'v, 's) visit \<Rightarrow> bool \<Rightarrow> ('k, 'v) node \<Rightarrow> arena \<Rightarrow> 's \<Rightarrow>
    bool \<times> ('k, 'v) node \<times> arena \<times> 's"
  and ascend_rest :: "bool \<Rightarrow> ('k, 'v, 's) visit \<Rightarrow> bool \<Rightarrow> nat \<Rightarrow> ('k \<times> 'v) list \<Rightarrow> ('k, 'v) node list \<Rightarrow> arena \<Rightarrow> 's \<Rightarrow>
    bool \<times> ('k, 'v) node list \<times> arena \<times> 's" where
  "nodeAll cp yield mut (Node a its [] cs) st s =
     (case ascend_rest cp yield mut a its [] st s of (ok, _, st1, s1) \<Rightarrow> (ok, Node a its [] cs, st1, s1))"
| "nodeAll cp yield mut (Node a its (k # ks) cs) st s =
     (case cow_kid cp a k mut st of (k1, st1) \<Rightarrow>
      case nodeAll cp yield mut k1 st1 s of (ok, k2, st2, s2) \<Rightarrow>
      if \<not> ok then (False, Node a its (k2 # ks) cs, st2, s2)
      else (case ascend_rest cp yield mut a its ks st2 s2 of (ok1, ks1, st3, s3) \<Rightarrow>
              (ok1, Node a its (k2 # ks1) cs, st3, s3)))"
| "ascend_rest cp yield mut a [] ks st s = (True, ks, st, s)"
| "ascend_rest cp yield mut a (e # es) [] st s =
     (case yield e s of (ok, s1) \<Rightarrow>
      if \<not> ok then (False, [], st, s1) else ascend_rest cp yield mut a es [] st s1)"
| "ascend_rest cp yield mut a (e # es) (k # ks) st s =
     (case yield e s of (ok, s1) \<Rightarrow>
      if \<not> ok then (False, k # ks, st, s1)
      else (case cow_kid cp a k mut st of (k1, st1) \<Rightarrow>
            case nodeAll cp yield mut k1 st1 s1 of (ok1, k2, st2, s2) \<Rightarrow>
            if \<not> ok1 then (False, k2 # ks, st2, s2)
            else (case ascend_rest cp yield mut a es ks st2 s2 of (ok2, ks2, st3, s3) \<Rightarrow>
                    (ok2, k2 # ks2, st3, s3))))"
  by pat_completeness auto

text \<open>\<open>nodeBackward\<close> and its loop, on the items and children from the last to the first.\<close>

function nodeBackward :: "bool \<Rightarrow> ('k, 'v, 's) visit \<Rightarrow> bool \<Rightarrow> ('k, 'v) node \<Rightarrow> arena \<Rightarrow> 's \<Rightarrow>
    bool \<times> ('k, 'v) node \<times> arena \<times> 's"
  and descend_rest :: "bool \<Rightarrow> ('k, 'v, 's) visit \<Rightarrow> bool \<Rightarrow> nat \<Rightarrow> ('k \<times> 'v) list \<Rightarrow> ('k, 'v) node list \<Rightarrow> arena \<Rightarrow> 's \<Rightarrow>
    bool \<times> ('k, 'v) node list \<times> arena \<times> 's" where
  "nodeBackward cp yield mut (Node a its ks cs) st s =
     (case rev ks of
        [] \<Rightarrow> (case descend_rest cp yield mut a (rev its) [] st s of (ok, _, st1, s1) \<Rightarrow> (ok, Node a its [] cs, st1, s1))
      | k # rks \<Rightarrow>
          (case cow_kid cp a k mut st of (k1, st1) \<Rightarrow>
           case nodeBackward cp yield mut k1 st1 s of (ok, k2, st2, s2) \<Rightarrow>
           if \<not> ok then (False, Node a its (rev (k2 # rks)) cs, st2, s2)
           else (case descend_rest cp yield mut a (rev its) rks st2 s2 of (ok1, rks1, st3, s3) \<Rightarrow>
                   (ok1, Node a its (rev (k2 # rks1)) cs, st3, s3))))"
| "descend_rest cp yield mut a [] ks st s = (True, ks, st, s)"
| "descend_rest cp yield mut a (e # es) [] st s =
     (case yield e s of (ok, s1) \<Rightarrow>
      if \<not> ok then (False, [], st, s1) else descend_rest cp yield mut a es [] st s1)"
| "descend_rest cp yield mut a (e # es) (k # ks) st s =
     (case yield e s of (ok, s1) \<Rightarrow>
      if \<not> ok then (False, k # ks, st, s1)
      else (case cow_kid cp a k mut st of (k1, st1) \<Rightarrow>
            case nodeBackward cp yield mut k1 st1 s1 of (ok1, k2, st2, s2) \<Rightarrow>
            if \<not> ok1 then (False, k2 # ks, st2, s2)
            else (case descend_rest cp yield mut a es ks st2 s2 of (ok2, ks2, st3, s3) \<Rightarrow>
                    (ok2, k2 # ks2, st3, s3))))"
  by pat_completeness auto

text \<open>Both end because a walk enters shallower nodes or shorter lists.\<close>

fun weight :: "('k, 'v) node \<Rightarrow> nat" where
  "weight (Node a its ks cs) = Suc (length its + sum_list (map weight ks))"

lemma weight_cong: "n_items n = n_items n' \<Longrightarrow> n_kids n = n_kids n' \<Longrightarrow> weight n = weight n'"
  by (cases n; cases n') simp

lemma cow_kid_weight: "(c, st1) = cow_kid cp a k mut st \<Longrightarrow> weight c = weight k"
  using cow0_shape [of k st] by (auto simp: cow_kid_def intro!: weight_cong split: if_splits prod.splits)

definition walk_measure :: "('k, 'v) node + ('k \<times> 'v) list \<times> ('k, 'v) node list \<Rightarrow> nat" where
  "walk_measure x = (case x of Inl n \<Rightarrow> 2 * weight n
     | Inr (its, ks) \<Rightarrow> 2 * (length its + sum_list (map weight ks)) + 1)"

termination nodeAll
  by (relation "measure (\<lambda>x. walk_measure (case x of Inl (cp, yield, mut, n, st, s) \<Rightarrow> Inl n
        | Inr (cp, yield, mut, a, its, ks, st, s) \<Rightarrow> Inr (its, ks)))")
    (auto simp: walk_measure_def dest!: cow_kid_weight)

termination nodeBackward
  by (relation "measure (\<lambda>x. walk_measure (case x of Inl (cp, yield, mut, n, st, s) \<Rightarrow> Inl n
        | Inr (cp, yield, mut, a, its, ks, st, s) \<Rightarrow> Inr (its, ks)))")
    (auto simp: walk_measure_def rev_map [symmetric] dest!: cow_kid_weight)

text \<open>The walks from a position. In \<open>nodeDescendAt\<close> the position counts from the end.\<close>

function nodeAscendAt :: "bool \<Rightarrow> ('k, 'v, 's) visit \<Rightarrow> bool \<Rightarrow> ('k, 'v) node \<Rightarrow> int \<Rightarrow> arena \<Rightarrow> 's \<Rightarrow>
    (bool \<times> ('k, 'v) node \<times> arena \<times> 's) option" where
  "nodeAscendAt cp yield mut (Node a its [] cs) index st s =
     (if index < 0 then None
      else case ascend_rest cp yield mut a (drop (nat index) its) [] st s of (ok, _, st1, s1) \<Rightarrow>
             Some (ok, Node a its [] cs, st1, s1))"
| "nodeAscendAt cp yield mut (Node a its (k # ks) cs) index st s =
     (case find_slot (take (length its) cs) index of (i, found, j) \<Rightarrow>
      if length ks < i then None
      else case (if found then Some (True, (k # ks) ! i, st, s)
                 else (case cow_kid cp a ((k # ks) ! i) mut st of (c, st1) \<Rightarrow>
                       nodeAscendAt cp yield mut c j st1 s)) of
             None \<Rightarrow> None
           | Some (ok, c1, st2, s2) \<Rightarrow>
               if \<not> ok then Some (False, Node a its ((k # ks)[i := c1]) cs, st2, s2)
               else (case ascend_rest cp yield mut a (drop i its) (drop (i + 1) (k # ks)) st2 s2 of (ok1, ks1, st3, s3) \<Rightarrow>
                       Some (ok1, Node a its (take i (k # ks) @ c1 # ks1) cs, st3, s3)))"
  by pat_completeness auto
termination
  by (relation "measure (\<lambda>(cp, yield, mut, n, index, st, s). depth n)")
    (auto simp del: depth.simps intro!: cow_kid_shallower)

function nodeDescendAt :: "bool \<Rightarrow> ('k, 'v, 's) visit \<Rightarrow> bool \<Rightarrow> ('k, 'v) node \<Rightarrow> int \<Rightarrow> arena \<Rightarrow> 's \<Rightarrow>
    (bool \<times> ('k, 'v) node \<times> arena \<times> 's) option" where
  "nodeDescendAt cp yield mut (Node a its [] cs) index st s =
     (if index < 0 then None
      else case descend_rest cp yield mut a (drop (nat index) (rev its)) [] st s of (ok, _, st1, s1) \<Rightarrow>
             Some (ok, Node a its [] cs, st1, s1))"
| "nodeDescendAt cp yield mut (Node a its (k # ks) cs) index st s =
     (case find_slot (rev (drop 1 cs)) index of (p, found, j) \<Rightarrow>
      if length ks < p then None
      else let i = length ks - p in
        case (if found then Some (True, (k # ks) ! i, st, s)
              else (case cow_kid cp a ((k # ks) ! i) mut st of (c, st1) \<Rightarrow>
                    nodeDescendAt cp yield mut c j st1 s)) of
             None \<Rightarrow> None
           | Some (ok, c1, st2, s2) \<Rightarrow>
               if \<not> ok then Some (False, Node a its ((k # ks)[i := c1]) cs, st2, s2)
               else (case descend_rest cp yield mut a (rev (take i its)) (rev (take i (k # ks))) st2 s2 of (ok1, rks1, st3, s3) \<Rightarrow>
                       Some (ok1, Node a its (rev rks1 @ c1 # drop (i + 1) (k # ks)) cs, st3, s3)))"
  by pat_completeness auto
termination
  by (relation "measure (\<lambda>(cp, yield, mut, n, index, st, s). depth n)")
    (auto simp del: depth.simps intro!: cow_kid_shallower)

section \<open>Reading and replacing by position\<close>

function getAtNoCheck :: "('k, 'v) node \<Rightarrow> int \<Rightarrow> ('k \<times> 'v) option" where
  "getAtNoCheck (Node a its [] cs) index =
     (if 0 \<le> index \<and> index < int (length its) then Some (its ! nat index) else None)"
| "getAtNoCheck (Node a its (k # ks) cs) index =
     (case find_slot (take (length its) cs) index of (i, found, j) \<Rightarrow>
      if length ks < i then None
      else if found then Some (its ! i) else getAtNoCheck ((k # ks) ! i) j)"
  by pat_completeness auto
termination
  by (relation "measure (\<lambda>(n, index). depth n)")
    (auto simp del: depth.simps intro!: depth_kid simp: nth_Cons')

function getAt_loop :: "bool \<Rightarrow> bool \<Rightarrow> ('k, 'v) node \<Rightarrow> int \<Rightarrow> arena \<Rightarrow> (('k \<times> 'v) \<times> ('k, 'v) node \<times> arena) option" where
  "getAt_loop cp mut (Node a its [] cs) index st =
     (if 0 \<le> index \<and> index < int (length its) then Some (its ! nat index, Node a its [] cs, st) else None)"
| "getAt_loop cp mut (Node a its (k # ks) cs) index st =
     (case find_slot (take (length its) cs) index of (i, found, j) \<Rightarrow>
      if length ks < i then None
      else if found then Some (its ! i, Node a its (k # ks) cs, st)
      else case cowChild cp (Node a its (k # ks) cs) i mut st of (n1, st1) \<Rightarrow>
        (case getAt_loop cp mut (n_kids n1 ! i) j st1 of
           None \<Rightarrow> None
         | Some (e, c, st2) \<Rightarrow> Some (e, set_child n1 i c, st2)))"
  by pat_completeness auto
termination
  by (relation "measure (\<lambda>(cp, mut, n, index, st). depth n)")
    (auto dest: depth_cow_kid simp del: depth.simps)

function replaceAt_loop :: "bool \<Rightarrow> ('k, 'v) node \<Rightarrow> int \<Rightarrow> 'k \<times> 'v \<Rightarrow> arena \<Rightarrow> (('k \<times> 'v) \<times> ('k, 'v) node \<times> arena) option" where
  "replaceAt_loop cp (Node a its [] cs) index e st =
     (if 0 \<le> index \<and> index < int (length its)
      then Some (its ! nat index, Node a (its[nat index := e]) [] cs, wrote a st) else None)"
| "replaceAt_loop cp (Node a its (k # ks) cs) index e st =
     (case find_slot (take (length its) cs) index of (i, found, j) \<Rightarrow>
      if length ks < i then None
      else if found then Some (its ! i, Node a (its[i := e]) (k # ks) cs, wrote a st)
      else case cowChild cp (Node a its (k # ks) cs) i True st of (n1, st1) \<Rightarrow>
        (case replaceAt_loop cp (n_kids n1 ! i) j e st1 of
           None \<Rightarrow> None
         | Some (old, c, st2) \<Rightarrow> Some (old, set_child n1 i c, st2)))"
  by pat_completeness auto
termination
  by (relation "measure (\<lambda>(cp, n, index, e, st). depth n)")
    (auto dest: depth_cow_kid simp del: depth.simps)

function front_loop :: "bool \<Rightarrow> bool \<Rightarrow> ('k, 'v) node \<Rightarrow> arena \<Rightarrow> ('k \<times> 'v) \<times> ('k, 'v) node \<times> arena" where
  "front_loop cp mut (Node a its [] cs) st = (its ! 0, Node a its [] cs, st)"
| "front_loop cp mut (Node a its (k # ks) cs) st =
     (case cowChild cp (Node a its (k # ks) cs) 0 mut st of (n1, st1) \<Rightarrow>
      case front_loop cp mut (n_kids n1 ! 0) st1 of (e, c, st2) \<Rightarrow> (e, set_child n1 0 c, st2))"
  by pat_completeness auto
termination
  by (relation "measure (\<lambda>(cp, mut, n, st). depth n)") (auto dest: depth_cow_kid simp del: depth.simps)

function back_loop :: "bool \<Rightarrow> bool \<Rightarrow> ('k, 'v) node \<Rightarrow> arena \<Rightarrow> ('k \<times> 'v) \<times> ('k, 'v) node \<times> arena" where
  "back_loop cp mut (Node a its [] cs) st = (last its, Node a its [] cs, st)"
| "back_loop cp mut (Node a its (k # ks) cs) st =
     (case cowChild cp (Node a its (k # ks) cs) (length ks) mut st of (n1, st1) \<Rightarrow>
      case back_loop cp mut (n_kids n1 ! length ks) st1 of (e, c, st2) \<Rightarrow> (e, set_child n1 (length ks) c, st2))"
  by pat_completeness auto
termination
  by (relation "measure (\<lambda>(cp, mut, n, st). depth n)") (auto dest: depth_cow_kid simp del: depth.simps)

fun height_loop :: "('k, 'v) node \<Rightarrow> nat" where
  "height_loop (Node a its [] cs) = 0"
| "height_loop (Node a its (k # ks) cs) = Suc (height_loop k)"

section \<open>Trees\<close>

text \<open>\<open>dataCompare\<close> and \<open>dataSearch\<close> are nil in the queue's trees, whose order is positional.\<close>

record ('k, 'v) tree =
  t_copied :: bool
  t_count :: int
  t_root :: "('k, 'v) node option"
  t_spare :: "('k, 'v) node option"
  t_dataCompare :: "('k, 'v) compare option"
  t_dataSearch :: "(('k \<times> 'v) list \<Rightarrow> 'k \<times> 'v \<Rightarrow> nat \<times> bool) option"

definition zero_tree :: "('k, 'v) tree" where
  "zero_tree = \<lparr>t_copied = False, t_count = 0, t_root = None, t_spare = None, t_dataCompare = None,
     t_dataSearch = None\<rparr>"

text \<open>The root a method works on: every method first tests whether \<open>count\<close> is 0, and a tree with
  items has a root.\<close>

definition live_root :: "('k, 'v) tree \<Rightarrow> ('k, 'v) node option" where
  "live_root t = (if t_count t = 0 then None else t_root t)"

text \<open>\<open>insertFirstItem\<close> reuses the spare leaf of an earlier pop-to-empty.\<close>

definition insertFirstItem :: "('k, 'v) tree \<Rightarrow> 'k \<times> 'v \<Rightarrow> arena \<Rightarrow> ('k, 'v) tree \<times> arena" where
  "insertFirstItem t e st =
     (case (case t_spare t of Some n \<Rightarrow> (n_addr n, t\<lparr>t_spare := None\<rparr>, st)
            | None \<Rightarrow> (case newNode st of (b, st1) \<Rightarrow> (b, t, st1))) of
        (b, t1, st1) \<Rightarrow> (t1\<lparr>t_root := Some (Node b [e] [] []), t_count := 1\<rparr>, wrote b st1))"

definition collapseRootIfNeeded :: "('k, 'v) tree \<Rightarrow> arena \<Rightarrow> ('k, 'v) tree" where
  "collapseRootIfNeeded t st =
     (if t_count t = 0
      then (if t_spare t = None \<and> (case t_root t of None \<Rightarrow> False | Some n \<Rightarrow> leaf n \<and> ar_rc st (n_addr n) = 0)
            then t\<lparr>t_spare := t_root t, t_root := None\<rparr> else t\<lparr>t_root := None\<rparr>)
      else (case t_root t of
              Some (Node a [] (k # ks) cs) \<Rightarrow> t\<lparr>t_root := Some k\<rparr>
            | _ \<Rightarrow> t))"

text \<open>The frame of the three removals: copy the root when shared, remove below it, count, collapse.\<close>

definition remove_with :: "(('k, 'v) node \<Rightarrow> arena \<Rightarrow> (('k \<times> 'v) \<times> ('k, 'v) node \<times> arena) option) \<Rightarrow>
    ('k, 'v) tree \<Rightarrow> ('k, 'v) node \<Rightarrow> arena \<Rightarrow> ('k \<times> 'v) option \<times> ('k, 'v) tree \<times> arena" where
  "remove_with del t n st =
     (case cowRoot (t_copied t) n True st of (n1, st1) \<Rightarrow>
      case del n1 st1 of
        None \<Rightarrow> (None, t, st)
      | Some (e, n2, st2) \<Rightarrow>
          (Some e, collapseRootIfNeeded (t\<lparr>t_root := Some n2, t_count := t_count t - 1\<rparr>) st2, st2))"

definition PopFront :: "('k, 'v) tree \<Rightarrow> arena \<Rightarrow> ('k \<times> 'v) option \<times> ('k, 'v) tree \<times> arena" where
  "PopFront t st =
     (case live_root t of None \<Rightarrow> (None, t, st)
      | Some n \<Rightarrow> remove_with (\<lambda>n1 st1. Some (nodePopFront (t_copied t) n1 st1)) t n st)"

definition PopBack :: "('k, 'v) tree \<Rightarrow> arena \<Rightarrow> ('k \<times> 'v) option \<times> ('k, 'v) tree \<times> arena" where
  "PopBack t st =
     (case live_root t of None \<Rightarrow> (None, t, st)
      | Some n \<Rightarrow> remove_with (\<lambda>n1 st1. Some (nodePopBack (t_copied t) n1 st1)) t n st)"

definition DeleteAt :: "('k, 'v) tree \<Rightarrow> int \<Rightarrow> arena \<Rightarrow> ('k \<times> 'v) option \<times> ('k, 'v) tree \<times> arena" where
  "DeleteAt t index st =
     (if index < 0 \<or> index \<ge> t_count t then (None, t, st)
      else case t_root t of None \<Rightarrow> (None, t, st)
           | Some n \<Rightarrow> remove_with (\<lambda>n1 st1. nodeDeleteAt (t_copied t) n1 index st1) t n st)"

text \<open>The frame of the two pushes: copy the root when shared, split it when full, walk down; undo
  the counts when the leaf refuses the pair.\<close>

definition push_with :: "(('k, 'v) node \<Rightarrow> arena \<Rightarrow> bool \<times> ('k, 'v) node \<times> arena) \<Rightarrow>
    (('k, 'v) node \<Rightarrow> arena \<Rightarrow> ('k, 'v) node \<times> arena) \<Rightarrow>
    ('k, 'v) tree \<Rightarrow> ('k, 'v) node \<Rightarrow> arena \<Rightarrow> bool \<times> ('k, 'v) tree \<times> arena" where
  "push_with loop undo t n st =
     (case cowRoot (t_copied t) n True st of (n1, st1) \<Rightarrow>
      case ensureRoot n1 st1 of (_, n2, st2) \<Rightarrow>
      case loop n2 st2 of (ok, n3, st3) \<Rightarrow>
      if ok then (True, t\<lparr>t_root := Some n3, t_count := t_count t + 1\<rparr>, st3)
      else (case undo n3 st3 of (n4, st4) \<Rightarrow> (False, t\<lparr>t_root := Some n4\<rparr>, st4)))"

definition PushFront :: "('k, 'v) tree \<Rightarrow> 'k \<times> 'v \<Rightarrow> arena \<Rightarrow> bool \<times> ('k, 'v) tree \<times> arena" where
  "PushFront t e st =
     (case live_root t of
        None \<Rightarrow> (True, insertFirstItem t e st)
      | Some n \<Rightarrow> push_with (\<lambda>n1 st1. pushFront_loop (t_copied t) (t_dataCompare t) n1 e st1) rollback_front t n st)"

definition PushBack :: "('k, 'v) tree \<Rightarrow> 'k \<times> 'v \<Rightarrow> arena \<Rightarrow> bool \<times> ('k, 'v) tree \<times> arena" where
  "PushBack t e st =
     (case live_root t of
        None \<Rightarrow> (True, insertFirstItem t e st)
      | Some n \<Rightarrow> push_with (\<lambda>n1 st1. pushBack_loop (t_copied t) (t_dataCompare t) n1 e st1) rollback_back t n st)"

text \<open>The order test of \<open>InsertAt\<close> (\<open>hi = index\<close>) and \<open>ReplaceAt\<close> (\<open>hi = index + 1\<close>): refused
  unless the pair is after its predecessor and before its successor.\<close>

definition out_of_order :: "('k, 'v) tree \<Rightarrow> ('k, 'v) node \<Rightarrow> int \<Rightarrow> int \<Rightarrow> 'k \<times> 'v \<Rightarrow> bool" where
  "out_of_order t n index hi e =
     (case t_dataCompare t of None \<Rightarrow> False
      | Some cmp \<Rightarrow>
          index > 0 \<and> (case getAtNoCheck n (index - 1) of None \<Rightarrow> False | Some m \<Rightarrow> gte cmp m e) \<or>
          hi < t_count t \<and> (case getAtNoCheck n hi of None \<Rightarrow> False | Some m \<Rightarrow> gte cmp e m))"

definition InsertAt :: "('k, 'v) tree \<Rightarrow> int \<Rightarrow> 'k \<times> 'v \<Rightarrow> arena \<Rightarrow> bool \<times> ('k, 'v) tree \<times> arena" where
  "InsertAt t index e st =
     (if index < 0 \<or> index > t_count t then (False, t, st)
      else if index = 0 then PushFront t e st
      else if index = t_count t then PushBack t e st
      else case t_root t of None \<Rightarrow> (False, t, st)
        | Some n \<Rightarrow>
            if out_of_order t n index index e then (False, t, st)
            else case cowRoot (t_copied t) n True st of (n1, st1) \<Rightarrow>
              case ensureRoot n1 st1 of (_, n2, st2) \<Rightarrow>
              (case insertAt_loop (t_copied t) n2 index e st2 of
                 None \<Rightarrow> (False, t, st)
               | Some (n3, st3) \<Rightarrow> (True, t\<lparr>t_root := Some n3, t_count := t_count t + 1\<rparr>, st3)))"

definition ReplaceAt :: "('k, 'v) tree \<Rightarrow> int \<Rightarrow> 'k \<times> 'v \<Rightarrow> arena \<Rightarrow> ('k \<times> 'v) option \<times> ('k, 'v) tree \<times> arena" where
  "ReplaceAt t index e st =
     (if index < 0 \<or> index \<ge> t_count t then (None, t, st)
      else case t_root t of None \<Rightarrow> (None, t, st)
        | Some n \<Rightarrow>
            if out_of_order t n index (index + 1) e then (None, t, st)
            else case cowRoot (t_copied t) n True st of (n1, st1) \<Rightarrow>
              (case replaceAt_loop (t_copied t) n1 index e st1 of
                 None \<Rightarrow> (None, t, st)
               | Some (old, n2, st2) \<Rightarrow> (Some old, t\<lparr>t_root := Some n2\<rparr>, st2)))"

text \<open>The readers; \<open>FrontMut\<close>, \<open>BackMut\<close> and \<open>GetAtMut\<close> are the mutable mode.\<close>

definition front0 :: "('k, 'v) tree \<Rightarrow> bool \<Rightarrow> arena \<Rightarrow> ('k \<times> 'v) option \<times> ('k, 'v) tree \<times> arena" where
  "front0 t mut st =
     (case live_root t of None \<Rightarrow> (None, t, st)
      | Some n \<Rightarrow>
          (case cowRoot (t_copied t) n mut st of (n1, st1) \<Rightarrow>
           case front_loop (t_copied t) mut n1 st1 of (e, n2, st2) \<Rightarrow> (Some e, t\<lparr>t_root := Some n2\<rparr>, st2)))"

definition back0 :: "('k, 'v) tree \<Rightarrow> bool \<Rightarrow> arena \<Rightarrow> ('k \<times> 'v) option \<times> ('k, 'v) tree \<times> arena" where
  "back0 t mut st =
     (case live_root t of None \<Rightarrow> (None, t, st)
      | Some n \<Rightarrow>
          (case cowRoot (t_copied t) n mut st of (n1, st1) \<Rightarrow>
           case back_loop (t_copied t) mut n1 st1 of (e, n2, st2) \<Rightarrow> (Some e, t\<lparr>t_root := Some n2\<rparr>, st2)))"

definition getAt0 :: "('k, 'v) tree \<Rightarrow> int \<Rightarrow> bool \<Rightarrow> arena \<Rightarrow> ('k \<times> 'v) option \<times> ('k, 'v) tree \<times> arena" where
  "getAt0 t index mut st =
     (if index < 0 \<or> index \<ge> t_count t then (None, t, st)
      else if index = 0 then front0 t mut st
      else if index = t_count t - 1 then back0 t mut st
      else case t_root t of None \<Rightarrow> (None, t, st)
        | Some n \<Rightarrow>
            (case cowRoot (t_copied t) n mut st of (n1, st1) \<Rightarrow>
             case getAt_loop (t_copied t) mut n1 index st1 of
               None \<Rightarrow> (None, t, st)
             | Some (e, n2, st2) \<Rightarrow> (Some e, t\<lparr>t_root := Some n2\<rparr>, st2)))"

definition Front :: "('k, 'v) tree \<Rightarrow> arena \<Rightarrow> ('k \<times> 'v) option" where
  "Front t st = fst (front0 t False st)"

definition Back :: "('k, 'v) tree \<Rightarrow> arena \<Rightarrow> ('k \<times> 'v) option" where
  "Back t st = fst (back0 t False st)"

definition GetAt :: "('k, 'v) tree \<Rightarrow> int \<Rightarrow> arena \<Rightarrow> ('k \<times> 'v) option" where
  "GetAt t index st = fst (getAt0 t index False st)"

definition Height :: "('k, 'v) tree \<Rightarrow> nat" where
  "Height t = (case live_root t of None \<Rightarrow> 0 | Some n \<Rightarrow> height_loop n)"

definition Len_tree :: "('k, 'v) tree \<Rightarrow> int" where
  "Len_tree t = t_count t"

section \<open>Iteration and snapshots\<close>

definition all0 :: "('k, 'v) tree \<Rightarrow> ('k, 'v, 's) visit \<Rightarrow> bool \<Rightarrow> arena \<Rightarrow> 's \<Rightarrow> ('k, 'v) tree \<times> arena \<times> 's" where
  "all0 t yield mut st s =
     (case (if t_count t > 0 then t_root t else None) of
        None \<Rightarrow> (t, st, s)
      | Some n \<Rightarrow>
          (case cowRoot (t_copied t) n mut st of (n1, st1) \<Rightarrow>
           case nodeAll (t_copied t) yield mut n1 st1 s of (_, n2, st2, s2) \<Rightarrow> (t\<lparr>t_root := Some n2\<rparr>, st2, s2)))"

definition backward0 :: "('k, 'v) tree \<Rightarrow> ('k, 'v, 's) visit \<Rightarrow> bool \<Rightarrow> arena \<Rightarrow> 's \<Rightarrow> ('k, 'v) tree \<times> arena \<times> 's" where
  "backward0 t yield mut st s =
     (case (if t_count t > 0 then t_root t else None) of
        None \<Rightarrow> (t, st, s)
      | Some n \<Rightarrow>
          (case cowRoot (t_copied t) n mut st of (n1, st1) \<Rightarrow>
           case nodeBackward (t_copied t) yield mut n1 st1 s of (_, n2, st2, s2) \<Rightarrow> (t\<lparr>t_root := Some n2\<rparr>, st2, s2)))"

definition walk_at :: "(('k, 'v) node \<Rightarrow> arena \<Rightarrow> 's \<Rightarrow> (bool \<times> ('k, 'v) node \<times> arena \<times> 's) option) \<Rightarrow>
    ('k, 'v) tree \<Rightarrow> bool \<Rightarrow> arena \<Rightarrow> 's \<Rightarrow> ('k, 'v) tree \<times> arena \<times> 's" where
  "walk_at walk t mut st s =
     (case (if t_count t > 0 then t_root t else None) of
        None \<Rightarrow> (t, st, s)
      | Some n \<Rightarrow>
          (case cowRoot (t_copied t) n mut st of (n1, st1) \<Rightarrow>
           case walk n1 st1 s of
             None \<Rightarrow> (t, st, s)
           | Some (_, n2, st2, s2) \<Rightarrow> (t\<lparr>t_root := Some n2\<rparr>, st2, s2)))"

definition ascendAt0 :: "('k, 'v) tree \<Rightarrow> int \<Rightarrow> ('k, 'v, 's) visit \<Rightarrow> bool \<Rightarrow> arena \<Rightarrow> 's \<Rightarrow> ('k, 'v) tree \<times> arena \<times> 's" where
  "ascendAt0 t index yield mut st s =
     (if index \<le> 0 \<or> index \<ge> t_count t then (if index \<le> 0 then all0 t yield mut st s else (t, st, s))
      else walk_at (\<lambda>n st1 s1. nodeAscendAt (t_copied t) yield mut n index st1 s1) t mut st s)"

definition descendAt0 :: "('k, 'v) tree \<Rightarrow> int \<Rightarrow> ('k, 'v, 's) visit \<Rightarrow> bool \<Rightarrow> arena \<Rightarrow> 's \<Rightarrow> ('k, 'v) tree \<times> arena \<times> 's" where
  "descendAt0 t index yield mut st s =
     (if index < 0 \<or> index \<ge> t_count t - 1
      then (if index \<ge> t_count t - 1 then backward0 t yield mut st s else (t, st, s))
      else walk_at (\<lambda>n st1 s1. nodeDescendAt (t_copied t) yield mut n (t_count t - index - 1) st1 s1) t mut st s)"

text \<open>The loops of \<open>Drain\<close> and \<open>DrainBackward\<close> run until the tree is empty or the callback stops
  them; \<open>None\<close> would be a loop that never ends.\<close>

partial_function (option) Drain :: "('k, 'v, 's) visit \<Rightarrow> ('k, 'v) tree \<Rightarrow> arena \<Rightarrow> 's \<Rightarrow>
    (('k, 'v) tree \<times> arena \<times> 's) option" where
  "Drain yield t st s =
     (case PopFront t st of (r, t1, st1) \<Rightarrow>
      case r of
        None \<Rightarrow> Some (t1, st1, s)
      | Some e \<Rightarrow> (case yield e s of (ok, s1) \<Rightarrow>
                    if ok then Drain yield t1 st1 s1 else Some (t1, st1, s1)))"

partial_function (option) DrainBackward :: "('k, 'v, 's) visit \<Rightarrow> ('k, 'v) tree \<Rightarrow> arena \<Rightarrow> 's \<Rightarrow>
    (('k, 'v) tree \<times> arena \<times> 's) option" where
  "DrainBackward yield t st s =
     (case PopBack t st of (r, t1, st1) \<Rightarrow>
      case r of
        None \<Rightarrow> Some (t1, st1, s)
      | Some e \<Rightarrow> (case yield e s of (ok, s1) \<Rightarrow>
                    if ok then DrainBackward yield t1 st1 s1 else Some (t1, st1, s1)))"

definition Clear_tree :: "('k, 'v) tree \<Rightarrow> ('k, 'v) tree" where
  "Clear_tree t = t\<lparr>t_count := 0, t_root := None\<rparr>"

text \<open>\<open>CopyInto\<close>: the source and its copy share the root (and the spare leaf).\<close>

definition CopyInto :: "('k, 'v) tree \<Rightarrow> arena \<Rightarrow> ('k, 'v) tree \<times> ('k, 'v) tree \<times> arena" where
  "CopyInto t st =
     (let t1 = t\<lparr>t_copied := True\<rparr> in
      (t1, t1, case t_root t of None \<Rightarrow> st | Some n \<Rightarrow> rc_add (n_addr n) 1 st))"

definition Release_tree :: "('k, 'v) tree \<Rightarrow> arena \<Rightarrow> ('k, 'v) tree \<times> arena" where
  "Release_tree t st = (Clear_tree t, case t_root t of None \<Rightarrow> st | Some n \<Rightarrow> releaseNode n st)"

end
