(* ===== verification/Btype_Order.thy ===== *)
theory Btype_Order
  imports Btype_Ops
begin

text \<open>
  What the B-tree of \<open>btype_btree.go\<close> stores: the sequence \<open>inorder\<close> of a node, the shape of a
  well-formed node (all leaves at the same height, between \<open>minItems\<close> and \<open>maxItems\<close> items in
  every node below the root, every count the size of its child), and what each operation does to
  the sequence. Nothing here depends on the reference counters: copying a shared node does not
  change what a walk sees.
\<close>

section \<open>Interleaving\<close>

fun weave :: "'a list list \<Rightarrow> 'a list \<Rightarrow> 'a list" where
  "weave [] ys = ys"
| "weave (x # xs) [] = x @ weave xs []"
| "weave (x # xs) (y # ys) = x @ y # weave xs ys"

definition lead :: "'a list list \<Rightarrow> 'a list \<Rightarrow> 'a list" where
  "lead xs ys = concat (map2 (\<lambda>x y. x @ [y]) xs ys)"

definition trail :: "'a list \<Rightarrow> 'a list list \<Rightarrow> 'a list" where
  "trail ys xs = concat (map2 (#) ys xs)"

lemma lead_simps [simp]: "lead [] ys = []" "lead xs [] = []" "lead (x # xs) (y # ys) = x @ y # lead xs ys"
  and trail_simps [simp]: "trail [] xs = []" "trail ys [] = []" "trail (y # ys) (x # xs) = y # x @ trail ys xs"
  by (simp_all add: lead_def trail_def)

lemma length_weave: "length (weave xs ys) = sum_list (map length xs) + length ys"
  by (induction xs ys rule: weave.induct) auto

lemma weave_append:
  "length xs1 = Suc (length ys1) \<Longrightarrow> weave (xs1 @ xs2) (ys1 @ y # ys2) = weave xs1 ys1 @ y # weave xs2 ys2"
proof (induction xs1 ys1 rule: weave.induct)
  case (2 x xs)
  then show ?case by (cases xs) auto
qed auto

lemma weave_leaf_append: "weave [] (ys1 @ y # ys2) = weave [] ys1 @ y # weave [] ys2"
  by simp

lemma weave_trail: "length xs = length ys \<Longrightarrow> weave (x # xs) ys = x @ trail ys xs"
proof (induction xs ys arbitrary: x rule: list_induct2)
  case (Cons x' xs y ys)
  then show ?case by simp
qed simp

lemma weave_at:
  "length xs1 = length ys1 \<Longrightarrow> length xs2 = length ys2 \<Longrightarrow>
     weave (xs1 @ x # xs2) (ys1 @ ys2) = lead xs1 ys1 @ x @ trail ys2 xs2"
  by (induction xs1 ys1 rule: list_induct2) (simp_all add: weave_trail)

lemma lead_append: "length xs1 = length ys1 \<Longrightarrow> lead (xs1 @ xs2) (ys1 @ ys2) = lead xs1 ys1 @ lead xs2 ys2"
  by (induction xs1 ys1 rule: list_induct2) simp_all

section \<open>Contents and well-formed nodes\<close>

fun inorder :: "('k, 'v) node \<Rightarrow> ('k \<times> 'v) list" where
  "inorder (Node a its ks cs) = weave (map inorder ks) its"

abbreviation size_of :: "('k, 'v) node \<Rightarrow> int" where
  "size_of n \<equiv> int (length (inorder n))"

fun node_ok :: "nat \<Rightarrow> ('k, 'v) node \<Rightarrow> bool" where
  "node_ok 0 (Node a its ks cs) = (ks = [] \<and> cs = [] \<and> length its \<le> maxItems)"
| "node_ok (Suc h) (Node a its ks cs) =
     (length ks = Suc (length its) \<and> length its \<le> maxItems \<and> cs = map size_of ks \<and>
      (\<forall>k \<in> set ks. node_ok h k \<and> minItems \<le> length (n_items k)))"

text \<open>Two nodes that differ in their address only.\<close>

definition same_node :: "('k, 'v) node \<Rightarrow> ('k, 'v) node \<Rightarrow> bool" where
  "same_node n n' = (n_items n = n_items n' \<and> n_kids n = n_kids n' \<and> n_counts n = n_counts n')"

lemma same_node_props:
  assumes "same_node n n'"
  shows "inorder n = inorder n'" "node_ok h n = node_ok h n'" "n_items n = n_items n'" "n_kids n = n_kids n'"
    "n_counts n = n_counts n'"
  using assms by (cases n; cases n'; cases h; simp add: same_node_def)+

lemma same_node_refl [simp]: "same_node n n"
  by (simp add: same_node_def)

lemma cow0_same: "cow0 n st = (n2, st1) \<Longrightarrow> same_node n n2"
  using cow0_shape [of n st n2 st1] by (simp add: same_node_def)

lemma cowRoot_same: "cowRoot cp n mut st = (n2, st1) \<Longrightarrow> same_node n n2"
  by (auto simp: cowRoot_def dest: cow0_same split: if_splits)

lemma cow_kid_same: "cow_kid cp a n mut st = (n2, st1) \<Longrightarrow> same_node n n2"
  by (auto simp: cow_kid_def dest: cow0_same split: if_splits prod.splits)

lemma cowChild_same:
  assumes "cowChild cp n i mut st = (n1, st1)"
  shows "n_addr n1 = n_addr n" "n_items n1 = n_items n" "n_counts n1 = n_counts n"
    "length (n_kids n1) = length (n_kids n)" "\<forall>j < length (n_kids n). same_node (n_kids n ! j) (n_kids n1 ! j)"
    "\<forall>j. j \<noteq> i \<longrightarrow> n_kids n1 ! j = n_kids n ! j"
proof -
  note shape = cowChild_shape [OF assms]
  then show "n_addr n1 = n_addr n" "n_items n1 = n_items n" "n_counts n1 = n_counts n"
    "length (n_kids n1) = length (n_kids n)" "\<forall>j. j \<noteq> i \<longrightarrow> n_kids n1 ! j = n_kids n ! j" by auto
  show "\<forall>j < length (n_kids n). same_node (n_kids n ! j) (n_kids n1 ! j)"
    using shape by (metis same_node_def)
qed

lemma inorder_node: "inorder n = weave (map inorder (n_kids n)) (n_items n)"
  by (cases n) simp

text \<open>Replacing children by ones that differ in their address only changes nothing.\<close>

lemma kids_same:
  assumes "length ks' = length ks" and "\<forall>j < length ks. same_node (ks ! j) (ks' ! j)"
  shows "map inorder ks' = map inorder ks" and "map size_of ks' = map size_of ks"
    and "map (\<lambda>k. length (n_items k)) ks' = map (\<lambda>k. length (n_items k)) ks"
    and "(\<forall>k \<in> set ks'. node_ok h k) = (\<forall>k \<in> set ks. node_ok h k)"
    and "(\<forall>k \<in> set ks'. m \<le> length (n_items k)) = (\<forall>k \<in> set ks. m \<le> length (n_items k))"
proof -
  have eq: "inorder (ks' ! j) = inorder (ks ! j)" "n_items (ks' ! j) = n_items (ks ! j)"
    "node_ok h (ks' ! j) = node_ok h (ks ! j)" if "j < length ks" for j h
    using same_node_props(1-3) [of "ks ! j" "ks' ! j"] assms(2) that by auto
  show "map inorder ks' = map inorder ks" "map size_of ks' = map size_of ks"
    "map (\<lambda>k. length (n_items k)) ks' = map (\<lambda>k. length (n_items k)) ks"
    using assms(1) eq by (auto intro!: nth_equalityI)
  show "(\<forall>k \<in> set ks'. node_ok h k) = (\<forall>k \<in> set ks. node_ok h k)"
    "(\<forall>k \<in> set ks'. m \<le> length (n_items k)) = (\<forall>k \<in> set ks. m \<le> length (n_items k))"
    using assms(1) eq by (simp_all add: all_set_conv_all_nth)
qed

lemma node_ok_kids:
  "node_ok (Suc h) n = (length (n_kids n) = Suc (length (n_items n)) \<and> length (n_items n) \<le> maxItems \<and>
     n_counts n = map size_of (n_kids n) \<and> (\<forall>k \<in> set (n_kids n). node_ok h k) \<and>
     (\<forall>k \<in> set (n_kids n). minItems \<le> length (n_items k)))"
  by (cases n) auto

lemma node_ok_0: "node_ok 0 n = (n_kids n = [] \<and> n_counts n = [] \<and> length (n_items n) \<le> maxItems)"
  by (cases n) auto

lemma node_ok_len: "node_ok h n \<Longrightarrow> length (n_items n) \<le> maxItems"
  by (cases h; cases n) auto

lemma cowChild_ok:
  assumes "cowChild cp n i mut st = (n1, st1)"
  shows "inorder n1 = inorder n" "node_ok (Suc h) n1 = node_ok (Suc h) n"
proof -
  note c = cowChild_same [OF assms]
  note k = kids_same [OF c(4,5)]
  show "inorder n1 = inorder n" using k(1) c(2) by (simp add: inorder_node [of n1] inorder_node [of n])
  show "node_ok (Suc h) n1 = node_ok (Suc h) n" using k c by (simp add: node_ok_kids)
qed

lemma count_node_ok: "node_ok h n \<Longrightarrow> count_node n = size_of n"
proof (cases h)
  case (Suc h')
  assume "node_ok h n"
  then have "n_counts n = map size_of (n_kids n)" "n_kids n \<noteq> []" using Suc by (auto simp: node_ok_kids)
  then show ?thesis
    by (simp add: count_node_def leaf_def inorder_node [of n] length_weave comp_def)
      (simp add: sum_list_of_nat [symmetric] comp_def)
qed (simp add: count_node_def leaf_def node_ok_0 inorder_node [of n])

subsection \<open>Positions\<close>

definition left_of :: "('k, 'v) node \<Rightarrow> nat \<Rightarrow> ('k \<times> 'v) list" where
  "left_of n i = lead (map inorder (take i (n_kids n))) (take i (n_items n))"

definition right_of :: "('k, 'v) node \<Rightarrow> nat \<Rightarrow> ('k \<times> 'v) list" where
  "right_of n i = trail (drop i (n_items n)) (map inorder (drop (Suc i) (n_kids n)))"

lemma inorder_at:
  assumes "length (n_kids n) = Suc (length (n_items n))" and "i \<le> length (n_items n)"
  shows "inorder n = left_of n i @ inorder (n_kids n ! i) @ right_of n i"
proof -
  have "map inorder (n_kids n) =
      map inorder (take i (n_kids n)) @ inorder (n_kids n ! i) # map inorder (drop (Suc i) (n_kids n))"
    using assms by (metis id_take_nth_drop le_imp_less_Suc list.simps(9) map_append)
  then have "inorder n = weave (map inorder (take i (n_kids n)) @ inorder (n_kids n ! i) # map inorder (drop (Suc i) (n_kids n)))
      (take i (n_items n) @ drop i (n_items n))" by (simp add: inorder_node)
  also have "\<dots> = left_of n i @ inorder (n_kids n ! i) @ right_of n i"
    unfolding left_of_def right_of_def by (rule weave_at) (use assms in auto)
  finally show ?thesis .
qed

lemma right_of_item:
  assumes "length (n_kids n) = Suc (length (n_items n))" and "i < length (n_items n)"
  shows "right_of n i = n_items n ! i # inorder (n_kids n ! Suc i) @ right_of n (Suc i)"
proof -
  have "drop (Suc i) (n_kids n) = n_kids n ! Suc i # drop (Suc (Suc i)) (n_kids n)"
    using assms by (simp add: Cons_nth_drop_Suc)
  then show ?thesis using assms(2) by (simp add: right_of_def flip: Cons_nth_drop_Suc)
qed

lemma left_of_Suc:
  assumes "length (n_kids n) = Suc (length (n_items n))" and "i < length (n_items n)"
  shows "left_of n (Suc i) = left_of n i @ inorder (n_kids n ! i) @ [n_items n ! i]"
  using assms by (simp add: left_of_def take_Suc_conv_app_nth lead_append)

lemma left_right_set_child [simp]:
  "left_of (set_child n i c) i = left_of n i" "right_of (set_child n i c) i = right_of n i"
  "left_of (add_count n i d) j = left_of n j" "right_of (add_count n i d) j = right_of n j"
  by (simp_all add: left_of_def right_of_def)

lemma left_of_0 [simp]: "left_of n 0 = []" 
  by (simp add: left_of_def)

lemma right_of_last [simp]: "right_of n (length (n_items n)) = []"
  by (simp add: right_of_def)

lemma find_slot_spec:
  assumes "find_slot (map (\<lambda>x. int (length x)) (take (length ys) xs)) index = (i, found, j)"
    and "length xs = Suc (length ys)" and "0 \<le> index" and "index \<le> int (length (weave xs ys))"
  shows "i \<le> length ys \<and> index = int (length (lead (take i xs) (take i ys))) + j \<and> 0 \<le> j \<and>
    j \<le> int (length (xs ! i)) \<and> found = (i < length ys \<and> j = int (length (xs ! i)))"
  using assms
proof (induction ys arbitrary: xs index i)
  case Nil
  then obtain x where "xs = [x]" by (metis length_0_conv length_Suc_conv list.size(3))
  then show ?case using Nil by auto
next
  case (Cons y ys)
  then obtain x xs' where xs: "xs = x # xs'" "length xs' = Suc (length ys)" by (metis length_Suc_conv)
  show ?case
  proof (cases "index \<le> int (length x)")
    case False
    then obtain i' where "find_slot (map (\<lambda>x. int (length x)) (take (length ys) xs')) (index - (int (length x) + 1)) = (i', found, j)"
      and i: "i = Suc i'"
      using Cons.prems(1) xs by (auto split: prod.splits)
    from Cons.IH [OF this(1) xs(2)] show ?thesis using False Cons.prems(4) xs i by auto
  qed (use Cons.prems xs in auto)
qed

lemma find_slot_node:
  assumes "node_ok (Suc h) n" and "find_slot (take (length (n_items n)) (n_counts n)) index = (i, found, j)"
    and "0 \<le> index" and "index \<le> size_of n"
  shows "i \<le> length (n_items n)" "index = int (length (left_of n i)) + j" "0 \<le> j"
    "j \<le> size_of (n_kids n ! i)" "found = (i < length (n_items n) \<and> j = size_of (n_kids n ! i))"
proof -
  have ok: "length (n_kids n) = Suc (length (n_items n))" "n_counts n = map size_of (n_kids n)"
    using assms(1) by (auto simp: node_ok_kids)
  have "take (length (n_items n)) (n_counts n) =
      map (\<lambda>x. int (length x)) (take (length (n_items n)) (map inorder (n_kids n)))"
    using ok(2) by (simp add: take_map)
  note spec = find_slot_spec [OF assms(2) [unfolded this] _ assms(3)]
  have le: "i \<le> length (n_items n)" using spec ok assms(4) by (simp add: inorder_node)
  moreover have "map inorder (n_kids n) ! i = inorder (n_kids n ! i)" using le ok by simp
  ultimately show "i \<le> length (n_items n)" "index = int (length (left_of n i)) + j" "0 \<le> j"
    "j \<le> size_of (n_kids n ! i)" "found = (i < length (n_items n) \<and> j = size_of (n_kids n ! i))"
    using spec ok assms(4) by (simp_all add: inorder_node [of n] left_of_def take_map)
qed

section \<open>Splitting\<close>

lemma sizes: "maxItems = 63" "minItems = 31"
  by (simp_all add: maxItems_def minItems_def fanout_def)

lemma splitNode_ok:
  assumes "node_ok h n" and "length (n_items n) = maxItems" and "splitNode n st = (l, r, e, st1)"
  shows "node_ok h l" "node_ok h r" "length (n_items l) = minItems" "length (n_items r) = minItems"
    "inorder n = inorder l @ e # inorder r"
proof -
  note parts = splitNode_eq [OF assms(3)]
  show len: "length (n_items l) = minItems" "length (n_items r) = minItems"
    using parts assms(2) by (simp_all add: sizes)
  have items: "n_items n = n_items l @ e # n_items r"
    using parts assms(2) id_take_nth_drop [of 31 "n_items n"] by (simp add: sizes)
  have kids: "n_kids n = n_kids l @ n_kids r" using parts by simp
  have "node_ok h l \<and> node_ok h r"
  proof (cases h)
    case 0
    then show ?thesis using assms(1) len parts by (simp_all add: node_ok_0 sizes)
  next
    case (Suc h')
    then have ok: "length (n_kids n) = 64" "n_counts n = map size_of (n_kids n)"
      using assms(1,2) by (auto simp: node_ok_kids sizes)
    then show ?thesis
      using assms(1) Suc len parts by (auto simp: node_ok_kids sizes take_map drop_map dest: in_set_takeD in_set_dropD)
  qed
  then show "node_ok h l" "node_ok h r" by auto
  show "inorder n = inorder l @ e # inorder r"
  proof (cases h)
    case 0
    then have "n_kids n = []" "n_kids l = []" "n_kids r = []" using assms(1) kids by (auto simp: node_ok_0)
    then show ?thesis using items by (simp add: inorder_node)
  next
    case (Suc h')
    then have "length (n_kids l) = Suc (length (n_items l))"
      using assms(1,2) len parts by (simp add: node_ok_kids sizes)
    then show ?thesis
      using weave_append [of "map inorder (n_kids l)" "n_items l" "map inorder (n_kids r)" e "n_items r"]
      by (simp add: inorder_node [of n] inorder_node [of l] inorder_node [of r] items kids)
  qed
qed

lemma splitBranch_ok:
  assumes ok: "node_ok (Suc h) n" and i: "i \<le> length (n_items n)"
    and full: "length (n_items (n_kids n ! i)) = maxItems" and room: "length (n_items n) < maxItems"
    and res: "splitBranch n i st = (n', st')"
  shows "node_ok (Suc h) n'" "inorder n' = inorder n" "n_addr n' = n_addr n"
    "length (n_items n') = Suc (length (n_items n))"
    "length (n_items (n_kids n' ! i)) = minItems" "length (n_items (n_kids n' ! Suc i)) = minItems"
proof -
  obtain l r e st1 where split: "splitNode (n_kids n ! i) st = (l, r, e, st1)" by (metis prod_cases4)
  have kids: "length (n_kids n) = Suc (length (n_items n))" "n_counts n = map size_of (n_kids n)"
    using ok by (auto simp: node_ok_kids)
  then have lt: "i < length (n_kids n)" using i by simp
  note eq = splitBranch_eq [OF split lt] 
  have n': "n' = Node (n_addr n) (take i (n_items n) @ e # drop i (n_items n)) (split_kids (n_kids n) i l r)
       (take i (n_counts n) @ count_node l # count_node r # drop (Suc i) (n_counts n))"
    using eq kids res by simp
  have okc: "node_ok h (n_kids n ! i)" using ok lt by (auto simp: node_ok_kids)
  note sp = splitNode_ok [OF okc full split]
  have "set (split_kids (n_kids n) i l r) \<subseteq> set (n_kids n) \<union> {l, r}"
    by (auto simp: split_kids_def dest: in_set_takeD in_set_dropD)
  then show "node_ok (Suc h) n'"
    using ok sp room i kids by (auto simp: node_ok_kids n' split_kids_def count_node_ok take_map drop_map)
  have "inorder n' = left_of n i @ inorder l @ e # inorder r @ right_of n i"
    using weave_at [of "map inorder (take i (n_kids n))" "take i (n_items n)"
        "inorder r # map inorder (drop (Suc i) (n_kids n))" "e # drop i (n_items n)" "inorder l"] i kids
    by (simp add: n' split_kids_def left_of_def right_of_def)
  then show "inorder n' = inorder n" using inorder_at [OF kids(1) i] sp(5) by simp
  show "n_addr n' = n_addr n" "length (n_items n') = Suc (length (n_items n))" using i by (auto simp: n')
  show "length (n_items (n_kids n' ! i)) = minItems" "length (n_items (n_kids n' ! Suc i)) = minItems"
    using sp(3,4) lt by (simp_all add: n' split_kids_def nth_append)
qed

text \<open>One level of a descent that inserts, in a node with room: the node keeps its contents, the
  chosen child has room.\<close>

lemma ensureBranch_ok:
  assumes ok: "node_ok (Suc h) n" and i: "i \<le> length (n_items n)" and room: "length (n_items n) < maxItems"
    and res: "ensureBranch n i st = (b, n', st')"
  shows "node_ok (Suc h) n'" "inorder n' = inorder n" "n_addr n' = n_addr n"
    "length (n_items n') = (if b then Suc (length (n_items n)) else length (n_items n))"
    "length (n_items (n_kids n' ! i)) < maxItems" "b \<Longrightarrow> length (n_items (n_kids n' ! Suc i)) < maxItems"
    "\<not> b \<Longrightarrow> n' = n \<and> st' = st"
proof -
  have mem: "n_kids n ! i \<in> set (n_kids n)" using ok i by (auto simp: node_ok_kids)
  then have "length (n_items (n_kids n ! i)) \<le> maxItems" using ok by (auto simp: node_ok_kids dest: node_ok_len)
  then show "node_ok (Suc h) n'" "inorder n' = inorder n" "n_addr n' = n_addr n"
    "length (n_items n') = (if b then Suc (length (n_items n)) else length (n_items n))"
    "length (n_items (n_kids n' ! i)) < maxItems" "b \<Longrightarrow> length (n_items (n_kids n' ! Suc i)) < maxItems"
    "\<not> b \<Longrightarrow> n' = n \<and> st' = st"
    using res splitBranch_ok [OF ok i _ room, of st n' st'] ok
    by (auto simp: ensureBranch_def sizes split: if_splits)
qed

lemma ensureRoot_ok:
  assumes ok: "node_ok h n" and ne: "n_items n \<noteq> []" and res: "ensureRoot n st = (b, n', st')"
  shows "\<exists>h'. node_ok h' n'" "inorder n' = inorder n" "n_items n' \<noteq> []" "length (n_items n') < maxItems"
proof -
  have "(\<exists>h'. node_ok h' n') \<and> inorder n' = inorder n \<and> n_items n' \<noteq> [] \<and> length (n_items n') < maxItems"
  proof (cases "length (n_items n) = maxItems")
    case True
    obtain l r e st1 where split: "splitNode n (snd (newNode st)) = (l, r, e, st1)" by (metis prod_cases4)
    note sp = splitNode_ok [OF ok True split]
    have "n' = Node (ar_next st) [e] [l, r] [count_node l, count_node r]"
      using res True split
      by (auto simp: ensureRoot_def splitRoot_def newNode_def insertItemAt_def recount_def split: prod.splits)
    moreover have "node_ok (Suc h) (Node (ar_next st) [e] [l, r] [count_node l, count_node r])"
      using sp by (simp add: count_node_ok sizes)
    ultimately show ?thesis using sp by (auto simp: sizes simp del: node_ok.simps)
  next
    case False
    then show ?thesis using res ok ne node_ok_len [OF ok] by (auto simp: ensureRoot_def)
  qed
  then show "\<exists>h'. node_ok h' n'" "inorder n' = inorder n" "n_items n' \<noteq> []" "length (n_items n') < maxItems"
    by auto
qed

section \<open>Rebalancing\<close>

text \<open>What merging and rotating do to two neighbours and the item between them.\<close>

lemma merge_ok:
  assumes "node_ok h (Node la li lk lc)" and "node_ok h (Node ra ri rk rcs)"
    and "length li + length ri < maxItems"
  shows "node_ok h (Node la (li @ x # ri) (lk @ rk) (lc @ rcs))"
    and "inorder (Node la (li @ x # ri) (lk @ rk) (lc @ rcs)) = inorder (Node la li lk lc) @ x # inorder (Node ra ri rk rcs)"
  using assms weave_append [of "map inorder lk" li "map inorder rk" x ri]
  by (cases h; auto)+

lemma rotate_right_ok:
  assumes "node_ok h (Node la li lk lc)" and "node_ok h (Node ra ri rk rcs)"
    and "li \<noteq> []" and "length ri < maxItems"
  shows "node_ok h (Node la (butlast li) (take (length li) lk) (take (length li) lc))"
    and "node_ok h (Node ra (x # ri) (drop (length li) lk @ rk) (drop (length li) lc @ rcs))"
    and "inorder (Node la (butlast li) (take (length li) lk) (take (length li) lc)) @ last li #
      inorder (Node ra (x # ri) (drop (length li) lk @ rk) (drop (length li) lc @ rcs)) =
      inorder (Node la li lk lc) @ x # inorder (Node ra ri rk rcs)"
proof -
  obtain li' y where li: "li = li' @ [y]" using assms(3) by (metis rev_exhaust)
  have "node_ok h (Node la (butlast li) (take (length li) lk) (take (length li) lc)) \<and>
    node_ok h (Node ra (x # ri) (drop (length li) lk @ rk) (drop (length li) lc @ rcs)) \<and>
    inorder (Node la (butlast li) (take (length li) lk) (take (length li) lc)) @ last li #
      inorder (Node ra (x # ri) (drop (length li) lk @ rk) (drop (length li) lc @ rcs)) =
      inorder (Node la li lk lc) @ x # inorder (Node ra ri rk rcs)"
  proof (cases h)
    case 0
    then show ?thesis using assms li by auto
  next
    case (Suc h')
    then have len: "length lk = Suc (Suc (length li'))" using assms(1) li by simp
    define k where "k = lk ! Suc (length li')"
    have lk: "lk = take (Suc (length li')) lk @ [k]"
      using len by (metis k_def lessI take_all_iff take_Suc_conv_app_nth order_refl)
    define lk' where "lk' = take (Suc (length li')) lk"
    have lk': "lk = lk' @ [k]" "length lk' = Suc (length li')" using lk len by (simp_all add: lk'_def)
    have w: "weave (map inorder lk) li = weave (map inorder lk') li' @ y # inorder k"
      using weave_append [of "map inorder lk'" li' "[inorder k]" y "[]"] lk' li by simp
    show ?thesis using assms li lk' w Suc by auto
  qed
  then show "node_ok h (Node la (butlast li) (take (length li) lk) (take (length li) lc))"
    "node_ok h (Node ra (x # ri) (drop (length li) lk @ rk) (drop (length li) lc @ rcs))"
    "inorder (Node la (butlast li) (take (length li) lk) (take (length li) lc)) @ last li #
      inorder (Node ra (x # ri) (drop (length li) lk @ rk) (drop (length li) lc @ rcs)) =
      inorder (Node la li lk lc) @ x # inorder (Node ra ri rk rcs)" by auto
qed

lemma rotate_left_ok:
  assumes "node_ok h (Node la li lk lc)" and "node_ok h (Node ra ri rk rcs)"
    and "ri \<noteq> []" and "length li < maxItems"
  shows "node_ok h (Node la (li @ [x]) (lk @ take 1 rk) (lc @ take 1 rcs))"
    and "node_ok h (Node ra (tl ri) (drop 1 rk) (drop 1 rcs))"
    and "inorder (Node la (li @ [x]) (lk @ take 1 rk) (lc @ take 1 rcs)) @ hd ri #
      inorder (Node ra (tl ri) (drop 1 rk) (drop 1 rcs)) =
      inorder (Node la li lk lc) @ x # inorder (Node ra ri rk rcs)"
proof -
  obtain y ri' where ri: "ri = y # ri'" using assms(3) by (cases ri) auto
  have "node_ok h (Node la (li @ [x]) (lk @ take 1 rk) (lc @ take 1 rcs)) \<and>
    node_ok h (Node ra (tl ri) (drop 1 rk) (drop 1 rcs)) \<and>
    inorder (Node la (li @ [x]) (lk @ take 1 rk) (lc @ take 1 rcs)) @ hd ri #
      inorder (Node ra (tl ri) (drop 1 rk) (drop 1 rcs)) =
      inorder (Node la li lk lc) @ x # inorder (Node ra ri rk rcs)"
  proof (cases h)
    case 0
    then show ?thesis using assms ri by auto
  next
    case (Suc h')
    then obtain k rk' where rk: "rk = k # rk'" using assms(2) by (cases rk) auto
    have w: "weave (map inorder lk @ [inorder k]) (li @ [x]) = weave (map inorder lk) li @ x # inorder k"
      using weave_append [of "map inorder lk" li "[inorder k]" x "[]"] assms(1) Suc by simp
    show ?thesis using assms ri rk w Suc by auto
  qed
  then show "node_ok h (Node la (li @ [x]) (lk @ take 1 rk) (lc @ take 1 rcs))"
    "node_ok h (Node ra (tl ri) (drop 1 rk) (drop 1 rcs))"
    "inorder (Node la (li @ [x]) (lk @ take 1 rk) (lc @ take 1 rcs)) @ hd ri #
      inorder (Node ra (tl ri) (drop 1 rk) (drop 1 rcs)) =
      inorder (Node la li lk lc) @ x # inorder (Node ra ri rk rcs)" by auto
qed

text \<open>A node whose child \<open>i\<close> may be one item too short.\<close>

definition short_kid :: "nat \<Rightarrow> ('k, 'v) node \<Rightarrow> nat \<Rightarrow> bool" where
  "short_kid h n i =
     (length (n_kids n) = Suc (length (n_items n)) \<and> length (n_items n) \<le> maxItems \<and>
      n_counts n = map size_of (n_kids n) \<and> (\<forall>k \<in> set (n_kids n). node_ok h k) \<and>
      (\<forall>j < length (n_kids n). (if j = i then minItems - 1 else minItems) \<le> length (n_items (n_kids n ! j))))"

lemma cowChild_short:
  assumes "cowChild cp n j mut st = (n1, st1)" and "short_kid h n i"
  shows "short_kid h n1 i" "inorder n1 = inorder n" "n_items n1 = n_items n"
proof -
  note c = cowChild_same [OF assms(1)]
  note k = kids_same [OF c(4,5)]
  have "n_items (n_kids n1 ! m) = n_items (n_kids n ! m)" if "m < length (n_kids n)" for m
    using c(5) that same_node_props(3) by metis
  then show "short_kid h n1 i" using assms(2) c k by (simp add: short_kid_def)
  show "inorder n1 = inorder n" by (rule cowChild_ok [OF assms(1)])
  show "n_items n1 = n_items n" by (rule c(2))
qed

text \<open>Recounting two neighbours repairs the counts of a node that are right elsewhere.\<close>

lemma recount_counts:
  assumes "recount n i st = (n1, st1)" and "length (n_counts n) = length (n_kids n)"
    and "\<forall>k \<in> set (n_kids n). node_ok h k"
  shows "n_addr n1 = n_addr n" "n_items n1 = n_items n" "n_kids n1 = n_kids n"
    "length (n_counts n1) = length (n_kids n)"
    "j < length (n_kids n) \<Longrightarrow> n_counts n1 ! j = (if j = i then size_of (n_kids n ! j) else n_counts n ! j)"
proof -
  have "n1 = (if i < length (n_kids n) then Node (n_addr n) (n_items n) (n_kids n) ((n_counts n)[i := size_of (n_kids n ! i)]) else n)"
    using assms(1) count_node_ok [of h "n_kids n ! i"] assms(3) by (cases n) (auto simp: recount_def)
  then show "n_addr n1 = n_addr n" "n_items n1 = n_items n" "n_kids n1 = n_kids n"
    "length (n_counts n1) = length (n_kids n)"
    "j < length (n_kids n) \<Longrightarrow> n_counts n1 ! j = (if j = i then size_of (n_kids n ! j) else n_counts n ! j)"
    using assms(2) by auto
qed

lemma recount_both:
  assumes "recount n i st = (n1, st1)" and "recount n1 (Suc i) st1 = (n2, st2)"
    and "length (n_counts n) = length (n_kids n)" and "\<forall>k \<in> set (n_kids n). node_ok h k"
    and "\<forall>j < length (n_kids n). j \<noteq> i \<longrightarrow> j \<noteq> Suc i \<longrightarrow> n_counts n ! j = size_of (n_kids n ! j)"
  shows "n2 = Node (n_addr n) (n_items n) (n_kids n) (map size_of (n_kids n))"
proof -
  note r1 = recount_counts [OF assms(1,3,4)]
  have "\<forall>k \<in> set (n_kids n1). node_ok h k" "length (n_counts n1) = length (n_kids n1)" using assms(4) r1 by simp_all
  note r2 = recount_counts [OF assms(2) this(2,1)]
  have "n_counts n2 = map size_of (n_kids n)"
    using r1 r2 assms(5) by (intro nth_equalityI) auto
  then show ?thesis using r1 r2 by (cases n2) simp
qed

lemma weave_pair:
  assumes "length K1 = length I1" and "length K2 = length I2"
  shows "inorder (Node a (I1 @ x # I2) (K1 @ l # r # K2) cs) =
    lead (map inorder K1) I1 @ inorder l @ x # inorder r @ trail I2 (map inorder K2)"
  using weave_at [of "map inorder K1" I1 "inorder r # map inorder K2" "x # I2" "inorder l"] assms by simp

text \<open>The three ways to rebalance, on the two neighbours in context.\<close>

lemma rebalance_step_ok:
  assumes n: "n = Node a (I1 @ x # I2) (K1 @ l # r # K2) cs"
    and len: "length K1 = length I1" "length K2 = length I2" "length cs = length (n_kids n)" "length (n_items n) \<le> maxItems"
    and kids: "\<forall>k \<in> set K1 \<union> set K2. node_ok h k \<and> minItems \<le> length (n_items k)"
    and lr: "node_ok h l" "node_ok h r" "minItems - 1 \<le> length (n_items l)" "minItems - 1 \<le> length (n_items r)"
      "2 * minItems - 1 \<le> length (n_items l) + length (n_items r)"
      "length (n_items l) < minItems \<or> length (n_items r) < minItems"
    and cs: "\<forall>j < length (n_kids n). j \<noteq> length I1 \<longrightarrow> j \<noteq> Suc (length I1) \<longrightarrow> cs ! j = size_of (n_kids n ! j)"
    and step: "(if length (n_items l) + length (n_items r) < maxItems then merge_kids n (length I1) st
        else if length (n_items l) > length (n_items r) then rotate_right n (length I1) st
        else rotate_left n (length I1) st) = (n3, st3)"
    and fin: "recount n3 (length I1) st3 = (n4, st4)" "recount n4 (Suc (length I1)) st4 = (n5, st5)"
  shows "node_ok (Suc h) n5" "inorder n5 = inorder n" "length (n_items n) \<le> Suc (length (n_items n5))" "n_addr n5 = a"
proof -
  obtain la li lk lc where l: "l = Node la li lk lc" by (cases l)
  obtain ra ri rk rcs where r: "r = Node ra ri rk rcs" by (cases r)
  have "node_ok (Suc h) n5 \<and> inorder n5 = inorder n \<and> length (n_items n) \<le> Suc (length (n_items n5)) \<and> n_addr n5 = a"
  proof (cases "length li + length ri < maxItems")
    case True
    define m where "m = Node la (li @ x # ri) (lk @ rk) (lc @ rcs)"
    note m = merge_ok [OF lr(1,2) [unfolded l r] True, of x, folded m_def l r]
    have n3: "n3 = Node a (I1 @ I2) (K1 @ m # K2) (take (Suc (length I1)) cs @ drop (Suc (Suc (length I1))) cs)"
      using step True len(1) by (simp add: n l r merge_kids_def nth_append m_def)
    have "n_counts n3 ! j = size_of (n_kids n3 ! j)"
      if "j < length (n_kids n3)" "j \<noteq> length I1" "j \<noteq> Suc (length I1)" for j
    proof (cases "j < length I1")
      case False
      then have "cs ! Suc j = size_of (n_kids n ! Suc j)" using cs that n3 len by (simp add: n)
      then show ?thesis using False that len n3
        by (auto simp: n nth_append min_def nth_Cons' )
    qed (use cs that n3 len in \<open>auto simp: n nth_append\<close>)
    then have n5: "n5 = Node a (I1 @ I2) (K1 @ m # K2) (map size_of (K1 @ m # K2))"
      using recount_both [OF fin, of h] kids m(1) len by (auto simp: n3 n)
    have "inorder n5 = inorder n"
      using weave_at [of "map inorder K1" I1 "map inorder K2" I2 "inorder m"] m(2) len
      by (simp add: n5 n weave_pair del: inorder.simps) simp
    moreover have "minItems \<le> length (n_items m)" using lr(5) by (simp add: m_def l r)
    ultimately show ?thesis using kids m(1) len by (simp add: n5 n)
  next
    case False
    have "\<exists>l' y r'. n3 = Node a (I1 @ y # I2) (K1 @ l' # r' # K2) cs \<and> node_ok h l' \<and> node_ok h r' \<and>
        minItems \<le> length (n_items l') \<and> minItems \<le> length (n_items r') \<and>
        inorder l' @ y # inorder r' = inorder l @ x # inorder r"
    proof (cases "length li > length ri")
      case True
      then have "li \<noteq> []" "length ri < maxItems" using lr(1) node_ok_len [OF lr(1)] by (auto simp: l)
      note rr = rotate_right_ok(1) [OF lr(1,2) [unfolded l r] this] rotate_right_ok(2) [OF lr(1,2) [unfolded l r] this, of x]
        rotate_right_ok(3) [OF lr(1,2) [unfolded l r] this, of x, folded l r]
      have "n3 = Node a (I1 @ last li # I2) (K1 @ Node la (butlast li) (take (length li) lk) (take (length li) lc) #
            Node ra (x # ri) (drop (length li) lk @ rk) (drop (length li) lc @ rcs) # K2) cs"
        using step False True len(1) by (simp add: n l r rotate_right_def nth_append list_update_append)
      then show ?thesis using rr True False lr(3,4) by (fastforce simp: sizes l r simp del: inorder.simps)
    next
      case le: False
      then have "ri \<noteq> []" "length li < maxItems" using False lr(6) by (auto simp: l r sizes)
      note rl = rotate_left_ok(1) [OF lr(1,2) [unfolded l r] this, of x] rotate_left_ok(2) [OF lr(1,2) [unfolded l r] this]
        rotate_left_ok(3) [OF lr(1,2) [unfolded l r] this, of x, folded l r]
      have "n3 = Node a (I1 @ hd ri # I2) (K1 @ Node la (li @ [x]) (lk @ take 1 rk) (lc @ take 1 rcs) #
            Node ra (tl ri) (drop 1 rk) (drop 1 rcs) # K2) cs"
        using step False le len(1) by (simp add: n l r rotate_left_def nth_append list_update_append)
      then show ?thesis using rl le False lr(3,4) by (fastforce simp: sizes l r simp del: inorder.simps)
    qed
    then obtain l' y r' where n3: "n3 = Node a (I1 @ y # I2) (K1 @ l' # r' # K2) cs"
      and ok: "node_ok h l'" "node_ok h r'" "minItems \<le> length (n_items l')" "minItems \<le> length (n_items r')"
      and eq: "inorder l' @ y # inorder r' = inorder l @ x # inorder r" by blast
    have "n_counts n3 ! j = size_of (n_kids n3 ! j)"
      if "j < length (n_kids n3)" "j \<noteq> length I1" "j \<noteq> Suc (length I1)" for j
      using cs that len by (auto simp: n3 n nth_append nth_Cons' split: if_splits)
    then have n5: "n5 = Node a (I1 @ y # I2) (K1 @ l' # r' # K2) (map size_of (K1 @ l' # r' # K2))"
      using recount_both [OF fin, of h] kids ok len by (auto simp: n3 n)
    have "inorder n5 = inorder n"
      using eq by (simp add: n5 n weave_pair len del: inorder.simps)
    then show ?thesis using kids ok len by (simp add: n5 n)
  qed
  then show "node_ok (Suc h) n5" "inorder n5 = inorder n" "length (n_items n) \<le> Suc (length (n_items n5))" "n_addr n5 = a"
    by auto
qed

lemma rebalance_ok:
  assumes short: "short_kid h n i" and i: "i \<le> length (n_items n)" and ne: "n_items n \<noteq> []"
    and lt: "length (n_items (n_kids n ! i)) < minItems" and res: "rebalance cp n i st = (n', st')"
  shows "node_ok (Suc h) n'" "inorder n' = inorder n" "length (n_items n) \<le> Suc (length (n_items n'))"
    "n_addr n' = n_addr n"
proof -
  define p where "p = (if i = length (n_items n) then i - 1 else i)"
  obtain n1 st1 where c1: "cowChild cp n p True st = (n1, st1)" by (metis surj_pair)
  obtain n2 st2 where c2: "cowChild cp n1 (Suc p) True st1 = (n2, st2)" by (metis surj_pair)
  note s1 = cowChild_short [OF c1 short]
  note s2 = cowChild_short [OF c2 s1(1)]
  have p: "p < length (n_items n2)" "i = p \<or> i = Suc p" using i ne s1(3) s2(3) by (auto simp: p_def)
  have addr: "n_addr n2 = n_addr n" using cowChild_same(1) [OF c1] cowChild_same(1) [OF c2] by simp
  note sh = s2(1) [unfolded short_kid_def]
  define l r x where "l = n_kids n2 ! p" and "r = n_kids n2 ! Suc p" and "x = n_items n2 ! p"
  define K1 K2 where "K1 = take p (n_kids n2)" and "K2 = drop (Suc (Suc p)) (n_kids n2)"
  define I1 I2 where "I1 = take p (n_items n2)" and "I2 = drop (Suc p) (n_items n2)"
  have lens: "length K1 = p" "length I1 = p" "length K2 = length I2"
    using p sh by (auto simp: K1_def K2_def I1_def I2_def)
  have kids: "n_kids n2 = K1 @ l # r # K2"
    using p sh by (simp add: K1_def K2_def l_def r_def Cons_nth_drop_Suc)
  have items: "n_items n2 = I1 @ x # I2" using p by (simp add: I1_def I2_def x_def id_take_nth_drop)
  have n2: "n2 = Node (n_addr n) (I1 @ x # I2) (K1 @ l # r # K2) (n_counts n2)"
    using kids items addr by (cases n2) simp
  have min: "(if j = i then minItems - 1 else minItems) \<le> length (n_items (n_kids n2 ! j))"
    if "j < length (n_kids n2)" for j
    using sh that by blast
  have outer: "node_ok h k \<and> minItems \<le> length (n_items k)" if "k \<in> set K1 \<union> set K2" for k
  proof -
    have "\<exists>j < length (n_kids n2). j \<noteq> p \<and> j \<noteq> Suc p \<and> n_kids n2 ! j = k"
      using that
    proof
      assume "k \<in> set K1"
      then obtain j where "j < p" "K1 ! j = k" using lens by (auto simp: in_set_conv_nth)
      then show ?thesis using kids lens by (intro exI [of _ j]) (auto simp: nth_append)
    next
      assume "k \<in> set K2"
      then obtain j where "j < length K2" "K2 ! j = k" by (auto simp: in_set_conv_nth)
      then show ?thesis using kids lens by (intro exI [of _ "Suc (Suc (p + j))"]) (auto simp: nth_append)
    qed
    then show ?thesis using min sh p(2) by (metis nth_mem)
  qed
  have len2: "length (n_kids n2) = Suc (length (n_items n2))" using sh by simp
  have lr: "node_ok h l" "node_ok h r" using sh kids by auto
  have ml: "(if p = i then minItems - 1 else minItems) \<le> length (n_items l)"
    "(if Suc p = i then minItems - 1 else minItems) \<le> length (n_items r)"
    using min [of p] min [of "Suc p"] p len2 by (simp_all add: l_def r_def)
  have "n_items (n_kids n2 ! i) = n_items (n_kids n ! i)"
    using cowChild_same(4,5) [OF c1] cowChild_same(5) [OF c2] same_node_props(3) i short
    by (metis le_imp_less_Suc short_kid_def)
  then have small: "length (n_items l) < minItems \<or> length (n_items r) < minItems"
    using lt p(2) by (auto simp: l_def r_def)
  obtain n3 st3 where step: "(if length (n_items l) + length (n_items r) < maxItems then merge_kids n2 (length I1) st2
        else if length (n_items l) > length (n_items r) then rotate_right n2 (length I1) st2
        else rotate_left n2 (length I1) st2) = (n3, st3)" by (metis surj_pair)
  obtain n4 st4 where f1: "recount n3 (length I1) st3 = (n4, st4)" by (metis surj_pair)
  have f2: "recount n4 (Suc (length I1)) st4 = (n', st')"
    using res c1 c2 step [unfolded lens(2) l_def r_def] f1 [unfolded lens(2)] lens(2)
    by (simp add: rebalance_def Let_def p_def [symmetric])
  note step_ok = rebalance_step_ok [OF n2 _ _ _ _ _ lr _ _ _ small _ step f1 f2]
  have pre: "length K1 = length I1" "length K2 = length I2" "length (n_counts n2) = length (n_kids n2)"
    "length (n_items n2) \<le> maxItems" "\<forall>k \<in> set K1 \<union> set K2. node_ok h k \<and> minItems \<le> length (n_items k)"
    "minItems - 1 \<le> length (n_items l)" "minItems - 1 \<le> length (n_items r)"
    "2 * minItems - 1 \<le> length (n_items l) + length (n_items r)"
    "\<forall>j < length (n_kids n2). j \<noteq> length I1 \<longrightarrow> j \<noteq> Suc (length I1) \<longrightarrow> n_counts n2 ! j = size_of (n_kids n2 ! j)"
    using lens sh outer ml p(2) by (auto simp: sizes split: if_splits)
  note step_ok = step_ok [OF pre]
  show "node_ok (Suc h) n'" "inorder n' = inorder n" "length (n_items n) \<le> Suc (length (n_items n'))"
    "n_addr n' = n_addr n"
    using step_ok s1(2,3) s2(2,3) by simp_all
qed

lemma after_delete_ok:
  assumes ok: "node_ok (Suc h) n" and i: "i \<le> length (n_items n)" and ne: "n_items n \<noteq> []"
    and c: "node_ok h c" "minItems \<le> Suc (length (n_items c))"
      "Suc (length (inorder c)) = length (inorder (n_kids n ! i))"
    and res: "after_delete cp n i c st = (n', st')"
  shows "node_ok (Suc h) n'" "inorder n' = left_of n i @ inorder c @ right_of n i"
    "length (n_items n) \<le> Suc (length (n_items n'))" "n_addr n' = n_addr n"
proof -
  define n1 where "n1 = add_count (set_child n i c) i (- 1)"
  note kids = ok [unfolded node_ok_kids]
  have lt: "i < length (n_kids n)" using kids i by simp
  have n1: "n_kids n1 = (n_kids n)[i := c]" "n_items n1 = n_items n" "n_addr n1 = n_addr n" by (simp_all add: n1_def)
  have "size_of (n_kids n ! i) - 1 = size_of c" using c(3) by linarith
  then have "n_counts n1 = map size_of ((n_kids n)[i := c])"
    using kids lt by (simp add: n1_def map_update)
  then have short: "short_kid h n1 i"
    using kids c(1,2) lt by (auto simp: short_kid_def n1 nth_list_update sizes all_set_conv_all_nth)
  have "inorder n1 = left_of n i @ inorder c @ right_of n i"
    using inorder_at [of n1 i] kids i lt by (simp add: n1_def)
  moreover have "length (n_items c) < minItems \<Longrightarrow> rebalance cp n1 i (wrote (n_addr n) st) = (n', st')"
    "\<not> length (n_items c) < minItems \<Longrightarrow> n' = n1"
    using res by (simp_all add: after_delete_def n1_def [symmetric] Let_def)
  moreover have "\<not> length (n_items c) < minItems \<Longrightarrow> node_ok (Suc h) n1"
    using short kids by (auto simp: short_kid_def node_ok_kids n1 dest!: set_update_subset_insert [THEN subsetD])
  ultimately show "node_ok (Suc h) n'" "inorder n' = left_of n i @ inorder c @ right_of n i"
    "length (n_items n) \<le> Suc (length (n_items n'))" "n_addr n' = n_addr n"
    using rebalance_ok [OF short, of cp "wrote (n_addr n) st" n' st'] i ne lt
    by (cases "length (n_items c) < minItems"; simp add: n1)+
qed

section \<open>Removing\<close>

text \<open>One level of a descent.\<close>

lemma cow_descend:
  assumes ok: "node_ok (Suc h) n" and i: "i \<le> length (n_items n)" and cow: "cowChild cp n i mut st = (n1, st1)"
  shows "node_ok (Suc h) n1" "node_ok h (n_kids n1 ! i)" "minItems \<le> length (n_items (n_kids n1 ! i))"
    "n_items (n_kids n1 ! i) \<noteq> []" "inorder (n_kids n1 ! i) = inorder (n_kids n ! i)"
    "left_of n1 i = left_of n i" "right_of n1 i = right_of n i" "n_items n1 = n_items n" "n_counts n1 = n_counts n"
    "inorder n = left_of n i @ inorder (n_kids n1 ! i) @ right_of n i" "n_addr n1 = n_addr n" "inorder n1 = inorder n"
proof -
  note c = cowChild_same [OF cow]
  show ok1: "node_ok (Suc h) n1" "inorder n1 = inorder n" using cowChild_ok [OF cow] ok by simp_all
  then show "n_items n1 = n_items n" "n_counts n1 = n_counts n" "n_addr n1 = n_addr n" using c by simp_all
  have mem: "n_kids n1 ! i \<in> set (n_kids n1)" using i c ok by (auto simp: node_ok_kids)
  then show "node_ok h (n_kids n1 ! i)" "minItems \<le> length (n_items (n_kids n1 ! i))"
    using ok1 by (auto simp: node_ok_kids)
  then show "n_items (n_kids n1 ! i) \<noteq> []" by (auto simp: sizes)
  note k = kids_same(1) [OF c(4,5)]
  have lt: "i < length (n_kids n)" using i ok by (auto simp: node_ok_kids)
  then show inord: "inorder (n_kids n1 ! i) = inorder (n_kids n ! i)"
    using c(4) k by (metis nth_map)
  have "map inorder (take i (n_kids n1)) = map inorder (take i (n_kids n))"
    "map inorder (drop (Suc i) (n_kids n1)) = map inorder (drop (Suc i) (n_kids n))"
    using k by (metis take_map, metis drop_map)
  then show "left_of n1 i = left_of n i" "right_of n1 i = right_of n i"
    using c(2) by (simp_all add: left_of_def right_of_def)
  show "inorder n = left_of n i @ inorder (n_kids n1 ! i) @ right_of n i"
    unfolding inord using inorder_at [of n i] ok i by (auto simp: node_ok_kids)
qed

lemma branch_shape:
  assumes "node_ok (Suc h) n" and "n = Node a its ks cs"
  obtains k ks' where "ks = k # ks'" "length ks' = length its"
  using assms by (cases ks) auto

lemma leaf_shape: "node_ok 0 n \<Longrightarrow> n = Node a its ks cs \<Longrightarrow> ks = [] \<and> cs = [] \<and> length its \<le> maxItems"
  by simp

lemma nodeDeleteMax_ok:
  assumes "node_ok h n" and "n_items n \<noteq> []" and "nodeDeleteMax cp n st = (e, n', st')"
  shows "node_ok h n' \<and> inorder n = inorder n' @ [e] \<and> length (n_items n) \<le> Suc (length (n_items n')) \<and>
    n_addr n' = n_addr n"
  using assms
proof (induction h arbitrary: n st e n' st')
  case 0
  then show ?case by (cases n) auto
next
  case (Suc h)
  obtain a its ks cs where n: "n = Node a its ks cs" by (cases n)
  obtain k ks' where ks: "ks = k # ks'" "length ks' = length its" using branch_shape [OF Suc.prems(1) n] .
  obtain n1 st1 where c1: "cowChild cp n (length its) True st = (n1, st1)" by (metis surj_pair)
  obtain e1 c st2 where r: "nodeDeleteMax cp (n_kids n1 ! length its) st1 = (e1, c, st2)" by (metis prod_cases3)
  have le: "length its \<le> length (n_items n)" by (simp add: n)
  note d = cow_descend [OF Suc.prems(1) le c1]
  note IH = Suc.IH [OF d(2) d(4) r]
  have res: "e1 = e" "after_delete cp n1 (length its) c st2 = (n', st')"
    using Suc.prems(3) c1 r ks by (simp_all add: n)
  have "Suc (length (inorder c)) = length (inorder (n_kids n1 ! length its))" "minItems \<le> Suc (length (n_items c))"
    using IH d(3) by auto
  note ad = after_delete_ok [OF d(1) _ _ _ this(2,1) res(2)]
  show ?case using ad IH d Suc.prems(2) res(1) right_of_last [of n] by (simp add: n)
qed

lemma nodePopBack_is_DeleteMax: "nodePopBack cp n st = nodeDeleteMax cp n st"
  by (induction cp n st rule: nodePopBack.induct) (auto split: prod.splits simp: Let_def)

lemma nodePopFront_ok:
  assumes "node_ok h n" and "n_items n \<noteq> []" and "nodePopFront cp n st = (e, n', st')"
  shows "node_ok h n' \<and> inorder n = e # inorder n' \<and> length (n_items n) \<le> Suc (length (n_items n')) \<and>
    n_addr n' = n_addr n"
  using assms
proof (induction h arbitrary: n st e n' st')
  case 0
  then show ?case by (cases n) auto
next
  case (Suc h)
  obtain a its ks cs where n: "n = Node a its ks cs" by (cases n)
  obtain k ks' where ks: "ks = k # ks'" "length ks' = length its" using branch_shape [OF Suc.prems(1) n] .
  obtain n1 st1 where c1: "cowChild cp n 0 True st = (n1, st1)" by (metis surj_pair)
  obtain e1 c st2 where r: "nodePopFront cp (n_kids n1 ! 0) st1 = (e1, c, st2)" by (metis prod_cases3)
  note d = cow_descend [OF Suc.prems(1) _ c1, simplified]
  note IH = Suc.IH [OF d(2) d(4) r]
  have res: "e1 = e" "after_delete cp n1 0 c st2 = (n', st')"
    using Suc.prems(3) c1 r ks by (simp_all add: n)
  have "Suc (length (inorder c)) = length (inorder (n_kids n1 ! 0))" "minItems \<le> Suc (length (n_items c))"
    using IH d(3) by auto
  note ad = after_delete_ok [OF d(1) _ _ _ this(2,1) res(2)]
  show ?case using ad IH d Suc.prems(2) res(1) by (simp add: n)
qed

text \<open>An item of a branch is replaced by the last item of the child before it.\<close>

lemma delete_item_ok:
  assumes ok: "node_ok (Suc h) n" and i: "i < length (n_items n)"
    and r: "nodeDeleteMax cp (n_kids n ! i) st = (e, c, st1)"
    and ad: "after_delete cp (Node (n_addr n) ((n_items n)[i := e]) (n_kids n) (n_counts n)) i c st1 = (n', st')"
  shows "node_ok (Suc h) n'" "length (n_items n) \<le> Suc (length (n_items n'))" "n_addr n' = n_addr n"
    "\<exists>S. inorder n = (left_of n i @ inorder (n_kids n ! i)) @ n_items n ! i # S \<and>
      inorder n' = (left_of n i @ inorder (n_kids n ! i)) @ S"
proof -
  let ?n = "Node (n_addr n) ((n_items n)[i := e]) (n_kids n) (n_counts n)"
  have ne: "n_items n \<noteq> []" using i by auto
  have kid: "node_ok h (n_kids n ! i)" "minItems \<le> length (n_items (n_kids n ! i))"
    using ok i by (auto simp: node_ok_kids)
  then have "n_items (n_kids n ! i) \<noteq> []" by (auto simp: sizes)
  note dm = nodeDeleteMax_ok [OF kid(1) this r]
  have okn: "node_ok (Suc h) ?n" using ok by (simp add: node_ok_kids)
  have "Suc (length (inorder c)) = length (inorder (n_kids ?n ! i))" "minItems \<le> Suc (length (n_items c))"
    using dm kid(2) by auto
  note fin = after_delete_ok [OF okn _ _ _ this(2,1) ad]
  show "node_ok (Suc h) n'" "length (n_items n) \<le> Suc (length (n_items n'))" "n_addr n' = n_addr n"
    using fin dm i ne by auto
  have len: "length (n_kids n) = Suc (length (n_items n))" using ok by (simp add: node_ok_kids)
  let ?S = "inorder (n_kids n ! Suc i) @ right_of n (Suc i)"
  have "inorder n = left_of n i @ inorder (n_kids n ! i) @ n_items n ! i # ?S"
    using inorder_at [OF len less_imp_le [OF i]] right_of_item [OF len i] by simp
  moreover have "left_of ?n i = left_of n i" "right_of ?n i = e # ?S"
    using right_of_item [of ?n i] len i by (simp_all add: left_of_def right_of_def)
  then have "inorder n' = left_of n i @ inorder c @ e # ?S" using fin(2) dm i ne by simp
  ultimately show "\<exists>S. inorder n = (left_of n i @ inorder (n_kids n ! i)) @ n_items n ! i # S \<and>
      inorder n' = (left_of n i @ inorder (n_kids n ! i)) @ S" using dm by (intro exI [of _ ?S]) simp
qed

lemma nodeDeleteAt_ok:
  assumes "node_ok h n" and "n_items n \<noteq> []" and "0 \<le> index" and "index < size_of n"
  shows "\<exists>n' st'. nodeDeleteAt cp n index st = Some (inorder n ! nat index, n', st') \<and> node_ok h n' \<and>
    inorder n' = take (nat index) (inorder n) @ drop (Suc (nat index)) (inorder n) \<and>
    length (n_items n) \<le> Suc (length (n_items n')) \<and> n_addr n' = n_addr n"
  using assms
proof (induction h arbitrary: n st index)
  case 0
  then show ?case by (cases n) auto
next
  case (Suc h)
  obtain a its ks cs where n: "n = Node a its ks cs" by (cases n)
  obtain k ks' where ks: "ks = k # ks'" "length ks' = length its" using branch_shape [OF Suc.prems(1) n] .
  obtain i found j where slot: "find_slot (take (length (n_items n)) (n_counts n)) index = (i, found, j)"
    by (metis prod_cases3)
  note fs = find_slot_node [OF Suc.prems(1) slot Suc.prems(3) less_imp_le [OF Suc.prems(4)]]
  obtain n1 st1 where c1: "cowChild cp n i True st = (n1, st1)" by (metis surj_pair)
  note d = cow_descend [OF Suc.prems(1) fs(1) c1]
  define L where "L = left_of n i"
  have at: "nat index = length L + nat j" using fs(2,3) by (simp add: L_def)
  show ?case
  proof (cases found)
    case True
    then have i: "i < length its" "j = size_of (n_kids n ! i)" using fs(5) by (auto simp: n)
    have n1: "n_items n1 = its" "n_counts n1 = cs" "n_addr n1 = a" using d(8,9,11) by (auto simp: n)
    obtain e c st2 where r: "nodeDeleteMax cp (n_kids n1 ! i) st1 = (e, c, st2)" by (metis prod_cases3)
    obtain n' st' where ad: "after_delete cp (Node a (its[i := e]) (n_kids n1) cs) i c st2 = (n', st')"
      by (metis surj_pair)
    have "i < length (n_items n1)" using i n1 by simp
    note fin = delete_item_ok [OF d(1) this r ad [folded n1]]
    define P where "P = left_of n1 i @ inorder (n_kids n1 ! i)"
    obtain S where S: "inorder n1 = P @ its ! i # S" "inorder n' = P @ S"
      using fin(4) n1 by (auto simp: P_def)
    have pos: "nat index = length P" using at i(2) d(5,6) by (simp add: P_def L_def)
    have in_n: "inorder n = P @ its ! i # S" using S(1) d(12) by simp
    have "nodeDeleteAt cp n index st = Some (its ! i, n', st')"
      using slot c1 r ad True i ks by (simp add: n)
    then show ?thesis
      unfolding pos in_n using fin(1-3) n1 S(2) by (simp add: n)
  next
    case False
    then have lt: "j < size_of (n_kids n1 ! i)"
      using fs(1,4,5) d(5) Suc.prems(4) fs(2) inorder_at [of n i] Suc.prems(1)
      by (cases "i < length (n_items n)") (auto simp: node_ok_kids)
    from Suc.IH [OF d(2) d(4) fs(3) lt, of st1] obtain c st2 where
      r: "nodeDeleteAt cp (n_kids n1 ! i) j st1 = Some (inorder (n_kids n1 ! i) ! nat j, c, st2)"
      and IH: "node_ok h c" "inorder c = take (nat j) (inorder (n_kids n1 ! i)) @ drop (Suc (nat j)) (inorder (n_kids n1 ! i))"
        "length (n_items (n_kids n1 ! i)) \<le> Suc (length (n_items c))" by blast
    obtain n' st' where ad: "after_delete cp n1 i c st2 = (n', st')" by (metis surj_pair)
    have jl: "nat j < length (inorder (n_kids n1 ! i))" using lt fs(3) by linarith
    then have "Suc (length (inorder c)) = length (inorder (n_kids n1 ! i))" "minItems \<le> Suc (length (n_items c))"
      using IH d(3) by auto
    note fin = after_delete_ok [OF d(1) _ _ IH(1) this(2,1) ad]
    have "nodeDeleteAt cp n index st = Some (inorder (n_kids n1 ! i) ! nat j, n', st')"
      using slot c1 r ad False fs(1) ks by (simp add: n)
    then show ?thesis
      using fin fs(1) d(6-8,11) Suc.prems(2) jl IH(2) at unfolding d(10)
      by (simp add: L_def nth_append)
  qed
qed

end
