(* ===== verification/Btype_Insert.thy ===== *)
theory Btype_Insert
  imports Btype_Order
begin

text \<open>
  What insertion does to the sequence of a node: at either end, and at a position. A pair refused
  by the comparison leaves the contents as they were, because the second walk of
  \<open>PushFront\<close>/\<open>PushBack\<close> takes back the counts the first one incremented.
\<close>

section \<open>Putting a changed child back\<close>

definition put_child :: "('k, 'v) node \<Rightarrow> nat \<Rightarrow> int \<Rightarrow> ('k, 'v) node \<Rightarrow> ('k, 'v) node" where
  "put_child n i d c = set_child (add_count n i d) i c"

lemma put_child_ok:
  assumes ok: "node_ok (Suc h) n" and i: "i \<le> length (n_items n)"
    and c: "node_ok h c" "minItems \<le> length (n_items c)" "size_of c = size_of (n_kids n ! i) + d"
  shows "node_ok (Suc h) (put_child n i d c)" "inorder (put_child n i d c) = left_of n i @ inorder c @ right_of n i"
    "n_items (put_child n i d c) = n_items n" "n_addr (put_child n i d c) = n_addr n"
proof -
  note kids = ok [unfolded node_ok_kids]
  have lt: "i < length (n_kids n)" using kids i by simp
  have "n_counts (put_child n i d c) = map size_of ((n_kids n)[i := c])"
    using kids lt c(3) by (simp add: put_child_def map_update)
  then show "node_ok (Suc h) (put_child n i d c)"
    using kids c lt by (auto simp: node_ok_kids put_child_def dest!: set_update_subset_insert [THEN subsetD])
  show "inorder (put_child n i d c) = left_of n i @ inorder c @ right_of n i"
    using inorder_at [of "put_child n i d c" i] kids i lt by (simp add: put_child_def)
  show "n_items (put_child n i d c) = n_items n" "n_addr (put_child n i d c) = n_addr n"
    by (simp_all add: put_child_def)
qed

lemma counts_update_same: "(map size_of ks)[i := size_of (ks ! i)] = map size_of ks"
  using map_update [of size_of ks i "ks ! i"] by simp

lemma put_child_undo:
  assumes "node_ok (Suc h) n" and "i \<le> length (n_items n)"
  shows "put_child (put_child n i d c) i (- d) c' = put_child n i 0 c'"
  using assms by (cases n) (simp add: put_child_def add_count_def set_child_def counts_update_same)

lemma put_child_Node: "put_child (Node a its ks cs) i d c = add_count (Node a its (ks[i := c]) cs) i d"
  by (simp add: put_child_def add_count_def set_child_def)

lemma insertItemAt_leaf:
  assumes "node_ok 0 n" and "length (n_items n) < maxItems" and "insertItemAt n e i st = (n', st')"
  shows "node_ok 0 n'" "inorder n' = take i (inorder n) @ e # drop i (inorder n)"
    "length (n_items n) \<le> length (n_items n')" "n_addr n' = n_addr n"
  using assms by (cases n; auto simp: insertItemAt_def)+

text \<open>One level of an insertion: the child to enter has room, and the node sees no difference.\<close>

lemma insert_descend:
  assumes ok: "node_ok (Suc h) n" and i: "i \<le> length (n_items n)" and room: "length (n_items n) < maxItems"
    and cow: "cowChild cp n i True st = (n1, st1)" and ens: "ensureBranch n1 i st1 = (b, n2, st2)"
    and m: "m = i \<or> b \<and> m = Suc i"
  shows "node_ok (Suc h) n2" "inorder n2 = inorder n" "n_addr n2 = n_addr n" "length (n_items n) \<le> length (n_items n2)"
    "m \<le> length (n_items n2)" "node_ok h (n_kids n2 ! m)" "minItems \<le> length (n_items (n_kids n2 ! m))"
    "length (n_items (n_kids n2 ! m)) < maxItems" "n_items (n_kids n2 ! m) \<noteq> []"
    "length (n_kids n2) = Suc (length (n_items n2))"
    "length (n_items n2) = (if b then Suc (length (n_items n)) else length (n_items n))"
proof -
  note d = cow_descend [OF ok i cow]
  have i1: "i \<le> length (n_items n1)" "length (n_items n1) < maxItems" using d(8) i room by simp_all
  note e = ensureBranch_ok [OF d(1) i1 ens]
  show "node_ok (Suc h) n2" "inorder n2 = inorder n" "n_addr n2 = n_addr n" "length (n_items n) \<le> length (n_items n2)"
    using e d by simp_all
  show len: "length (n_kids n2) = Suc (length (n_items n2))" using e(1) by (simp add: node_ok_kids)
  show m2: "m \<le> length (n_items n2)" using m e(4) i d(8) by auto
  then have "n_kids n2 ! m \<in> set (n_kids n2)" using len by simp
  then show "node_ok h (n_kids n2 ! m)" "minItems \<le> length (n_items (n_kids n2 ! m))"
    using e(1) by (auto simp: node_ok_kids)
  then show "n_items (n_kids n2 ! m) \<noteq> []" by (auto simp: sizes)
  show "length (n_items (n_kids n2 ! m)) < maxItems" using m e(5,6) by auto
  show "length (n_items n2) = (if b then Suc (length (n_items n)) else length (n_items n))"
    using e(4) d(8) by simp
qed

section \<open>At the ends\<close>

lemma pushBack_ok:
  assumes "node_ok h n" and "length (n_items n) < maxItems" and "pushBack_loop cp cmp n e st = (ok, n', st')"
  shows "n_addr n' = n_addr n \<and> length (n_items n) \<le> length (n_items n') \<and>
    (if ok then node_ok h n' \<and> inorder n' = inorder n @ [e]
     else (\<forall>st2. node_ok h (fst (rollback_back n' st2)) \<and> inorder (fst (rollback_back n' st2)) = inorder n \<and>
            n_items (fst (rollback_back n' st2)) = n_items n' \<and> n_addr (fst (rollback_back n' st2)) = n_addr n))"
  using assms
proof (induction h arbitrary: n st ok n' st')
  case 0
  obtain a its ks cs where n: "n = Node a its ks cs" by (cases n)
  show ?case using 0 insertItemAt_leaf [OF 0(1,2), of e "length its" st n' st'] by (auto simp: n split: if_splits)
next
  case (Suc h)
  obtain a its ks cs where n: "n = Node a its ks cs" by (cases n)
  obtain k ks' where ks: "ks = k # ks'" "length ks' = length its" using branch_shape [OF Suc.prems(1) n] .
  obtain n1 st1 where c1: "cowChild cp n (length its) True st = (n1, st1)" by (metis surj_pair)
  obtain b n2 st2 where e1: "ensureBranch n1 (length its) st1 = (b, n2, st2)" by (metis prod_cases3)
  define m where "m = length (n_items n2)"
  have le: "length its \<le> length (n_items n)" by (simp add: n)
  note id0 = insert_descend [OF Suc.prems(1) le Suc.prems(2) c1 e1, of "length its"]
  have "m = length its \<or> b \<and> m = Suc (length its)" using id0(11) by (auto simp: m_def n)
  note d = insert_descend [OF Suc.prems(1) le Suc.prems(2) c1 e1 this]
  obtain ok1 c st3 where r: "pushBack_loop cp cmp (n_kids n2 ! m) e (wrote a st2) = (ok1, c, st3)" by (metis prod_cases3)
  have res: "ok1 = ok" "put_child n2 m 1 c = n'"
    using Suc.prems(3) c1 e1 r ks d(10) by (simp_all add: n m_def put_child_def Let_def)
  note IH = Suc.IH [OF d(6,8) r]
  have R: "right_of n2 m = []" by (simp add: m_def)
  have at: "inorder n = left_of n2 m @ inorder (n_kids n2 ! m)"
    using inorder_at [OF d(10,5)] R d(2) by simp
  show ?case
  proof (cases ok)
    case True
    then have IH: "node_ok h c" "inorder c = inorder (n_kids n2 ! m) @ [e]" "minItems \<le> length (n_items c)"
      using IH res d(7) by auto
    note pc = put_child_ok [OF d(1,5) IH(1,3), of 1]
    show ?thesis using True pc IH at R d(3,4) res(2) by auto
  next
    case False
    have undone: "node_ok h (fst (rollback_back c st2)) \<and> inorder (fst (rollback_back c st2)) = inorder (n_kids n2 ! m) \<and>
        n_items (fst (rollback_back c st2)) = n_items c" for st2
      using IH False res(1) by auto
    have kids: "n_kids n' = (n_kids n2)[m := c]" "n_items n' = n_items n2" "n_addr n' = n_addr n2"
      using res(2) by (auto simp: put_child_def)
    have "node_ok (Suc h) (fst (rollback_back n' st4)) \<and> inorder (fst (rollback_back n' st4)) = inorder n \<and>
        n_items (fst (rollback_back n' st4)) = n_items n' \<and> n_addr (fst (rollback_back n' st4)) = n_addr n" for st4
    proof -
      obtain q qs where q: "n_kids n' = q # qs" "length qs = m" using kids d(10)
        by (metis length_Suc_conv length_list_update m_def)
      have n'_eq: "n' = Node (n_addr n') (n_items n') (q # qs) (n_counts n')" using q by (cases n') simp
      obtain c' s' where rb: "rollback_back c (wrote (n_addr n') st4) = (c', s')" by (metis surj_pair)
      have qm: "(q # qs) ! m = c" using q kids d(5,10) by (metis le_imp_less_Suc nth_list_update_eq)
      have c': "node_ok h c'" "inorder c' = inorder (n_kids n2 ! m)" "minItems \<le> length (n_items c')"
        using undone [of "wrote (n_addr n') st4"] IH False res(1) d(7) rb by auto
      have "fst (rollback_back n' st4) = add_count (Node (n_addr n') (n_items n') ((q # qs)[m := c']) (n_counts n')) m (- 1)"
        by (subst n'_eq) (simp add: q(2) qm rb Let_def)
      also have "\<dots> = put_child n2 m 0 c'"
        using n'_eq put_child_undo [OF d(1,5), of 1 c c'] res(2) put_child_Node [of _ _ "q # qs" _ m] by metis
      finally have "fst (rollback_back n' st4) = put_child n2 m 0 c'" .
      then show ?thesis using put_child_ok [OF d(1,5) c'(1,3), of 0] c'(2) at R d(3) kids by simp
    qed
    then show ?thesis using False kids d(3,4) by simp
  qed
qed

lemma pushFront_ok:
  assumes "node_ok h n" and "length (n_items n) < maxItems" and "pushFront_loop cp cmp n e st = (ok, n', st')"
  shows "n_addr n' = n_addr n \<and> length (n_items n) \<le> length (n_items n') \<and>
    (if ok then node_ok h n' \<and> inorder n' = e # inorder n
     else (\<forall>st2. node_ok h (fst (rollback_front n' st2)) \<and> inorder (fst (rollback_front n' st2)) = inorder n \<and>
            n_items (fst (rollback_front n' st2)) = n_items n' \<and> n_addr (fst (rollback_front n' st2)) = n_addr n))"
  using assms
proof (induction h arbitrary: n st ok n' st')
  case 0
  obtain a its ks cs where n: "n = Node a its ks cs" by (cases n)
  show ?case using 0 insertItemAt_leaf [OF 0(1,2), of e 0 st n' st'] by (auto simp: n split: if_splits)
next
  case (Suc h)
  obtain a its ks cs where n: "n = Node a its ks cs" by (cases n)
  obtain k ks' where ks: "ks = k # ks'" "length ks' = length its" using branch_shape [OF Suc.prems(1) n] .
  obtain n1 st1 where c1: "cowChild cp n 0 True st = (n1, st1)" by (metis surj_pair)
  obtain b n2 st2 where e1: "ensureBranch n1 0 st1 = (b, n2, st2)" by (metis prod_cases3)
  note d = insert_descend [OF Suc.prems(1) le0 Suc.prems(2) c1 e1 disjI1 [OF refl]]
  obtain ok1 c st3 where r: "pushFront_loop cp cmp (n_kids n2 ! 0) e (wrote a st2) = (ok1, c, st3)" by (metis prod_cases3)
  have res: "ok1 = ok" "put_child n2 0 1 c = n'"
    using Suc.prems(3) c1 e1 r ks by (simp_all add: n put_child_def)
  note IH = Suc.IH [OF d(6,8) r]
  have at: "inorder n = inorder (n_kids n2 ! 0) @ right_of n2 0"
    using inorder_at [OF d(10) le0] d(2) by simp
  show ?case
  proof (cases ok)
    case True
    then have IH: "node_ok h c" "inorder c = e # inorder (n_kids n2 ! 0)" "minItems \<le> length (n_items c)"
      using IH res d(7) by auto
    note pc = put_child_ok [OF d(1) le0 IH(1,3), of 1]
    show ?thesis using True pc IH at d(3,4) res(2) by auto
  next
    case False
    have undone: "node_ok h (fst (rollback_front c st2)) \<and> inorder (fst (rollback_front c st2)) = inorder (n_kids n2 ! 0) \<and>
        n_items (fst (rollback_front c st2)) = n_items c" for st2
      using IH False res(1) by auto
    have kids: "n_kids n' = (n_kids n2)[0 := c]" "n_items n' = n_items n2" "n_addr n' = n_addr n2"
      using res(2) by (auto simp: put_child_def)
    have "node_ok (Suc h) (fst (rollback_front n' st4)) \<and> inorder (fst (rollback_front n' st4)) = inorder n \<and>
        n_items (fst (rollback_front n' st4)) = n_items n' \<and> n_addr (fst (rollback_front n' st4)) = n_addr n" for st4
    proof -
      obtain q qs where q: "n_kids n2 = q # qs" using d(10) by (cases "n_kids n2") auto
      have n'_eq: "n' = Node (n_addr n') (n_items n') (c # qs) (n_counts n')" using q kids by (cases n') simp
      obtain c' s' where rb: "rollback_front c (wrote (n_addr n') st4) = (c', s')" by (metis surj_pair)
      have c': "node_ok h c'" "inorder c' = inorder (n_kids n2 ! 0)" "minItems \<le> length (n_items c')"
        using undone [of "wrote (n_addr n') st4"] IH False res(1) d(7) rb by auto
      have "fst (rollback_front n' st4) = add_count (Node (n_addr n') (n_items n') (c' # qs) (n_counts n')) 0 (- 1)"
        by (subst n'_eq) (simp add: rb)
      also have "\<dots> = put_child n2 0 0 c'"
        using n'_eq put_child_undo [OF d(1) le0, of 1 c c'] res(2) put_child_Node [of _ _ "c # qs" _ 0]
        by (metis list_update_code(2))
      finally have "fst (rollback_front n' st4) = put_child n2 0 0 c'" .
      then show ?thesis using put_child_ok [OF d(1) le0 c'(1,3), of 0] c'(2) at d(3) kids by simp
    qed
    then show ?thesis using False kids d(3,4) by simp
  qed
qed

text \<open>Without a comparison nothing is refused.\<close>

lemma push_accepts:
  "fst (pushBack_loop cp None n e st)" "fst (pushFront_loop cp None n e st)"
proof -
  have "cmp = None \<Longrightarrow> fst (pushBack_loop cp cmp n e st)" for cmp
    by (induction cp cmp n e st rule: pushBack_loop.induct) (auto split: prod.splits simp: Let_def)
  then show "fst (pushBack_loop cp None n e st)" by simp
  have "cmp = None \<Longrightarrow> fst (pushFront_loop cp cmp n e st)" for cmp
    by (induction cp cmp n e st rule: pushFront_loop.induct) (auto split: prod.splits)
  then show "fst (pushFront_loop cp None n e st)" by simp
qed

section \<open>At a position\<close>

lemma left_of_less:
  assumes len: "length (n_kids n) = Suc (length (n_items n))" and "i < j" and "j \<le> length (n_items n)"
  shows "length (left_of n i) + length (inorder (n_kids n ! i)) < length (left_of n j)"
  using assms(2,3)
proof (induction j)
  case (Suc j)
  then show ?case using left_of_Suc [OF len, of j] by (cases "i = j") auto
qed simp

text \<open>The child that holds a position keeps it, or one of its halves does, when it is split.\<close>

lemma find_slot_after_split:
  assumes ok: "node_ok (Suc h) n" "node_ok (Suc h) n2"
    and slot: "find_slot (take (length (n_items n)) (n_counts n)) index = (i, found, j)"
    and slot2: "find_slot (take (length (n_items n2)) (n_counts n2)) index = (i2, found2, j2)"
    and index: "0 \<le> index" "index \<le> size_of n" and same: "inorder n2 = inorder n"
    and left: "left_of n2 i = left_of n i" "length (n_items n2) = Suc (length (n_items n))"
      "length (left_of n2 (Suc i)) + length (inorder (n_kids n2 ! Suc i)) = length (left_of n i) + length (inorder (n_kids n ! i))"
  shows "i2 = i \<or> i2 = Suc i"
proof -
  note fs = find_slot_node [OF ok(1) slot index]
  note fs2 = find_slot_node [OF ok(2) slot2 index(1) index(2) [folded same]]
  have len: "length (n_kids n2) = Suc (length (n_items n2))" using ok(2) by (simp add: node_ok_kids)
  have "\<not> i2 < i" using left_of_less [OF len, of i2 i] fs fs2 left(1,2) by auto
  moreover have "\<not> Suc i < i2" using left_of_less [OF len, of "Suc i" i2] fs fs2 left by auto
  ultimately show ?thesis by auto
qed

text \<open>The last step of the loop at a branch: the child found has room.\<close>

lemma insertAt_enter:
  assumes ok: "node_ok (Suc h) n"
    and slot: "find_slot (take (length (n_items n)) (n_counts n)) index = (i, found, j)"
    and index: "0 \<le> index" "index \<le> size_of n"
    and room: "length (n_items (n_kids n ! i)) < maxItems"
    and IH: "\<And>c st1. node_ok h c \<Longrightarrow> length (n_items c) < maxItems \<Longrightarrow> n_items c \<noteq> [] \<Longrightarrow> j \<le> size_of c \<Longrightarrow>
      \<exists>c' st'. insertAt_loop cp c j e st1 = Some (c', st') \<and> node_ok h c' \<and>
        inorder c' = take (nat j) (inorder c) @ e # drop (nat j) (inorder c) \<and>
        length (n_items c) \<le> length (n_items c')"
  shows "\<exists>n' st'. insertAt_loop cp n index e st = Some (n', st') \<and> node_ok (Suc h) n' \<and>
    inorder n' = take (nat index) (inorder n) @ e # drop (nat index) (inorder n) \<and>
    n_items n' = n_items n"
proof -
  obtain a its ks cs where n: "n = Node a its ks cs" by (cases n)
  obtain k ks' where ks: "ks = k # ks'" "length ks' = length its" using branch_shape [OF ok n] .
  note fs = find_slot_node [OF ok slot index]
  obtain n1 st1 where c1: "cowChild cp n i True st = (n1, st1)" by (metis surj_pair)
  note d = cow_descend [OF ok fs(1) c1]
  have i: "i < length (n_kids n)" using fs(1) ok by (simp add: node_ok_kids)
  have items: "n_items (n_kids n1 ! i) = n_items (n_kids n ! i)"
    using cowChild_shape [OF c1] i by blast
  then have ens: "ensureBranch n1 i st1 = (False, n1, st1)" using room by (simp add: ensureBranch_def)
  have "j \<le> size_of (n_kids n1 ! i)" using fs(4) d(5) by simp
  then obtain c st2 where r: "insertAt_loop cp (n_kids n1 ! i) j e (wrote a st1) = Some (c, st2)"
    and c: "node_ok h c" "inorder c = take (nat j) (inorder (n_kids n1 ! i)) @ e # drop (nat j) (inorder (n_kids n1 ! i))"
      "length (n_items (n_kids n1 ! i)) \<le> length (n_items c)"
    using IH [OF d(2) _ d(4), of "wrote a st1"] room items by auto
  have "insertAt_loop cp n index e st = Some (put_child n1 i 1 c, st2)"
    using slot c1 ens r ks fs(1) by (simp add: n put_child_def)
  moreover have "size_of c = size_of (n_kids n1 ! i) + 1" "minItems \<le> length (n_items c)" using c d(3) by auto
  note pc = put_child_ok [OF d(1) _ c(1) this(2,1)]
  moreover have "nat index = length (left_of n i) + nat j" using fs(2,3) by linarith
  moreover have "nat j \<le> length (inorder (n_kids n1 ! i))" using fs(4) d(5) by simp
  ultimately show ?thesis
    using fs(1) d(6-8) c(2) unfolding d(10) by simp
qed

text \<open>When the child found is full it is split, and the scan that starts again finds a child with
  room.\<close>

lemma retry_slot:
  assumes ok: "node_ok (Suc h) n" "length (n_items n) < maxItems" and index: "0 \<le> index" "index \<le> size_of n"
    and slot: "find_slot (take (length (n_items n)) (n_counts n)) index = (i, found, j)"
    and full: "\<not> length (n_items (n_kids n ! i)) < maxItems"
    and c1: "cowChild cp n i True st = (n1, st1)" and e1: "ensureBranch n1 i st1 = (b, n2, st2)"
  shows b "node_ok (Suc h) n2" "inorder n2 = inorder n"
    "find_slot (take (length (n_items n2)) (n_counts n2)) index = (i2, f2, j2) \<Longrightarrow> length (n_items (n_kids n2 ! i2)) < maxItems"
    "length (n_items n2) = Suc (length (n_items n))"
proof -
  note fs = find_slot_node [OF ok(1) slot index]
  note d = cow_descend [OF ok(1) fs(1) c1]
  have i: "i < length (n_kids n)" using fs(1) ok(1) by (simp add: node_ok_kids)
  have "n_items (n_kids n1 ! i) = n_items (n_kids n ! i)" using cowChild_shape [OF c1] i by blast
  moreover have "length (n_items (n_kids n1 ! i)) \<le> maxItems" using node_ok_len [OF d(2)] .
  ultimately have fullc: "length (n_items (n_kids n1 ! i)) = maxItems" using full by simp
  then have sb: "splitBranch n1 i st1 = (n2, st2)" and b using e1 by (auto simp: ensureBranch_def)
  from \<open>b\<close> show b .
  note id0 = insert_descend [OF ok(1) fs(1) ok(2) c1 e1]
  note at_i = id0 [OF disjI1 [OF refl]]
  show "node_ok (Suc h) n2" "inorder n2 = inorder n" by (rule at_i(1), rule at_i(2))
  show len2: "length (n_items n2) = Suc (length (n_items n))" using at_i(11) \<open>b\<close> by simp
  obtain l r x st3 where split: "splitNode (n_kids n1 ! i) st1 = (l, r, x, st3)" by (metis prod_cases4)
  note sp = splitNode_ok [OF d(2) fullc split]
  have i1: "i < length (n_kids n1)" using d(1,8) fs(1) by (simp add: node_ok_kids)
  note sk = splitBranch_kids [OF split i1, unfolded sb fst_conv]
  have lefts: "left_of n2 i = left_of n i" "n_kids n2 ! i = l" "n_kids n2 ! Suc i = r" "n_items n2 ! i = x"
    using sk i1 d(6,8) fs(1) by (auto simp: left_of_def split_kids_def nth_append)
  have after: "length (left_of n2 (Suc i)) + length (inorder (n_kids n2 ! Suc i)) = length (left_of n i) + length (inorder (n_kids n ! i))"
    using left_of_Suc [of n2 i] at_i(1) len2 fs(1) lefts sp(5) d(5) by (simp add: node_ok_kids)
  show "length (n_items (n_kids n2 ! i2)) < maxItems"
    if slot2: "find_slot (take (length (n_items n2)) (n_counts n2)) index = (i2, f2, j2)"
    using find_slot_after_split [OF ok(1) at_i(1) slot slot2 index at_i(2) lefts(1) len2 after] id0(8) \<open>b\<close> by blast
qed

lemma insertAt_ok:
  assumes "node_ok h n" and "length (n_items n) < maxItems" and "n_items n \<noteq> []" and "0 \<le> index" and "index \<le> size_of n"
  shows "\<exists>n' st'. insertAt_loop cp n index e st = Some (n', st') \<and> node_ok h n' \<and>
    inorder n' = take (nat index) (inorder n) @ e # drop (nat index) (inorder n) \<and>
    length (n_items n) \<le> length (n_items n')"
  using assms
proof (induction h arbitrary: n index st)
  case 0
  then show ?case using insertItemAt_leaf [OF 0(1,2), of e "nat index" st] by (cases n) (auto simp: insertItemAt_def)
next
  case (Suc h)
  obtain a its ks cs where n: "n = Node a its ks cs" by (cases n)
  obtain k ks' where ks: "ks = k # ks'" "length ks' = length its" using branch_shape [OF Suc.prems(1) n] .
  obtain i found j where slot: "find_slot (take (length (n_items n)) (n_counts n)) index = (i, found, j)"
    by (metis prod_cases3)
  note fs = find_slot_node [OF Suc.prems(1) slot Suc.prems(4,5)]
  have enter: "\<exists>n' st'. insertAt_loop cp m index e st = Some (n', st') \<and> node_ok (Suc h) n' \<and>
      inorder n' = take (nat index) (inorder m) @ e # drop (nat index) (inorder m) \<and> n_items n' = n_items m"
    if "node_ok (Suc h) m" "find_slot (take (length (n_items m)) (n_counts m)) index = (p, f, q)"
      "index \<le> size_of m" "length (n_items (n_kids m ! p)) < maxItems" for m p f q st
    using that Suc.IH find_slot_node(3) [OF that(1,2) Suc.prems(4) that(3)]
    by (intro insertAt_enter [OF that(1,2) Suc.prems(4) that(3,4)]) blast
  show ?case
  proof (cases "length (n_items (n_kids n ! i)) < maxItems")
    case True
    then show ?thesis using enter [OF Suc.prems(1) slot Suc.prems(5) True, of st] by auto
  next
    case full: False
    obtain n1 st1 where c1: "cowChild cp n i True st = (n1, st1)" by (metis surj_pair)
    obtain b n2 st2 where e1: "ensureBranch n1 i st1 = (b, n2, st2)" by (metis prod_cases3)
    note sp = retry_slot [OF Suc.prems(1,2,4,5) slot full c1 e1]
    obtain i2 f2 j2 where slot2: "find_slot (take (length (n_items n2)) (n_counts n2)) index = (i2, f2, j2)"
      by (metis prod_cases3)
    have retry: "insertAt_loop cp n index e st = insertAt_loop cp n2 index e st2"
      using slot c1 e1 sp(1) ks fs(1) by (simp add: n)
    have "index \<le> size_of n2" using sp(3) Suc.prems(5) by simp
    from enter [OF sp(2) slot2 this sp(4) [OF slot2], of st2] show ?thesis
      using sp(3,5) retry by auto
  qed
qed

end
