(* ===== verification/Btype_Walk.thy ===== *)
theory Btype_Walk
  imports Btype_Insert
begin

text \<open>
  What the walks and the readers of a node deliver: the items in order, backwards, or from a
  position on, until the callback stops the walk. A walk that does not mutate changes nothing; one
  that does replaces shared nodes by copies with the same contents.
\<close>

section \<open>Reading by position\<close>

lemma inorder_nonempty: "n_items n \<noteq> [] \<Longrightarrow> inorder n \<noteq> []"
  using length_weave [of "map inorder (n_kids n)" "n_items n"] by (auto simp: inorder_node)

lemma set_child_put: "set_child n i c = put_child n i 0 c"
  by (cases n) (simp add: put_child_def add_count_def set_child_def)

lemma set_child_ok:
  assumes "node_ok (Suc h) n" and "i \<le> length (n_items n)"
    and "node_ok h c" and "length (n_items (n_kids n ! i)) \<le> length (n_items c)" and "size_of c = size_of (n_kids n ! i)"
  shows "node_ok (Suc h) (set_child n i c)" "inorder (set_child n i c) = left_of n i @ inorder c @ right_of n i"
proof -
  have "minItems \<le> length (n_items (n_kids n ! i))" using assms(1,2) by (simp add: node_ok_kids)
  then have "minItems \<le> length (n_items c)" using assms(4) by simp
  then show "node_ok (Suc h) (set_child n i c)" "inorder (set_child n i c) = left_of n i @ inorder c @ right_of n i"
    using put_child_ok [OF assms(1-3), of 0] assms(5) by (simp_all add: set_child_put)
qed

lemma front_loop_ok:
  assumes "node_ok h n" and "n_items n \<noteq> []" and "front_loop cp mut n st = (e, n', st')"
  shows "e = hd (inorder n) \<and> inorder n \<noteq> [] \<and> node_ok h n' \<and> inorder n' = inorder n \<and> n_items n' = n_items n"
  using assms
proof (induction h arbitrary: n st e n' st')
  case 0
  then show ?case by (cases n) (auto simp: hd_conv_nth)
next
  case (Suc h)
  obtain a its ks cs where n: "n = Node a its ks cs" by (cases n)
  obtain k ks' where ks: "ks = k # ks'" "length ks' = length its" using branch_shape [OF Suc.prems(1) n] .
  obtain n1 st1 where c1: "cowChild cp n 0 mut st = (n1, st1)" by (metis surj_pair)
  obtain e1 c st2 where r: "front_loop cp mut (n_kids n1 ! 0) st1 = (e1, c, st2)" by (metis prod_cases3)
  note d = cow_descend [OF Suc.prems(1) le0 c1]
  note IH = Suc.IH [OF d(2,4) r]
  have "e1 = e" "n' = set_child n1 0 c" using Suc.prems(3) c1 r ks by (simp_all add: n)
  then show ?case using IH set_child_ok [OF d(1) le0, of c] d(6-8,10) by auto
qed

lemma back_loop_ok:
  assumes "node_ok h n" and "n_items n \<noteq> []" and "back_loop cp mut n st = (e, n', st')"
  shows "e = last (inorder n) \<and> node_ok h n' \<and> inorder n' = inorder n \<and> n_items n' = n_items n"
  using assms
proof (induction h arbitrary: n st e n' st')
  case 0
  then show ?case by (cases n) auto
next
  case (Suc h)
  obtain a its ks cs where n: "n = Node a its ks cs" by (cases n)
  obtain k ks' where ks: "ks = k # ks'" "length ks' = length its" using branch_shape [OF Suc.prems(1) n] .
  have le: "length its \<le> length (n_items n)" by (simp add: n)
  obtain n1 st1 where c1: "cowChild cp n (length its) mut st = (n1, st1)" by (metis surj_pair)
  obtain e1 c st2 where r: "back_loop cp mut (n_kids n1 ! length its) st1 = (e1, c, st2)" by (metis prod_cases3)
  note d = cow_descend [OF Suc.prems(1) le c1]
  note IH = Suc.IH [OF d(2,4) r]
  have res: "e1 = e" "n' = set_child n1 (length its) c" using Suc.prems(3) c1 r ks by (simp_all add: n)
  have "inorder (n_kids n1 ! length its) \<noteq> []"
    using inorder_nonempty [OF d(4)] .
  then show ?case using IH res set_child_ok [OF d(1), of "length its" c] d(6-8,10) right_of_last [of n]
    by (simp add: n)
qed

text \<open>The two searches by position that do not change the shape of the tree.\<close>

lemma getAt_ok:
  assumes "node_ok h n" and "0 \<le> index" and "index < size_of n"
  shows "\<exists>n' st'. getAt_loop cp mut n index st = Some (inorder n ! nat index, n', st') \<and>
    node_ok h n' \<and> inorder n' = inorder n \<and> n_items n' = n_items n"
  using assms
proof (induction h arbitrary: n st index)
  case 0
  then show ?case by (cases n) auto
next
  case (Suc h)
  obtain a its ks cs where n: "n = Node a its ks cs" by (cases n)
  obtain k ks' where ks: "ks = k # ks'" "length ks' = length its" using branch_shape [OF Suc.prems(1) n] .
  obtain i found j where slot: "find_slot (take (length (n_items n)) (n_counts n)) index = (i, found, j)"
    by (metis prod_cases3)
  note fs = find_slot_node [OF Suc.prems(1) slot Suc.prems(2) less_imp_le [OF Suc.prems(3)]]
  note at = inorder_at [of n i]
  have len: "length (n_kids n) = Suc (length (n_items n))" using Suc.prems(1) by (simp add: node_ok_kids)
  have pos: "nat index = length (left_of n i) + nat j" using fs(2,3) by linarith
  show ?case
  proof (cases found)
    case True
    then have i: "i < length (n_items n)" "j = size_of (n_kids n ! i)" using fs(5) by auto
    have "inorder n ! nat index = its ! i"
      using at [OF len fs(1)] right_of_item [OF len i(1)] pos i(2) by (simp add: nth_append n)
    then show ?thesis using slot True ks Suc.prems(1) i by (simp add: n)
  next
    case False
    obtain n1 st1 where c1: "cowChild cp n i mut st = (n1, st1)" by (metis surj_pair)
    note d = cow_descend [OF Suc.prems(1) fs(1) c1]
    have lt: "j < size_of (n_kids n1 ! i)"
      using False fs d(5) Suc.prems(3) at [OF len fs(1)] by (cases "i < length (n_items n)") auto
    then obtain c st2 where r: "getAt_loop cp mut (n_kids n1 ! i) j st1 = Some (inorder (n_kids n1 ! i) ! nat j, c, st2)"
      and c: "node_ok h c" "inorder c = inorder (n_kids n1 ! i)" "n_items c = n_items (n_kids n1 ! i)"
      using Suc.IH [OF d(2) fs(3), of st1] by blast
    have "getAt_loop cp mut n index st = Some (inorder (n_kids n1 ! i) ! nat j, set_child n1 i c, st2)"
      using slot c1 r False fs(1) ks by (simp add: n)
    moreover have "inorder (n_kids n1 ! i) ! nat j = inorder n ! nat index"
      using lt fs(3) unfolding d(10) pos by (simp add: nth_append nat_less_iff)
    ultimately show ?thesis using set_child_ok [OF d(1), of i c] c fs(1) d(6-8,10) by auto
  qed
qed

lemma getAtNoCheck_ok:
  assumes "node_ok h n" and "0 \<le> index" and "index < size_of n"
  shows "getAtNoCheck n index = Some (inorder n ! nat index)"
proof -
  have same: "getAtNoCheck n index = map_option fst (getAt_loop cp False n index st)" for cp st
    by (induction n index rule: getAtNoCheck.induct)
      (auto simp: cowChild_def split: prod.splits option.splits)
  obtain st :: arena where True by simp
  from getAt_ok [OF assms, of False False st] show ?thesis unfolding same [of False st] by (elim exE conjE) simp
qed

lemma replaceAt_ok:
  assumes "node_ok h n" and "0 \<le> index" and "index < size_of n"
  shows "\<exists>n' st'. replaceAt_loop cp n index e st = Some (inorder n ! nat index, n', st') \<and>
    node_ok h n' \<and> inorder n' = (inorder n)[nat index := e] \<and> length (n_items n') = length (n_items n)"
  using assms
proof (induction h arbitrary: n st index)
  case 0
  then show ?case by (cases n) auto
next
  case (Suc h)
  obtain a its ks cs where n: "n = Node a its ks cs" by (cases n)
  obtain k ks' where ks: "ks = k # ks'" "length ks' = length its" using branch_shape [OF Suc.prems(1) n] .
  obtain i found j where slot: "find_slot (take (length (n_items n)) (n_counts n)) index = (i, found, j)"
    by (metis prod_cases3)
  note fs = find_slot_node [OF Suc.prems(1) slot Suc.prems(2) less_imp_le [OF Suc.prems(3)]]
  note at = inorder_at [of n i]
  have len: "length (n_kids n) = Suc (length (n_items n))" using Suc.prems(1) by (simp add: node_ok_kids)
  have pos: "nat index = length (left_of n i) + nat j" using fs(2,3) by linarith
  show ?case
  proof (cases found)
    case True
    then have i: "i < length (n_items n)" "j = size_of (n_kids n ! i)" using fs(5) by auto
    let ?n = "Node a (its[i := e]) ks cs"
    have in_n: "inorder n = (left_of n i @ inorder (n_kids n ! i)) @ its ! i # inorder (n_kids n ! Suc i) @ right_of n (Suc i)"
      using at [OF len fs(1)] right_of_item [OF len i(1)] by (simp add: n)
    have "left_of ?n i = left_of n i" "right_of ?n i = e # inorder (n_kids n ! Suc i) @ right_of n (Suc i)"
      using right_of_item [of ?n i] len i(1) by (auto simp: left_of_def right_of_def n)
    then have in_n': "inorder ?n = (left_of n i @ inorder (n_kids n ! i)) @ e # inorder (n_kids n ! Suc i) @ right_of n (Suc i)"
      using inorder_at [of ?n i] len i(1) by (simp add: n)
    have p: "nat index = length (left_of n i @ inorder (n_kids n ! i))" using pos i(2) by simp
    have "inorder ?n = (inorder n)[nat index := e]" "inorder n ! nat index = its ! i"
      unfolding in_n in_n' p by (simp_all add: list_update_append nth_append)
    moreover have "node_ok (Suc h) ?n" using Suc.prems(1) by (simp add: n)
    moreover have "replaceAt_loop cp n index e st = Some (its ! i, ?n, wrote a st)"
      using slot True ks i by (simp add: n)
    ultimately show ?thesis by (simp add: n)
  next
    case False
    obtain n1 st1 where c1: "cowChild cp n i True st = (n1, st1)" by (metis surj_pair)
    note d = cow_descend [OF Suc.prems(1) fs(1) c1]
    have lt: "j < size_of (n_kids n1 ! i)"
      using False fs d(5) Suc.prems(3) at [OF len fs(1)] by (cases "i < length (n_items n)") auto
    then obtain c st2 where r: "replaceAt_loop cp (n_kids n1 ! i) j e st1 = Some (inorder (n_kids n1 ! i) ! nat j, c, st2)"
      and c: "node_ok h c" "inorder c = (inorder (n_kids n1 ! i))[nat j := e]" "length (n_items c) = length (n_items (n_kids n1 ! i))"
      using Suc.IH [OF d(2) fs(3), of st1] by blast
    have jl: "nat j < length (inorder (n_kids n1 ! i))" using lt fs(3) by linarith
    have res: "replaceAt_loop cp n index e st = Some (inorder (n_kids n1 ! i) ! nat j, set_child n1 i c, st2)"
      using slot c1 r False fs(1) ks by (simp add: n)
    have old: "inorder (n_kids n1 ! i) ! nat j = inorder n ! nat index"
      using jl unfolding d(10) pos by (simp add: nth_append)
    have "inorder (set_child n1 i c) = (inorder n)[nat index := e]"
      using set_child_ok(2) [OF d(1), of i c] c fs(1) d(6-8) jl unfolding d(10) pos
      by (simp add: list_update_append)
    then show ?thesis using res old set_child_ok(1) [OF d(1), of i c] c fs(1) d(8) by simp
  qed
qed

section \<open>Walking in order\<close>

text \<open>What a callback sees of a list that is walked with it.\<close>

fun visit_list :: "('k, 'v, 's) visit \<Rightarrow> ('k \<times> 'v) list \<Rightarrow> 's \<Rightarrow> bool \<times> 's" where
  "visit_list yield [] s = (True, s)"
| "visit_list yield (e # es) s = (case yield e s of (ok, s1) \<Rightarrow> if ok then visit_list yield es s1 else (False, s1))"

lemma visit_append:
  "visit_list yield (xs @ ys) s =
     (case visit_list yield xs s of (ok, s1) \<Rightarrow> if ok then visit_list yield ys s1 else (False, s1))"
  by (induction xs arbitrary: s) (auto split: prod.splits)

text \<open>A node with all addresses forgotten; copying shared nodes does not change it.\<close>

fun strip :: "('k, 'v) node \<Rightarrow> ('k, 'v) node" where
  "strip (Node a its ks cs) = Node 0 its (map strip ks) cs"

lemma strip_inorder: "inorder (strip n) = inorder n"
proof (induction n)
  case (Node a its ks cs)
  then show ?case by (simp add: comp_def cong: map_cong)
qed

lemma strip_items [simp]: "n_items (strip n) = n_items n"
  by (cases n) simp

lemma strip_node_ok: "node_ok h (strip n) = node_ok h n"
proof (induction n arbitrary: h)
  case (Node a its ks cs)
  then show ?case by (cases h) (auto simp: strip_inorder comp_def)
qed

lemma strip_same:
  assumes "strip n = strip n'"
  shows "inorder n = inorder n'" "node_ok h n = node_ok h n'" "n_items n = n_items n'"
  using assms strip_inorder [of n] strip_inorder [of n'] strip_node_ok [of h n] strip_node_ok [of h n'] strip_items [of n] strip_items [of n']
  by simp_all

lemma same_node_strip: "same_node n n' \<Longrightarrow> strip n' = strip n"
  by (cases n; cases n') (simp add: same_node_def)

definition rest_of :: "('k \<times> 'v) list \<Rightarrow> ('k, 'v) node list \<Rightarrow> ('k \<times> 'v) list" where
  "rest_of its ks = (if ks = [] then its else trail its (map inorder ks))"

lemma node_ok_inorder_Cons:
  "node_ok h (Node a its (k # ks) cs) \<Longrightarrow> inorder (Node a its (k # ks) cs) = inorder k @ rest_of its ks"
  by (cases h) (auto simp: rest_of_def weave_trail)

lemma node_ok_Cons:
  "node_ok h (Node a its (k # ks) cs) \<Longrightarrow> \<exists>h'. h = Suc h' \<and> length ks = length its \<and> (\<forall>c \<in> set (k # ks). node_ok h' c)"
  by (cases h) auto

text \<open>Both walks of \<open>nodeAll\<close>; the list walk is over the items and children that are left.\<close>

lemma nodeAll_visits:
  "node_ok h n \<Longrightarrow> nodeAll cp yield mut n st s = (ok, n', st', s') \<Longrightarrow>
     visit_list yield (inorder n) s = (ok, s') \<and> strip n' = strip n \<and> (\<not> mut \<longrightarrow> n' = n \<and> st' = st)"
  "(ks = [] \<or> length ks = length its) \<Longrightarrow> \<forall>k \<in> set ks. node_ok h k \<Longrightarrow>
     ascend_rest cp yield mut a its ks st s = (ok, ks', st', s') \<Longrightarrow>
     visit_list yield (rest_of its ks) s = (ok, s') \<and> map strip ks' = map strip ks \<and> (\<not> mut \<longrightarrow> ks' = ks \<and> st' = st)"
proof (induction cp yield mut n st s and cp yield mut a its ks st s arbitrary: h ok n' st' s' and h ok ks' st' s'
    rule: nodeAll_ascend_rest.induct)
  case (1 cp yield mut a its cs st s)
  then show ?case by (auto simp: rest_of_def split: prod.splits)
next
  case (2 cp yield mut a its k ks cs st s)
  obtain k1 st1 where c: "cow_kid cp a k mut st = (k1, st1)" by (metis surj_pair)
  obtain ok1 k2 st2 s2 where r1: "nodeAll cp yield mut k1 st1 s = (ok1, k2, st2, s2)" by (metis prod_cases4)
  obtain ok2 ks1 st3 s3 where r2: "ascend_rest cp yield mut a its ks st2 s2 = (ok2, ks1, st3, s3)" by (metis prod_cases4)
  obtain h' where h: "h = Suc h'" "length ks = length its" "\<forall>x \<in> set (k # ks). node_ok h' x"
    using node_ok_Cons [OF 2(3)] by blast
  note sn = cow_kid_same [OF c]
  have k1: "node_ok h' k1" "inorder k1 = inorder k" "strip k1 = strip k" "\<not> mut \<Longrightarrow> k1 = k \<and> st1 = st"
    using same_node_props(1,2) [OF sn] same_node_strip [OF sn] h(3) c by (auto simp: cow_kid_def split: if_splits)
  note IH1 = 2(1) [OF c [symmetric] k1(1) r1]
  have IH2: "ok1 \<Longrightarrow> visit_list yield (rest_of its ks) s2 = (ok2, s3) \<and> map strip ks1 = map strip ks \<and> (\<not> mut \<longrightarrow> ks1 = ks \<and> st3 = st2)"
    using 2(2) [OF c [symmetric] r1 [symmetric] refl refl _ _ _ r2, of h'] h by auto
  show ?case
    using 2(4) c r1 r2 IH1 IH2 k1 node_ok_inorder_Cons [OF 2(3)]
    by (auto simp: visit_append simp del: inorder.simps split: if_splits)
next
  case (4 cp yield mut a e es st s)
  then show ?case by (auto simp: rest_of_def split: prod.splits if_splits)
next
  case (5 cp yield mut a e es k ks st s)
  obtain ok0 s1 where y: "yield e s = (ok0, s1)" by (metis surj_pair)
  obtain k1 st1 where c: "cow_kid cp a k mut st = (k1, st1)" by (metis surj_pair)
  obtain ok1 k2 st2 s2 where r1: "nodeAll cp yield mut k1 st1 s1 = (ok1, k2, st2, s2)" by (metis prod_cases4)
  obtain ok2 ks1 st3 s3 where r2: "ascend_rest cp yield mut a es ks st2 s2 = (ok2, ks1, st3, s3)" by (metis prod_cases4)
  note sn = cow_kid_same [OF c]
  have k1: "node_ok h k1" "inorder k1 = inorder k" "strip k1 = strip k" "\<not> mut \<Longrightarrow> k1 = k \<and> st1 = st"
    using same_node_props(1,2) [OF sn] same_node_strip [OF sn] 5(4) c by (auto simp: cow_kid_def split: if_splits)
  have IH1: "ok0 \<Longrightarrow> visit_list yield (inorder k1) s1 = (ok1, s2) \<and> strip k2 = strip k1 \<and> (\<not> mut \<longrightarrow> k2 = k1 \<and> st2 = st1)"
    using 5(1) [OF y [symmetric] _ c [symmetric] k1(1) r1] by simp
  have IH2: "ok0 \<Longrightarrow> ok1 \<Longrightarrow> visit_list yield (rest_of es ks) s2 = (ok2, s3) \<and> map strip ks1 = map strip ks \<and> (\<not> mut \<longrightarrow> ks1 = ks \<and> st3 = st2)"
    using 5(2) [OF y [symmetric] _ c [symmetric] r1 [symmetric] refl refl _ _ _ r2, of h] 5(3,4) by auto
  have "rest_of (e # es) (k # ks) = e # inorder k @ rest_of es ks"
    using 5(3) by (cases ks) (auto simp: rest_of_def)
  then show ?case
    using 5(5) y c r1 r2 IH1 IH2 k1 by (auto simp: visit_append split: if_splits)
qed (auto simp: rest_of_def)

section \<open>Walking backwards\<close>

definition rest_back :: "('k \<times> 'v) list \<Rightarrow> ('k, 'v) node list \<Rightarrow> ('k \<times> 'v) list" where
  "rest_back its ks = (if ks = [] then its else trail its (map (\<lambda>k. rev (inorder k)) ks))"

lemma trail_append: "length xs = length ys \<Longrightarrow> trail (ys @ ys') (xs @ xs') = trail ys xs @ trail ys' xs'"
  by (induction xs ys rule: list_induct2) simp_all

lemma rev_lead: "length xs = length ys \<Longrightarrow> rev (lead xs ys) = trail (rev ys) (map rev (rev xs))"
  by (induction xs ys rule: list_induct2) (simp_all add: trail_append)

lemma node_ok_inorder_rev:
  assumes ok: "node_ok h (Node a its ks cs)" and ks: "rev ks = k # rks"
  shows "rev (inorder (Node a its ks cs)) = rev (inorder k) @ rest_back (rev its) rks"
proof -
  let ?n = "Node a its ks cs"
  have ks': "ks = rev rks @ [k]" using ks by (metis rev_rev_ident rev.simps(2))
  then obtain h' where h: "h = Suc h'" "length ks = Suc (length its)" using ok by (cases h) auto
  have "inorder ?n = left_of ?n (length its) @ inorder k"
    using inorder_at [of ?n "length its"] h ks' right_of_last [of ?n] by (simp add: nth_append)
  moreover have "left_of ?n (length its) = lead (map inorder (rev rks)) its"
    using h ks' by (simp add: left_of_def)
  ultimately show ?thesis
    using rev_lead [of "map inorder (rev rks)" its] h ks' by (auto simp: rest_back_def rev_map comp_def)
qed

lemma length_lead: "length xs = length ys \<Longrightarrow> length (lead xs ys) = sum_list (map length xs) + length ys"
  and length_trail: "length xs = length ys \<Longrightarrow> length (trail ys xs) = sum_list (map length xs) + length ys"
  by (induction xs ys rule: list_induct2) simp_all

lemma nodeBackward_visits:
  "node_ok h n \<Longrightarrow> nodeBackward cp yield mut n st s = (ok, n', st', s') \<Longrightarrow>
     visit_list yield (rev (inorder n)) s = (ok, s') \<and> strip n' = strip n \<and> (\<not> mut \<longrightarrow> n' = n \<and> st' = st)"
  "(ks = [] \<or> length ks = length its) \<Longrightarrow> \<forall>k \<in> set ks. node_ok h k \<Longrightarrow>
     descend_rest cp yield mut a its ks st s = (ok, ks', st', s') \<Longrightarrow>
     visit_list yield (rest_back its ks) s = (ok, s') \<and> map strip ks' = map strip ks \<and> (\<not> mut \<longrightarrow> ks' = ks \<and> st' = st)"
proof (induction cp yield mut n st s and cp yield mut a its ks st s arbitrary: h ok n' st' s' and h ok ks' st' s'
    rule: nodeBackward_descend_rest.induct)
  case (1 cp yield mut a its ks cs st s)
  show ?case
  proof (cases "rev ks")
    case Nil
    then have "ks = []" by simp
    then show ?thesis using 1(1) 1(5) by (auto simp: rest_back_def split: prod.splits)
  next
    case (Cons k rks)
    obtain k1 st1 where c: "cow_kid cp a k mut st = (k1, st1)" by (metis surj_pair)
    obtain ok1 k2 st2 s2 where r1: "nodeBackward cp yield mut k1 st1 s = (ok1, k2, st2, s2)" by (metis prod_cases4)
    obtain ok2 ks1 st3 s3 where r2: "descend_rest cp yield mut a (rev its) rks st2 s2 = (ok2, ks1, st3, s3)" by (metis prod_cases4)
    have ks: "ks = rev rks @ [k]" using Cons by (metis rev_rev_ident rev.simps(2))
    then obtain h' where h: "h = Suc h'" "length rks = length its" "\<forall>x \<in> set (k # rks). node_ok h' x"
      using 1(4) by (cases h) auto
    note sn = cow_kid_same [OF c]
    have k1: "node_ok h' k1" "inorder k1 = inorder k" "strip k1 = strip k" "\<not> mut \<Longrightarrow> k1 = k \<and> st1 = st"
      using same_node_props(1,2) [OF sn] same_node_strip [OF sn] h(3) c by (auto simp: cow_kid_def split: if_splits)
    note IH1 = 1(2) [OF Cons c [symmetric] k1(1) r1]
    have IH2: "ok1 \<Longrightarrow> visit_list yield (rest_back (rev its) rks) s2 = (ok2, s3) \<and> map strip ks1 = map strip rks \<and> (\<not> mut \<longrightarrow> ks1 = rks \<and> st3 = st2)"
      using 1(3) [OF Cons c [symmetric] r1 [symmetric] refl refl _ _ _ r2, of h'] h by auto
    show ?thesis
      using 1(5) c r1 r2 IH1 IH2 k1 node_ok_inorder_rev [OF 1(4) Cons] Cons ks
      by (auto simp: visit_append rev_map [symmetric] simp del: inorder.simps split: if_splits)
  qed
next
  case (3 cp yield mut a e es st s)
  then show ?case by (auto simp: rest_back_def split: prod.splits if_splits)
next
  case (4 cp yield mut a e es k ks st s)
  obtain ok0 s1 where y: "yield e s = (ok0, s1)" by (metis surj_pair)
  obtain k1 st1 where c: "cow_kid cp a k mut st = (k1, st1)" by (metis surj_pair)
  obtain ok1 k2 st2 s2 where r1: "nodeBackward cp yield mut k1 st1 s1 = (ok1, k2, st2, s2)" by (metis prod_cases4)
  obtain ok2 ks1 st3 s3 where r2: "descend_rest cp yield mut a es ks st2 s2 = (ok2, ks1, st3, s3)" by (metis prod_cases4)
  note sn = cow_kid_same [OF c]
  have k1: "node_ok h k1" "inorder k1 = inorder k" "strip k1 = strip k" "\<not> mut \<Longrightarrow> k1 = k \<and> st1 = st"
    using same_node_props(1,2) [OF sn] same_node_strip [OF sn] 4(4) c by (auto simp: cow_kid_def split: if_splits)
  have IH1: "ok0 \<Longrightarrow> visit_list yield (rev (inorder k1)) s1 = (ok1, s2) \<and> strip k2 = strip k1 \<and> (\<not> mut \<longrightarrow> k2 = k1 \<and> st2 = st1)"
    using 4(1) [OF y [symmetric] _ c [symmetric] k1(1) r1] by simp
  have IH2: "ok0 \<Longrightarrow> ok1 \<Longrightarrow> visit_list yield (rest_back es ks) s2 = (ok2, s3) \<and> map strip ks1 = map strip ks \<and> (\<not> mut \<longrightarrow> ks1 = ks \<and> st3 = st2)"
    using 4(2) [OF y [symmetric] _ c [symmetric] r1 [symmetric] refl refl _ _ _ r2, of h] 4(3,4) by auto
  have "rest_back (e # es) (k # ks) = e # rev (inorder k) @ rest_back es ks"
    using 4(3) by (cases ks) (auto simp: rest_back_def)
  then show ?case
    using 4(5) y c r1 r2 IH1 IH2 k1 by (auto simp: visit_append split: if_splits)
qed (auto simp: rest_back_def)

section \<open>Walking from a position\<close>

lemma rest_of_drop:
  assumes "length (n_kids n) = Suc (length (n_items n))"
  shows "rest_of (drop i (n_items n)) (drop (Suc i) (n_kids n)) = right_of n i"
proof (cases "drop (Suc i) (n_kids n) = []")
  case True
  then have "length (n_kids n) \<le> Suc i" by simp
  then have "drop i (n_items n) = []" using assms by simp
  then show ?thesis using True by (simp only: rest_of_def right_of_def) simp
qed (simp add: rest_of_def right_of_def)

lemma rest_back_take:
  assumes "length (n_kids n) = Suc (length (n_items n))" and "i \<le> length (n_items n)"
  shows "rest_back (rev (take i (n_items n))) (rev (take i (n_kids n))) = rev (left_of n i)"
proof (cases i)
  case (Suc j)
  then have "take i (n_kids n) \<noteq> []" using assms by (cases "n_kids n") auto
  then show ?thesis
    using rev_lead [of "map inorder (take i (n_kids n))" "take i (n_items n)"] assms
    by (simp add: rest_back_def left_of_def rev_map comp_def)
qed (simp add: rest_back_def left_of_def)

lemma strip_kids:
  assumes "map strip ks = map strip (n_kids n)"
  shows "strip (Node (n_addr n) (n_items n) ks (n_counts n)) = strip n"
  using assms by (cases n) simp

lemma nodeAscendAt_visits:
  assumes "node_ok h n" and "0 \<le> index" and "index \<le> size_of n"
  shows "\<exists>ok n' st' s'. nodeAscendAt cp yield mut n index st s = Some (ok, n', st', s') \<and>
    visit_list yield (drop (nat index) (inorder n)) s = (ok, s') \<and> strip n' = strip n \<and>
    (\<not> mut \<longrightarrow> n' = n \<and> st' = st)"
  using assms
proof (induction h arbitrary: n index st s)
  case 0
  then obtain a its where n: "n = Node a its [] []" by (cases n) auto
  obtain ok ks st' s' where r: "ascend_rest cp yield mut a (drop (nat index) its) [] st s = (ok, ks, st', s')"
    by (metis prod_cases4)
  then show ?case
    using 0 nodeAll_visits(2) [of "[]" "drop (nat index) its" 0 cp yield mut a st s ok ks st' s'] by (auto simp: n rest_of_def)
next
  case (Suc h)
  obtain a its ks cs where n: "n = Node a its ks cs" by (cases n)
  obtain k ks' where ks: "ks = k # ks'" "length ks' = length its" using branch_shape [OF Suc.prems(1) n] .
  obtain i found j where slot: "find_slot (take (length (n_items n)) (n_counts n)) index = (i, found, j)"
    by (metis prod_cases3)
  note fs = find_slot_node [OF Suc.prems(1) slot Suc.prems(2,3)]
  have len: "length (n_kids n) = Suc (length (n_items n))" and kok: "\<forall>k \<in> set (n_kids n). node_ok h k"
    using Suc.prems(1) by (auto simp: node_ok_kids)
  have pos: "nat index = length (left_of n i) + nat j" using fs(2,3) by linarith
  have ok_i: "node_ok h (ks ! i)" using kok fs(1) len by (auto simp: n)
  have "\<exists>ok c st2 s2. (if found then Some (True, ks ! i, st, s) else (case cow_kid cp a (ks ! i) mut st of (c, st1) \<Rightarrow>
        nodeAscendAt cp yield mut c j st1 s)) = Some (ok, c, st2, s2) \<and>
      visit_list yield (drop (nat j) (inorder (ks ! i))) s = (ok, s2) \<and> strip c = strip (ks ! i) \<and>
      (\<not> mut \<longrightarrow> c = ks ! i \<and> st2 = st)"
  proof (cases found)
    case False
    obtain c st1 where c: "cow_kid cp a (ks ! i) mut st = (c, st1)" by (metis surj_pair)
    note sn = cow_kid_same [OF c]
    have c': "node_ok h c" "inorder c = inorder (ks ! i)" "strip c = strip (ks ! i)" "\<not> mut \<Longrightarrow> c = ks ! i \<and> st1 = st"
      using same_node_props(1,2) [OF sn] same_node_strip [OF sn] ok_i c by (auto simp: cow_kid_def split: if_splits)
    then show ?thesis using Suc.IH [OF c'(1) fs(3), of st1 s] fs(4) False c by (auto simp: n)
  qed (use fs(5) in \<open>auto simp: n\<close>)
  then obtain ok c st2 s2 where first: "(if found then Some (True, ks ! i, st, s) else (case cow_kid cp a (ks ! i) mut st of (c, st1) \<Rightarrow>
        nodeAscendAt cp yield mut c j st1 s)) = Some (ok, c, st2, s2)"
    and v1: "visit_list yield (drop (nat j) (inorder (ks ! i))) s = (ok, s2)" "strip c = strip (ks ! i)"
      "\<not> mut \<Longrightarrow> c = ks ! i \<and> st2 = st" by blast
  obtain ok1 ks1 st3 s3 where r: "ascend_rest cp yield mut a (drop i its) (drop (Suc i) ks) st2 s2 = (ok1, ks1, st3, s3)"
    by (metis prod_cases4)
  have "\<forall>k \<in> set (drop (Suc i) ks). node_ok h k" "length (drop (Suc i) ks) = length (drop i its)"
    using kok len by (auto simp: n dest: in_set_dropD)
  then have v2: "visit_list yield (right_of n i) s2 = (ok1, s3)" "map strip ks1 = map strip (drop (Suc i) ks)"
      "\<not> mut \<Longrightarrow> ks1 = drop (Suc i) ks \<and> st3 = st2"
    using nodeAll_visits(2) [OF _ _ r, of h] rest_of_drop [OF len, of i] by (auto simp: n)
  have i: "i < length ks" using fs(1) len by (simp add: n)
  have dr: "drop (nat index) (inorder n) = drop (nat j) (inorder (ks ! i)) @ right_of n i"
    using inorder_at [OF len fs(1)] pos fs(4) by (simp add: n nat_le_iff)
  have s1: "map strip (ks[i := c]) = map strip ks" using v1(2) i by (simp add: map_update) (metis list_update_id map_update)
  have s2: "map strip (take i ks @ c # ks1) = map strip ks"
    using v1(2) v2(2) i by (metis (no_types, lifting) id_take_nth_drop list.simps(9) map_append)
  have step: "nodeAscendAt cp yield mut n index st s = Some (if \<not> ok then (False, Node a its (ks[i := c]) cs, st2, s2)
      else (ok1, Node a its (take i ks @ c # ks1) cs, st3, s3))"
    using slot first r ks fs(1) by (simp add: n split del: if_split) auto
  show ?case
    unfolding step dr visit_append v1(1) using v2 s1 s2 v1 i
    by (auto simp: n id_take_nth_drop [symmetric])
qed

text \<open>The same scan from the other end.\<close>

lemma find_slot_back:
  assumes ok: "node_ok (Suc h) n" and slot: "find_slot (rev (drop 1 (n_counts n))) index = (p, found, j)"
    and "0 \<le> index" and "index \<le> size_of n"
  shows "p \<le> length (n_items n)" "index = int (length (right_of n (length (n_items n) - p))) + j" "0 \<le> j"
    "j \<le> size_of (n_kids n ! (length (n_items n) - p))"
    "found \<Longrightarrow> j = size_of (n_kids n ! (length (n_items n) - p))"
proof -
  let ?xs = "rev (map inorder (n_kids n))" and ?ys = "rev (n_items n)"
  have len: "length (n_kids n) = Suc (length (n_items n))" "n_counts n = map size_of (n_kids n)"
    using ok by (auto simp: node_ok_kids)
  have "rev (drop 1 (n_counts n)) = map (\<lambda>x. int (length x)) (take (length ?ys) ?xs)"
    using len by (simp add: take_rev drop_map rev_map take_map)
  note spec = find_slot_spec [OF slot [unfolded this] _ assms(3)]
  have total: "length (weave ?xs ?ys) = length (inorder n)"
    by (simp add: length_weave inorder_node [of n] rev_map [symmetric] sum_list_rev)
  have s: "p \<le> length ?ys \<and> index = int (length (lead (take p ?xs) (take p ?ys))) + j \<and> 0 \<le> j \<and>
    j \<le> int (length (?xs ! p)) \<and> found = (p < length ?ys \<and> j = int (length (?xs ! p)))"
    using spec len assms(4) total by simp
  then show p: "p \<le> length (n_items n)" "0 \<le> j" by auto
  let ?i = "length (n_items n) - p"
  have "length (lead (take p ?xs) (take p ?ys)) = length (right_of n ?i)"
  proof -
    have "take p ?xs = rev (map inorder (drop (Suc ?i) (n_kids n)))" "take p ?ys = rev (drop ?i (n_items n))"
      using len p(1) by (simp_all add: take_rev drop_map Suc_diff_le)
    then show ?thesis
      using len p(1) by (simp add: right_of_def length_lead length_trail rev_map [symmetric] sum_list_rev)
  qed
  moreover have "?xs ! p = inorder (n_kids n ! ?i)" using len p(1) by (simp add: rev_nth rev_map [symmetric] Suc_diff_le)
  ultimately show "index = int (length (right_of n ?i)) + j" "j \<le> size_of (n_kids n ! ?i)"
    "found \<Longrightarrow> j = size_of (n_kids n ! ?i)" using s by auto
qed

lemma nodeDescendAt_visits:
  assumes "node_ok h n" and "0 \<le> index" and "index \<le> size_of n"
  shows "\<exists>ok n' st' s'. nodeDescendAt cp yield mut n index st s = Some (ok, n', st', s') \<and>
    visit_list yield (drop (nat index) (rev (inorder n))) s = (ok, s') \<and> strip n' = strip n \<and>
    (\<not> mut \<longrightarrow> n' = n \<and> st' = st)"
  using assms
proof (induction h arbitrary: n index st s)
  case 0
  then obtain a its where n: "n = Node a its [] []" by (cases n) auto
  obtain ok ks st' s' where r: "descend_rest cp yield mut a (drop (nat index) (rev its)) [] st s = (ok, ks, st', s')"
    by (metis prod_cases4)
  then show ?case
    using 0 nodeBackward_visits(2) [of "[]" "drop (nat index) (rev its)" 0 cp yield mut a st s ok ks st' s'] by (auto simp: n rest_back_def)
next
  case (Suc h)
  obtain a its ks cs where n: "n = Node a its ks cs" by (cases n)
  obtain k ks' where ks: "ks = k # ks'" "length ks' = length its" using branch_shape [OF Suc.prems(1) n] .
  obtain p found j where slot: "find_slot (rev (drop 1 (n_counts n))) index = (p, found, j)"
    by (metis prod_cases3)
  note fs = find_slot_back [OF Suc.prems(1) slot Suc.prems(2,3)]
  define i where "i = length its - p"
  have len: "length (n_kids n) = Suc (length (n_items n))" and kok: "\<forall>k \<in> set (n_kids n). node_ok h k"
    using Suc.prems(1) by (auto simp: node_ok_kids)
  have ile: "i \<le> length (n_items n)" by (simp add: i_def n)
  have pos: "nat index = length (right_of n i) + nat j" using fs(2,3) by (simp add: i_def n)
  have ok_i: "node_ok h (ks ! i)" using kok ile len by (auto simp: n)
  have "\<exists>ok c st2 s2. (if found then Some (True, ks ! i, st, s) else (case cow_kid cp a (ks ! i) mut st of (c, st1) \<Rightarrow>
        nodeDescendAt cp yield mut c j st1 s)) = Some (ok, c, st2, s2) \<and>
      visit_list yield (drop (nat j) (rev (inorder (ks ! i)))) s = (ok, s2) \<and> strip c = strip (ks ! i) \<and>
      (\<not> mut \<longrightarrow> c = ks ! i \<and> st2 = st)"
  proof (cases found)
    case False
    obtain c st1 where c: "cow_kid cp a (ks ! i) mut st = (c, st1)" by (metis surj_pair)
    note sn = cow_kid_same [OF c]
    have c': "node_ok h c" "inorder c = inorder (ks ! i)" "strip c = strip (ks ! i)" "\<not> mut \<Longrightarrow> c = ks ! i \<and> st1 = st"
      using same_node_props(1,2) [OF sn] same_node_strip [OF sn] ok_i c by (auto simp: cow_kid_def split: if_splits)
    then show ?thesis using Suc.IH [OF c'(1) fs(3), of st1 s] fs(4) False c by (auto simp: n i_def)
  qed (use fs(5) in \<open>auto simp: n i_def\<close>)
  then obtain ok c st2 s2 where first: "(if found then Some (True, ks ! i, st, s) else (case cow_kid cp a (ks ! i) mut st of (c, st1) \<Rightarrow>
        nodeDescendAt cp yield mut c j st1 s)) = Some (ok, c, st2, s2)"
    and v1: "visit_list yield (drop (nat j) (rev (inorder (ks ! i)))) s = (ok, s2)" "strip c = strip (ks ! i)"
      "\<not> mut \<Longrightarrow> c = ks ! i \<and> st2 = st" by blast
  obtain ok1 ks1 st3 s3 where r: "descend_rest cp yield mut a (rev (take i its)) (rev (take i ks)) st2 s2 = (ok1, ks1, st3, s3)"
    by (metis prod_cases4)
  have "\<forall>k \<in> set (rev (take i ks)). node_ok h k" "length (rev (take i ks)) = length (rev (take i its))"
    using kok len ile by (auto simp: n dest: in_set_takeD)
  then have v2: "visit_list yield (rev (left_of n i)) s2 = (ok1, s3)" "map strip ks1 = map strip (rev (take i ks))"
      "\<not> mut \<Longrightarrow> ks1 = rev (take i ks) \<and> st3 = st2"
    using nodeBackward_visits(2) [OF _ _ r, of h] rest_back_take [OF len ile] by (auto simp: n)
  have i: "i < length ks" using ile len by (simp add: n)
  have dr: "drop (nat index) (rev (inorder n)) = drop (nat j) (rev (inorder (ks ! i))) @ rev (left_of n i)"
    using inorder_at [OF len ile] pos fs(4) by (simp add: n i_def nat_le_iff)
  have s1: "map strip (ks[i := c]) = map strip ks" using v1(2) i by (simp add: map_update) (metis list_update_id map_update)
  have "map strip (rev ks1) = map strip (take i ks)" using v2(2) by (metis rev_map rev_rev_ident)
  then have s2: "map strip (rev ks1 @ c # drop (Suc i) ks) = map strip ks"
    using v1(2) i by (metis (no_types, lifting) id_take_nth_drop list.simps(9) map_append)
  have step: "nodeDescendAt cp yield mut n index st s = Some (if \<not> ok then (False, Node a its (ks[i := c]) cs, st2, s2)
      else (ok1, Node a its (rev ks1 @ c # drop (Suc i) ks) cs, st3, s3))"
    using slot first r ks fs(1) by (simp add: n i_def [symmetric] Let_def split del: if_split) auto
  show ?case
    unfolding step dr visit_append v1(1) using v2 s1 s2 v1 i
    by (auto simp: n id_take_nth_drop [symmetric])
qed

end
