(* ===== verification/Btype_Contents.thy ===== *)
theory Btype_Contents
  imports Btype_Walk
begin

text \<open>
  The methods of \<open>tree\<close> against the list of its contents: the invariant \<open>tree_ok\<close>, that every
  method keeps it, and what each returns and leaves.
\<close>

section \<open>Invariant\<close>

definition contents :: "('k, 'v) tree \<Rightarrow> ('k \<times> 'v) list" where
  "contents t = (case t_root t of None \<Rightarrow> [] | Some n \<Rightarrow> inorder n)"

definition root_ok :: "('k, 'v) node \<Rightarrow> bool" where
  "root_ok n = (node_ok (height_loop n) n \<and> n_items n \<noteq> [])"

definition tree_ok :: "('k, 'v) tree \<Rightarrow> bool" where
  "tree_ok t =
     (t_count t = int (length (contents t)) \<and>
      (case t_root t of None \<Rightarrow> True | Some n \<Rightarrow> root_ok n) \<and>
      (case t_spare t of None \<Rightarrow> True | Some n \<Rightarrow> leaf n))"

lemma node_ok_height: "node_ok h n \<Longrightarrow> height_loop n = h"
proof (induction h arbitrary: n)
  case 0
  then show ?case by (cases n) auto
next
  case (Suc h)
  then show ?case by (cases n; cases "n_kids n") auto
qed

lemma root_okI: "node_ok h n \<Longrightarrow> n_items n \<noteq> [] \<Longrightarrow> root_ok n"
  using node_ok_height [of h n] by (simp add: root_ok_def)

lemma zero_tree_ok [simp]: "tree_ok zero_tree" "contents zero_tree = []"
  by (simp_all add: tree_ok_def zero_tree_def contents_def)

lemma live_root_cases:
  assumes "tree_ok t"
  obtains (empty) "live_root t = None" "t_root t = None" "contents t = []" "t_count t = 0"
    | (root) n where "live_root t = Some n" "t_root t = Some n" "root_ok n" "contents t = inorder n" "t_count t > 0"
proof (cases "t_root t")
  case None
  then show ?thesis using assms empty by (simp add: tree_ok_def contents_def live_root_def)
next
  case (Some n)
  then have "root_ok n" "t_count t = size_of n" using assms by (auto simp: tree_ok_def contents_def)
  moreover have "inorder n \<noteq> []" using inorder_nonempty [of n] \<open>root_ok n\<close> by (simp add: root_ok_def)
  ultimately show ?thesis using Some root by (simp add: contents_def live_root_def)
qed

lemma tree_ok_fields:
  "tree_ok (t\<lparr>t_copied := b\<rparr>) = tree_ok t" "contents (t\<lparr>t_copied := b\<rparr>) = contents t"
  "contents (t\<lparr>t_count := k\<rparr>) = contents t" "contents (t\<lparr>t_spare := x\<rparr>) = contents t"
  "contents (t\<lparr>t_root := Some n\<rparr>) = inorder n" "contents (t\<lparr>t_root := None\<rparr>) = []"
  by (simp_all add: tree_ok_def contents_def)

text \<open>A method that puts a well-formed root of the right size keeps the invariant.\<close>

lemma tree_ok_root:
  assumes "tree_ok t" and "root_ok n" and "inorder n = xs" and "c = int (length xs)"
  shows "tree_ok (t\<lparr>t_root := Some n, t_count := c\<rparr>)" "contents (t\<lparr>t_root := Some n, t_count := c\<rparr>) = xs"
    "t_count t = c \<Longrightarrow> tree_ok (t\<lparr>t_root := Some n\<rparr>)"
  using assms by (simp_all add: tree_ok_def tree_ok_fields contents_def)

lemma cowRoot_ok:
  assumes "cowRoot cp n mut st = (n1, st1)"
  shows "root_ok n1 = root_ok n" "inorder n1 = inorder n" "n_items n1 = n_items n" "node_ok h n1 = node_ok h n"
proof -
  note sn = cowRoot_same [OF assms]
  note p = same_node_props [OF sn]
  show "inorder n1 = inorder n" "n_items n1 = n_items n" "node_ok h n1 = node_ok h n" using p by simp_all
  have "height_loop n1 = height_loop n" using p(4) by (cases n; cases n1; cases "n_kids n") auto
  then show "root_ok n1 = root_ok n" using p by (simp add: root_ok_def)
qed

section \<open>Insertion\<close>

lemma insertFirstItem_ok:
  assumes "insertFirstItem t e st = (t', st')"
    and "case t_spare t of None \<Rightarrow> True | Some n \<Rightarrow> leaf n"
  shows "tree_ok t'" "contents t' = [e]" "t_copied t' = t_copied t"
    "t_dataCompare t' = t_dataCompare t" "t_dataSearch t' = t_dataSearch t"
  using assms
  by (auto simp: insertFirstItem_def tree_ok_def contents_def root_ok_def sizes newNode_def split: option.splits prod.splits)

lemma tree_ok_spare: "tree_ok t \<Longrightarrow> case t_spare t of None \<Rightarrow> True | Some n \<Rightarrow> leaf n"
  by (simp add: tree_ok_def)

text \<open>The frame of the pushes, for a walk that puts the pair where \<open>ins\<close> puts it.\<close>

lemma push_with_ok:
  assumes ok: "tree_ok t" and root: "t_root t = Some n" and res: "push_with loop undo t n st = (b, t', st')"
    and loop: "\<And>h m st ok m' st'. node_ok h m \<Longrightarrow> length (n_items m) < maxItems \<Longrightarrow> n_items m \<noteq> [] \<Longrightarrow> loop m st = (ok, m', st') \<Longrightarrow>
      length (n_items m) \<le> length (n_items m') \<and>
      (if ok then node_ok h m' \<and> inorder m' = ins (inorder m)
       else (\<forall>st2. node_ok h (fst (undo m' st2)) \<and> inorder (fst (undo m' st2)) = inorder m \<and>
              n_items (fst (undo m' st2)) = n_items m'))"
    and ins: "\<And>xs. length (ins xs) = Suc (length xs)"
  shows "tree_ok t' \<and> contents t' = (if b then ins (contents t) else contents t) \<and>
    t_dataCompare t' = t_dataCompare t \<and> t_copied t' = t_copied t \<and> t_dataSearch t' = t_dataSearch t \<and>
    (\<exists>m st1. b = fst (loop m st1))"
proof -
  have t: "root_ok n" "contents t = inorder n" "t_count t = size_of n"
    using ok root by (auto simp: tree_ok_def contents_def)
  obtain n1 st1 where c: "cowRoot (t_copied t) n True st = (n1, st1)" by (metis surj_pair)
  obtain s n2 st2 where e2: "ensureRoot n1 st1 = (s, n2, st2)" by (metis prod_cases3)
  obtain a n3 st3 where p: "loop n2 st2 = (a, n3, st3)" by (metis prod_cases3)
  note cr = cowRoot_ok [OF c]
  have "node_ok (height_loop n) n1" "n_items n1 \<noteq> []" using t(1) cr by (simp_all add: root_ok_def)
  note er = ensureRoot_ok [OF this e2]
  then obtain h where h: "node_ok h n2" by blast
  note pb = loop [OF h er(4,3) p]
  have ne: "n_items n3 \<noteq> []" using pb er(3) by auto
  show ?thesis
  proof (cases a)
    case True
    then have m: "root_ok n3" "inorder n3 = ins (inorder n)" using pb ne root_okI er(2) cr(2) by auto
    have "b = a" "t' = t\<lparr>t_root := Some n3, t_count := t_count t + 1\<rparr>"
      using res c e2 p True by (auto simp: push_with_def)
    moreover have "t_count t + 1 = int (length (ins (inorder n)))" using t(3) ins by simp
    ultimately show ?thesis using tree_ok_root(1,2) [OF ok m, of "t_count t + 1"] t(2) p True by (auto intro!: exI [of _ n2] exI [of _ st2])
  next
    case False
    obtain n4 st4 where rb: "undo n3 st3 = (n4, st4)" by (metis surj_pair)
    have "node_ok h (fst (undo n3 st3))" "inorder (fst (undo n3 st3)) = inorder n2"
      "n_items (fst (undo n3 st3)) = n_items n3" using pb False by auto
    then have m: "root_ok n4" "inorder n4 = inorder n" using rb ne root_okI [of h n4] er(2) cr(2) by auto
    have "b = a" "t' = t\<lparr>t_root := Some n4\<rparr>" using res c e2 p False rb by (auto simp: push_with_def)
    then show ?thesis using tree_ok_root(3) [OF ok m, of "t_count t"] t(2,3) m(2) p False
      by (auto simp: tree_ok_fields intro!: exI [of _ n2] exI [of _ st2])
  qed
qed

lemma PushBack_ok:
  assumes ok: "tree_ok t" and res: "PushBack t e st = (b, t', st')"
  shows "tree_ok t'" "contents t' = (if b then contents t @ [e] else contents t)"
    "t_dataCompare t = None \<Longrightarrow> b" "t_dataCompare t' = t_dataCompare t" "t_copied t' = t_copied t"
    "t_dataSearch t' = t_dataSearch t"
proof -
  have "tree_ok t' \<and> contents t' = (if b then contents t @ [e] else contents t) \<and> (t_dataCompare t = None \<longrightarrow> b) \<and>
    t_dataCompare t' = t_dataCompare t \<and> t_copied t' = t_copied t \<and> t_dataSearch t' = t_dataSearch t"
    using ok
  proof (cases rule: live_root_cases)
    case empty
    then show ?thesis using res insertFirstItem_ok [of t e st t' st'] tree_ok_spare [OF ok] by (auto simp: PushBack_def)
  next
    case (root n)
    have "push_with (\<lambda>n1 st1. pushBack_loop (t_copied t) (t_dataCompare t) n1 e st1) rollback_back t n st = (b, t', st')"
      using res root(1) by (simp add: PushBack_def)
    note pw = push_with_ok [OF ok root(2) this, of "\<lambda>xs. xs @ [e]"]
    have loop: "length (n_items m) \<le> length (n_items m') \<and>
      (if a then node_ok h m' \<and> inorder m' = inorder m @ [e]
       else (\<forall>st2. node_ok h (fst (rollback_back m' st2)) \<and> inorder (fst (rollback_back m' st2)) = inorder m \<and>
              n_items (fst (rollback_back m' st2)) = n_items m'))"
      if "node_ok h m" "length (n_items m) < maxItems" "pushBack_loop (t_copied t) (t_dataCompare t) m e st = (a, m', st')" for h m st a m' st'
      using pushBack_ok [OF that] by simp
    have "tree_ok t' \<and> contents t' = (if b then contents t @ [e] else contents t) \<and>
      t_dataCompare t' = t_dataCompare t \<and> t_copied t' = t_copied t \<and> t_dataSearch t' = t_dataSearch t \<and>
      (\<exists>m st1. b = fst (pushBack_loop (t_copied t) (t_dataCompare t) m e st1))"
      using pw loop by simp
    then show ?thesis using push_accepts(1) by fastforce
  qed
  then show "tree_ok t'" "contents t' = (if b then contents t @ [e] else contents t)"
    "t_dataCompare t = None \<Longrightarrow> b" "t_dataCompare t' = t_dataCompare t" "t_copied t' = t_copied t"
    "t_dataSearch t' = t_dataSearch t" by auto
qed

lemma PushFront_ok:
  assumes ok: "tree_ok t" and res: "PushFront t e st = (b, t', st')"
  shows "tree_ok t'" "contents t' = (if b then e # contents t else contents t)"
    "t_dataCompare t = None \<Longrightarrow> b" "t_dataCompare t' = t_dataCompare t" "t_copied t' = t_copied t"
    "t_dataSearch t' = t_dataSearch t"
proof -
  have "tree_ok t' \<and> contents t' = (if b then e # contents t else contents t) \<and> (t_dataCompare t = None \<longrightarrow> b) \<and>
    t_dataCompare t' = t_dataCompare t \<and> t_copied t' = t_copied t \<and> t_dataSearch t' = t_dataSearch t"
    using ok
  proof (cases rule: live_root_cases)
    case empty
    then show ?thesis using res insertFirstItem_ok [of t e st t' st'] tree_ok_spare [OF ok] by (auto simp: PushFront_def)
  next
    case (root n)
    have "push_with (\<lambda>n1 st1. pushFront_loop (t_copied t) (t_dataCompare t) n1 e st1) rollback_front t n st = (b, t', st')"
      using res root(1) by (simp add: PushFront_def)
    note pw = push_with_ok [OF ok root(2) this, of "\<lambda>xs. e # xs"]
    have loop: "length (n_items m) \<le> length (n_items m') \<and>
      (if a then node_ok h m' \<and> inorder m' = e # inorder m
       else (\<forall>st2. node_ok h (fst (rollback_front m' st2)) \<and> inorder (fst (rollback_front m' st2)) = inorder m \<and>
              n_items (fst (rollback_front m' st2)) = n_items m'))"
      if "node_ok h m" "length (n_items m) < maxItems" "pushFront_loop (t_copied t) (t_dataCompare t) m e st = (a, m', st')" for h m st a m' st'
      using pushFront_ok [OF that] by simp
    have "tree_ok t' \<and> contents t' = (if b then e # contents t else contents t) \<and>
      t_dataCompare t' = t_dataCompare t \<and> t_copied t' = t_copied t \<and> t_dataSearch t' = t_dataSearch t \<and>
      (\<exists>m st1. b = fst (pushFront_loop (t_copied t) (t_dataCompare t) m e st1))"
      using pw loop by simp
    then show ?thesis using push_accepts(2) by fastforce
  qed
  then show "tree_ok t'" "contents t' = (if b then e # contents t else contents t)"
    "t_dataCompare t = None \<Longrightarrow> b" "t_dataCompare t' = t_dataCompare t" "t_copied t' = t_copied t"
    "t_dataSearch t' = t_dataSearch t" by auto
qed

lemma InsertAt_ok:
  assumes ok: "tree_ok t" and cmp: "t_dataCompare t = None" and res: "InsertAt t index e st = (b, t', st')"
  shows "b = (0 \<le> index \<and> index \<le> int (length (contents t)))"
    "tree_ok t'" "contents t' = (if b then take (nat index) (contents t) @ e # drop (nat index) (contents t) else contents t)"
    "t_dataCompare t' = None" "t_copied t' = t_copied t"
proof -
  have len: "t_count t = int (length (contents t))" using ok by (simp add: tree_ok_def)
  have "b = (0 \<le> index \<and> index \<le> int (length (contents t))) \<and> tree_ok t' \<and>
    contents t' = (if b then take (nat index) (contents t) @ e # drop (nat index) (contents t) else contents t) \<and>
    t_dataCompare t' = None \<and> t_copied t' = t_copied t"
  proof (cases "0 < index \<and> index < t_count t")
    case False
    consider (outside) "index < 0 \<or> index > t_count t" | (first) "index = 0" | (end_pos) "index = t_count t" "index \<noteq> 0"
      using False by linarith
    then show ?thesis
    proof cases
      case outside
      then show ?thesis using res ok cmp len by (auto simp: InsertAt_def)
    next
      case first
      then have "PushFront t e st = (b, t', st')" using res len by (simp add: InsertAt_def)
      from PushFront_ok [OF ok this] show ?thesis using cmp first by simp
    next
      case end_pos
      then have "PushBack t e st = (b, t', st')" using res len by (simp add: InsertAt_def)
      from PushBack_ok [OF ok this] show ?thesis using cmp end_pos len by simp
    qed
  next
    case inner: True
    from ok show ?thesis
    proof (cases rule: live_root_cases)
      case (root n)
      obtain n1 st1 where c: "cowRoot (t_copied t) n True st = (n1, st1)" by (metis surj_pair)
      obtain s n2 st2 where e2: "ensureRoot n1 st1 = (s, n2, st2)" by (metis prod_cases3)
      note cr = cowRoot_ok [OF c]
      have "node_ok (height_loop n) n1" "n_items n1 \<noteq> []" using root(3) cr by (simp_all add: root_ok_def)
      note er = ensureRoot_ok [OF this e2]
      then obtain h where h: "node_ok h n2" by blast
      have "0 \<le> index" "index \<le> size_of n2" using inner len er(2) cr(2) root(4) by simp_all
      then obtain n3 st3 where ins: "insertAt_loop (t_copied t) n2 index e st2 = Some (n3, st3)"
        and n3: "node_ok h n3" "inorder n3 = take (nat index) (inorder n2) @ e # drop (nat index) (inorder n2)"
          "length (n_items n2) \<le> length (n_items n3)"
        using insertAt_ok [OF h er(4,3), of index "t_copied t" e st2] by blast
      have "length (take (nat index) (inorder n2)) + length (drop (nat index) (inorder n2)) = length (inorder n2)"
        by (simp flip: length_append)
      then have cnt: "t_count t + 1 = int (length (take (nat index) (inorder n2) @ e # drop (nat index) (inorder n2)))"
        using len er(2) cr(2) root(4) by (simp del: length_take length_drop)
      have "b" "t' = t\<lparr>t_root := Some n3, t_count := t_count t + 1\<rparr>"
        using res inner root(2) c e2 ins cmp by (auto simp: InsertAt_def out_of_order_def)
      moreover have "n_items n3 \<noteq> []" using n3(3) er(3) by auto
      then have "root_ok n3" by (rule root_okI [OF n3(1)])
      ultimately show ?thesis
        using tree_ok_root(1,2) [OF ok _ n3(2) cnt] inner len er(2) cr(2) root(4) cmp by simp
    qed (use inner in simp)
  qed
  then show "b = (0 \<le> index \<and> index \<le> int (length (contents t)))"
    "tree_ok t'" "contents t' = (if b then take (nat index) (contents t) @ e # drop (nat index) (contents t) else contents t)"
    "t_dataCompare t' = None" "t_copied t' = t_copied t" by auto
qed

section \<open>Removal\<close>

text \<open>The frame of the removals, for a walk that takes the item at \<open>p\<close>.\<close>

definition without :: "nat \<Rightarrow> 'a list \<Rightarrow> 'a list" where
  "without p xs = take p xs @ drop (Suc p) xs"

definition takes_item :: "(('k, 'v) node \<Rightarrow> arena \<Rightarrow> (('k \<times> 'v) \<times> ('k, 'v) node \<times> arena) option) \<Rightarrow> ('k \<times> 'v) list \<Rightarrow> nat \<Rightarrow> bool" where
  "takes_item del xs p =
     (\<forall>h m st. node_ok h m \<and> n_items m \<noteq> [] \<and> inorder m = xs \<longrightarrow>
       (\<exists>m' st'. del m st = Some (xs ! p, m', st') \<and> node_ok h m' \<and> inorder m' = without p xs \<and>
          length (n_items m) \<le> Suc (length (n_items m'))))"

lemma remove_with_ok:
  assumes ok: "tree_ok t" and root: "t_root t = Some n" and p: "p < length (contents t)"
    and del: "takes_item del (contents t) p"
    and res: "remove_with del t n st = (r, t', st')"
  shows "r = Some (contents t ! p)" "tree_ok t'" "contents t' = without p (contents t)"
    "t_dataCompare t' = t_dataCompare t" "t_copied t' = t_copied t" "t_dataSearch t' = t_dataSearch t"
proof -
  obtain n1 st1 where c: "cowRoot (t_copied t) n True st = (n1, st1)" by (metis surj_pair)
  note cr = cowRoot_ok [OF c]
  have n: "root_ok n" "contents t = inorder n" "t_count t = int (length (contents t))"
    using ok root by (auto simp: tree_ok_def contents_def)
  define h where "h = height_loop n"
  have h: "node_ok h n1" "n_items n1 \<noteq> []" "inorder n1 = contents t" using n cr by (simp_all add: root_ok_def h_def)
  then obtain n2 st2 where d: "del n1 st1 = Some (contents t ! p, n2, st2)"
    and n2: "node_ok h n2" "inorder n2 = without p (contents t)" "length (n_items n1) \<le> Suc (length (n_items n2))"
    using del unfolding takes_item_def by blast
  define t1 where "t1 = t\<lparr>t_root := Some n2, t_count := t_count t - 1\<rparr>"
  have res': "r = Some (contents t ! p)" "t' = collapseRootIfNeeded t1 st2"
    using res c d by (auto simp: remove_with_def t1_def)
  have len: "t_count t - 1 = int (length (without p (contents t)))" using p n(3) by (simp add: without_def)
  have sp: "case t_spare t of None \<Rightarrow> True | Some n \<Rightarrow> leaf n" using tree_ok_spare [OF ok] .
  have "tree_ok t' \<and> contents t' = without p (contents t)"
  proof (cases "without p (contents t) = []")
    case True
    then have zero: "t_count t1 = 0" using len by (simp add: t1_def)
    have "t_root t' = None" "t_count t' = 0" "case t_spare t' of None \<Rightarrow> True | Some n \<Rightarrow> leaf n"
      using zero sp by (auto simp: res'(2) collapseRootIfNeeded_def t1_def split: option.splits)
    then show ?thesis using True by (simp add: tree_ok_def contents_def)
  next
    case False
    then have nz: "t_count t1 \<noteq> 0" using len by (simp add: t1_def)
    show ?thesis
    proof (cases "n_items n2 = []")
      case items: False
      then have "t' = t1" using nz by (cases n2) (auto simp: res'(2) collapseRootIfNeeded_def t1_def split: list.splits)
      then show ?thesis using tree_ok_root(1,2) [OF ok root_okI [OF n2(1) items] n2(2) len] by (simp add: t1_def)
    next
      case True
      then obtain h' where hs: "h = Suc h'"
        using n2 False by (cases h; cases n2) auto
      then obtain a k cs where n2_eq: "n2 = Node a [] [k] cs"
        using n2(1) True by (cases n2; cases "n_kids n2") auto
      then have k: "node_ok h' k" "minItems \<le> length (n_items k)" "inorder k = without p (contents t)" "t' = t1\<lparr>t_root := Some k\<rparr>"
        using n2 hs nz by (auto simp: res'(2) collapseRootIfNeeded_def t1_def)
      then have "n_items k \<noteq> []" by (auto simp: sizes)
      moreover have "t' = t\<lparr>t_root := Some k, t_count := t_count t - 1\<rparr>" using k(4) by (simp add: t1_def)
      ultimately show ?thesis using tree_ok_root(1,2) [OF ok root_okI [OF k(1)] k(3) len] by simp
    qed
  qed
  then show "r = Some (contents t ! p)" "tree_ok t'" "contents t' = without p (contents t)" using res'(1) by auto
  show "t_dataCompare t' = t_dataCompare t" "t_copied t' = t_copied t" "t_dataSearch t' = t_dataSearch t"
    by (auto simp: res'(2) collapseRootIfNeeded_def t1_def split: option.splits node.splits list.splits)
qed

lemma PopFront_ok:
  assumes ok: "tree_ok t" and res: "PopFront t st = (r, t', st')"
  shows "tree_ok t'" "r = (case contents t of [] \<Rightarrow> None | e # _ \<Rightarrow> Some e)" "contents t' = tl (contents t)"
    "t_dataCompare t' = t_dataCompare t" "t_copied t' = t_copied t" "t_dataSearch t' = t_dataSearch t"
proof -
  have "tree_ok t' \<and> r = (case contents t of [] \<Rightarrow> None | e # _ \<Rightarrow> Some e) \<and> contents t' = tl (contents t) \<and>
    t_dataCompare t' = t_dataCompare t \<and> t_copied t' = t_copied t \<and> t_dataSearch t' = t_dataSearch t"
    using ok
  proof (cases rule: live_root_cases)
    case empty
    then show ?thesis using res ok by (simp add: PopFront_def)
  next
    case (root n)
    have ne: "contents t \<noteq> []" using root(5) ok by (auto simp: tree_ok_def)
    have rw: "remove_with (\<lambda>n1 st1. Some (nodePopFront (t_copied t) n1 st1)) t n st = (r, t', st')"
      using res root(1) by (simp add: PopFront_def)
    have pop: "takes_item (\<lambda>n1 st1. Some (nodePopFront (t_copied t) n1 st1)) (contents t) 0"
      unfolding takes_item_def
    proof (intro allI impI, elim conjE)
      fix h m st assume that: "node_ok h m" "n_items m \<noteq> []" "inorder m = contents t"
      obtain e m' st' where r: "nodePopFront (t_copied t) m st = (e, m', st')" by (metis prod_cases3)
      from nodePopFront_ok [OF that(1,2) this]
      show "\<exists>m' st'. Some (nodePopFront (t_copied t) m st) = Some (contents t ! 0, m', st') \<and> node_ok h m' \<and>
          inorder m' = without 0 (contents t) \<and> length (n_items m) \<le> Suc (length (n_items m'))"
        using r by (simp add: without_def flip: that(3))
    qed
    have "0 < length (contents t)" using ne by simp
    from remove_with_ok [OF ok root(2) this pop rw] show ?thesis
      using ne by (cases "contents t") (auto simp: without_def)
  qed
  then show "tree_ok t'" "r = (case contents t of [] \<Rightarrow> None | e # _ \<Rightarrow> Some e)" "contents t' = tl (contents t)"
    "t_dataCompare t' = t_dataCompare t" "t_copied t' = t_copied t" "t_dataSearch t' = t_dataSearch t" by auto
qed

lemma PopBack_ok:
  assumes ok: "tree_ok t" and res: "PopBack t st = (r, t', st')"
  shows "tree_ok t'" "r = (if contents t = [] then None else Some (last (contents t)))" "contents t' = butlast (contents t)"
    "t_dataCompare t' = t_dataCompare t" "t_copied t' = t_copied t" "t_dataSearch t' = t_dataSearch t"
proof -
  have "tree_ok t' \<and> r = (if contents t = [] then None else Some (last (contents t))) \<and> contents t' = butlast (contents t) \<and>
    t_dataCompare t' = t_dataCompare t \<and> t_copied t' = t_copied t \<and> t_dataSearch t' = t_dataSearch t"
    using ok
  proof (cases rule: live_root_cases)
    case empty
    then show ?thesis using res ok by (simp add: PopBack_def)
  next
    case (root n)
    have ne: "contents t \<noteq> []" using root(5) ok by (auto simp: tree_ok_def)
    let ?p = "length (contents t) - 1"
    have rw: "remove_with (\<lambda>n1 st1. Some (nodePopBack (t_copied t) n1 st1)) t n st = (r, t', st')"
      using res root(1) by (simp add: PopBack_def)
    have last: "contents t ! ?p = last (contents t)" "without ?p (contents t) = butlast (contents t)"
      using ne by (simp_all add: last_conv_nth without_def butlast_conv_take)
    have pop: "takes_item (\<lambda>n1 st1. Some (nodePopBack (t_copied t) n1 st1)) (contents t) ?p"
      unfolding takes_item_def
    proof (intro allI impI, elim conjE)
      fix h m st assume that: "node_ok h m" "n_items m \<noteq> []" "inorder m = contents t"
      obtain e m' st' where r: "nodeDeleteMax (t_copied t) m st = (e, m', st')" by (metis prod_cases3)
      from nodeDeleteMax_ok [OF that(1,2) this]
      show "\<exists>m' st'. Some (nodePopBack (t_copied t) m st) = Some (contents t ! ?p, m', st') \<and> node_ok h m' \<and>
          inorder m' = without ?p (contents t) \<and> length (n_items m) \<le> Suc (length (n_items m'))"
        unfolding last nodePopBack_is_DeleteMax using r by (simp flip: that(3))
    qed
    have "?p < length (contents t)" using ne by simp
    note rm = remove_with_ok [OF ok root(2) this pop rw]
    show ?thesis using rm(2) rm(1,3) [unfolded last] rm(4-6) ne by simp
  qed
  then show "tree_ok t'" "r = (if contents t = [] then None else Some (last (contents t)))" "contents t' = butlast (contents t)"
    "t_dataCompare t' = t_dataCompare t" "t_copied t' = t_copied t" "t_dataSearch t' = t_dataSearch t" by auto
qed

lemma DeleteAt_ok:
  assumes ok: "tree_ok t" and res: "DeleteAt t index st = (r, t', st')"
  shows "tree_ok t'" "r = (if 0 \<le> index \<and> index < int (length (contents t)) then Some (contents t ! nat index) else None)"
    "contents t' = (if 0 \<le> index \<and> index < int (length (contents t)) then without (nat index) (contents t) else contents t)"
    "t_dataCompare t' = t_dataCompare t" "t_copied t' = t_copied t"
proof -
  have len: "t_count t = int (length (contents t))" using ok by (simp add: tree_ok_def)
  have "tree_ok t' \<and> r = (if 0 \<le> index \<and> index < int (length (contents t)) then Some (contents t ! nat index) else None) \<and>
    contents t' = (if 0 \<le> index \<and> index < int (length (contents t)) then without (nat index) (contents t) else contents t) \<and>
    t_dataCompare t' = t_dataCompare t \<and> t_copied t' = t_copied t"
  proof (cases "0 \<le> index \<and> index < t_count t")
    case False
    then show ?thesis using res ok len by (auto simp: DeleteAt_def)
  next
    case True
    from ok show ?thesis
    proof (cases rule: live_root_cases)
      case (root n)
      have rw: "remove_with (\<lambda>n1 st1. nodeDeleteAt (t_copied t) n1 index st1) t n st = (r, t', st')"
        using res root(2) True by (simp add: DeleteAt_def)
      have p: "nat index < length (contents t)" using True len by linarith
      have del: "takes_item (\<lambda>n1 st1. nodeDeleteAt (t_copied t) n1 index st1) (contents t) (nat index)"
        using nodeDeleteAt_ok [where index = index and cp = "t_copied t"] True len
        unfolding takes_item_def without_def by fastforce
      note rm = remove_with_ok [OF ok root(2) p del rw]
      show ?thesis using True [unfolded len] rm by simp
    qed (use True in simp)
  qed
  then show "tree_ok t'" "r = (if 0 \<le> index \<and> index < int (length (contents t)) then Some (contents t ! nat index) else None)"
    "contents t' = (if 0 \<le> index \<and> index < int (length (contents t)) then without (nat index) (contents t) else contents t)"
    "t_dataCompare t' = t_dataCompare t" "t_copied t' = t_copied t" by auto
qed

section \<open>Reading\<close>

lemma root_replaced:
  assumes ok: "tree_ok t" and root: "t_root t = Some n" and n': "node_ok h n'" "inorder n' = inorder n" "n_items n' = n_items n"
  shows "tree_ok (t\<lparr>t_root := Some n'\<rparr>)" "contents (t\<lparr>t_root := Some n'\<rparr>) = contents t"
proof -
  have "root_ok n" "contents t = inorder n" using ok root by (auto simp: tree_ok_def contents_def)
  moreover have "root_ok n'" using root_okI [OF n'(1)] n'(3) \<open>root_ok n\<close> by (simp add: root_ok_def)
  ultimately show "tree_ok (t\<lparr>t_root := Some n'\<rparr>)" "contents (t\<lparr>t_root := Some n'\<rparr>) = contents t"
    using ok n'(2) by (simp_all add: tree_ok_def tree_ok_fields)
qed

lemma front0_ok:
  assumes ok: "tree_ok t" and res: "front0 t mut st = (r, t', st')"
  shows "r = (case contents t of [] \<Rightarrow> None | e # _ \<Rightarrow> Some e) \<and> tree_ok t' \<and> contents t' = contents t"
  using ok
proof (cases rule: live_root_cases)
  case (root n)
  obtain n1 st1 where c: "cowRoot (t_copied t) n mut st = (n1, st1)" by (metis surj_pair)
  obtain e n2 st2 where f: "front_loop (t_copied t) mut n1 st1 = (e, n2, st2)" by (metis prod_cases3)
  note cr = cowRoot_ok [OF c]
  have "node_ok (height_loop n) n1" "n_items n1 \<noteq> []" using root(3) cr by (simp_all add: root_ok_def)
  note fl = front_loop_ok [OF this f]
  have "r = Some e" "t' = t\<lparr>t_root := Some n2\<rparr>" using res root(1) c f by (simp_all add: front0_def)
  then show ?thesis using root_replaced [OF ok root(2), of "height_loop n" n2] fl cr root(4)
    by (cases "inorder n") auto
qed (use res ok in \<open>simp add: front0_def\<close>)

lemma back0_ok:
  assumes ok: "tree_ok t" and res: "back0 t mut st = (r, t', st')"
  shows "r = (if contents t = [] then None else Some (last (contents t))) \<and> tree_ok t' \<and> contents t' = contents t"
  using ok
proof (cases rule: live_root_cases)
  case (root n)
  obtain n1 st1 where c: "cowRoot (t_copied t) n mut st = (n1, st1)" by (metis surj_pair)
  obtain e n2 st2 where f: "back_loop (t_copied t) mut n1 st1 = (e, n2, st2)" by (metis prod_cases3)
  note cr = cowRoot_ok [OF c]
  have "node_ok (height_loop n) n1" "n_items n1 \<noteq> []" using root(3) cr by (simp_all add: root_ok_def)
  note fl = back_loop_ok [OF this f]
  have "r = Some e" "t' = t\<lparr>t_root := Some n2\<rparr>" using res root(1) c f by (simp_all add: back0_def)
  then show ?thesis using root_replaced [OF ok root(2), of "height_loop n" n2] fl cr root(4) inorder_nonempty [of n] root(3)
    by (simp add: root_ok_def)
qed (use res ok in \<open>simp add: back0_def\<close>)

lemma getAt0_ok:
  assumes ok: "tree_ok t" and res: "getAt0 t index mut st = (r, t', st')"
  shows "r = (if 0 \<le> index \<and> index < int (length (contents t)) then Some (contents t ! nat index) else None) \<and>
    tree_ok t' \<and> contents t' = contents t"
proof -
  have len: "t_count t = int (length (contents t))" using ok by (simp add: tree_ok_def)
  consider (outside) "index < 0 \<or> index \<ge> t_count t" | (first) "index = 0" "0 < t_count t"
    | (end_pos) "index = t_count t - 1" "0 < index" | (inner) "0 < index" "index < t_count t - 1" by linarith
  then show ?thesis
  proof cases
    case outside
    then show ?thesis using res ok len by (auto simp: getAt0_def)
  next
    case first
    then have "front0 t mut st = (r, t', st')" using res by (simp add: getAt0_def)
    from front0_ok [OF ok this] show ?thesis using first len by (cases "contents t") auto
  next
    case end_pos
    then have "back0 t mut st = (r, t', st')" using res by (simp add: getAt0_def)
    moreover have "nat index = length (contents t) - 1" "contents t \<noteq> []" using end_pos len by auto
    ultimately show ?thesis using back0_ok [OF ok] end_pos len by (simp add: last_conv_nth)
  next
    case inner
    from ok show ?thesis
    proof (cases rule: live_root_cases)
      case (root n)
      obtain n1 st1 where c: "cowRoot (t_copied t) n mut st = (n1, st1)" by (metis surj_pair)
      note cr = cowRoot_ok [OF c]
      have n1: "node_ok (height_loop n) n1" using root(3) cr by (simp add: root_ok_def)
      have idx: "0 \<le> index" "index < size_of n1" using inner len cr root(4) by simp_all
      obtain n2 st2 where g: "getAt_loop (t_copied t) mut n1 index st1 = Some (inorder n1 ! nat index, n2, st2)"
        and n2: "node_ok (height_loop n) n2" "inorder n2 = inorder n1" "n_items n2 = n_items n1"
        using getAt_ok [OF n1 idx, of "t_copied t" mut st1] by blast
      have "r = Some (inorder n ! nat index)" "t' = t\<lparr>t_root := Some n2\<rparr>"
        using res inner root(2) c g cr by (simp_all add: getAt0_def)
      then show ?thesis using root_replaced [OF ok root(2) n2(1)] n2 cr root(4) inner len by simp
    qed (use inner in simp)
  qed
qed

lemma ReplaceAt_ok:
  assumes ok: "tree_ok t" and cmp: "t_dataCompare t = None" and res: "ReplaceAt t index e st = (r, t', st')"
  shows "r = (if 0 \<le> index \<and> index < int (length (contents t)) then Some (contents t ! nat index) else None) \<and>
    tree_ok t' \<and> contents t' = (if 0 \<le> index \<and> index < int (length (contents t)) then (contents t)[nat index := e] else contents t)"
proof -
  have len: "t_count t = int (length (contents t))" using ok by (simp add: tree_ok_def)
  show ?thesis
  proof (cases "0 \<le> index \<and> index < t_count t")
    case True
    from ok show ?thesis
    proof (cases rule: live_root_cases)
      case (root n)
      obtain n1 st1 where c: "cowRoot (t_copied t) n True st = (n1, st1)" by (metis surj_pair)
      note cr = cowRoot_ok [OF c]
      have n1: "node_ok (height_loop n) n1" using root(3) cr by (simp add: root_ok_def)
      have idx: "0 \<le> index" "index < size_of n1" using True len cr root(4) by simp_all
      obtain n2 st2 where g: "replaceAt_loop (t_copied t) n1 index e st1 = Some (inorder n1 ! nat index, n2, st2)"
        and n2: "node_ok (height_loop n) n2" "inorder n2 = (inorder n1)[nat index := e]" "length (n_items n2) = length (n_items n1)"
        using replaceAt_ok [OF n1 idx, of "t_copied t" e st1] by blast
      have r: "r = Some (inorder n ! nat index)" "t' = t\<lparr>t_root := Some n2\<rparr>"
        using res True root(2) c g cr cmp by (simp_all add: ReplaceAt_def out_of_order_def)
      have "n_items n2 \<noteq> []" using n2(3) cr root(3) by (auto simp: root_ok_def)
      then have "root_ok n2" by (rule root_okI [OF n2(1)])
      then show ?thesis
        using r tree_ok_root(3) [OF ok _ n2(2), of "t_count t"] True len cr root(4) n2(2) by (simp add: tree_ok_fields)
    qed (use True in simp)
  qed (use res ok len in \<open>auto simp: ReplaceAt_def\<close>)
qed

section \<open>Iteration\<close>

lemma strip_root:
  assumes ok: "tree_ok t" and root: "t_root t = Some n" and "strip n' = strip n"
  shows "tree_ok (t\<lparr>t_root := Some n'\<rparr>)" "contents (t\<lparr>t_root := Some n'\<rparr>) = contents t"
proof -
  have "node_ok (height_loop n) n" using ok root by (simp add: tree_ok_def root_ok_def)
  then have "node_ok (height_loop n) n'" using strip_same(2) [OF assms(3), of "height_loop n"] by simp
  from root_replaced [OF ok root this strip_same(1) [OF assms(3)] strip_same(3) [OF assms(3)]]
  show "tree_ok (t\<lparr>t_root := Some n'\<rparr>)" "contents (t\<lparr>t_root := Some n'\<rparr>) = contents t" .
qed

lemma same_root: "t_root t = Some n \<Longrightarrow> t\<lparr>t_root := Some n\<rparr> = t"
  by (cases t) simp

lemma cowRoot_read: "cowRoot cp n False st = (n, st)"
  by (simp add: cowRoot_def)

text \<open>The frame of every walk: the root is copied first in mutable mode.\<close>

lemma walk_root:
  assumes ok: "tree_ok t" and root: "t_root t = Some n" and c: "cowRoot (t_copied t) n mut st = (n1, st1)"
    and n2: "strip n2 = strip n1" "\<not> mut \<longrightarrow> n2 = n1 \<and> st2 = st1"
  shows "tree_ok (t\<lparr>t_root := Some n2\<rparr>) \<and> contents (t\<lparr>t_root := Some n2\<rparr>) = contents t \<and>
    (\<not> mut \<longrightarrow> t\<lparr>t_root := Some n2\<rparr> = t \<and> st2 = st)"
proof -
  have "strip n2 = strip n" using n2(1) same_node_strip [OF cowRoot_same [OF c]] by simp
  then show ?thesis using strip_root [OF ok root] n2(2) c same_root [OF root] by (auto simp: cowRoot_read)
qed

lemma all0_ok:
  assumes ok: "tree_ok t" and res: "all0 t yield mut st s = (t', st', s')"
  shows "s' = snd (visit_list yield (contents t) s) \<and> tree_ok t' \<and> contents t' = contents t \<and> (\<not> mut \<longrightarrow> t' = t \<and> st' = st)"
  using ok
proof (cases rule: live_root_cases)
  case (root n)
  obtain n1 st1 where c: "cowRoot (t_copied t) n mut st = (n1, st1)" by (metis surj_pair)
  obtain b n2 st2 s2 where w: "nodeAll (t_copied t) yield mut n1 st1 s = (b, n2, st2, s2)" by (metis prod_cases4)
  note cr = cowRoot_ok [OF c]
  have "node_ok (height_loop n) n1" using root(3) cr by (simp add: root_ok_def)
  note v = nodeAll_visits(1) [OF this w]
  have "t' = t\<lparr>t_root := Some n2\<rparr>" "st' = st2" "s' = s2" using res root(2,5) c w by (simp_all add: all0_def)
  then show ?thesis using walk_root [OF ok root(2) c, of n2 st2] v cr root(4) by simp
qed (use res ok in \<open>simp add: all0_def\<close>)

lemma backward0_ok:
  assumes ok: "tree_ok t" and res: "backward0 t yield mut st s = (t', st', s')"
  shows "s' = snd (visit_list yield (rev (contents t)) s) \<and> tree_ok t' \<and> contents t' = contents t \<and> (\<not> mut \<longrightarrow> t' = t \<and> st' = st)"
  using ok
proof (cases rule: live_root_cases)
  case (root n)
  obtain n1 st1 where c: "cowRoot (t_copied t) n mut st = (n1, st1)" by (metis surj_pair)
  obtain b n2 st2 s2 where w: "nodeBackward (t_copied t) yield mut n1 st1 s = (b, n2, st2, s2)" by (metis prod_cases4)
  note cr = cowRoot_ok [OF c]
  have "node_ok (height_loop n) n1" using root(3) cr by (simp add: root_ok_def)
  note v = nodeBackward_visits(1) [OF this w]
  have "t' = t\<lparr>t_root := Some n2\<rparr>" "st' = st2" "s' = s2" using res root(2,5) c w by (simp_all add: backward0_def)
  then show ?thesis using walk_root [OF ok root(2) c, of n2 st2] v cr root(4) by simp
qed (use res ok in \<open>simp add: backward0_def\<close>)

lemma ascendAt0_ok:
  assumes ok: "tree_ok t" and res: "ascendAt0 t index yield mut st s = (t', st', s')"
  shows "s' = snd (visit_list yield (drop (nat index) (contents t)) s) \<and> tree_ok t' \<and> contents t' = contents t \<and>
    (\<not> mut \<longrightarrow> t' = t \<and> st' = st)"
proof -
  have len: "t_count t = int (length (contents t))" using ok by (simp add: tree_ok_def)
  consider (all) "index \<le> 0" | (outside) "0 < index" "t_count t \<le> index" | (inner) "0 < index" "index < t_count t" by linarith
  then show ?thesis
  proof cases
    case all
    then show ?thesis using all0_ok [OF ok, of yield mut st s t' st' s'] res by (simp add: ascendAt0_def)
  next
    case outside
    then have "drop (nat index) (contents t) = []" using len by simp
    then show ?thesis using outside res ok by (simp add: ascendAt0_def)
  next
    case inner
    from ok show ?thesis
    proof (cases rule: live_root_cases)
      case (root n)
      obtain n1 st1 where c: "cowRoot (t_copied t) n mut st = (n1, st1)" by (metis surj_pair)
      note cr = cowRoot_ok [OF c]
      have n1: "node_ok (height_loop n) n1" using root(3) cr by (simp add: root_ok_def)
      have idx: "0 \<le> index" "index \<le> size_of n1" using inner len cr root(4) by simp_all
      obtain b n2 st2 s2 where w: "nodeAscendAt (t_copied t) yield mut n1 index st1 s = Some (b, n2, st2, s2)"
        and v: "visit_list yield (drop (nat index) (inorder n1)) s = (b, s2)" "strip n2 = strip n1" "\<not> mut \<longrightarrow> n2 = n1 \<and> st2 = st1"
        using nodeAscendAt_visits [OF n1 idx, of "t_copied t" yield mut st1 s] by blast
      have "t' = t\<lparr>t_root := Some n2\<rparr>" "st' = st2" "s' = s2"
        using res inner root(2) c w by (simp_all add: ascendAt0_def walk_at_def)
      then show ?thesis using walk_root [OF ok root(2) c v(2,3)] v(1) cr root(4) by simp
    qed (use inner in simp)
  qed
qed

lemma descendAt0_ok:
  assumes ok: "tree_ok t" and res: "descendAt0 t index yield mut st s = (t', st', s')"
  shows "s' = snd (visit_list yield (rev (take (nat (index + 1)) (contents t))) s) \<and> tree_ok t' \<and> contents t' = contents t \<and>
    (\<not> mut \<longrightarrow> t' = t \<and> st' = st)"
proof -
  have len: "t_count t = int (length (contents t))" using ok by (simp add: tree_ok_def)
  consider (all) "t_count t - 1 \<le> index" | (outside) "index < 0" "index < t_count t - 1" | (inner) "0 \<le> index" "index < t_count t - 1" by linarith
  then show ?thesis
  proof cases
    case all
    then have "take (nat (index + 1)) (contents t) = contents t" using len by simp
    then show ?thesis using all backward0_ok [OF ok, of yield mut st s t' st' s'] res by (simp add: descendAt0_def)
  next
    case outside
    then show ?thesis using res ok by (simp add: descendAt0_def)
  next
    case inner
    from ok show ?thesis
    proof (cases rule: live_root_cases)
      case (root n)
      obtain n1 st1 where c: "cowRoot (t_copied t) n mut st = (n1, st1)" by (metis surj_pair)
      note cr = cowRoot_ok [OF c]
      have n1: "node_ok (height_loop n) n1" using root(3) cr by (simp add: root_ok_def)
      let ?j = "t_count t - index - 1"
      have idx: "0 \<le> ?j" "?j \<le> size_of n1" using inner len cr root(4) by simp_all
      obtain b n2 st2 s2 where w: "nodeDescendAt (t_copied t) yield mut n1 ?j st1 s = Some (b, n2, st2, s2)"
        and v: "visit_list yield (drop (nat ?j) (rev (inorder n1))) s = (b, s2)" "strip n2 = strip n1" "\<not> mut \<longrightarrow> n2 = n1 \<and> st2 = st1"
        using nodeDescendAt_visits [OF n1 idx, of "t_copied t" yield mut st1 s] by blast
      have "t' = t\<lparr>t_root := Some n2\<rparr>" "st' = st2" "s' = s2"
        using res inner root(2) c w by (simp_all add: descendAt0_def walk_at_def)
      moreover have "length (contents t) - nat ?j = nat (index + 1)" using inner len by linarith
      then have "drop (nat ?j) (rev (contents t)) = rev (take (nat (index + 1)) (contents t))" by (simp add: drop_rev)
      ultimately show ?thesis using walk_root [OF ok root(2) c v(2,3)] v(1) cr root(4) by simp
    qed (use inner in simp)
  qed
qed

end
