(* ===== verification/Btype_Drain.thy ===== *)
theory Btype_Drain
  imports Btype_Contents
begin

text \<open>
  The loops of the tree that run to its end: \<open>Drain\<close> terminates and delivers the contents, and the
  height of a tree is logarithmic in its length, so every descent is short.
\<close>

section \<open>Draining\<close>

text \<open>What is taken out is what the callback has seen.\<close>

lemma Drain_ok:
  assumes "tree_ok t"
  shows "\<exists>xs ok t' st' s'. Drain yield t st s = Some (t', st', s') \<and> tree_ok t' \<and> contents t = xs @ contents t' \<and>
    visit_list yield xs s = (ok, s') \<and> (ok \<longrightarrow> contents t' = []) \<and> visit_list yield (contents t) s = (ok, s')"
  using assms
proof (induction "contents t" arbitrary: t st s)
  case Nil
  obtain r t1 st1 where p: "PopFront t st = (r, t1, st1)" by (metis prod_cases3)
  note pf = PopFront_ok [OF Nil(2) p]
  have "r = None" using pf(2) Nil(1) by simp
  then have "Drain yield t st s = Some (t1, st1, s)" using p by (subst Drain.simps) simp
  then show ?case using pf Nil(1) by (intro exI [of _ "[]"] exI [of _ True]) (auto simp: Nil(1) [symmetric])
next
  case (Cons e es)
  obtain r t1 st1 where p: "PopFront t st = (r, t1, st1)" by (metis prod_cases3)
  note pf = PopFront_ok [OF Cons(3) p]
  have r: "r = Some e" "contents t1 = es" "contents t = e # contents t1" using pf(2,3) Cons(2) by (auto split: list.splits)
  obtain ok s1 where y: "yield e s = (ok, s1)" by (metis surj_pair)
  have step: "Drain yield t st s = (if ok then Drain yield t1 st1 s1 else Some (t1, st1, s1))"
    using p r(1) y by (subst Drain.simps) simp
  show ?case
  proof (cases ok)
    case True
    obtain xs ok' t' st' s' where "Drain yield t1 st1 s1 = Some (t', st', s')" "tree_ok t'" "contents t1 = xs @ contents t'"
      "visit_list yield xs s1 = (ok', s')" "ok' \<longrightarrow> contents t' = []" "visit_list yield (contents t1) s1 = (ok', s')"
      using Cons(1) [OF r(2) [symmetric] pf(1), of st1 s1] by blast
    then show ?thesis unfolding step r(3) using True y by (intro exI [of _ "e # xs"] exI [of _ ok']) auto
  next
    case False
    then show ?thesis unfolding step r(3) using y pf(1) by (intro exI [of _ "[e]"] exI [of _ False]) auto
  qed
qed

lemma DrainBackward_ok:
  assumes "tree_ok t"
  shows "\<exists>xs ok t' st' s'. DrainBackward yield t st s = Some (t', st', s') \<and> tree_ok t' \<and> contents t = contents t' @ rev xs \<and>
    visit_list yield xs s = (ok, s') \<and> (ok \<longrightarrow> contents t' = []) \<and> visit_list yield (rev (contents t)) s = (ok, s')"
  using assms
proof (induction "contents t" arbitrary: t st s rule: rev_induct)
  case Nil
  obtain r t1 st1 where p: "PopBack t st = (r, t1, st1)" by (metis prod_cases3)
  note pf = PopBack_ok [OF Nil(2) p]
  have "r = None" using pf(2) Nil(1) by simp
  then have "DrainBackward yield t st s = Some (t1, st1, s)" using p by (subst DrainBackward.simps) simp
  then show ?case using pf Nil(1) by (intro exI [of _ "[]"] exI [of _ True]) (auto simp: Nil(1) [symmetric])
next
  case (snoc e es)
  obtain r t1 st1 where p: "PopBack t st = (r, t1, st1)" by (metis prod_cases3)
  note pf = PopBack_ok [OF snoc(3) p]
  have r: "r = Some e" "contents t1 = es" "contents t = contents t1 @ [e]"
    using pf(2,3) snoc(2) by (metis last_snoc append_is_Nil_conv not_Cons_self2, metis butlast_snoc, metis butlast_snoc)
  obtain ok s1 where y: "yield e s = (ok, s1)" by (metis surj_pair)
  have step: "DrainBackward yield t st s = (if ok then DrainBackward yield t1 st1 s1 else Some (t1, st1, s1))"
    using p r(1) y by (subst DrainBackward.simps) simp
  show ?case
  proof (cases ok)
    case True
    obtain xs ok' t' st' s' where "DrainBackward yield t1 st1 s1 = Some (t', st', s')" "tree_ok t'" "contents t1 = contents t' @ rev xs"
      "visit_list yield xs s1 = (ok', s')" "ok' \<longrightarrow> contents t' = []" "visit_list yield (rev (contents t1)) s1 = (ok', s')"
      using snoc(1) [OF r(2) [symmetric] pf(1), of st1 s1] by blast
    then show ?thesis unfolding step r(3) using True y by (intro exI [of _ "e # xs"] exI [of _ ok']) auto
  next
    case False
    then show ?thesis unfolding step r(3) using y pf(1) by (intro exI [of _ "[e]"] exI [of _ False]) auto
  qed
qed

section \<open>Height\<close>

lemma sum_list_lower:
  fixes f :: "'a \<Rightarrow> nat"
  shows "\<forall>x \<in> set xs. b \<le> Suc (f x) \<Longrightarrow> length xs * b \<le> sum_list (map f xs) + length xs"
  by (induction xs) (auto simp: algebra_simps)

lemma node_ok_size:
  assumes "node_ok h n" 
  shows "Suc (length (n_items n)) * (minItems + 1) ^ h \<le> Suc (length (inorder n))"
  using assms
proof (induction h arbitrary: n)
  case 0
  then show ?case by (cases n) auto
next
  case (Suc h)
  let ?b = "(minItems + 1) ^ Suc h"
  have "\<forall>k \<in> set (n_kids n). ?b \<le> Suc (length (inorder k))"
  proof
    fix k assume "k \<in> set (n_kids n)"
    then have "node_ok h k" "minItems + 1 \<le> Suc (length (n_items k))" using Suc.prems by (auto simp: node_ok_kids)
    then have "(minItems + 1) * (minItems + 1) ^ h \<le> Suc (length (inorder k))"
      using order.trans [OF mult_le_mono1 Suc.IH] by blast
    then show "?b \<le> Suc (length (inorder k))" by (simp only: power_Suc)
  qed
  from sum_list_lower [OF this] have "length (n_kids n) * ?b \<le> sum_list (map (\<lambda>k. length (inorder k)) (n_kids n)) + length (n_kids n)" .
  moreover have "length (n_kids n) = Suc (length (n_items n))" using Suc.prems by (simp add: node_ok_kids)
  ultimately show ?case by (simp add: inorder_node [of n] length_weave comp_def)
qed

lemma Height_bound:
  assumes "tree_ok t" and "contents t \<noteq> []"
  shows "2 * 32 ^ Height t \<le> Suc (length (contents t))"
  using assms(1)
proof (cases rule: live_root_cases)
  case (root n)
  have "node_ok (Height t) n" "n_items n \<noteq> []" using root by (simp_all add: Height_def root_ok_def)
  then have "Suc (length (n_items n)) * 32 ^ Height t \<le> Suc (length (contents t))" "2 \<le> Suc (length (n_items n))"
    using node_ok_size [of "Height t" n] root(4) by (simp_all add: sizes Suc_le_eq)
  then show ?thesis by (meson mult_le_mono1 order.trans)
qed (use assms(2) in simp)

section \<open>Copies\<close>

lemma CopyInto_ok:
  assumes "tree_ok t" and "CopyInto t st = (t1, t2, st')"
  shows "tree_ok t1" "tree_ok t2" "contents t1 = contents t" "contents t2 = contents t"
  using assms by (auto simp: CopyInto_def Let_def tree_ok_fields)

lemma Clear_tree_ok:
  assumes "tree_ok t"
  shows "tree_ok (Clear_tree t)" "contents (Clear_tree t) = []"
  using assms by (simp_all add: Clear_tree_def tree_ok_def contents_def)

end
