(* ===== verification/Btype_Sharing.thy ===== *)
theory Btype_Sharing
  imports Btype_Drain
begin

text \<open>
  Sharing between a tree and its copies. A forest is the list of the root nodes of live trees (and,
  inside a proof, of subtrees a walk has reached). It is sound when two node objects at the same
  address are the same object, and when no object is referred to more often than its reference
  counter says: by at most \<open>rc + 1\<close> roots and children slots. An object with \<open>rc = 0\<close> then has a
  single referrer, which is why it may be written in place.

  The operations on one tree keep the forest of all trees sound and write no object of another
  tree; opening an exclusively owned node into its children, and closing it again, are the two
  steps of all these proofs. An arena is the memory of a family of trees, that is of a tree and the
  copies made of it; each operation is one atomic step on it.
\<close>

section \<open>Forests\<close>

fun objs :: "('k, 'v) node \<Rightarrow> ('k, 'v) node set" where
  "objs (Node a its ks cs) = insert (Node a its ks cs) (\<Union>k \<in> set ks. objs k)"

definition all_objs :: "('k, 'v) node list \<Rightarrow> ('k, 'v) node set" where
  "all_objs R = (\<Union>n \<in> set R. objs n)"

definition addrs :: "('k, 'v) node list \<Rightarrow> nat set" where
  "addrs R = n_addr ` all_objs R"

definition slots :: "nat \<Rightarrow> ('k, 'v) node list \<Rightarrow> nat" where
  "slots a ns = count (mset (map n_addr ns)) a"

text \<open>The roots and children slots that refer to an address.\<close>

definition refs :: "('k, 'v) node list \<Rightarrow> nat \<Rightarrow> nat" where
  "refs R a = slots a R + (\<Sum>u \<in> all_objs R. slots a (n_kids u))"

definition one_object :: "('k, 'v) node list \<Rightarrow> bool" where
  "one_object R = (\<forall>u \<in> all_objs R. \<forall>v \<in> all_objs R. n_addr u = n_addr v \<longrightarrow> u = v)"

definition sound_forest :: "arena \<Rightarrow> ('k, 'v) node list \<Rightarrow> bool" where
  "sound_forest st R = (one_object R \<and> (\<forall>a \<in> addrs R. int (refs R a) \<le> ar_rc st a + 1 \<and> a < ar_next st))"

lemma finite_objs [simp]: "finite (objs n)"
  by (induction n) auto

lemma finite_all_objs [simp]: "finite (all_objs R)"
  by (simp add: all_objs_def)

lemma objs_self [simp]: "n \<in> objs n"
  by (cases n) simp

lemma objs_unfold: "objs n = insert n (all_objs (n_kids n))"
  by (cases n) (simp add: all_objs_def)

lemma all_objs_simps [simp]:
  "all_objs [] = {}" "all_objs (n # R) = objs n \<union> all_objs R" "all_objs (R @ S) = all_objs R \<union> all_objs S"
  by (auto simp: all_objs_def)

lemma addrs_simps [simp]:
  "addrs [] = {}" "addrs (n # R) = insert (n_addr n) (addrs (n_kids n) \<union> addrs R)" "addrs (R @ S) = addrs R \<union> addrs S"
  by (auto simp: addrs_def objs_unfold)

lemma slots_simps [simp]:
  "slots a [] = 0" "slots a (n # R) = (if n_addr n = a then Suc (slots a R) else slots a R)" "slots a (R @ S) = slots a R + slots a S"
  by (simp_all add: slots_def)

lemma slots_pos: "n \<in> set R \<Longrightarrow> 0 < slots (n_addr n) R"
  by (induction R) auto

lemma slots_le_objs: "slots a R > 0 \<Longrightarrow> a \<in> addrs R"
  by (induction R) (auto split: if_splits)

text \<open>A forest is unchanged by the order of its roots.\<close>

lemma forest_perm:
  assumes "mset R = mset S"
  shows "all_objs R = all_objs S" "addrs R = addrs S" "slots a R = slots a S" "refs R a = refs S a" "sound_forest st R = sound_forest st S"
proof -
  show o: "all_objs R = all_objs S" using assms by (metis all_objs_def set_mset_mset)
  then show ad: "addrs R = addrs S" by (simp add: addrs_def)
  have "slots b R = slots b S" for b using assms by (simp add: slots_def)
  then show "slots a R = slots a S" by blast
  have refs: "refs R b = refs S b" for b using \<open>\<And>b. slots b R = slots b S\<close> o by (simp add: refs_def)
  then show "refs R a = refs S a" by blast
  show "sound_forest st R = sound_forest st S" using refs o ad by (simp add: sound_forest_def one_object_def)
qed

lemma objs_trans: "u \<in> objs n \<Longrightarrow> objs u \<subseteq> objs n"
  by (induction n) auto

lemma all_objs_closed: "u \<in> all_objs R \<Longrightarrow> all_objs (n_kids u) \<subseteq> all_objs R"
  using objs_trans [of u] objs_unfold [of u] by (fastforce simp: all_objs_def)

lemma objs_size: "u \<in> objs n \<Longrightarrow> u = n \<or> depth u < depth n"
proof (induction n)
  case (Node a its ks cs)
  then consider "u = Node a its ks cs" | k where "k \<in> set ks" "u \<in> objs k" by auto
  then show ?case
  proof cases
    case 2
    then have "depth k < depth (Node a its ks cs)" by (intro depth_kid) simp
    then show ?thesis using Node.IH [OF 2] by (auto simp del: depth.simps)
  qed simp
qed

lemma kid_not_self: "n \<notin> all_objs (n_kids n)"
proof
  assume "n \<in> all_objs (n_kids n)"
  then obtain k where k: "k \<in> set (n_kids n)" "n \<in> objs k" by (auto simp: all_objs_def)
  then show False using depth_kid [OF k(1)] objs_size [OF k(2)] by auto
qed

text \<open>Every object of a forest is referred to, and a smaller forest has no more references.\<close>

lemma refs_pos:
  assumes "a \<in> addrs R"
  shows "0 < refs R a"
proof -
  obtain u where u: "u \<in> all_objs R" "n_addr u = a" using assms by (auto simp: addrs_def)
  have "u \<in> set R \<or> (\<exists>v \<in> all_objs R. u \<in> set (n_kids v))"
  proof -
    obtain n where n: "n \<in> set R" "u \<in> objs n" using u(1) by (auto simp: all_objs_def)
    have "u = n \<or> (\<exists>v \<in> objs n. u \<in> set (n_kids v))" using n(2)
    proof (induction n)
      case (Node b its ks cs)
      then show ?case by fastforce
    qed
    then show ?thesis using n(1) by (auto simp: all_objs_def)
  qed
  then show ?thesis
  proof
    assume "u \<in> set R"
    then show ?thesis using slots_pos [of u R] u(2) by (simp add: refs_def)
  next
    assume "\<exists>v \<in> all_objs R. u \<in> set (n_kids v)"
    then obtain v where v: "v \<in> all_objs R" "u \<in> set (n_kids v)" by blast
    then have "0 < slots a (n_kids v)" using slots_pos u(2) by blast
    then have "0 < (\<Sum>u \<in> all_objs R. slots a (n_kids u))" using v(1) by (metis finite_all_objs gr0I sum_eq_0_iff not_less0)
    then show ?thesis by (simp add: refs_def)
  qed
qed

lemma refs_add: "refs R a + slots a [n] \<le> refs (n # R) a"
  by (simp add: refs_def sum_mono2)

lemma sound_at: "sound_forest st R \<Longrightarrow> a \<in> addrs R \<Longrightarrow> int (refs R a) \<le> ar_rc st a + 1 \<and> a < ar_next st"
  by (simp add: sound_forest_def)

lemma sound_tail: "sound_forest st (n # R) \<Longrightarrow> sound_forest st R"
proof -
  assume s: "sound_forest st (n # R)"
  have "int (refs R a) \<le> ar_rc st a + 1 \<and> a < ar_next st" if "a \<in> addrs R" for a
    using sound_at [OF s, of a] that refs_add [of R a n] by (simp del: slots_simps)
  then show ?thesis using s by (auto simp: sound_forest_def one_object_def)
qed

lemma sound_rc: "sound_forest st R \<Longrightarrow> a \<in> addrs R \<Longrightarrow> 0 \<le> ar_rc st a \<and> a < ar_next st"
  using refs_pos [of a R] by (force simp: sound_forest_def)

section \<open>Opening and closing a node\<close>

text \<open>An object whose counter is 0 is referred to from one place.\<close>

lemma exclusive:
  assumes "sound_forest st (n # R)" and "ar_rc st (n_addr n) = 0"
  shows "n_addr n \<notin> addrs R"
proof
  assume "n_addr n \<in> addrs R"
  then have "0 < refs R (n_addr n)" by (rule refs_pos)
  then have "2 \<le> refs (n # R) (n_addr n)" using refs_add [of R "n_addr n" n] by simp
  moreover have "int (refs (n # R) (n_addr n)) \<le> ar_rc st (n_addr n) + 1" using assms(1) by (simp add: sound_forest_def)
  ultimately show False using assms(2) by simp
qed

lemma refs_open:
  assumes "n \<notin> all_objs (n_kids n @ R)"
  shows "refs (n # R) a = refs (n_kids n @ R) a + slots a [n]"
proof -
  have "all_objs (n # R) = insert n (all_objs (n_kids n @ R))" by (auto simp: objs_unfold)
  then show ?thesis using assms by (simp add: refs_def)
qed

definition free_at :: "arena \<Rightarrow> nat \<Rightarrow> ('k, 'v) node list \<Rightarrow> bool" where
  "free_at st a R = (a < ar_next st \<and> a \<notin> addrs R \<and> ar_rc st a = 0)"

lemma own_iff:
  "sound_forest st (n # R) \<and> ar_rc st (n_addr n) = 0 \<longleftrightarrow>
     sound_forest st (n_kids n @ R) \<and> free_at st (n_addr n) (n_kids n @ R)"
proof
  assume own: "sound_forest st (n # R) \<and> ar_rc st (n_addr n) = 0"
  have outer: "n_addr n \<notin> addrs R" using exclusive own by blast
  have inner: "n_addr n \<notin> addrs (n_kids n)"
  proof
    assume "n_addr n \<in> addrs (n_kids n)"
    then obtain u where "u \<in> all_objs (n_kids n)" "n_addr u = n_addr n" by (auto simp: addrs_def)
    moreover have "u \<in> all_objs (n # R)" "n \<in> all_objs (n # R)" using calculation by (auto simp: objs_unfold)
    ultimately have "u = n" using own by (auto simp: sound_forest_def one_object_def)
    then show False using kid_not_self \<open>u \<in> all_objs (n_kids n)\<close> by blast
  qed
  have notin: "n \<notin> all_objs (n_kids n @ R)" using inner outer by (auto simp: addrs_def)
  have "int (refs (n_kids n @ R) a) \<le> ar_rc st a + 1 \<and> a < ar_next st" if "a \<in> addrs (n_kids n @ R)" for a
    using sound_at [of st "n # R" a] own that refs_open [OF notin, of a] by (simp del: slots_simps)
  moreover have "one_object (n_kids n @ R)" using own by (auto simp: sound_forest_def one_object_def objs_unfold)
  ultimately show "sound_forest st (n_kids n @ R) \<and> free_at st (n_addr n) (n_kids n @ R)"
    using inner outer own by (auto simp: sound_forest_def free_at_def)
next
  assume opened: "sound_forest st (n_kids n @ R) \<and> free_at st (n_addr n) (n_kids n @ R)"
  then have a: "n_addr n \<notin> addrs (n_kids n @ R)" "ar_rc st (n_addr n) = 0" "n_addr n < ar_next st" by (auto simp: free_at_def)
  then have notin: "n \<notin> all_objs (n_kids n @ R)" by (auto simp: addrs_def)
  have eq: "all_objs (n # R) = insert n (all_objs (n_kids n @ R))" by (auto simp: objs_unfold)
  have "u = v" if "u \<in> all_objs (n # R)" "v \<in> all_objs (n # R)" "n_addr u = n_addr v" for u v
  proof -
    have "w \<in> all_objs (n_kids n @ R) \<Longrightarrow> n_addr w \<noteq> n_addr n" for w using a(1) unfolding addrs_def by (metis image_eqI)
    then show ?thesis using that opened unfolding eq sound_forest_def one_object_def by (metis insertE)
  qed
  then have one: "one_object (n # R)" by (simp add: one_object_def)
  have "refs (n_kids n @ R) (n_addr n) = 0"
  proof -
    have "slots (n_addr n) (n_kids n @ R) = 0" using a(1) slots_le_objs by blast
    moreover have "slots (n_addr n) (n_kids u) = 0" if "u \<in> all_objs (n_kids n @ R)" for u
    proof -
      have "n_addr n \<notin> addrs (n_kids u)" using a(1) all_objs_closed [OF that] by (auto simp: addrs_def)
      then show ?thesis using slots_le_objs by blast
    qed
    ultimately show ?thesis by (simp add: refs_def)
  qed
  then have "int (refs (n # R) b) \<le> ar_rc st b + 1 \<and> b < ar_next st" if "b \<in> addrs (n # R)" for b
    using that opened a refs_open [OF notin, of b] by (cases "b = n_addr n") (auto simp: sound_forest_def)
  then show "sound_forest st (n # R) \<and> ar_rc st (n_addr n) = 0" using one a(2) by (simp add: sound_forest_def)
qed

section \<open>Steps\<close>

text \<open>\<open>cp\<close> is the flag \<open>copied\<close>: a tree that has never been copied shares nothing, and its
  operations do not look at the counters.\<close>

definition rc_quiet :: "bool \<Rightarrow> arena \<Rightarrow> bool" where
  "rc_quiet cp st = (cp \<or> (\<forall>a. ar_rc st a = 0))"

text \<open>The roots \<open>R\<close> have become \<open>R'\<close>, the rest \<open>F\<close> of the forest being somebody else's: objects
  are new or were there before, counters of other objects are unchanged, and nothing of \<open>F\<close> was
  written.\<close>

definition cow_step :: "bool \<Rightarrow> ('k, 'v) node list \<Rightarrow> ('k, 'v) node list \<Rightarrow> arena \<Rightarrow> ('k, 'v) node list \<Rightarrow> arena \<Rightarrow> bool" where
  "cow_step cp F R st R' st' =
     (sound_forest st' (R' @ F) \<and> rc_quiet cp st' \<and> ar_next st \<le> ar_next st' \<and>
      addrs R' \<subseteq> addrs R \<union> {ar_next st..} \<and>
      (\<forall>x < ar_next st. x \<notin> addrs R \<longrightarrow> ar_rc st' x = ar_rc st x) \<and>
      set (ar_written st') \<subseteq> set (ar_written st) \<union> - addrs F)"

definition owned :: "bool \<Rightarrow> arena \<Rightarrow> ('k, 'v) node \<Rightarrow> ('k, 'v) node list \<Rightarrow> bool" where
  "owned cp st n F = (sound_forest st (n # F) \<and> ar_rc st (n_addr n) = 0 \<and> rc_quiet cp st)"

lemma wrote_simps [simp]:
  "ar_rc (wrote a st) = ar_rc st" "ar_next (wrote a st) = ar_next st" "ar_written (wrote a st) = a # ar_written st"
  "sound_forest (wrote a st) R = sound_forest st R" "rc_quiet cp (wrote a st) = rc_quiet cp st"
  "free_at (wrote a st) b R = free_at st b R" "owned cp (wrote a st) n F = owned cp st n F"
  by (simp_all add: wrote_def sound_forest_def rc_quiet_def free_at_def owned_def)

lemma cow_step_refl: "sound_forest st (R @ F) \<Longrightarrow> rc_quiet cp st \<Longrightarrow> cow_step cp F R st R st"
  by (auto simp: cow_step_def)

lemma cow_step_trans:
  assumes "cow_step cp F R st R1 st1" and "cow_step cp F R1 st1 R2 st2"
  shows "cow_step cp F R st R2 st2"
proof -
  have "ar_rc st2 x = ar_rc st x" if "x < ar_next st" "x \<notin> addrs R" for x
  proof -
    have "x \<notin> addrs R1" using assms(1) that by (auto simp: cow_step_def)
    then show ?thesis using assms that by (simp add: cow_step_def)
  qed
  moreover have "addrs R2 \<subseteq> addrs R \<union> {ar_next st..}"
  proof
    fix x assume "x \<in> addrs R2"
    then have "x \<in> addrs R1 \<or> ar_next st1 \<le> x" using assms(2) unfolding cow_step_def by blast
    then show "x \<in> addrs R \<union> {ar_next st..}" using assms(1) unfolding cow_step_def by fastforce
  qed
  moreover have "set (ar_written st2) \<subseteq> set (ar_written st) \<union> - addrs F" using assms unfolding cow_step_def by blast
  ultimately show ?thesis using assms by (simp add: cow_step_def)
qed

lemma cow_step_wrote: "cow_step cp F R st R' st' \<Longrightarrow> a \<notin> addrs F \<Longrightarrow> cow_step cp F R st R' (wrote a st')"
  by (simp add: cow_step_def)

lemma cow_step_start: "cow_step cp F R (wrote a st) R' st' \<Longrightarrow> a \<notin> addrs F \<Longrightarrow> cow_step cp F R st R' st'"
  by (auto simp: cow_step_def)

text \<open>What holds of some roots holds of them among others.\<close>

lemma cow_step_frame:
  assumes "cow_step cp (G @ F) R st R' st'"
  shows "cow_step cp F (R @ G) st (R' @ G) st'"
  using assms by (auto simp: cow_step_def)

lemma cow_step_perm:
  assumes "cow_step cp F R st R' st'" and "mset S = mset R" and "mset S' = mset R'"
  shows "cow_step cp F S st S' st'"
proof -
  have "mset (S' @ F) = mset (R' @ F)" using assms(3) by simp
  then show ?thesis using assms forest_perm(2) [OF assms(2)] forest_perm(2) [OF assms(3)] forest_perm(5) [of "S' @ F" "R' @ F"]
    by (simp add: cow_step_def)
qed

lemma split_at: "i < length ks \<Longrightarrow> mset (ks[i := c]) = mset (c # take i ks @ drop (Suc i) ks)"
  by (simp add: upd_conv_take_nth_drop)

lemma split_same: "i < length ks \<Longrightarrow> mset ks = mset (ks ! i # take i ks @ drop (Suc i) ks)"
  using split_at [of i ks "ks ! i"] by simp

text \<open>A step on the children of an owned node, after which the node is written.\<close>

lemma owned_open: "owned cp st n F = (sound_forest st (n_kids n @ F) \<and> free_at st (n_addr n) (n_kids n @ F) \<and> rc_quiet cp st)"
  using own_iff [of st n F] by (auto simp: owned_def)

lemma owned_addr: "owned cp st n F \<Longrightarrow> n_addr n \<notin> addrs F"
  by (auto simp: owned_open free_at_def)

lemma close_node:
  assumes own: "owned cp st n F" and step: "cow_step cp F (n_kids n) st (n_kids n') st'" and addr: "n_addr n' = n_addr n"
  shows "owned cp st' n' F" "cow_step cp F [n] st [n'] st'"
proof -
  have free: "free_at st (n_addr n) (n_kids n @ F)" using own by (simp add: owned_open)
  then have "free_at st' (n_addr n') (n_kids n' @ F)"
    using step addr by (auto simp: free_at_def cow_step_def)
  then show own': "owned cp st' n' F" using step by (simp add: owned_open cow_step_def)
  then show "cow_step cp F [n] st [n'] st'"
    using step addr by (auto simp: cow_step_def owned_def)
qed

text \<open>A step on one child of an owned node.\<close>

lemma focus_kid:
  assumes own: "owned cp st n F" and i: "i < length (n_kids n)"
    and step: "cow_step cp (take i (n_kids n) @ drop (Suc i) (n_kids n) @ F) [n_kids n ! i] st [c] st'"
  shows "cow_step cp F (n_kids n) st ((n_kids n)[i := c]) st'"
proof -
  let ?G = "take i (n_kids n) @ drop (Suc i) (n_kids n)"
  have "cow_step cp F ([n_kids n ! i] @ ?G) st ([c] @ ?G) st'" using step by (intro cow_step_frame) simp
  then show ?thesis by (rule cow_step_perm) (use split_same [OF i] split_at [OF i, of c] in simp_all)
qed

lemma kid_forest:
  assumes "owned cp st n F" and "i < length (n_kids n)"
  shows "sound_forest st (n_kids n ! i # take i (n_kids n) @ drop (Suc i) (n_kids n) @ F)"
proof -
  have "mset (n_kids n @ F) = mset (n_kids n ! i # take i (n_kids n) @ drop (Suc i) (n_kids n) @ F)"
    using split_same [OF assms(2)] by simp
  then show ?thesis using assms(1) forest_perm(5) by (metis owned_open)
qed

section \<open>Allocation, copying and release\<close>

lemma newNode_step:
  assumes "newNode st = (b, st1)" and "sound_forest st R" and "rc_quiet cp st"
  shows "sound_forest st1 R" "free_at st1 b R" "rc_quiet cp st1" "b = ar_next st" "ar_next st1 = Suc (ar_next st)"
    "ar_written st1 = ar_written st" "ar_rc st1 = (ar_rc st)(b := 0)"
proof -
  have st1: "b = ar_next st" "st1 = st\<lparr>ar_rc := (ar_rc st)(b := 0), ar_next := Suc b\<rparr>" using assms(1) by (auto simp: newNode_def)
  have b: "b \<notin> addrs R" using sound_rc [OF assms(2), of b] st1(1) by auto
  show "sound_forest st1 R" using assms(2) b st1 by (auto simp: sound_forest_def less_Suc_eq)
  show "free_at st1 b R" using b st1 by (simp add: free_at_def)
  show "rc_quiet cp st1" using assms(3) st1 by (auto simp: rc_quiet_def)
  show "b = ar_next st" "ar_next st1 = Suc (ar_next st)" "ar_written st1 = ar_written st" "ar_rc st1 = (ar_rc st)(b := 0)"
    using st1 by simp_all
qed

lemma rc_add_simps [simp]:
  "ar_next (rc_add a d st) = ar_next st" "ar_written (rc_add a d st) = ar_written st"
  "ar_rc (rc_add a d st) b = (if b = a then ar_rc st b + d else ar_rc st b)"
  by (simp_all add: rc_add_def)

text \<open>Counting a root once more makes room for one more reference to it.\<close>

lemma refs_dup:
  assumes "n \<in> all_objs R"
  shows "refs (n # R) a = refs R a + slots a [n]" and "all_objs (n # R) = all_objs R" and "addrs (n # R) = addrs R"
proof -
  show o: "all_objs (n # R) = all_objs R" using assms all_objs_closed [OF assms] by (auto simp: objs_unfold)
  then show "addrs (n # R) = addrs R" by (simp add: addrs_def)
  show "refs (n # R) a = refs R a + slots a [n]" using o by (simp add: refs_def)
qed

lemma sound_dup:
  assumes "sound_forest st R" and "n \<in> all_objs R"
  shows "sound_forest (rc_add (n_addr n) 1 st) (n # R)"
  unfolding sound_forest_def
proof (intro conjI ballI)
  show "one_object (n # R)" using assms refs_dup(2) [OF assms(2)] by (simp add: sound_forest_def one_object_def)
  fix a assume "a \<in> addrs (n # R)"
  then have "a \<in> addrs R" using refs_dup(3) [OF assms(2)] by blast
  from sound_at [OF assms(1) this]
  show "int (refs (n # R) a) \<le> ar_rc (rc_add (n_addr n) 1 st) a + 1" "a < ar_next (rc_add (n_addr n) 1 st)"
    unfolding refs_dup(1) [OF assms(2)] by auto
qed

lemma sound_dups:
  assumes "sound_forest st R" and "set ks \<subseteq> all_objs R"
  shows "sound_forest (fold (\<lambda>k. rc_add (n_addr k) 1) ks st) (ks @ R)"
  using assms
proof (induction ks arbitrary: st R)
  case (Cons k ks)
  have "sound_forest (rc_add (n_addr k) 1 st) (k # R)" using Cons.prems sound_dup by auto
  moreover have "set ks \<subseteq> all_objs (k # R)" using Cons.prems by auto
  ultimately have "sound_forest (fold (\<lambda>k. rc_add (n_addr k) 1) ks (rc_add (n_addr k) 1 st)) (ks @ k # R)" by (rule Cons.IH)
  then show ?case using forest_perm(5) [of "ks @ k # R" "(k # ks) @ R"] by simp
qed simp

lemma fold_rc_add:
  "ar_next (fold (\<lambda>k. rc_add (n_addr k) 1) ks st) = ar_next st" "ar_written (fold (\<lambda>k. rc_add (n_addr k) 1) ks st) = ar_written st"
  "ar_rc (fold (\<lambda>k. rc_add (n_addr k) 1) ks st) a = ar_rc st a + int (slots a ks)"
  by (induction ks arbitrary: st) auto

text \<open>Releasing a root takes it out of the forest; objects nobody else refers to go with it.\<close>

lemma release_sound:
  "sound_forest st (n # R) \<Longrightarrow> sound_forest (releaseNode n st) R"
proof (induction n arbitrary: st R)
  case (Node a its ks cs)
  let ?n = "Node a its ks cs" and ?st = "rc_add a (- 1) st"
  have rc: "0 \<le> ar_rc st a" using sound_rc [OF Node.prems, of a] by simp
  show ?case
  proof (cases "ar_rc st a = 0")
    case True
    then have opened: "sound_forest st (ks @ R)" "a \<notin> addrs (ks @ R)"
      using own_iff [of st ?n R] Node.prems by (auto simp: free_at_def)
    then have start: "sound_forest ?st (ks @ R)" by (auto simp: sound_forest_def)
    have fold: "sound_forest st1 (qs @ R) \<Longrightarrow> set qs \<subseteq> set ks \<Longrightarrow> sound_forest (fold releaseNode qs st1) R" for qs st1
    proof (induction qs arbitrary: st1)
      case (Cons q qs)
      then show ?case using Node.IH [of q st1 "qs @ R"] by simp
    qed simp
    then show ?thesis using start True by simp
  next
    case False
    have "int (refs R b) \<le> ar_rc ?st b + 1 \<and> b < ar_next ?st" if "b \<in> addrs R" for b
      using sound_at [OF Node.prems, of b] refs_add [of R b ?n] that by (auto split: if_splits)
    then have "sound_forest ?st R" using sound_tail [OF Node.prems] by (simp add: sound_forest_def)
    then show ?thesis using False rc by simp
  qed
qed

text \<open>What a release can change.\<close>

lemma release_frame:
  "ar_next (releaseNode n st) = ar_next st" "ar_written (releaseNode n st) = ar_written st"
  "x \<notin> addrs [n] \<Longrightarrow> ar_rc (releaseNode n st) x = ar_rc st x"
proof -
  have "ar_next (releaseNode n st) = ar_next st \<and> ar_written (releaseNode n st) = ar_written st \<and>
    (x \<notin> addrs [n] \<longrightarrow> ar_rc (releaseNode n st) x = ar_rc st x)"
  proof (induction n arbitrary: st)
    case (Node a its ks cs)
    have "set qs \<subseteq> set ks \<Longrightarrow> ar_next (fold releaseNode qs st1) = ar_next st1 \<and> ar_written (fold releaseNode qs st1) = ar_written st1 \<and>
        (x \<notin> addrs qs \<longrightarrow> ar_rc (fold releaseNode qs st1) x = ar_rc st1 x)" for qs st1
      using Node.IH by (induction qs arbitrary: st1) (auto split: if_splits)
    from this [of ks] show ?case by (auto simp: Let_def)
  qed
  then show "ar_next (releaseNode n st) = ar_next st" "ar_written (releaseNode n st) = ar_written st"
    "x \<notin> addrs [n] \<Longrightarrow> ar_rc (releaseNode n st) x = ar_rc st x" by auto
qed

section \<open>Copy on write\<close>

lemma cow0_step:
  assumes sound: "sound_forest st (n # F)" and cp: cp and res: "cow0 n st = (n2, st2)"
  shows "owned cp st2 n2 F" "cow_step cp F [n] st [n2] st2"
proof -
  obtain b st1 where new: "newNode st = (b, st1)" by (metis surj_pair)
  note nw = newNode_step [OF new sound, of cp, simplified cp rc_quiet_def, simplified]
  define ks where "ks = n_kids n"
  define st1' where "st1' = fold (\<lambda>k. rc_add (n_addr k) 1) ks st1"
  have res': "n2 = Node b (n_items n) ks (n_counts n)" "st2 = releaseNode n (wrote b st1')"
    using res new by (auto simp: cow0_def copyNode_def ks_def st1'_def)
  have bn: "b \<notin> addrs (n # F)" using nw(2) by (auto simp: free_at_def)
  have "set ks \<subseteq> all_objs (n # F)" using objs_self by (force simp: ks_def objs_unfold [of n] all_objs_def)
  then have "sound_forest st1' (ks @ n # F)" using sound_dups [OF nw(1)] by (simp add: st1'_def)
  moreover have "slots b ks = 0" using bn slots_le_objs [of b ks] by (auto simp: ks_def)
  then have "free_at st1' b (ks @ n # F)" using nw(2) bn by (auto simp: free_at_def st1'_def fold_rc_add ks_def)
  ultimately have "sound_forest st1' (n2 # n # F)" "ar_rc st1' b = 0"
    using own_iff [of st1' n2 "n # F"] res'(1) by auto
  then have "sound_forest (wrote b st1') (n # n2 # F)"
    using forest_perm(5) [of "n2 # n # F" "n # n2 # F"] by simp
  then have sound2: "sound_forest st2 (n2 # F)" unfolding res'(2) by (rule release_sound)
  have rcb: "ar_rc st2 b = 0" using release_frame(3) [of b n "wrote b st1'"] bn \<open>ar_rc st1' b = 0\<close> res'(2) by simp
  show own: "owned cp st2 n2 F" using sound2 rcb cp res'(1) by (simp add: owned_def rc_quiet_def)
  have "ar_rc st2 x = ar_rc st x" if "x < ar_next st" "x \<notin> addrs [n]" for x
  proof -
    have "slots x ks = 0" using that(2) slots_le_objs [of x ks] by (auto simp: ks_def)
    then show ?thesis using that release_frame(3) [of x n "wrote b st1'"] nw(4,7) res'(2) by (simp add: st1'_def fold_rc_add)
  qed
  then show "cow_step cp F [n] st [n2] st2"
    using sound2 cp nw bn res' by (auto simp: cow_step_def rc_quiet_def release_frame st1'_def fold_rc_add ks_def)
qed

text \<open>What \<open>cowRoot\<close> and \<open>cowChild\<close> do to the node they look at: afterwards it is owned.\<close>

lemma cow_if_shared:
  assumes sound: "sound_forest st (n # F)" and quiet: "rc_quiet cp st"
    and res: "(if cp \<and> ar_rc st (n_addr n) > 0 then cow0 n st else (n, st)) = (n1, st1)"
  shows "owned cp st1 n1 F" "cow_step cp F [n] st [n1] st1"
proof -
  have "owned cp st1 n1 F \<and> cow_step cp F [n] st [n1] st1"
  proof (cases "cp \<and> ar_rc st (n_addr n) > 0")
    case True
    then show ?thesis using cow0_step [OF sound] res by auto
  next
    case False
    then have "n1 = n" "st1 = st" using res by auto
    moreover have "ar_rc st (n_addr n) = 0"
      using False quiet sound_rc [OF sound, of "n_addr n"] by (auto simp: rc_quiet_def)
    ultimately show ?thesis using sound quiet cow_step_refl [of st "[n]" F cp] by (simp add: owned_def)
  qed
  then show "owned cp st1 n1 F" "cow_step cp F [n] st [n1] st1" by auto
qed

lemma cowRoot_step:
  assumes "sound_forest st (n # F)" and "rc_quiet cp st" and "cowRoot cp n True st = (n1, st1)"
  shows "owned cp st1 n1 F" "cow_step cp F [n] st [n1] st1"
  using cow_if_shared [OF assms(1,2), of n1 st1] assms(3) by (simp_all add: cowRoot_def)

abbreviation others :: "('k, 'v) node \<Rightarrow> nat \<Rightarrow> ('k, 'v) node list" where
  "others n i \<equiv> take i (n_kids n) @ drop (Suc i) (n_kids n)"

lemma cowChild_step:
  assumes own: "owned cp st n F" and i: "i < length (n_kids n)" and res: "cowChild cp n i True st = (n1, st1)"
  shows "owned cp st1 n1 F" "cow_step cp F [n] st [n1] st1" "owned cp st1 (n_kids n1 ! i) (others n1 i @ F)"
    "n_kids n1 = (n_kids n)[i := n_kids n1 ! i]" "cow_step cp (others n i @ F) [n_kids n ! i] st [n_kids n1 ! i] st1"
proof -
  let ?c = "n_kids n ! i" and ?F = "others n i @ F"
  obtain c st' where c: "(if cp \<and> ar_rc st (n_addr ?c) > 0 then cow0 ?c st else (?c, st)) = (c, st')" by (metis surj_pair)
  have quiet: "rc_quiet cp st" using own by (simp add: owned_def)
  have sound: "sound_forest st (?c # ?F)" using kid_forest [OF own i] by simp
  note focus = cow_if_shared [OF sound quiet c]
  have n1: "n1 = set_child n i c" "st1 = st' \<or> st1 = wrote (n_addr n) st'"
    using res c by (cases n; auto simp: cowChild_def set_child_def split: if_splits prod.splits)+
  have kids: "n_kids n1 = (n_kids n)[i := c]" "n_addr n1 = n_addr n" using n1(1) by simp_all
  have "cow_step cp F (n_kids n) st (n_kids n1) st'" unfolding kids using focus_kid [OF own i] focus(2) by simp
  then have "cow_step cp F (n_kids n) st (n_kids n1) st1" using n1(2) cow_step_wrote owned_addr [OF own] by blast
  from close_node [OF own this kids(2)] show "owned cp st1 n1 F" "cow_step cp F [n] st [n1] st1" .
  have "others n1 i = others n i" using i kids(1) by simp
  then show "owned cp st1 (n_kids n1 ! i) (others n1 i @ F)" using focus(1) n1(2) kids(1) i by auto
  show "n_kids n1 = (n_kids n)[i := n_kids n1 ! i]" using kids(1) i by simp
  have "n_addr n \<notin> addrs ?F" using own by (auto simp: owned_open free_at_def addrs_def dest: in_set_takeD in_set_dropD simp: all_objs_def)
  then have "cow_step cp ?F [?c] st [c] st1" using focus(2) n1(2) cow_step_wrote by blast
  then show "cow_step cp ?F [?c] st [n_kids n1 ! i] st1" using kids(1) i by simp
qed

text \<open>Writing an owned node without changing its children.\<close>

lemma write_step:
  assumes own: "owned cp st n F" and "n_kids n' = n_kids n" and "n_addr n' = n_addr n"
  shows "owned cp st n' F" "cow_step cp F [n] st [n'] st"
proof -
  have "cow_step cp F (n_kids n) st (n_kids n') st" using own assms(2) by (simp add: owned_open cow_step_refl)
  from close_node [OF own this assms(3)] show "owned cp st n' F" "cow_step cp F [n] st [n'] st" .
qed

text \<open>A step on one owned child, after which the node is put together again.\<close>

lemma child_step:
  assumes own: "owned cp st n F" and i: "i < length (n_kids n)"
    and step: "cow_step cp (others n i @ F) [n_kids n ! i] st [c] st1"
    and n': "n_kids n' = (n_kids n)[i := c]" "n_addr n' = n_addr n"
  shows "owned cp st1 n' F" "cow_step cp F [n] st [n'] st1"
proof -
  have "cow_step cp F (n_kids n) st (n_kids n') st1" unfolding n' using focus_kid [OF own i] step by simp
  from close_node [OF own this n'(2)] show "owned cp st1 n' F" "cow_step cp F [n] st [n'] st1" .
qed

end
