(* ===== verification/Btype_Cow.thy ===== *)
theory Btype_Cow
  imports Btype_Sharing
begin

text \<open>
  Every operation of the tree, as a step on a sound forest: it ends with a node the tree owns and
  has written nothing that belongs to the rest of the forest.
\<close>

section \<open>Splitting and rebalancing\<close>

lemma kid_owned:
  assumes "owned cp st n F" and "i < length (n_kids n)" and "ar_rc st (n_addr (n_kids n ! i)) = 0"
  shows "owned cp st (n_kids n ! i) (others n i @ F)"
  using kid_forest [OF assms(1,2)] assms(1,3) by (simp add: owned_def)

lemma sound_perm: "sound_forest st R \<Longrightarrow> mset S = mset R \<Longrightarrow> sound_forest st S"
  using forest_perm(5) by blast

lemma splitNode_step:
  assumes own: "owned cp st n F" and res: "splitNode n st = (l, r, e, st1)"
  shows "cow_step cp F [n] st [l, r] st1" "ar_rc st1 (n_addr l) = 0" "ar_rc st1 (n_addr r) = 0"
proof -
  obtain a its ks cs where n: "n = Node a its ks cs" by (cases n)
  obtain b st0 where new: "newNode st = (b, st0)" by (metis surj_pair)
  note kids = splitNode_eq(3,4) [OF res]
  have lr: "n_addr l = a" "n_addr r = b" "st1 = wrote b (wrote a st0)"
    using res new by (auto simp: splitNode_def n Let_def)
  have opened: "sound_forest st (ks @ F)" "free_at st a (ks @ F)" "rc_quiet cp st" using own by (auto simp: owned_open n)
  note nw = newNode_step [OF new opened(1,3)]
  have ks: "ks = n_kids l @ n_kids r" using kids by (simp add: n)
  have ab: "a \<noteq> b" "a < ar_next st0" "ar_rc st0 a = 0" using opened(2) nw(4,5,7) by (auto simp: free_at_def)
  have "sound_forest st0 (n_kids r @ n_kids l @ F)" by (rule sound_perm [OF nw(1)]) (simp add: ks)
  moreover have "free_at st0 (n_addr r) (n_kids r @ n_kids l @ F)" using nw(2) lr by (auto simp: free_at_def ks)
  ultimately have r: "sound_forest st0 (r # n_kids l @ F)" "ar_rc st0 b = 0" using own_iff [of st0 r "n_kids l @ F"] lr by auto
  then have "sound_forest st0 (n_kids l @ r # F)" using sound_perm [OF r(1), of "n_kids l @ r # F"] by simp
  moreover have "free_at st0 (n_addr l) (n_kids l @ r # F)" using opened(2) ab lr by (auto simp: free_at_def ks)
  ultimately have l: "sound_forest st0 (l # r # F)" "ar_rc st0 a = 0" using own_iff [of st0 l "r # F"] lr by auto
  show "ar_rc st1 (n_addr l) = 0" "ar_rc st1 (n_addr r) = 0" using l r lr by simp_all
  have "a \<notin> addrs F" "b \<notin> addrs F" using opened(2) nw(2) by (auto simp: free_at_def)
  then show "cow_step cp F [n] st [l, r] st1"
    using l(1) nw lr by (auto simp: cow_step_def n ks)
qed

lemma splitBranch_step:
  assumes own: "owned cp st n F" and i: "i < length (n_kids n)" and kid: "ar_rc st (n_addr (n_kids n ! i)) = 0"
    and len: "length (n_counts n) = length (n_kids n)" and res: "splitBranch n i st = (n', st')"
  shows "owned cp st' n' F" "cow_step cp F [n] st [n'] st'"
    "ar_rc st' (n_addr (n_kids n' ! i)) = 0" "ar_rc st' (n_addr (n_kids n' ! Suc i)) = 0" "length (n_kids n') = Suc (length (n_kids n))"
proof -
  obtain l r e st1 where split: "splitNode (n_kids n ! i) st = (l, r, e, st1)" by (metis prod_cases4)
  note eq = splitBranch_eq [OF split i len, unfolded res]
  note sn = splitNode_step [OF kid_owned [OF own i kid] split]
  have "cow_step cp F ([n_kids n ! i] @ others n i) st ([l, r] @ others n i) st1"
    using sn(1) by (intro cow_step_frame) simp
  then have "cow_step cp F (n_kids n) st (split_kids (n_kids n) i l r) st1"
    by (rule cow_step_perm) (use split_same [OF i] in \<open>simp_all add: split_kids_def\<close>)
  then have "cow_step cp F (n_kids n) st (n_kids n') st'"
    using eq owned_addr [OF own] by (simp add: cow_step_wrote)
  from close_node [OF own this] show "owned cp st' n' F" "cow_step cp F [n] st [n'] st'" using eq by simp_all
  show "ar_rc st' (n_addr (n_kids n' ! i)) = 0" "ar_rc st' (n_addr (n_kids n' ! Suc i)) = 0" "length (n_kids n') = Suc (length (n_kids n))"
    using sn(2,3) eq i by (auto simp: split_kids_def nth_append)
qed

lemma ensureBranch_step:
  assumes own: "owned cp st n F" and i: "i < length (n_kids n)" and kid: "ar_rc st (n_addr (n_kids n ! i)) = 0"
    and len: "length (n_counts n) = length (n_kids n)" and res: "ensureBranch n i st = (b, n', st')"
    and m: "m = i \<or> b \<and> m = Suc i"
  shows "owned cp st' n' F" "cow_step cp F [n] st [n'] st'" "ar_rc st' (n_addr (n_kids n' ! m)) = 0" "m < length (n_kids n')"
proof -
  have "owned cp st' n' F \<and> cow_step cp F [n] st [n'] st' \<and> ar_rc st' (n_addr (n_kids n' ! m)) = 0 \<and> m < length (n_kids n')"
  proof (cases b)
    case True
    then have "splitBranch n i st = (n', st')" using res by (auto simp: ensureBranch_def split: if_splits)
    from splitBranch_step [OF own i kid len this] show ?thesis using m i by auto
  next
    case False
    then have "n' = n" "st' = st" using res by (auto simp: ensureBranch_def split: if_splits)
    then show ?thesis using own kid m False i cow_step_refl [of st "[n]" F cp] by (simp add: owned_def)
  qed
  then show "owned cp st' n' F" "cow_step cp F [n] st [n'] st'" "ar_rc st' (n_addr (n_kids n' ! m)) = 0" "m < length (n_kids n')"
    by auto
qed

lemma ensureRoot_step:
  assumes own: "owned cp st n F" and res: "ensureRoot n st = (b, n', st')"
  shows "owned cp st' n' F" "cow_step cp F [n] st [n'] st'"
proof -
  have "owned cp st' n' F \<and> cow_step cp F [n] st [n'] st'"
  proof (cases "length (n_items n) = maxItems")
    case False
    then have "n' = n" "st' = st" using res by (auto simp: ensureRoot_def)
    then show ?thesis using own cow_step_refl [of st "[n]" F cp] by (simp add: owned_def)
  next
    case True
    obtain b1 st1 where n1: "newNode st = (b1, st1)" by (metis surj_pair)
    obtain l r e st2 where split: "splitNode n st1 = (l, r, e, st2)" by (metis prod_cases4)
    obtain b3 st3 where n3: "newNode st2 = (b3, st3)" by (metis surj_pair)
    have quiet: "rc_quiet cp st" "sound_forest st (n # F)" "ar_rc st (n_addr n) = 0" using own by (auto simp: owned_def)
    note a1 = newNode_step [OF n1 quiet(2,1)]
    have own1: "owned cp st1 n F" using a1 quiet(3) by (auto simp: owned_def)
    note sp = splitNode_step [OF own1 split]
    have s2: "sound_forest st2 ([l, r] @ F)" "rc_quiet cp st2" using sp(1) by (auto simp: cow_step_def)
    note a3 = newNode_step [OF n3 s2]
    have step: "cow_step cp F [n] st [l, r] st3"
    proof -
      have "cow_step cp F [n] st [n] st1" using own1 a1 by (auto simp: cow_step_def owned_def)
      moreover have "cow_step cp F [l, r] st2 [l, r] st3" using a3 by (auto simp: cow_step_def)
      ultimately show ?thesis using sp(1) cow_step_trans by blast
    qed
    have root: "n_kids n' = [l, r]" "n_addr n' = b1" "st' = wrote b1 (wrote b1 (wrote b1 st3))"
      using res True n1 split n3 by (auto simp: ensureRoot_def splitRoot_def insertItemAt_def recount_def)
    have b1: "b1 \<notin> addrs (n # F)" "b1 < ar_next st1" "ar_rc st1 b1 = 0" using a1(2) by (auto simp: free_at_def)
    have b1': "b1 \<notin> addrs [l, r]" "ar_rc st2 b1 = 0" "b1 < ar_next st2" using sp(1) b1 by (auto simp: cow_step_def)
    then have free: "free_at st3 b1 ([l, r] @ F)" using b1 a3 by (auto simp: free_at_def)
    then have own': "owned cp st' n' F" using a3(1,3) root by (simp add: owned_open)
    moreover have "cow_step cp F [n] st [n'] st'"
      using own' step root b1(1) a1(4) by (auto simp: cow_step_def owned_def)
    ultimately show ?thesis by blast
  qed
  then show "owned cp st' n' F" "cow_step cp F [n] st [n'] st'" by auto
qed

text \<open>Two owned neighbours exchange children, or become one node.\<close>

lemma open_pair:
  assumes "sound_forest st (l # r # F)" and "ar_rc st (n_addr l) = 0" and "ar_rc st (n_addr r) = 0"
  shows "sound_forest st (n_kids l @ n_kids r @ F)" "free_at st (n_addr l) (n_kids l @ n_kids r @ F)"
    "free_at st (n_addr r) (n_kids l @ n_kids r @ F)" "n_addr l \<noteq> n_addr r"
proof -
  have l: "sound_forest st (n_kids l @ r # F)" "free_at st (n_addr l) (n_kids l @ r # F)" using own_iff [of st l "r # F"] assms(1,2) by auto
  have "sound_forest st (r # n_kids l @ F)" by (rule sound_perm [OF l(1)]) simp
  then have r: "sound_forest st (n_kids r @ n_kids l @ F)" "free_at st (n_addr r) (n_kids r @ n_kids l @ F)"
    using own_iff [of st r "n_kids l @ F"] assms(3) by auto
  show "sound_forest st (n_kids l @ n_kids r @ F)" by (rule sound_perm [OF r(1)]) simp
  show "free_at st (n_addr l) (n_kids l @ n_kids r @ F)" "free_at st (n_addr r) (n_kids l @ n_kids r @ F)" "n_addr l \<noteq> n_addr r"
    using l(2) r(2) by (auto simp: free_at_def)
qed

lemma regroup_step:
  assumes pair: "sound_forest st (l # r # F)" "ar_rc st (n_addr l) = 0" "ar_rc st (n_addr r) = 0" and quiet: "rc_quiet cp st"
    and addr: "n_addr l' = n_addr l" "n_addr r' = n_addr r"
    and kids: "mset (n_kids l' @ n_kids r') = mset (n_kids l @ n_kids r)"
  shows "cow_step cp F [l, r] st [l', r'] st"
proof -
  note op = open_pair [OF pair]
  have ad: "addrs (n_kids l') \<union> addrs (n_kids r') = addrs (n_kids l) \<union> addrs (n_kids r)"
    using forest_perm(2) [OF kids] by simp
  have "sound_forest st (n_kids r' @ n_kids l' @ F)" by (rule sound_perm [OF op(1)]) (use kids in \<open>simp add: ac_simps\<close>)
  moreover have "free_at st (n_addr r') (n_kids r' @ n_kids l' @ F)" using op(3) ad addr by (auto simp: free_at_def)
  ultimately have "sound_forest st (r' # n_kids l' @ F)" using own_iff [of st r' "n_kids l' @ F"] by blast
  then have "sound_forest st (n_kids l' @ r' # F)" by (rule sound_perm) simp
  moreover have "free_at st (n_addr l') (n_kids l' @ r' # F)" using op(2,4) ad addr by (auto simp: free_at_def)
  ultimately have "sound_forest st (l' # r' # F)" using own_iff [of st l' "r' # F"] by blast
  then show ?thesis using quiet ad addr by (auto simp: cow_step_def)
qed

lemma merge_step:
  assumes pair: "sound_forest st (l # r # F)" "ar_rc st (n_addr l) = 0" "ar_rc st (n_addr r) = 0" and quiet: "rc_quiet cp st"
    and m: "n_addr m = n_addr l" "n_kids m = n_kids l @ n_kids r"
  shows "cow_step cp F [l, r] st [m] st"
proof -
  note op = open_pair [OF pair]
  have "sound_forest st (m # F)" using own_iff [of st m F] op m by (simp add: free_at_def)
  then show ?thesis using quiet m by (auto simp: cow_step_def)
qed

lemma pair_mset:
  "Suc i < length ks \<Longrightarrow> mset ks = mset ([ks ! i, ks ! Suc i] @ take i ks @ drop (Suc (Suc i)) ks)"
  using id_take_nth_drop [of i ks] Cons_nth_drop_Suc [of "Suc i" ks]
  by (metis (no_types, lifting) append_Cons append_Nil mset.simps(2) mset_append union_mset_add_mset_right Suc_lessD)

lemma pair_forest:
  assumes "owned cp st n F" and "Suc i < length (n_kids n)"
  shows "sound_forest st (n_kids n ! i # n_kids n ! Suc i # (take i (n_kids n) @ drop (Suc (Suc i)) (n_kids n) @ F))"
proof (rule sound_perm)
  show "sound_forest st (n_kids n @ F)" using assms(1) by (simp add: owned_open)
  show "mset (n_kids n ! i # n_kids n ! Suc i # (take i (n_kids n) @ drop (Suc (Suc i)) (n_kids n) @ F)) = mset (n_kids n @ F)"
    using pair_mset [OF assms(2)] by simp
qed

lemma pair_step:
  assumes own: "owned cp st n F" and i: "Suc i < length (n_kids n)"
    and step: "cow_step cp (take i (n_kids n) @ drop (Suc (Suc i)) (n_kids n) @ F) [n_kids n ! i, n_kids n ! Suc i] st R st'"
    and n': "n_kids n' = take i (n_kids n) @ R @ drop (Suc (Suc i)) (n_kids n)" "n_addr n' = n_addr n"
  shows "owned cp st' n' F" "cow_step cp F [n] st [n'] st'"
proof -
  let ?G = "take i (n_kids n) @ drop (Suc (Suc i)) (n_kids n)"
  have "cow_step cp F ([n_kids n ! i, n_kids n ! Suc i] @ ?G) st (R @ ?G) st'" using step by (intro cow_step_frame) simp
  then have "cow_step cp F (n_kids n) st (n_kids n') st'"
    by (rule cow_step_perm) (use pair_mset [OF i] n'(1) in simp_all)
  from close_node [OF own this n'(2)] show "owned cp st' n' F" "cow_step cp F [n] st [n'] st'" .
qed

lemma update_pair: "Suc i < length ks \<Longrightarrow> ks[i := l, Suc i := r] = take i ks @ [l, r] @ drop (Suc (Suc i)) ks"
  by (auto simp: upd_conv_take_nth_drop min_def take_Suc_conv_app_nth)

lemma rebalance_kids_step:
  assumes own: "owned cp st n F" and i: "Suc i < length (n_kids n)"
    and rc: "ar_rc st (n_addr (n_kids n ! i)) = 0" "ar_rc st (n_addr (n_kids n ! Suc i)) = 0"
    and res: "(if b1 then merge_kids n i st else if b2 then rotate_right n i st else rotate_left n i st) = (n', st')"
  shows "owned cp st' n' F" "cow_step cp F [n] st [n'] st'" "n_addr n' = n_addr n"
proof -
  obtain a its ks cs where n: "n = Node a its ks cs" by (cases n)
  obtain la li lk lc where l: "ks ! i = Node la li lk lc" by (cases "ks ! i")
  obtain ra ri rk rcs where r: "ks ! Suc i = Node ra ri rk rcs" by (cases "ks ! Suc i")
  let ?G = "take i ks @ drop (Suc (Suc i)) ks @ F"
  have quiet: "rc_quiet cp st" using own by (simp add: owned_def)
  have pair: "sound_forest st (ks ! i # ks ! Suc i # ?G)" "ar_rc st (n_addr (ks ! i)) = 0" "ar_rc st (n_addr (ks ! Suc i)) = 0"
    using pair_forest [OF own i] rc by (simp_all add: n)
  have "\<exists>R. cow_step cp ?G [ks ! i, ks ! Suc i] st R st \<and> n_kids n' = take i ks @ R @ drop (Suc (Suc i)) ks \<and> n_addr n' = a"
  proof (cases b1)
    case True
    then show ?thesis using res merge_step [OF pair quiet, of "Node la (li @ its ! i # ri) (lk @ rk) (lc @ rcs)"]
      by (auto simp: n l r merge_kids_def)
  next
    case False
    show ?thesis
    proof (cases b2)
      case True
      let ?l = "Node la (butlast li) (take (length li) lk) (take (length li) lc)"
        and ?r = "Node ra (its ! i # ri) (drop (length li) lk @ rk) (drop (length li) lc @ rcs)"
      have "mset (n_kids ?l @ n_kids ?r) = mset (n_kids (ks ! i) @ n_kids (ks ! Suc i))"
        unfolding l r node.sel by (metis append_assoc append_take_drop_id)
      then have "cow_step cp ?G [ks ! i, ks ! Suc i] st [?l, ?r] st" by (intro regroup_step [OF pair quiet]) (simp_all add: l r)
      moreover have "n_kids n' = ks[i := ?l, Suc i := ?r]" "n_addr n' = a"
        using res False True by (auto simp: n l r rotate_right_def)
      ultimately show ?thesis using i update_pair [of i ks] by (auto simp: n)
    next
      case b2: False
      let ?l = "Node la (li @ [its ! i]) (lk @ take 1 rk) (lc @ take 1 rcs)" and ?r = "Node ra (tl ri) (drop 1 rk) (drop 1 rcs)"
      have "mset (n_kids ?l @ n_kids ?r) = mset (n_kids (ks ! i) @ n_kids (ks ! Suc i))"
        unfolding l r node.sel by (metis append_assoc append_take_drop_id)
      then have "cow_step cp ?G [ks ! i, ks ! Suc i] st [?l, ?r] st" by (intro regroup_step [OF pair quiet]) (simp_all add: l r)
      moreover have "n_kids n' = ks[i := ?l, Suc i := ?r]" "n_addr n' = a"
        using res False b2 by (auto simp: n l r rotate_left_def)
      ultimately show ?thesis using i update_pair [of i ks] by (auto simp: n)
    qed
  qed
  then obtain R where R: "cow_step cp ?G [ks ! i, ks ! Suc i] st R st" "n_kids n' = take i ks @ R @ drop (Suc (Suc i)) ks" "n_addr n' = a" by blast
  have st': "ar_rc st' = ar_rc st" "ar_next st' = ar_next st" "set (ar_written st') \<subseteq> set (ar_written st) \<union> {a, la, ra}"
    using res by (auto simp: n l r merge_kids_def rotate_right_def rotate_left_def split: if_splits)
  have "{a, la, ra} \<inter> addrs F = {}"
    using owned_addr [OF own] open_pair(2,3) [OF pair] by (auto simp: n l r free_at_def)
  then have lift: "owned cp st n' F \<Longrightarrow> cow_step cp F [n] st [n'] st \<Longrightarrow> owned cp st' n' F \<and> cow_step cp F [n] st [n'] st'"
    using st' by (auto simp: cow_step_def owned_def sound_forest_def rc_quiet_def)
  from pair_step [OF own i, of R st n'] R show "owned cp st' n' F" "cow_step cp F [n] st [n'] st'" "n_addr n' = n_addr n"
    using lift by (auto simp: n)
qed

lemma recount_step:
  assumes own: "owned cp st n F" and res: "recount n i st = (n', st')"
  shows "owned cp st' n' F" "cow_step cp F [n] st [n'] st'"
proof -
  have n': "n_kids n' = n_kids n" "n_addr n' = n_addr n" "st' = wrote (n_addr n) st"
    using res by (cases n; auto simp: recount_def split: if_splits)+
  show "owned cp st' n' F" "cow_step cp F [n] st [n'] st'"
    using write_step [OF own n'(1,2)] n'(3) cow_step_wrote owned_addr [OF own] by auto
qed

lemma rebalance_step:
  assumes own: "owned cp st n F" and shape: "length (n_kids n) = Suc (length (n_items n))" "n_items n \<noteq> []" "i \<le> length (n_items n)"
    and res: "rebalance cp n i st = (n', st')"
  shows "owned cp st' n' F" "cow_step cp F [n] st [n'] st'"
proof -
  define p where "p = (if i = length (n_items n) then i - 1 else i)"
  have p: "Suc p < length (n_kids n)" using shape by (cases "n_items n") (auto simp: p_def)
  obtain n1 st1 where c1: "cowChild cp n p True st = (n1, st1)" by (metis surj_pair)
  obtain n2 st2 where c2: "cowChild cp n1 (Suc p) True st1 = (n2, st2)" by (metis surj_pair)
  note k1 = cowChild_step [OF own Suc_lessD [OF p] c1]
  have p1: "p < length (n_kids n1)" "Suc p < length (n_kids n1)" using cowChild_same(4) [OF c1] p by simp_all
  note k2 = cowChild_step [OF k1(1) p1(2) c2]
  have p2: "Suc p < length (n_kids n2)" "n_kids n2 ! p = n_kids n1 ! p" using cowChild_same(4,6) [OF c2] p1 by simp_all
  have l: "owned cp st1 (n_kids n1 ! p) (others n1 p @ F)" using k1(3) .
  have "n_kids n1 ! Suc p \<in> set (drop (Suc p) (n_kids n1))"
    using p1(2) by (metis Cons_nth_drop_Suc list.set_intros(1))
  then have "addrs [n_kids n1 ! Suc p] \<subseteq> addrs (others n1 p @ F)" by (auto simp: addrs_def all_objs_def)
  then have "n_addr (n_kids n1 ! p) \<notin> addrs [n_kids n1 ! Suc p]" using owned_addr [OF l] by blast
  moreover have "n_addr (n_kids n1 ! p) < ar_next st1" "ar_rc st1 (n_addr (n_kids n1 ! p)) = 0"
    using l by (auto simp: owned_open free_at_def owned_def)
  ultimately have rcl: "ar_rc st2 (n_addr (n_kids n2 ! p)) = 0" using k2(5) p2(2) by (simp add: cow_step_def)
  have rcr: "ar_rc st2 (n_addr (n_kids n2 ! Suc p)) = 0" using k2(3) by (simp add: owned_def)
  obtain n3 st3 where step: "(if length (n_items (n_kids n2 ! p)) + length (n_items (n_kids n2 ! Suc p)) < maxItems then merge_kids n2 p st2
      else if length (n_items (n_kids n2 ! p)) > length (n_items (n_kids n2 ! Suc p)) then rotate_right n2 p st2
      else rotate_left n2 p st2) = (n3, st3)" by (metis surj_pair)
  note k3 = rebalance_kids_step [OF k2(1) p2(1) rcl rcr step]
  obtain n4 st4 where r1: "recount n3 p st3 = (n4, st4)" by (metis surj_pair)
  have r2: "recount n4 (Suc p) st4 = (n', st')"
    using res c1 c2 step r1 by (simp add: rebalance_def Let_def p_def [symmetric])
  note k4 = recount_step [OF k3(1) r1]
  note k5 = recount_step [OF k4(1) r2]
  show "owned cp st' n' F" by (rule k5(1))
  show "cow_step cp F [n] st [n'] st'" using k1(2) k2(2) k3(2) k4(2) k5(2) cow_step_trans by blast
qed

lemma after_delete_step:
  assumes own: "owned cp st n F" and shape: "length (n_kids n) = Suc (length (n_items n))" "n_items n \<noteq> []" "i \<le> length (n_items n)"
    and kid: "cow_step cp (others n i @ F) [n_kids n ! i] st [c] st1" and res: "after_delete cp n i c st1 = (n', st')"
  shows "owned cp st' n' F" "cow_step cp F [n] st [n'] st'"
proof -
  define n1 where "n1 = add_count (set_child n i c) i (- 1)"
  have n1: "n_kids n1 = (n_kids n)[i := c]" "n_addr n1 = n_addr n" "n_items n1 = n_items n" by (simp_all add: n1_def)
  have i: "i < length (n_kids n)" using shape by simp
  note k = child_step [OF own i kid n1(1,2)]
  have own1: "owned cp (wrote (n_addr n) st1) n1 F" "cow_step cp F [n] st [n1] (wrote (n_addr n) st1)"
    using k cow_step_wrote owned_addr [OF own] by auto
  have "rebalance cp n1 i (wrote (n_addr n) st1) = (n', st') \<or> n' = n1 \<and> st' = wrote (n_addr n) st1"
    using res by (auto simp: after_delete_def n1_def [symmetric] Let_def split: if_splits)
  then show "owned cp st' n' F" "cow_step cp F [n] st [n'] st'"
    using own1 rebalance_step [OF own1(1), of i n' st'] shape n1 cow_step_trans by auto
qed

section \<open>Removal\<close>

lemma leaf_write_step:
  assumes own: "owned cp st (Node a its [] cs) F"
  shows "owned cp (wrote a st) (Node a its' [] cs) F" "cow_step cp F [Node a its [] cs] st [Node a its' [] cs] (wrote a st)"
  using write_step [OF own, of "Node a its' [] cs"] cow_step_wrote owned_addr [OF own] by auto

text \<open>The way back of a removal in child \<open>i\<close>.\<close>

lemma removal_step:
  assumes own: "owned cp st n F" and ok: "node_ok (Suc h) n" "n_items n \<noteq> []" and i: "i \<le> length (n_items n)"
    and cow: "cowChild cp n i True st = (n1, st1)"
    and n1': "n_kids n1' = n_kids n1" "n_addr n1' = n_addr n1" "length (n_items n1') = length (n_items n1)"
    and kid: "owned cp st1 (n_kids n1 ! i) (others n1 i @ F) \<Longrightarrow> cow_step cp (others n1 i @ F) [n_kids n1 ! i] st1 [c] st2"
    and res: "after_delete cp n1' i c st2 = (n', st')"
  shows "owned cp st' n' F" "cow_step cp F [n] st [n'] st'"
proof -
  have lt: "i < length (n_kids n)" using ok(1) i by (simp add: node_ok_kids)
  note k = cowChild_step [OF own lt cow]
  note d = cow_descend [OF ok(1) i cow]
  note w = write_step [OF k(1) n1'(1,2)]
  have shape: "length (n_kids n1') = Suc (length (n_items n1'))" "n_items n1' \<noteq> []" "i \<le> length (n_items n1')"
    using d(1,8) ok(2) i n1' by (auto simp: node_ok_kids)
  have "cow_step cp (others n1' i @ F) [n_kids n1' ! i] st1 [c] st2" using kid [OF k(3)] n1'(1) by simp
  note ad = after_delete_step [OF w(1) shape this res]
  show "owned cp st' n' F" by (rule ad(1))
  show "cow_step cp F [n] st [n'] st'" using k(2) w(2) ad(2) cow_step_trans by blast
qed

lemma nodeDeleteMax_step:
  assumes "node_ok h n" and "n_items n \<noteq> []" and "owned cp st n F" and "nodeDeleteMax cp n st = (e, n', st')"
  shows "owned cp st' n' F \<and> cow_step cp F [n] st [n'] st'"
  using assms
proof (induction h arbitrary: n st e n' st' F)
  case 0
  then show ?case using leaf_write_step by (cases n) auto
next
  case (Suc h)
  obtain a its ks cs where n: "n = Node a its ks cs" by (cases n)
  obtain k ks' where ks: "ks = k # ks'" "length ks' = length its" using branch_shape [OF Suc.prems(1) n] .
  obtain n1 st1 where c1: "cowChild cp n (length its) True st = (n1, st1)" by (metis surj_pair)
  obtain e1 c st2 where r: "nodeDeleteMax cp (n_kids n1 ! length its) st1 = (e1, c, st2)" by (metis prod_cases3)
  have le: "length its \<le> length (n_items n)" by (simp add: n)
  note d = cow_descend [OF Suc.prems(1) le c1]
  have "after_delete cp n1 (length its) c st2 = (n', st')" using Suc.prems(4) c1 r ks by (simp add: n)
  from removal_step [OF Suc.prems(3,1,2) le c1 refl refl refl _ this] Suc.IH [OF d(2,4) _ r] show ?case by blast
qed

lemma nodePopFront_step:
  assumes "node_ok h n" and "n_items n \<noteq> []" and "owned cp st n F" and "nodePopFront cp n st = (e, n', st')"
  shows "owned cp st' n' F \<and> cow_step cp F [n] st [n'] st'"
  using assms
proof (induction h arbitrary: n st e n' st' F)
  case 0
  then show ?case using leaf_write_step by (cases n) auto
next
  case (Suc h)
  obtain a its ks cs where n: "n = Node a its ks cs" by (cases n)
  obtain k ks' where ks: "ks = k # ks'" "length ks' = length its" using branch_shape [OF Suc.prems(1) n] .
  obtain n1 st1 where c1: "cowChild cp n 0 True st = (n1, st1)" by (metis surj_pair)
  obtain e1 c st2 where r: "nodePopFront cp (n_kids n1 ! 0) st1 = (e1, c, st2)" by (metis prod_cases3)
  note d = cow_descend [OF Suc.prems(1) le0 c1]
  have "after_delete cp n1 0 c st2 = (n', st')" using Suc.prems(4) c1 r ks by (simp add: n)
  from removal_step [OF Suc.prems(3,1,2) le0 c1 refl refl refl _ this] Suc.IH [OF d(2,4) _ r] show ?case by blast
qed

lemma nodeDeleteAt_step:
  assumes "node_ok h n" and "n_items n \<noteq> []" and "0 \<le> index" and "index < size_of n" and "owned cp st n F"
    and "nodeDeleteAt cp n index st = Some (e, n', st')"
  shows "owned cp st' n' F \<and> cow_step cp F [n] st [n'] st'"
  using assms
proof (induction h arbitrary: n st index e n' st' F)
  case 0
  then obtain a its where "n = Node a its [] []" by (cases n) auto
  then show ?case using 0(5,6) leaf_write_step by (auto split: if_splits)
next
  case (Suc h)
  obtain a its ks cs where n: "n = Node a its ks cs" by (cases n)
  obtain k ks' where ks: "ks = k # ks'" "length ks' = length its" using branch_shape [OF Suc.prems(1) n] .
  obtain i found j where slot: "find_slot (take (length (n_items n)) (n_counts n)) index = (i, found, j)"
    by (metis prod_cases3)
  note fs = find_slot_node [OF Suc.prems(1) slot Suc.prems(3) less_imp_le [OF Suc.prems(4)]]
  obtain n1 st1 where c1: "cowChild cp n i True st = (n1, st1)" by (metis surj_pair)
  note d = cow_descend [OF Suc.prems(1) fs(1) c1]
  show ?case
  proof (cases found)
    case True
    obtain m c st2 where r: "nodeDeleteMax cp (n_kids n1 ! i) st1 = (m, c, st2)" by (metis prod_cases3)
    have "after_delete cp (Node a (its[i := m]) (n_kids n1) cs) i c st2 = (n', st')"
      using Suc.prems(6) slot c1 r True fs(1) ks by (simp add: n)
    from removal_step [OF Suc.prems(5,1,2) fs(1) c1 _ _ _ _ this] nodeDeleteMax_step [OF d(2,4) _ r] show ?thesis
      using d(8,11) by (simp add: n)
  next
    case False
    then have lt: "j < size_of (n_kids n1 ! i)"
      using fs(1,4,5) d(5) Suc.prems(4) fs(2) inorder_at [of n i] Suc.prems(1)
      by (cases "i < length (n_items n)") (auto simp: node_ok_kids)
    then obtain x c st2 where r: "nodeDeleteAt cp (n_kids n1 ! i) j st1 = Some (x, c, st2)"
      using nodeDeleteAt_ok [OF d(2,4) fs(3)] by blast
    have "after_delete cp n1 i c st2 = (n', st')" using Suc.prems(6) slot c1 r False fs(1) ks by (simp add: n)
    from removal_step [OF Suc.prems(5,1,2) fs(1) c1 refl refl refl _ this] Suc.IH [OF d(2,4) fs(3) lt _ r] show ?thesis by blast
  qed
qed

section \<open>Insertion\<close>

text \<open>One level of an insertion down to child \<open>m\<close>, and the node put together again.\<close>

lemma insertion_step:
  assumes own: "owned cp st n F" and ok: "node_ok (Suc h) n" and i: "i \<le> length (n_items n)" and room: "length (n_items n) < maxItems"
    and cow: "cowChild cp n i True st = (n1, st1)" and ens: "ensureBranch n1 i st1 = (b, n2, st2)" and m: "m = i \<or> b \<and> m = Suc i"
  shows "owned cp st2 n2 F" "cow_step cp F [n] st [n2] st2" "owned cp st2 (n_kids n2 ! m) (others n2 m @ F)" "m < length (n_kids n2)"
proof -
  have lt: "i < length (n_kids n)" using ok i by (simp add: node_ok_kids)
  note k = cowChild_step [OF own lt cow]
  note d = cow_descend [OF ok i cow]
  have s: "i < length (n_kids n1)" "length (n_counts n1) = length (n_kids n1)" "ar_rc st1 (n_addr (n_kids n1 ! i)) = 0"
    using lt cowChild_same(4) [OF cow] d(1) k(3) by (simp_all add: node_ok_kids owned_def)
  note e = ensureBranch_step [OF k(1) s(1,3,2) ens m]
  show "owned cp st2 n2 F" "m < length (n_kids n2)" by (rule e(1), rule e(4))
  show "cow_step cp F [n] st [n2] st2" using k(2) e(2) cow_step_trans by blast
  show "owned cp st2 (n_kids n2 ! m) (others n2 m @ F)" by (rule kid_owned [OF e(1,4,3)])
qed

lemma put_child_step:
  assumes own: "owned cp st n F" and i: "i < length (n_kids n)"
    and step: "cow_step cp (others n i @ F) [n_kids n ! i] (wrote (n_addr n) st) [c] st1"
  shows "owned cp st1 (put_child n i d c) F" "cow_step cp F [n] st [put_child n i d c] st1"
proof -
  have a: "n_addr n \<notin> addrs (others n i @ F)"
    using own by (auto simp: owned_open free_at_def addrs_def all_objs_def dest: in_set_takeD in_set_dropD)
  show "owned cp st1 (put_child n i d c) F" "cow_step cp F [n] st [put_child n i d c] st1"
    using child_step [OF own i cow_step_start [OF step a], of "put_child n i d c"] by (simp_all add: put_child_def)
qed

lemma pushBack_step:
  assumes "node_ok h n" and "length (n_items n) < maxItems" and "owned cp st n F" and "pushBack_loop cp cmp n e st = (ok, n', st')"
  shows "owned cp st' n' F \<and> cow_step cp F [n] st [n'] st'"
  using assms
proof (induction h arbitrary: n st ok n' st' F)
  case 0
  then obtain a its where n: "n = Node a its [] []" by (cases n) auto
  then show ?case
    using 0(3,4) leaf_write_step [of cp st a its "[]" F] cow_step_refl [of st "[n]" F cp]
    by (auto simp: insertItemAt_def owned_def split: if_splits)
next
  case (Suc h)
  obtain a its ks cs where n: "n = Node a its ks cs" by (cases n)
  obtain k ks' where ks: "ks = k # ks'" "length ks' = length its" using branch_shape [OF Suc.prems(1) n] .
  obtain n1 st1 where c1: "cowChild cp n (length its) True st = (n1, st1)" by (metis surj_pair)
  obtain b n2 st2 where e1: "ensureBranch n1 (length its) st1 = (b, n2, st2)" by (metis prod_cases3)
  define m where "m = length (n_items n2)"
  have le: "length its \<le> length (n_items n)" by (simp add: n)
  note id0 = insert_descend [OF Suc.prems(1) le Suc.prems(2) c1 e1, of "length its"]
  have m: "m = length its \<or> b \<and> m = Suc (length its)" using id0(11) by (auto simp: m_def n)
  note d = insert_descend [OF Suc.prems(1) le Suc.prems(2) c1 e1 m]
  note s = insertion_step [OF Suc.prems(3,1) le Suc.prems(2) c1 e1 m]
  obtain ok1 c st3 where r: "pushBack_loop cp cmp (n_kids n2 ! m) e (wrote a st2) = (ok1, c, st3)" by (metis prod_cases3)
  have res: "put_child n2 m 1 c = n'" "st3 = st'"
    using Suc.prems(4) c1 e1 r ks d(10) by (simp_all add: n m_def put_child_def Let_def)
  have a: "n_addr n2 = a" using d(3) by (simp add: n)
  have "cow_step cp (others n2 m @ F) [n_kids n2 ! m] (wrote a st2) [c] st3" using Suc.IH [OF d(6,8) _ r] s(3) by simp
  from put_child_step [OF s(1,4) this [folded a], of 1] show ?case
    using res s(2) cow_step_trans by blast
qed

lemma pushFront_step:
  assumes "node_ok h n" and "length (n_items n) < maxItems" and "owned cp st n F" and "pushFront_loop cp cmp n e st = (ok, n', st')"
  shows "owned cp st' n' F \<and> cow_step cp F [n] st [n'] st'"
  using assms
proof (induction h arbitrary: n st ok n' st' F)
  case 0
  then obtain a its where n: "n = Node a its [] []" by (cases n) auto
  then show ?case
    using 0(3,4) leaf_write_step [of cp st a its "[]" F] cow_step_refl [of st "[n]" F cp]
    by (auto simp: insertItemAt_def owned_def split: if_splits)
next
  case (Suc h)
  obtain a its ks cs where n: "n = Node a its ks cs" by (cases n)
  obtain k ks' where ks: "ks = k # ks'" "length ks' = length its" using branch_shape [OF Suc.prems(1) n] .
  obtain n1 st1 where c1: "cowChild cp n 0 True st = (n1, st1)" by (metis surj_pair)
  obtain b n2 st2 where e1: "ensureBranch n1 0 st1 = (b, n2, st2)" by (metis prod_cases3)
  note d = insert_descend [OF Suc.prems(1) le0 Suc.prems(2) c1 e1 disjI1 [OF refl]]
  note s = insertion_step [OF Suc.prems(3,1) le0 Suc.prems(2) c1 e1 disjI1 [OF refl]]
  obtain ok1 c st3 where r: "pushFront_loop cp cmp (n_kids n2 ! 0) e (wrote a st2) = (ok1, c, st3)" by (metis prod_cases3)
  have res: "put_child n2 0 1 c = n'" "st3 = st'"
    using Suc.prems(4) c1 e1 r ks by (simp_all add: n put_child_def)
  have a: "n_addr n2 = a" using d(3) by (simp add: n)
  have "cow_step cp (others n2 0 @ F) [n_kids n2 ! 0] (wrote a st2) [c] st3" using Suc.IH [OF d(6,8) _ r] s(3) by simp
  from put_child_step [OF s(1,4) this [folded a], of 1] show ?case
    using res s(2) cow_step_trans by blast
qed

lemma insertAt_enter_step:
  assumes own: "owned cp st n F" and ok: "node_ok (Suc h) n"
    and slot: "find_slot (take (length (n_items n)) (n_counts n)) index = (i, found, j)"
    and index: "0 \<le> index" "index \<le> size_of n" and room: "length (n_items (n_kids n ! i)) < maxItems"
    and IH: "\<forall>c st1 p c' st2 G. node_ok h c \<and> length (n_items c) < maxItems \<and> n_items c \<noteq> [] \<and> 0 \<le> p \<and> p \<le> size_of c \<and>
      owned cp st1 c G \<and> insertAt_loop cp c p e st1 = Some (c', st2) \<longrightarrow> cow_step cp G [c] st1 [c'] st2"
    and res: "insertAt_loop cp n index e st = Some (n', st')"
  shows "owned cp st' n' F \<and> cow_step cp F [n] st [n'] st'"
proof -
  obtain a its ks cs where n: "n = Node a its ks cs" by (cases n)
  obtain k ks' where ks: "ks = k # ks'" "length ks' = length its" using branch_shape [OF ok n] .
  note fs = find_slot_node [OF ok slot index]
  obtain n1 st1 where c1: "cowChild cp n i True st = (n1, st1)" by (metis surj_pair)
  note d = cow_descend [OF ok fs(1) c1]
  have i: "i < length (n_kids n)" using fs(1) ok by (simp add: node_ok_kids)
  note kd = cowChild_step [OF own i c1]
  have items: "n_items (n_kids n1 ! i) = n_items (n_kids n ! i)" using cowChild_shape [OF c1] i by blast
  then have ens: "ensureBranch n1 i st1 = (False, n1, st1)" using room by (simp add: ensureBranch_def)
  obtain c where r: "insertAt_loop cp (n_kids n1 ! i) j e (wrote a st1) = Some (c, st')" and n': "n' = put_child n1 i 1 c"
    using res slot c1 ens ks fs(1) by (auto simp: n put_child_def split: option.splits)
  have a: "n_addr n1 = a" "i < length (n_kids n1)" using d(11) cowChild_same(4) [OF c1] i by (simp_all add: n)
  have "cow_step cp (others n1 i @ F) [n_kids n1 ! i] (wrote (n_addr n1) st1) [c] st'"
    using IH [rule_format, of "n_kids n1 ! i" j _ "others n1 i @ F" c st'] d(2,4) fs(3) r kd(3) room items fs(4) d(5) a by simp
  from put_child_step [OF kd(1) a(2) this, of 1] show ?thesis using n' kd(2) cow_step_trans by blast
qed

lemma insertAt_step:
  assumes "node_ok h n" and "length (n_items n) < maxItems" and "n_items n \<noteq> []" and "0 \<le> index" and "index \<le> size_of n"
    and "owned cp st n F" and "insertAt_loop cp n index e st = Some (n', st')"
  shows "owned cp st' n' F \<and> cow_step cp F [n] st [n'] st'"
  using assms
proof (induction h arbitrary: n index st n' st' F)
  case 0
  then obtain a its where n: "n = Node a its [] []" by (cases n) auto
  then show ?case using 0(6,7) leaf_write_step [of cp st a its "[]" F] by (auto simp: insertItemAt_def split: if_splits)
next
  case (Suc h)
  obtain a its ks cs where n: "n = Node a its ks cs" by (cases n)
  obtain k ks' where ks: "ks = k # ks'" "length ks' = length its" using branch_shape [OF Suc.prems(1) n] .
  obtain i found j where slot: "find_slot (take (length (n_items n)) (n_counts n)) index = (i, found, j)"
    by (metis prod_cases3)
  note fs = find_slot_node [OF Suc.prems(1) slot Suc.prems(4,5)]
  have IH: "\<forall>c st1 p c' st2 G. node_ok h c \<and> length (n_items c) < maxItems \<and> n_items c \<noteq> [] \<and> 0 \<le> p \<and> p \<le> size_of c \<and>
      owned cp st1 c G \<and> insertAt_loop cp c p e st1 = Some (c', st2) \<longrightarrow> cow_step cp G [c] st1 [c'] st2"
    using Suc.IH by blast
  show ?case
  proof (cases "length (n_items (n_kids n ! i)) < maxItems")
    case True
    then show ?thesis using insertAt_enter_step [OF Suc.prems(6,1) slot Suc.prems(4,5) True IH Suc.prems(7)] by blast
  next
    case full: False
    obtain n1 st1 where c1: "cowChild cp n i True st = (n1, st1)" by (metis surj_pair)
    obtain b n2 st2 where e1: "ensureBranch n1 i st1 = (b, n2, st2)" by (metis prod_cases3)
    note s = insertion_step [OF Suc.prems(6,1) fs(1) Suc.prems(2) c1 e1 disjI1 [OF refl]]
    note sp = retry_slot [OF Suc.prems(1,2,4,5) slot full c1 e1]
    obtain i2 f2 j2 where slot2: "find_slot (take (length (n_items n2)) (n_counts n2)) index = (i2, f2, j2)" by (metis prod_cases3)
    have res2: "insertAt_loop cp n2 index e st2 = Some (n', st')"
      using Suc.prems(7) slot c1 e1 sp(1) ks fs(1) by (simp add: n)
    have "index \<le> size_of n2" using sp(3) Suc.prems(5) by simp
    from insertAt_enter_step [OF s(1) sp(2) slot2 Suc.prems(4) this sp(4) [OF slot2] IH res2] show ?thesis
      using s(2) cow_step_trans by blast
  qed
qed

lemma replaceAt_step:
  assumes "node_ok h n" and "0 \<le> index" and "index < size_of n" and "owned cp st n F"
    and "replaceAt_loop cp n index e st = Some (x, n', st')"
  shows "owned cp st' n' F \<and> cow_step cp F [n] st [n'] st'"
  using assms
proof (induction h arbitrary: n index st x n' st' F)
  case 0
  then obtain a its where n: "n = Node a its [] []" by (cases n) auto
  then show ?case using 0(4,5) leaf_write_step [of cp st a its "[]" F] by (auto split: if_splits)
next
  case (Suc h)
  obtain a its ks cs where n: "n = Node a its ks cs" by (cases n)
  obtain k ks' where ks: "ks = k # ks'" "length ks' = length its" using branch_shape [OF Suc.prems(1) n] .
  obtain i found j where slot: "find_slot (take (length (n_items n)) (n_counts n)) index = (i, found, j)"
    by (metis prod_cases3)
  note fs = find_slot_node [OF Suc.prems(1) slot Suc.prems(2) less_imp_le [OF Suc.prems(3)]]
  show ?case
  proof (cases found)
    case True
    then have "n' = Node a (its[i := e]) ks cs" "st' = wrote a st" using Suc.prems(5) slot fs(1) ks by (simp_all add: n)
    then show ?thesis using write_step [OF Suc.prems(4), of n'] cow_step_wrote owned_addr [OF Suc.prems(4)] by (auto simp: n)
  next
    case False
    obtain n1 st1 where c1: "cowChild cp n i True st = (n1, st1)" by (metis surj_pair)
    note d = cow_descend [OF Suc.prems(1) fs(1) c1]
    have i: "i < length (n_kids n)" using fs(1) Suc.prems(1) by (simp add: node_ok_kids)
    note kd = cowChild_step [OF Suc.prems(4) i c1]
    have lt: "j < size_of (n_kids n1 ! i)"
      using False fs d(5) Suc.prems(1,3) inorder_at [of n i] by (cases "i < length (n_items n)") (auto simp: node_ok_kids)
    obtain y c where r: "replaceAt_loop cp (n_kids n1 ! i) j e st1 = Some (y, c, st')" and n': "n' = set_child n1 i c"
      using Suc.prems(5) slot c1 False ks fs(1) by (auto simp: n split: option.splits)
    have i1: "i < length (n_kids n1)" using cowChild_same(4) [OF c1] i by simp
    have "cow_step cp (others n1 i @ F) [n_kids n1 ! i] st1 [c] st'" using Suc.IH [OF d(2) fs(3) lt kd(3) r] by blast
    from child_step [OF kd(1) i1 this, of n'] show ?thesis using n' kd(2) cow_step_trans by (simp, blast)
  qed
qed

end
