(* ===== verification/Btype_Family.thy ===== *)
theory Btype_Family
  imports Btype_Cow
begin

text \<open>
  A tree and its live snapshots. The queue's \<open>AllCOW\<close> takes a snapshot with \<open>CopyInto\<close>, reads it
  without the queue's lock and drops it with \<open>Release\<close>, while \<open>Push\<close>, \<open>Pop\<close> and \<open>Del\<close> go on
  changing the tree. The step relation \<open>family\<close> runs any number of these steps in any order, and
  its invariant is that the forest of all roots is sound; so no operation on the tree ever writes a
  node that a live snapshot can still read. Snapshots are read only, as in the queue.
\<close>

section \<open>Operations on the tree\<close>

datatype ('k, 'v) tree_op =
    OpPushBack "'k \<times> 'v"
  | OpPushFront "'k \<times> 'v"
  | OpInsertAt int "'k \<times> 'v"
  | OpReplaceAt int "'k \<times> 'v"
  | OpPopFront
  | OpPopBack
  | OpDeleteAt int
  | OpClear

datatype ('k, 'v) tree_out =
    Accepted bool
  | Item "('k \<times> 'v) option"
  | Cleared

fun mutate :: "('k, 'v) tree_op \<Rightarrow> ('k, 'v) tree \<Rightarrow> arena \<Rightarrow> ('k, 'v) tree_out \<times> ('k, 'v) tree \<times> arena" where
  "mutate (OpPushBack e) t st = map_prod Accepted id (PushBack t e st)"
| "mutate (OpPushFront e) t st = map_prod Accepted id (PushFront t e st)"
| "mutate (OpInsertAt i e) t st = map_prod Accepted id (InsertAt t i e st)"
| "mutate (OpReplaceAt i e) t st = map_prod Item id (ReplaceAt t i e st)"
| "mutate OpPopFront t st = map_prod Item id (PopFront t st)"
| "mutate OpPopBack t st = map_prod Item id (PopBack t st)"
| "mutate (OpDeleteAt i) t st = map_prod Item id (DeleteAt t i st)"
| "mutate OpClear t st = (Cleared, Clear_tree t, st)"

text \<open>The same operations on a list: what each returns and what it makes of the contents.\<close>

definition in_range :: "int \<Rightarrow> 'a list \<Rightarrow> bool" where
  "in_range i xs = (0 \<le> i \<and> i < int (length xs))"

fun list_op :: "('k, 'v) tree_op \<Rightarrow> ('k \<times> 'v) list \<Rightarrow> ('k, 'v) tree_out \<times> ('k \<times> 'v) list" where
  "list_op (OpPushBack e) xs = (Accepted True, xs @ [e])"
| "list_op (OpPushFront e) xs = (Accepted True, e # xs)"
| "list_op (OpInsertAt i e) xs =
     (if 0 \<le> i \<and> i \<le> int (length xs) then (Accepted True, take (nat i) xs @ e # drop (nat i) xs) else (Accepted False, xs))"
| "list_op (OpReplaceAt i e) xs = (if in_range i xs then (Item (Some (xs ! nat i)), xs[nat i := e]) else (Item None, xs))"
| "list_op OpPopFront xs = (case xs of [] \<Rightarrow> (Item None, []) | x # xs' \<Rightarrow> (Item (Some x), xs'))"
| "list_op OpPopBack xs = (if xs = [] then (Item None, []) else (Item (Some (last xs)), butlast xs))"
| "list_op (OpDeleteAt i) xs = (if in_range i xs then (Item (Some (xs ! nat i)), without (nat i) xs) else (Item None, xs))"
| "list_op OpClear xs = (Cleared, [])"

lemma mutate_contents:
  assumes ok: "tree_ok t" and cmp: "t_dataCompare t = None" and res: "mutate op t st = (out, t', st')"
  shows "tree_ok t' \<and> list_op op (contents t) = (out, contents t')"
proof (cases op)
  case (OpPushBack e)
  then obtain b where b: "PushBack t e st = (b, t', st')" "out = Accepted b" using res by (cases "PushBack t e st") auto
  from PushBack_ok [OF ok b(1)] show ?thesis using cmp OpPushBack b(2) by auto
next
  case (OpPushFront e)
  then obtain b where b: "PushFront t e st = (b, t', st')" "out = Accepted b" using res by (cases "PushFront t e st") auto
  from PushFront_ok [OF ok b(1)] show ?thesis using cmp OpPushFront b(2) by auto
next
  case (OpInsertAt i e)
  then obtain b where b: "InsertAt t i e st = (b, t', st')" "out = Accepted b" using res by (cases "InsertAt t i e st") auto
  from InsertAt_ok [OF ok cmp b(1)] show ?thesis using OpInsertAt b(2) by auto
next
  case (OpReplaceAt i e)
  then obtain r where b: "ReplaceAt t i e st = (r, t', st')" "out = Item r" using res by (cases "ReplaceAt t i e st") auto
  from ReplaceAt_ok [OF ok cmp b(1)] show ?thesis using OpReplaceAt b(2) by (auto simp: in_range_def)
next
  case OpPopFront
  then obtain r where b: "PopFront t st = (r, t', st')" "out = Item r" using res by (cases "PopFront t st") auto
  from PopFront_ok [OF ok b(1)] show ?thesis using OpPopFront b(2) by (auto split: list.splits)
next
  case OpPopBack
  then obtain r where b: "PopBack t st = (r, t', st')" "out = Item r" using res by (cases "PopBack t st") auto
  from PopBack_ok [OF ok b(1)] show ?thesis using OpPopBack b(2) by auto
next
  case (OpDeleteAt i)
  then obtain r where b: "DeleteAt t i st = (r, t', st')" "out = Item r" using res by (cases "DeleteAt t i st") auto
  from DeleteAt_ok [OF ok b(1)] show ?thesis using OpDeleteAt b(2) by (auto simp: in_range_def)
qed (use assms Clear_tree_ok [OF ok] in auto)

section \<open>The family and its invariant\<close>

abbreviation opt_list :: "'a option \<Rightarrow> 'a list" where
  "opt_list r \<equiv> (case r of None \<Rightarrow> [] | Some n \<Rightarrow> [n])"

definition snap_nodes :: "('k, 'v) tree list \<Rightarrow> ('k, 'v) node list" where
  "snap_nodes S = concat (map (\<lambda>s. opt_list (t_root s)) S)"

definition family_ok :: "('k, 'v) tree \<Rightarrow> ('k, 'v) node list \<Rightarrow> arena \<Rightarrow> bool" where
  "family_ok t F st =
     (tree_ok t \<and> t_dataCompare t = None \<and>
      sound_forest st (opt_list (t_root t) @ opt_list (t_spare t) @ F) \<and>
      (case t_spare t of None \<Rightarrow> True | Some n \<Rightarrow> ar_rc st (n_addr n) = 0) \<and> rc_quiet (t_copied t) st)"

lemma sound_sub:
  assumes "sound_forest st (n # R)"
  shows "sound_forest st R"
proof -
  have "refs R a \<le> refs (n # R) a" for a
    unfolding refs_def by (intro add_mono sum_mono2) auto
  then have "int (refs R a) \<le> int (refs (n # R) a)" for a by simp
  moreover have "a \<in> addrs R \<Longrightarrow> a \<in> addrs (n # R)" for a by simp
  ultimately have "\<forall>a \<in> addrs R. int (refs R a) \<le> ar_rc st a + 1 \<and> a < ar_next st"
    using assms unfolding sound_forest_def by (meson order_trans)
  then show ?thesis using assms by (simp add: sound_forest_def one_object_def)
qed

definition family_step :: "('k, 'v) tree \<Rightarrow> ('k, 'v) node list \<Rightarrow> arena \<Rightarrow> ('k, 'v) tree \<Rightarrow> arena \<Rightarrow> bool" where
  "family_step t F st t' st' = (family_ok t' F st' \<and> set (ar_written st') \<subseteq> set (ar_written st) \<union> - addrs F)"

lemma family_root:
  assumes "family_ok t F st" and "t_root t = Some n"
  shows "sound_forest st (n # opt_list (t_spare t) @ F)" "rc_quiet (t_copied t) st" "tree_ok t"
  using assms by (auto simp: family_ok_def)

text \<open>A spare leaf is nobody else's, so work on the root leaves it alone.\<close>

lemma family_spare:
  assumes "family_ok t F st" and "t_spare t = Some m" and "t_root t = Some n"
  shows "n_addr m \<notin> addrs [n]" "n_addr m < ar_next st" "ar_rc st (n_addr m) = 0"
proof -
  have "sound_forest st (m # n # F)" "ar_rc st (n_addr m) = 0"
    using assms sound_perm [of st "n # m # F" "m # n # F"] by (auto simp: family_ok_def)
  with own_iff [of st m "n # F"] show "n_addr m \<notin> addrs [n]" "n_addr m < ar_next st" "ar_rc st (n_addr m) = 0"
    by (auto simp: free_at_def)
qed

lemma root_step:
  assumes fam: "family_ok t F st" and root: "t_root t = Some n"
    and step: "cow_step (t_copied t) (opt_list (t_spare t) @ F) [n] st [n'] st'"
    and t': "tree_ok t'" "t_root t' = Some n'" "t_spare t' = t_spare t" "t_copied t' = t_copied t" "t_dataCompare t' = t_dataCompare t"
  shows "family_step t F st t' st'"
proof -
  have "case t_spare t of None \<Rightarrow> True | Some m \<Rightarrow> ar_rc st' (n_addr m) = 0"
    using family_spare [OF fam _ root] step by (auto simp: cow_step_def split: option.splits)
  then show ?thesis using step fam t' by (auto simp: family_step_def family_ok_def cow_step_def)
qed

lemma insertFirstItem_step:
  assumes fam: "family_ok t F st" and root: "t_root t = None" and res: "insertFirstItem t e st = (t', st')"
  shows "family_step t F st t' st'"
proof -
  have ok: "tree_ok t'" "t_copied t' = t_copied t" "t_dataCompare t' = t_dataCompare t"
    using insertFirstItem_ok [OF res] tree_ok_spare fam by (auto simp: family_ok_def)
  show ?thesis
  proof (cases "t_spare t")
    case None
    obtain b st1 where new: "newNode st = (b, st1)" by (metis surj_pair)
    have "sound_forest st F" "rc_quiet (t_copied t) st" using fam root None by (auto simp: family_ok_def)
    note nn = newNode_step [OF new this]
    have t': "t_root t' = Some (Node b [e] [] [])" "t_spare t' = None" "st' = wrote b st1"
      using res None new by (auto simp: insertFirstItem_def)
    have "b \<notin> addrs F" using nn(2) by (simp add: free_at_def)
    then show ?thesis using own_iff [of st1 "Node b [e] [] []" F] nn ok t' fam
      by (auto simp: family_step_def family_ok_def)
  next
    case (Some m)
    have m: "leaf m" "owned (t_copied t) st m F" using fam root Some by (auto simp: family_ok_def owned_def tree_ok_def)
    then have "n_kids m = []" by (simp add: leaf_def)
    note w = write_step [OF m(2), of "Node (n_addr m) [e] [] []"]
    have t': "t_root t' = Some (Node (n_addr m) [e] [] [])" "t_spare t' = None" "st' = wrote (n_addr m) st"
      using res Some by (auto simp: insertFirstItem_def)
    show ?thesis using w \<open>n_kids m = []\<close> owned_addr [OF m(2)] ok t' fam
      by (auto simp: family_step_def family_ok_def owned_def)
  qed
qed

lemma copied_root:
  assumes fam: "family_ok t F st" and root: "t_root t = Some n" and c: "cowRoot (t_copied t) n True st = (n1, st1)"
  shows "node_ok (height_loop n) n1" "n_items n1 \<noteq> []" "inorder n1 = contents t"
    "owned (t_copied t) st1 n1 (opt_list (t_spare t) @ F)"
    "cow_step (t_copied t) (opt_list (t_spare t) @ F) [n] st [n1] st1"
  using cowRoot_step [OF family_root(1,2) [OF fam root] c] family_root(3) [OF fam root] root cowRoot_ok [OF c]
  by (auto simp: tree_ok_def root_ok_def contents_def)

lemma prepared_root:
  assumes fam: "family_ok t F st" and root: "t_root t = Some n" and c: "cowRoot (t_copied t) n True st = (n1, st1)"
    and e: "ensureRoot n1 st1 = (b, n2, st2)"
  obtains h where "node_ok h n2" "length (n_items n2) < maxItems" "n_items n2 \<noteq> []" "inorder n2 = contents t"
    "owned (t_copied t) st2 n2 (opt_list (t_spare t) @ F)"
    "cow_step (t_copied t) (opt_list (t_spare t) @ F) [n] st [n2] st2"
proof -
  note cr = copied_root [OF fam root c]
  note er = ensureRoot_ok [OF cr(1,2) e] and es = ensureRoot_step [OF cr(4) e]
  obtain h where "node_ok h n2" using er(1) by blast
  then show thesis using that er(2-4) es cow_step_trans [OF cr(5) es(2)] cr(3) by simp
qed

lemma push_with_step:
  assumes fam: "family_ok t F st" and root: "t_root t = Some n" and res: "push_with loop undo t n st = (True, t', st')"
    and ok: "tree_ok t'"
    and loop: "\<forall>h m st m' st'. node_ok h m \<and> length (n_items m) < maxItems \<and> owned (t_copied t) st m (opt_list (t_spare t) @ F) \<and>
      loop m st = (True, m', st') \<longrightarrow> cow_step (t_copied t) (opt_list (t_spare t) @ F) [m] st [m'] st'"
  shows "family_step t F st t' st'"
proof -
  obtain n1 st1 where c: "cowRoot (t_copied t) n True st = (n1, st1)" by (metis surj_pair)
  obtain b n2 st2 where e: "ensureRoot n1 st1 = (b, n2, st2)" by (metis prod_cases3)
  obtain h where n2: "node_ok h n2" "length (n_items n2) < maxItems" "owned (t_copied t) st2 n2 (opt_list (t_spare t) @ F)"
      "cow_step (t_copied t) (opt_list (t_spare t) @ F) [n] st [n2] st2"
    using prepared_root [OF fam root c e] by metis
  obtain n3 where l: "loop n2 st2 = (True, n3, st')" "t' = t\<lparr>t_root := Some n3, t_count := t_count t + 1\<rparr>"
    using res c e by (auto simp: push_with_def split: prod.splits if_splits)
  have "cow_step (t_copied t) (opt_list (t_spare t) @ F) [n] st [n3] st'"
    using loop n2(1-3) l(1) cow_step_trans [OF n2(4)] by blast
  then show ?thesis using root_step [OF fam root _ ok] l(2) by simp
qed

lemma family_cases:
  assumes "family_ok t F st"
  obtains (empty) "live_root t = None" "t_root t = None" "t_count t = 0"
    | (root) n where "live_root t = Some n" "t_root t = Some n" "root_ok n" "contents t = inorder n" "t_count t > 0"
  using live_root_cases [of t thesis] assms by (auto simp: family_ok_def)

lemma PushBack_step:
  assumes fam: "family_ok t F st" and res: "PushBack t e st = (b, t', st')"
  shows "family_step t F st t' st'"
proof -
  have ok: "tree_ok t'" b using PushBack_ok(1,3) [OF _ res] fam by (auto simp: family_ok_def)
  show ?thesis using fam
  proof (cases rule: family_cases)
    case empty
    then show ?thesis using insertFirstItem_step [OF fam, of e] res by (auto simp: PushBack_def)
  next
    case (root n)
    then have "push_with (\<lambda>n1 st1. pushBack_loop (t_copied t) (t_dataCompare t) n1 e st1) rollback_back t n st = (True, t', st')"
      using res ok(2) by (simp add: PushBack_def)
    from push_with_step [OF fam root(2) this ok(1)] show ?thesis using pushBack_step by blast
  qed
qed

lemma PushFront_step:
  assumes fam: "family_ok t F st" and res: "PushFront t e st = (b, t', st')"
  shows "family_step t F st t' st'"
proof -
  have ok: "tree_ok t'" b using PushFront_ok(1,3) [OF _ res] fam by (auto simp: family_ok_def)
  show ?thesis using fam
  proof (cases rule: family_cases)
    case empty
    then show ?thesis using insertFirstItem_step [OF fam, of e] res by (auto simp: PushFront_def)
  next
    case (root n)
    then have "push_with (\<lambda>n1 st1. pushFront_loop (t_copied t) (t_dataCompare t) n1 e st1) rollback_front t n st = (True, t', st')"
      using res ok(2) by (simp add: PushFront_def)
    from push_with_step [OF fam root(2) this ok(1)] show ?thesis using pushFront_step by blast
  qed
qed

lemma family_same: "family_ok t F st \<Longrightarrow> family_step t F st t st"
  by (simp add: family_step_def)

lemma InsertAt_step:
  assumes fam: "family_ok t F st" and res: "InsertAt t index e st = (b, t', st')"
  shows "family_step t F st t' st'"
proof (cases "index < 0 \<or> index > t_count t \<or> index = 0 \<or> index = t_count t")
  case True
  then show ?thesis using PushFront_step [OF fam] PushBack_step [OF fam] family_same [OF fam] res
    by (auto simp: InsertAt_def split: if_splits)
next
  case mid: False
  have cmp: "t_dataCompare t = None" and ok: "tree_ok t" using fam by (auto simp: family_ok_def)
  note ia = InsertAt_ok [OF ok cmp res]
  obtain n where root: "t_root t = Some n" and count: "t_count t = int (length (contents t))"
    using ok mid by (cases "t_root t") (auto simp: tree_ok_def contents_def)
  obtain n1 st1 where c: "cowRoot (t_copied t) n True st = (n1, st1)" by (metis surj_pair)
  obtain b' n2 st2 where e: "ensureRoot n1 st1 = (b', n2, st2)" by (metis prod_cases3)
  obtain h where n2: "node_ok h n2" "length (n_items n2) < maxItems" "n_items n2 \<noteq> []" "inorder n2 = contents t"
      "owned (t_copied t) st2 n2 (opt_list (t_spare t) @ F)" "cow_step (t_copied t) (opt_list (t_spare t) @ F) [n] st [n2] st2"
    using prepared_root [OF fam root c e] by metis
  have b using ia(1) mid count by simp
  then obtain n3 where l: "insertAt_loop (t_copied t) n2 index e st2 = Some (n3, st')"
      "t' = t\<lparr>t_root := Some n3, t_count := t_count t + 1\<rparr>"
    using res c e mid root cmp by (auto simp: InsertAt_def out_of_order_def split: option.splits prod.splits)
  have "0 \<le> index" "index \<le> size_of n2" using mid count n2(4) by auto
  from insertAt_step [OF n2(1-3) this n2(5) l(1)]
  have "cow_step (t_copied t) (opt_list (t_spare t) @ F) [n] st [n3] st'" using cow_step_trans [OF n2(6)] by blast
  then show ?thesis using root_step [OF fam root _ ia(2)] l(2) by simp
qed

lemma ReplaceAt_step:
  assumes fam: "family_ok t F st" and res: "ReplaceAt t index e st = (r, t', st')"
  shows "family_step t F st t' st'"
proof (cases "index < 0 \<or> index \<ge> t_count t")
  case True
  then show ?thesis using family_same [OF fam] res by (auto simp: ReplaceAt_def)
next
  case range: False
  have cmp: "t_dataCompare t = None" and ok: "tree_ok t" using fam by (auto simp: family_ok_def)
  note ra = ReplaceAt_ok [OF ok cmp res]
  obtain n where root: "t_root t = Some n" and count: "t_count t = int (length (contents t))"
    using ok range by (cases "t_root t") (auto simp: tree_ok_def contents_def)
  obtain n1 st1 where c: "cowRoot (t_copied t) n True st = (n1, st1)" by (metis surj_pair)
  note cr = copied_root [OF fam root c]
  obtain n2 where l: "replaceAt_loop (t_copied t) n1 index e st1 = Some (the r, n2, st')" "t' = t\<lparr>t_root := Some n2\<rparr>"
    using res c range root cmp ra count by (auto simp: ReplaceAt_def out_of_order_def split: option.splits prod.splits)
  have "0 \<le> index" "index < size_of n1" using range count cr(3) by auto
  from replaceAt_step [OF cr(1) this cr(4) l(1)]
  have "cow_step (t_copied t) (opt_list (t_spare t) @ F) [n] st [n2] st'" using cow_step_trans [OF cr(5)] by blast
  then show ?thesis using root_step [OF fam root] ra l(2) by simp
qed

lemma sound_drop: "sound_forest st (R @ S) \<Longrightarrow> sound_forest st S"
  by (induction R) (auto dest: sound_sub)

text \<open>What a removal below the root does to the forest; the counterpart of \<open>takes_item\<close>.\<close>

definition takes_step :: "bool \<Rightarrow> (('k, 'v) node \<Rightarrow> arena \<Rightarrow> (('k \<times> 'v) \<times> ('k, 'v) node \<times> arena) option) \<Rightarrow>
    ('k \<times> 'v) list \<Rightarrow> ('k, 'v) node list \<Rightarrow> bool" where
  "takes_step cp del xs F =
     (\<forall>h m st e m' st'. node_ok h m \<and> n_items m \<noteq> [] \<and> inorder m = xs \<and> owned cp st m F \<and> del m st = Some (e, m', st') \<longrightarrow>
       owned cp st' m' F \<and> cow_step cp F [m] st [m'] st')"

definition forest_of :: "arena \<Rightarrow> ('k, 'v) tree \<Rightarrow> ('k, 'v) node list \<Rightarrow> bool" where
  "forest_of st t F =
     (sound_forest st (opt_list (t_root t) @ opt_list (t_spare t) @ F) \<and>
      (case t_spare t of None \<Rightarrow> True | Some m \<Rightarrow> ar_rc st (n_addr m) = 0))"

lemma collapse_forest:
  assumes own: "owned cp st n (opt_list (t_spare t) @ F)" and root: "t_root t = Some n"
    and spare: "case t_spare t of None \<Rightarrow> True | Some m \<Rightarrow> ar_rc st (n_addr m) = 0"
  shows "forest_of st (collapseRootIfNeeded t st) F"
proof (cases "t_count t = 0")
  case True
  have sound: "sound_forest st (n # opt_list (t_spare t) @ F)" "ar_rc st (n_addr n) = 0" using own by (auto simp: owned_def)
  show ?thesis using True sound spare root sound_sub [OF sound(1)]
    by (cases "t_spare t") (simp_all add: collapseRootIfNeeded_def forest_of_def)
next
  case count: False
  have sound: "sound_forest st (n # opt_list (t_spare t) @ F)" "ar_rc st (n_addr n) = 0" using own by (auto simp: owned_def)
  show ?thesis
  proof (cases "n_items n = [] \<and> n_kids n \<noteq> []")
    case True
    then obtain a k ks cs where n: "n = Node a [] (k # ks) cs" by (cases n; cases "n_kids n") auto
    have "sound_forest st (k # ks @ opt_list (t_spare t) @ F)"
      using own_iff [of st n "opt_list (t_spare t) @ F"] sound by (simp add: n)
    then have "sound_forest st (ks @ k # opt_list (t_spare t) @ F)" by (rule sound_perm) simp
    then have "sound_forest st (k # opt_list (t_spare t) @ F)" by (rule sound_drop)
    then show ?thesis using count spare root by (simp add: collapseRootIfNeeded_def forest_of_def n)
  next
    case False
    then have "collapseRootIfNeeded t st = t" using count root by (cases n) (auto simp: collapseRootIfNeeded_def split: list.splits)
    then show ?thesis using sound spare root by (simp add: forest_of_def)
  qed
qed

lemma collapse_fields:
  "t_copied (collapseRootIfNeeded t st) = t_copied t" "t_dataCompare (collapseRootIfNeeded t st) = t_dataCompare t"
  by (auto simp: collapseRootIfNeeded_def split: option.splits node.splits list.splits)

lemma remove_with_step:
  assumes fam: "family_ok t F st" and root: "t_root t = Some n" and del: "takes_step (t_copied t) del (contents t) (opt_list (t_spare t) @ F)"
    and res: "remove_with del t n st = (r, t', st')" and ok: "tree_ok t'"
  shows "family_step t F st t' st'"
proof -
  obtain n1 st1 where c: "cowRoot (t_copied t) n True st = (n1, st1)" by (metis surj_pair)
  note cr = copied_root [OF fam root c]
  show ?thesis
  proof (cases "del n1 st1")
    case None
    then show ?thesis using family_same [OF fam] res c by (simp add: remove_with_def)
  next
    case (Some d)
    obtain e n2 st2 where d: "d = (e, n2, st2)" by (metis prod_cases3)
    have d2: "owned (t_copied t) st2 n2 (opt_list (t_spare t) @ F)" "cow_step (t_copied t) (opt_list (t_spare t) @ F) [n1] st1 [n2] st2"
      using del cr(1-4) Some d unfolding takes_step_def by blast+
    note step = cow_step_trans [OF cr(5) d2(2)]
    define u where "u = t\<lparr>t_root := Some n2, t_count := t_count t - 1\<rparr>"
    have spare: "case t_spare u of None \<Rightarrow> True | Some m \<Rightarrow> ar_rc st2 (n_addr m) = 0"
      using family_spare [OF fam _ root] step by (auto simp: u_def cow_step_def split: option.splits)
    have t': "t' = collapseRootIfNeeded u st2" "st' = st2" using res c Some d by (auto simp: remove_with_def u_def)
    have "forest_of st2 t' F" unfolding t' by (rule collapse_forest [OF _ _ spare]) (use d2(1) in \<open>simp_all add: u_def\<close>)
    then show ?thesis using ok fam step collapse_fields [of u st2] t'
      by (simp add: family_step_def family_ok_def forest_of_def cow_step_def u_def) blast
  qed
qed

lemma PopFront_step:
  assumes fam: "family_ok t F st" and res: "PopFront t st = (r, t', st')"
  shows "family_step t F st t' st'"
proof -
  have ok: "tree_ok t'" using PopFront_ok [OF _ res] fam by (simp add: family_ok_def)
  have del: "takes_step cp (\<lambda>n1 st1. Some (nodePopFront cp n1 st1)) (contents t) G" for cp G
    using nodePopFront_step unfolding takes_step_def by blast
  show ?thesis using fam
  proof (cases rule: family_cases)
    case empty
    then show ?thesis using family_same [OF fam] res by (simp add: PopFront_def)
  next
    case (root n)
    then show ?thesis using remove_with_step [OF fam root(2) del _ ok] res by (simp add: PopFront_def)
  qed
qed

lemma PopBack_step:
  assumes fam: "family_ok t F st" and res: "PopBack t st = (r, t', st')"
  shows "family_step t F st t' st'"
proof -
  have ok: "tree_ok t'" using PopBack_ok [OF _ res] fam by (simp add: family_ok_def)
  have del: "takes_step cp (\<lambda>n1 st1. Some (nodePopBack cp n1 st1)) (contents t) G" for cp G
    using nodeDeleteMax_step unfolding takes_step_def nodePopBack_is_DeleteMax by blast
  show ?thesis using fam
  proof (cases rule: family_cases)
    case empty
    then show ?thesis using family_same [OF fam] res by (simp add: PopBack_def)
  next
    case (root n)
    then show ?thesis using remove_with_step [OF fam root(2) del _ ok] res by (simp add: PopBack_def)
  qed
qed

lemma DeleteAt_step:
  assumes fam: "family_ok t F st" and res: "DeleteAt t index st = (r, t', st')"
  shows "family_step t F st t' st'"
proof (cases "index < 0 \<or> index \<ge> t_count t")
  case True
  then show ?thesis using family_same [OF fam] res by (auto simp: DeleteAt_def)
next
  case range: False
  have ok: "tree_ok t" "tree_ok t'" using DeleteAt_ok [OF _ res] fam by (simp_all add: family_ok_def)
  obtain n where root: "t_root t = Some n" and count: "t_count t = int (length (contents t))"
    using ok range by (cases "t_root t") (auto simp: tree_ok_def contents_def)
  have "takes_step cp (\<lambda>n1 st1. nodeDeleteAt cp n1 index st1) (contents t) G" for cp G
    using nodeDeleteAt_step range count unfolding takes_step_def by (metis linorder_not_less)
  from remove_with_step [OF fam root this _ ok(2)] show ?thesis using res range root by (simp add: DeleteAt_def)
qed

lemma Clear_step:
  assumes "family_ok t F st"
  shows "family_step t F st (Clear_tree t) st"
proof -
  have "sound_forest st (opt_list (t_spare t) @ F)"
    using assms sound_drop [of st "opt_list (t_root t)"] by (simp add: family_ok_def)
  then show ?thesis using assms Clear_tree_ok(1) [of t] by (simp add: family_step_def family_ok_def) (simp add: Clear_tree_def)
qed

lemma mutate_step:
  assumes "family_ok t F st" and "mutate op t st = (out, t', st')"
  shows "family_step t F st t' st'"
  using assms PushBack_step PushFront_step InsertAt_step ReplaceAt_step PopFront_step PopBack_step DeleteAt_step Clear_step
  by (cases op) (auto simp: map_prod_def split: prod.splits)

section \<open>Reachable families\<close>

definition fresh_arena :: arena where
  "fresh_arena = \<lparr>ar_rc = (\<lambda>_. 0), ar_next = 0, ar_written = []\<rparr>"

definition clear_log :: "arena \<Rightarrow> arena" where
  "clear_log st = st\<lparr>ar_written := []\<rparr>"

inductive family :: "('k, 'v) tree \<Rightarrow> ('k, 'v) tree list \<Rightarrow> arena \<Rightarrow> bool" where
  start: "family zero_tree [] fresh_arena"
| change: "family t S st \<Longrightarrow> mutate op t (clear_log st) = (out, t', st') \<Longrightarrow> family t' S st'"
| snapshot: "family t S st \<Longrightarrow> CopyInto t st = (t', s, st') \<Longrightarrow> family t' (s # S) st'"
| release: "family t (S1 @ s # S2) st \<Longrightarrow> Release_tree s st = (s', st') \<Longrightarrow> family t (S1 @ S2) st'"

lemma sound_same:
  assumes "ar_rc st' = ar_rc st" and "ar_next st' = ar_next st"
  shows "sound_forest st' R = sound_forest st R" "rc_quiet cp st' = rc_quiet cp st"
  using assms by (simp_all add: sound_forest_def rc_quiet_def)

lemma family_clear_log: "family_ok t F (clear_log st) = family_ok t F st"
  by (simp add: family_ok_def clear_log_def sound_same [of "st\<lparr>ar_written := []\<rparr>" st] split: option.split)

lemma CopyInto_step:
  assumes fam: "family_ok t F st" and res: "CopyInto t st = (t', s, st')"
  shows "family_ok t' (opt_list (t_root s) @ F) st'"
proof -
  have t': "t' = t\<lparr>t_copied := True\<rparr>" "t_root s = t_root t" using res by (auto simp: CopyInto_def Let_def)
  have ok: "tree_ok t'" using CopyInto_ok(1) [OF _ res] fam by (simp add: family_ok_def)
  show ?thesis
  proof (cases "t_root t")
    case None
    then show ?thesis using fam res t' ok by (auto simp: family_ok_def CopyInto_def Let_def rc_quiet_def)
  next
    case (Some n)
    have st': "st' = rc_add (n_addr n) 1 st" using res Some by (simp add: CopyInto_def Let_def)
    have "sound_forest st (n # opt_list (t_spare t) @ F)" using fam Some by (simp add: family_ok_def)
    from sound_dup [OF this, of n] have "sound_forest st' (n # n # opt_list (t_spare t) @ F)" by (simp add: st')
    then have sound: "sound_forest st' (n # opt_list (t_spare t) @ n # F)" by (rule sound_perm) simp
    have "case t_spare t of None \<Rightarrow> True | Some m \<Rightarrow> ar_rc st' (n_addr m) = 0"
      using family_spare [OF fam _ Some] by (auto simp: st' split: option.splits)
    then show ?thesis using sound fam ok t' Some by (simp add: family_ok_def rc_quiet_def)
  qed
qed

lemma Release_step:
  assumes fam: "family_ok t (F1 @ opt_list (t_root s) @ F2) st" and res: "Release_tree s st = (s', st')"
    and quiet: "t_root s \<noteq> None \<longrightarrow> t_copied t"
  shows "family_ok t (F1 @ F2) st'"
proof (cases "t_root s")
  case None
  then show ?thesis using fam res by (simp add: Release_tree_def)
next
  case (Some n)
  let ?R = "opt_list (t_root t) @ opt_list (t_spare t) @ F1 @ F2"
  have st': "st' = releaseNode n st" using res Some by (simp add: Release_tree_def)
  have "sound_forest st (opt_list (t_root t) @ opt_list (t_spare t) @ F1 @ n # F2)" using fam Some by (simp add: family_ok_def)
  then have all: "sound_forest st (n # ?R)" by (rule sound_perm) simp
  have sound: "sound_forest st' ?R" using release_sound [OF all] by (simp add: st')
  have "ar_rc st' (n_addr m) = 0" if m: "t_spare t = Some m" for m
  proof -
    have "sound_forest st (m # n # opt_list (t_root t) @ F1 @ F2)" by (rule sound_perm [OF all]) (simp add: m)
    moreover have "ar_rc st (n_addr m) = 0" using fam m by (simp add: family_ok_def)
    ultimately have "n_addr m \<notin> addrs [n]" using own_iff [of st m "n # opt_list (t_root t) @ F1 @ F2"] by (auto simp: free_at_def)
    then show ?thesis using release_frame(3) [of "n_addr m" n st] \<open>ar_rc st (n_addr m) = 0\<close> by (simp add: st')
  qed
  then show ?thesis using fam sound quiet Some by (auto simp: family_ok_def rc_quiet_def split: option.splits)
qed

lemma mutate_copied:
  assumes "mutate op t st = (out, t', st')"
  shows "t_copied t' = t_copied t"
  using assms
  by (cases op)
    (auto simp: PushBack_def PushFront_def InsertAt_def ReplaceAt_def PopFront_def PopBack_def DeleteAt_def Clear_tree_def
      push_with_def insertFirstItem_def remove_with_def collapse_fields split: prod.splits option.splits if_splits)

lemma family_invariant:
  "family t S st \<Longrightarrow> family_ok t (snap_nodes S) st \<and> (S \<noteq> [] \<longrightarrow> t_copied t)"
proof (induction rule: family.induct)
  case start
  show ?case by (simp add: family_ok_def snap_nodes_def fresh_arena_def rc_quiet_def sound_forest_def one_object_def) (simp add: zero_tree_def)
next
  case (change t S st op out t' st')
  then show ?case
    using mutate_step [of t "snap_nodes S" "clear_log st"] mutate_copied [OF change(2)] by (auto simp: family_clear_log family_step_def)
next
  case (snapshot t S st t' s st')
  have "t_copied t'" using snapshot(2) by (auto simp: CopyInto_def Let_def)
  then show ?case using CopyInto_step [OF _ snapshot(2)] snapshot(3) by (simp add: snap_nodes_def)
next
  case (release t S1 s S2 st s' st')
  then show ?case using Release_step [of t "snap_nodes S1" s "snap_nodes S2" st s' st'] by (simp add: snap_nodes_def)
qed

definition tree_addrs :: "('k, 'v) tree \<Rightarrow> nat set" where
  "tree_addrs s = addrs (opt_list (t_root s))"

lemma snap_addrs: "s \<in> set S \<Longrightarrow> tree_addrs s \<subseteq> addrs (snap_nodes S)"
  by (auto simp: tree_addrs_def snap_nodes_def addrs_def all_objs_def)

text \<open>The facts that run short histories on concrete trees.\<close>

lemmas tree_run = PushBack_def PopFront_def live_root_def zero_tree_def fresh_arena_def clear_log_def insertFirstItem_def newNode_def
  wrote_def CopyInto_def Let_def push_with_def cowRoot_def cow0_def copyNode_def rc_add_def ensureRoot_def insertItemAt_def
  map_prod_def maxItems_def fanout_def remove_with_def collapseRootIfNeeded_def leaf_def

text \<open>(C16) Copy-on-write isolation. Start from an empty tree and interleave in any order pushes,
  pops, insertions, replacements and deletions on it, snapshots of it and releases of snapshots.
  Whatever operation comes next on the tree, none of the nodes it writes in place belongs to a
  snapshot that is still live, so a reader of a snapshot without the queue's lock sees exactly the
  items that were there when the snapshot was taken; and the result of the operation and the new
  contents are those of the same operation on a list.\<close>

theorem snapshots_never_written:
  assumes "family t S st" and "mutate op t (clear_log st) = (out, t', st')" and "s \<in> set S"
  shows "set (ar_written st') \<inter> tree_addrs s = {} \<and> list_op op (contents t) = (out, contents t')"
proof -
  have inv: "family_ok t (snap_nodes S) (clear_log st)" using family_invariant [OF assms(1)] by (simp add: family_clear_log)
  from mutate_step [OF this assms(2)] snap_addrs [OF assms(3)] have "set (ar_written st') \<inter> tree_addrs s = {}"
    by (auto simp: family_step_def clear_log_def)
  then show ?thesis using mutate_contents [OF _ _ assms(2)] inv by (simp add: family_ok_def)
qed

theorem snapshots_never_written_witness:
  "\<exists>(t :: (nat, nat) tree) s st out t' st'. family t [s] st \<and> mutate (OpPushBack (2, 7)) t (clear_log st) = (out, t', st') \<and>
     set (ar_written st') \<inter> tree_addrs s = {} \<and> ar_written st' \<noteq> [] \<and> contents s = [(1, 5)] \<and> contents t' = [(1, 5), (2, 7)]"
proof -
  obtain out1 t1 st1 where 1: "mutate (OpPushBack (1 :: nat, 5 :: nat)) zero_tree (clear_log fresh_arena) = (out1, t1, st1)"
    by (metis prod_cases3)
  have f1: "family t1 [] st1" using family.change [OF family.start 1] .
  obtain t2 s st2 where 2: "CopyInto t1 st1 = (t2, s, st2)" by (metis prod_cases3)
  have f2: "family t2 [s] st2" using family.snapshot [OF f1 2] .
  obtain out t' st' where 3: "mutate (OpPushBack (2, 7)) t2 (clear_log st2) = (out, t', st')" by (metis prod_cases3)
  have t1: "contents t1 = [(1, 5)]" "tree_ok t1"
    using mutate_contents [OF _ _ 1] by (simp_all add: zero_tree_def [THEN arg_cong, of t_dataCompare])
  then have s: "contents s = [(1, 5)]" "contents t2 = [(1, 5)]" using CopyInto_ok [OF t1(2) 2] by simp_all
  have log: "ar_written st' \<noteq> []"
    using 1 2 3 by (auto simp: tree_run split: prod.splits if_splits)
  have "set (ar_written st') \<inter> tree_addrs s = {}" "contents t' = [(1, 5), (2, 7)]"
    using snapshots_never_written [OF f2 3, of s] s by auto
  then show ?thesis using f2 3 log s(1) by blast
qed

text \<open>(C23) The spare leaf is not copied on write. A tree that was popped empty keeps its last leaf
  as \<open>spare\<close>, and \<open>CopyInto\<close> copies that pointer into the new tree without counting it. The first
  push into either of the two empty trees takes the leaf as its root: both roots are then one node
  object, and the second push overwrites the item of the first.\<close>

theorem copied_spare_shared:
  assumes "family t S st" and "t_root t = None" and "t_spare t = Some m" and "CopyInto t st = (t1, s1, st1)"
    and "PushBack t1 e st1 = (b1, t2, st2)" and "PushBack s1 e' st2 = (b2, s2, st3)"
  shows "b1 \<and> b2 \<and> contents t2 = [e] \<and> contents s2 = [e'] \<and>
    map_option n_addr (t_root t2) = map_option n_addr (t_root s2) \<and> n_addr m \<in> set (ar_written st3)"
proof -
  have "t_count t = 0" using family_invariant [OF assms(1)] assms(2) by (simp add: family_ok_def tree_ok_def contents_def)
  then show ?thesis using assms(2-6)
    by (auto simp: CopyInto_def Let_def PushBack_def live_root_def insertFirstItem_def contents_def wrote_def)
qed

theorem copied_spare_shared_witness:
  "\<exists>(t :: (nat, nat) tree) st m t1 s1 st1 b1 t2 st2 b2 s2 st3. family t [] st \<and> t_spare t = Some m \<and>
     CopyInto t st = (t1, s1, st1) \<and> PushBack t1 (1, 1) st1 = (b1, t2, st2) \<and> PushBack s1 (2, 2) st2 = (b2, s2, st3) \<and>
     contents t2 = [(1, 1)] \<and> contents s2 = [(2, 2)] \<and> map_option n_addr (t_root t2) = map_option n_addr (t_root s2)"
proof -
  obtain out1 t1 st1 where 1: "mutate (OpPushBack (0 :: nat, 0 :: nat)) zero_tree (clear_log fresh_arena) = (out1, t1, st1)"
    by (metis prod_cases3)
  obtain out2 t2 st2 where 2: "mutate OpPopFront t1 (clear_log st1) = (out2, t2, st2)" by (metis prod_cases3)
  have f: "family t2 [] st2" using family.change [OF family.change [OF family.start 1] 2] .
  have m: "t_root t2 = None" "t_spare t2 = Some (Node 0 [] [] [])" using 1 2 by (auto simp: tree_run split: prod.splits if_splits)
  obtain t3 s3 st3 where 3: "CopyInto t2 st2 = (t3, s3, st3)" by (metis prod_cases3)
  obtain b4 t4 st4 where 4: "PushBack t3 (1, 1) st3 = (b4, t4, st4)" by (metis prod_cases3)
  obtain b5 s5 st5 where 5: "PushBack s3 (2, 2) st4 = (b5, s5, st5)" by (metis prod_cases3)
  show ?thesis using f m 3 4 5 copied_spare_shared [OF f m 3 4 5] by blast
qed

end
