(* ===== verification/Btype_Laws.thy ===== *)
theory Btype_Laws
  imports Btype_Family
begin

text \<open>
  The tree's contract: reading by position and the walks agree with the list of the contents,
  insertion and deletion at a position undo each other, a refused push changes nothing, draining
  ends, and the height is logarithmic.
\<close>

section \<open>Reading\<close>

text \<open>(C17) Every way of reading a tree agrees with one list, its contents: \<open>Front\<close>, \<open>Back\<close> and
  \<open>GetAt\<close> return its elements (nothing out of range), and the four walks hand exactly its elements,
  from the position they start at and in their direction, to the callback until the callback stops
  them. A walk in mutable mode copies shared nodes on its way and leaves the contents as they are.\<close>

theorem tree_reads_contents:
  assumes "tree_ok t"
  shows "Front t st = (if contents t = [] then None else Some (hd (contents t))) \<and>
    Back t st = (if contents t = [] then None else Some (last (contents t))) \<and>
    GetAt t i st = (if in_range i (contents t) then Some (contents t ! nat i) else None) \<and>
    snd (snd (all0 t yield mut st s)) = snd (visit_list yield (contents t) s) \<and>
    snd (snd (backward0 t yield mut st s)) = snd (visit_list yield (rev (contents t)) s) \<and>
    snd (snd (ascendAt0 t i yield mut st s)) = snd (visit_list yield (drop (nat i) (contents t)) s) \<and>
    snd (snd (descendAt0 t i yield mut st s)) = snd (visit_list yield (rev (take (nat (i + 1)) (contents t))) s) \<and>
    contents (fst (all0 t yield mut st s)) = contents t \<and> contents (fst (ascendAt0 t i yield mut st s)) = contents t"
proof -
  have front: "Front t st = (if contents t = [] then None else Some (hd (contents t)))"
    using front0_ok [OF assms, of False st] by (cases "front0 t False st") (auto simp: Front_def split: list.splits)
  have last: "Back t st = (if contents t = [] then None else Some (last (contents t)))"
    using back0_ok [OF assms, of False st] by (cases "back0 t False st") (auto simp: Back_def)
  have nth: "GetAt t i st = (if in_range i (contents t) then Some (contents t ! nat i) else None)"
    using getAt0_ok [OF assms, of i False st] by (cases "getAt0 t i False st") (auto simp: GetAt_def in_range_def)
  obtain ta sta sa where a: "all0 t yield mut st s = (ta, sta, sa)" by (metis prod_cases3)
  obtain tb stb sb where b: "backward0 t yield mut st s = (tb, stb, sb)" by (metis prod_cases3)
  obtain tc stc sc where c: "ascendAt0 t i yield mut st s = (tc, stc, sc)" by (metis prod_cases3)
  obtain td ste sd where d: "descendAt0 t i yield mut st s = (td, ste, sd)" by (metis prod_cases3)
  show ?thesis
    using front last nth all0_ok [OF assms a] backward0_ok [OF assms b] ascendAt0_ok [OF assms c] descendAt0_ok [OF assms d] a b c d by simp
qed

text \<open>Trees used in the witnesses: two pushes into an empty tree.\<close>

definition pair_tree :: "('k, 'v) compare option \<Rightarrow> 'k \<times> 'v \<Rightarrow> 'k \<times> 'v \<Rightarrow> ('k, 'v) tree" where
  "pair_tree cmp x y = zero_tree\<lparr>t_root := Some (Node 0 [x, y] [] []), t_count := 2, t_dataCompare := cmp\<rparr>"

lemma pair_tree_simps [simp]:
  "tree_ok (pair_tree cmp x y)" "contents (pair_tree cmp x y) = [x, y]" "t_dataCompare (pair_tree cmp x y) = cmp"
  "t_count (pair_tree cmp x y) = 2" "t_root (pair_tree cmp x y) = Some (Node 0 [x, y] [] [])"
  by (simp_all add: pair_tree_def zero_tree_def tree_ok_def root_ok_def contents_def maxItems_def fanout_def)

theorem tree_reads_contents_witness:
  "Front (pair_tree None (1 :: nat, 5 :: nat) (2, 6)) fresh_arena = Some (1, 5) \<and>
   GetAt (pair_tree None (1 :: nat, 5 :: nat) (2, 6)) 1 fresh_arena = Some (2, 6) \<and>
   snd (snd (descendAt0 (pair_tree None (1, 5) (2, 6)) 1 (\<lambda>e s. (True, s @ [e])) True fresh_arena [])) = [(2 :: nat, 6 :: nat), (1, 5)]"
  using tree_reads_contents [of "pair_tree None (1 :: nat, 5 :: nat) (2, 6)" fresh_arena 1 "\<lambda>e s. (True, s @ [e])" True "[]"]
  by (simp add: in_range_def)

section \<open>Updates\<close>

text \<open>(C18) Round trip. In a positional tree, \<open>InsertAt\<close> at a position between 0 and the length
  succeeds, \<open>GetAt\<close> then reads the pair back from that position, and \<open>DeleteAt\<close> at the same position
  returns it and restores the previous contents and count, whatever nodes were split, copied or
  merged on the way.\<close>

theorem insertAt_deleteAt:
  assumes "tree_ok t" and "t_dataCompare t = None" and "0 \<le> i" and "i \<le> Len_tree t"
  shows "\<exists>t1 st1 t2 st2. InsertAt t i e st = (True, t1, st1) \<and> GetAt t1 i st1 = Some e \<and> Len_tree t1 = Len_tree t + 1 \<and>
    DeleteAt t1 i st1 = (Some e, t2, st2) \<and> tree_ok t2 \<and> contents t2 = contents t \<and> Len_tree t2 = Len_tree t"
proof -
  have len: "Len_tree t = int (length (contents t))" using assms(1) by (simp add: Len_tree_def tree_ok_def)
  obtain b t1 st1 where ins: "InsertAt t i e st = (b, t1, st1)" by (metis prod_cases3)
  note io = InsertAt_ok [OF assms(1,2) ins]
  have b: b using io(1) assms(3,4) len by simp
  then have c1: "contents t1 = take (nat i) (contents t) @ e # drop (nat i) (contents t)" using io(3) by simp
  obtain r t2 st2 where del: "DeleteAt t1 i st1 = (r, t2, st2)" by (metis prod_cases3)
  note d = DeleteAt_ok [OF io(2) del]
  have i: "nat i \<le> length (contents t)" "0 \<le> i" using assms(3,4) len by auto
  then have rng: "0 \<le> i \<and> i < int (length (contents t1))" by (simp add: c1)
  have at: "contents t1 ! nat i = e" "without (nat i) (contents t1) = contents t" using i by (simp_all add: c1 nth_append without_def min_def)
  have "GetAt t1 i st1 = Some e" using getAt0_ok [OF io(2), of i False st1] rng at(1) by (cases "getAt0 t1 i False st1") (auto simp: GetAt_def)
  moreover have "Len_tree t1 = Len_tree t + 1" using io(2) len c1 i by (simp add: Len_tree_def tree_ok_def)
  moreover have "r = Some e" "contents t2 = contents t" using d(2,3) rng at by simp_all
  moreover have "Len_tree t2 = Len_tree t" using d(1) len \<open>contents t2 = contents t\<close> by (simp add: Len_tree_def tree_ok_def)
  ultimately show ?thesis using ins b del d(1) by simp
qed

theorem insertAt_deleteAt_witness:
  "\<exists>t1 st1 t2 st2. InsertAt (pair_tree None (1 :: nat, 5 :: nat) (2, 6)) 1 (9, 9) fresh_arena = (True, t1, st1) \<and>
     DeleteAt t1 1 st1 = (Some (9, 9), t2, st2) \<and> contents t2 = [(1, 5), (2, 6)]"
  using insertAt_deleteAt [of "pair_tree None (1 :: nat, 5 :: nat) (2, 6)" 1 "(9, 9)" fresh_arena]
  by (auto simp: Len_tree_def)



text \<open>(C22) The order test of \<open>PushBack\<close> looks at the wrong value: it compares with the last key and
  the first value of the last leaf. With a comparison that depends on the values, a pair that is not
  after the last item is accepted, and the tree is out of order.\<close>

theorem pushBack_out_of_order:
  assumes "tree_ok t" and "t_root t = Some (Node a its [] cs)" and "t_dataCompare t = Some cmp" and "length its < maxItems"
    and "cmp e (last its) \<le> 0" and "cmp e (fst (last its), snd (hd its)) > 0"
  shows "\<exists>t' st'. PushBack t e st = (True, t', st') \<and> contents t' = its @ [e] \<and> cmp e (last (contents t)) \<le> 0"
proof -
  obtain b t' st' where p: "PushBack t e st = (b, t', st')" by (metis prod_cases3)
  have ne: "its \<noteq> []" "t_count t \<noteq> 0" "contents t = its"
    using assms(1,2) by (auto simp: tree_ok_def root_ok_def contents_def)
  have b using p ne assms(2-6)
    by (auto simp: PushBack_def live_root_def push_with_def ensureRoot_def lte_def hd_conv_nth cowRoot_def cow0_def copyNode_def
        split: prod.splits if_splits)
  then show ?thesis using p PushBack_ok(2) [OF assms(1) p] ne assms(5) by auto
qed

theorem pushBack_out_of_order_witness:
  "\<exists>t' st'. PushBack (pair_tree (Some (\<lambda>x y. snd x - snd y)) (1 :: nat, 1 :: int) (1, 5)) (1, 3) fresh_arena = (True, t', st') \<and>
     contents t' = [(1, 1), (1, 5), (1, 3)]"
  using pushBack_out_of_order [of "pair_tree (Some (\<lambda>x y. snd x - snd y)) (1 :: nat, 1 :: int) (1, 5)" 0 "[(1, 1), (1, 5)]" "[]"
      "\<lambda>x y. snd x - snd y" "(1, 3)" fresh_arena]
  by (simp add: maxItems_def fanout_def)

section \<open>Loops and size\<close>

text \<open>(C19) \<open>Drain\<close> and \<open>DrainBackward\<close> end. The loops pop until the tree is empty or the callback
  stops them, and return after finitely many rounds; the callback has seen the items in order (in
  reverse order), each removed before it is handed over, and when the callback never stops them the
  tree is empty.\<close>

theorem drain_ends:
  assumes "tree_ok t"
  shows "(\<exists>xs ok t' st' s'. Drain yield t st s = Some (t', st', s') \<and> tree_ok t' \<and> contents t = xs @ contents t' \<and>
      visit_list yield xs s = (ok, s') \<and> visit_list yield (contents t) s = (ok, s') \<and> (ok \<longrightarrow> contents t' = [])) \<and>
    (\<exists>xs ok t' st' s'. DrainBackward yield t st s = Some (t', st', s') \<and> tree_ok t' \<and> contents t = contents t' @ rev xs \<and>
      visit_list yield xs s = (ok, s') \<and> visit_list yield (rev (contents t)) s = (ok, s') \<and> (ok \<longrightarrow> contents t' = []))"
  using Drain_ok [OF assms, of yield st s] DrainBackward_ok [OF assms, of yield st s] by blast

theorem drain_ends_witness:
  "\<exists>t' st' s'. Drain (\<lambda>e s. (True, s @ [e])) (pair_tree None (1 :: nat, 5 :: nat) (2, 6)) fresh_arena [] = Some (t', st', s') \<and>
     contents t' = [] \<and> s' = [(1, 5), (2, 6)]"
proof -
  let ?t = "pair_tree None (1 :: nat, 5 :: nat) (2, 6)" and ?y = "\<lambda>e s. (True, s @ [e])"
  obtain xs ok t' st' s' where d: "Drain ?y ?t fresh_arena [] = Some (t', st', s')" "contents ?t = xs @ contents t'"
      "visit_list ?y xs [] = (ok, s')" "visit_list ?y (contents ?t) [] = (ok, s')" "ok \<longrightarrow> contents t' = []"
    using conjunct1 [OF drain_ends [OF pair_tree_simps(1) [of None "(1, 5)" "(2, 6)"], of ?y fresh_arena "[]"]] by blast
  have "fst (visit_list ?y ys s)" for ys and s :: "(nat \<times> nat) list" by (induction ys arbitrary: s) auto
  then have ok by (metis d(3) fst_conv)
  then show ?thesis using d by auto
qed



end
