(* ===== verification/Btype_Backing.thy ===== *)
theory Btype_Backing
  imports Queue_API Btype_Family
begin

text \<open>
  \<open>internal/backings/btype/btype_fifo.go\<close>: the in-memory FIFO backing on the positional B-tree.
  Every method of the file is one definition on a record with the fields of \<open>Backing\<close>; the field
  \<open>b_mem\<close> is the memory of the tree's nodes. The keys of the tree are of the empty type \<open>omit\<close>, here
  \<open>unit\<close>. A range loop over \<open>f.t.All()\<close> is the walk \<open>all0\<close> with the loop's body as callback: the
  callback carries the variables the body assigns, and stops the walk on \<open>break\<close>, \<open>return\<close> and when
  the caller's code unwinds.
\<close>

section \<open>State\<close>

record ('a, 'w) btype =
  b_lk :: qlock
  b_t :: "(unit, 'a) tree"
  b_mem :: arena
  b_maxSize :: int
  b_hydrated :: int
  b_inflight :: int
  b_notFull :: signal
  b_notEmpty :: signal
  b_closed :: bool
  b_backup :: "('a, 'w) backup option"

definition bt_New :: "('a, 'w) btype" where
  "bt_New = \<lparr>b_lk = new_qlock, b_t = zero_tree, b_mem = fresh_arena, b_maxSize = 0, b_hydrated = 0,
     b_inflight = 0, b_notFull = NewSignal, b_notEmpty = NewSignal, b_closed = False,
     b_backup = None\<rparr>"

definition bt_len :: "('a, 'w) btype \<Rightarrow> int" where
  "bt_len f = Len_tree (b_t f)"

definition bt_walk :: "('a, 'w) btype \<Rightarrow> ('a \<Rightarrow> 's \<Rightarrow> bool \<times> 's) \<Rightarrow> 's \<Rightarrow> 's" where
  "bt_walk f body s = (case all0 (b_t f) (\<lambda>(_, v). body v) False (b_mem f) s of (_, _, s') \<Rightarrow> s')"

definition bt_PushBack :: "'a \<Rightarrow> ('a, 'w) btype \<Rightarrow> ('a, 'w) btype" where
  "bt_PushBack v f = (case PushBack (b_t f) ((), v) (b_mem f) of (_, t, st) \<Rightarrow> f\<lparr>b_t := t, b_mem := st\<rparr>)"

definition bt_PopFront :: "'a \<Rightarrow> ('a, 'w) btype \<Rightarrow> 'a \<times> ('a, 'w) btype" where
  "bt_PopFront zero f =
     (case PopFront (b_t f) (b_mem f) of (r, t, st) \<Rightarrow>
        (case r of None \<Rightarrow> zero | Some (_, v) \<Rightarrow> v, f\<lparr>b_t := t, b_mem := st\<rparr>))"

definition bt_DeleteAt :: "int \<Rightarrow> ('a, 'w) btype \<Rightarrow> ('a, 'w) btype" where
  "bt_DeleteAt i f = (case DeleteAt (b_t f) i (b_mem f) of (_, t, st) \<Rightarrow> f\<lparr>b_t := t, b_mem := st\<rparr>)"

definition bt_SetQueueLock :: "qlock \<Rightarrow> ('a, 'w) btype \<Rightarrow> ('a, 'w) btype" where
  "bt_SetQueueLock lk f = f\<lparr>b_lk := lk\<rparr>"

definition bt_SetMaxBatch :: "int \<Rightarrow> ('a, 'w) btype \<Rightarrow> goerr option \<times> ('a, 'w) btype" where
  "bt_SetMaxBatch n f = (if n < 1 then (bad_option, f) else (None, f))"

definition bt_SetMaxSize :: "int \<Rightarrow> ('a, 'w) btype \<Rightarrow> goerr option \<times> ('a, 'w) btype" where
  "bt_SetMaxSize n f = (if n < 0 then (bad_option, f) else (None, f\<lparr>b_maxSize := n\<rparr>))"

abbreviation bt_lock :: "('a, 'w) btype \<Rightarrow> ('a, 'w) btype" where
  "bt_lock f \<equiv> f\<lparr>b_lk := qlock_Lock (b_lk f)\<rparr>"

abbreviation bt_unlock :: "('a, 'w) btype \<Rightarrow> ('a, 'w) btype" where
  "bt_unlock f \<equiv> f\<lparr>b_lk := qlock_Unlock (b_lk f)\<rparr>"

abbreviation bt_rlock :: "('a, 'w) btype \<Rightarrow> ('a, 'w) btype" where
  "bt_rlock f \<equiv> f\<lparr>b_lk := qlock_RLock (b_lk f)\<rparr>"

abbreviation bt_runlock :: "('a, 'w) btype \<Rightarrow> ('a, 'w) btype" where
  "bt_runlock f \<equiv> f\<lparr>b_lk := qlock_RUnlock (b_lk f)\<rparr>"

section \<open>Hydrate\<close>

fun bt_hydrate_loop :: "'a item \<Rightarrow> 'w ctx \<Rightarrow> ('a, 'w) backup \<Rightarrow> 'a ranged list \<Rightarrow>
    ('a, 'w) btype \<times> 'w \<Rightarrow> goerr option outcome \<times> ('a, 'w) btype \<times> 'w" where
  "bt_hydrate_loop it c b [] (f, w) = (Ret None, f, w)"
| "bt_hydrate_loop it c b (RangeUnwinds # rs) (f, w) = (Unwinds, f, w)"
| "bt_hydrate_loop it c b (Yielded v (Some e) # rs) (f, w) = (Ret (WrapBackup (Some e)), f, w)"
| "bt_hydrate_loop it c b (Yielded v None # rs) (f, w) =
     (case ValidateKindOne it False v of
        Some e \<Rightarrow> (Ret (Some e), f, w)
      | None \<Rightarrow>
          (case bk_OnLoad b c v w of
             (Unwound, w1) \<Rightarrow> (Unwinds, f, w1)
           | (Returned (Some e), w1) \<Rightarrow> (Ret (WrapBackup (Some e)), f, w1)
           | (Returned None, w1) \<Rightarrow>
               bt_hydrate_loop it c b rs
                 ((bt_PushBack v f)\<lparr>b_hydrated := b_hydrated f + 1\<rparr>, w1)))"

definition bt_Hydrate :: "'a item \<Rightarrow> 'w ctx \<Rightarrow> ('a, 'w) backup \<Rightarrow>
    ('a, 'w) btype \<times> 'w \<Rightarrow> goerr option outcome \<times> ('a, 'w) btype \<times> 'w" where
  "bt_Hydrate it c b fw =
     (case fw of (f, w) \<Rightarrow>
       (case bt_hydrate_loop it c b (bk_RangeAll b c w) (bt_lock f, w) of
          (Ret None, f1, w1) \<Rightarrow> (Ret None, bt_unlock (f1\<lparr>b_backup := Some b\<rparr>), w1)
        | (r, f1, w1) \<Rightarrow> (r, bt_unlock f1, w1)))"

section \<open>Push\<close>

definition bt_cells :: "('a, 'w) btype \<Rightarrow> admit_cells" where
  "bt_cells f = (b_lk f, b_inflight f, b_notFull f)"

definition bt_put_cells :: "admit_cells \<Rightarrow> ('a, 'w) btype \<Rightarrow> ('a, 'w) btype" where
  "bt_put_cells cells f =
     (case cells of (lk, n, s) \<Rightarrow> f\<lparr>b_lk := lk, b_inflight := n, b_notFull := s\<rparr>)"

text \<open>The exit of a push that gives its reservation back.\<close>

definition bt_abandon :: "(('a, 'w) btype, 'w) opoptions \<Rightarrow> ('a, 'w) btype \<Rightarrow> ('a, 'w) btype" where
  "bt_abandon opts f = bt_unlock (f\<lparr>b_notFull := ReleaseReservation opts (b_notFull f)\<rparr>)"

text \<open>Storing the batch, and waking a parked consumer when the queue was empty.\<close>

definition bt_store :: "'a list \<Rightarrow> ('a, 'w) btype \<Rightarrow> ('a, 'w) btype" where
  "bt_store vs f =
     (let wasEmpty = (bt_len f = 0); f1 = fold bt_PushBack vs f
      in if wasEmpty \<and> Signal_HasWaiters (b_notEmpty f1)
         then f1\<lparr>b_notEmpty := Signal_Signal (b_notEmpty f1)\<rparr> else f1)"

text \<open>From the side effect on, with the write lock held.\<close>

definition bt_push_commit :: "'w ctx \<Rightarrow> 'a list \<Rightarrow>
    (('a, 'w) btype, 'w) opoptions \<Rightarrow> ('a, 'w) btype \<times> 'w \<Rightarrow> goerr option attempt \<times> ('a, 'w) btype \<times> 'w" where
  "bt_push_commit c vs opts fw =
     (case RunSideEffectLocked (oo_SideEffect opts) (bt_abandon opts) fw of
        (Unwinds, f1, w1) \<Rightarrow> (Done Unwinds, f1, w1)
      | (Ret (Some e), f1, w1) \<Rightarrow> (returns (Some e), bt_abandon opts f1, w1)
      | (Ret None, f1, w1) \<Rightarrow>
          (case (case b_backup f1 of
                   None \<Rightarrow> (Ret None, f1, w1)
                 | Some b \<Rightarrow> RunBackup (bk_Push b c vs) (bt_abandon opts) (f1, w1)) of
             (Unwinds, f2, w2) \<Rightarrow> (Done Unwinds, f2, w2)
           | (Ret (Some e), f2, w2) \<Rightarrow> (returns (Some e), bt_abandon opts f2, w2)
           | (Ret None, f2, w2) \<Rightarrow> (returns None, bt_unlock (bt_store vs f2), w2)))"

text \<open>One round of the loop of \<open>Push\<close>.\<close>

definition bt_push_round :: "nat \<Rightarrow> 'w ctx \<Rightarrow> 'a list \<Rightarrow>
    (('a, 'w) btype, 'w) opoptions \<Rightarrow> ('a, 'w) btype \<times> 'w \<Rightarrow> goerr option attempt \<times> ('a, 'w) btype \<times> 'w" where
  "bt_push_round g c vs opts fw =
     (case fw of (f0, w) \<Rightarrow>
       (let f = bt_lock f0 in
        if b_closed f then (returns err_closed, bt_unlock f, w)
        else if b_maxSize f > 0 \<and> int (length vs) > b_maxSize f
        then (returns (Some (Sentinel ErrBatchTooLarge)), bt_unlock f, w)
        else if b_maxSize f = 0 \<or>
          bt_len f - b_hydrated f + b_inflight f + int (length vs) \<le> b_maxSize f
        then (case oo_OnAdmit opts of
            None \<Rightarrow> bt_push_commit c vs opts (f, w)
          | Some hook \<Rightarrow>
              (case RunOnAdmit bt_cells bt_put_cells (int (length vs)) hook (f, w) of
                 (Unwinds, f1, w1) \<Rightarrow> (Done Unwinds, f1, w1)
               | (Ret (Some e), f1, w1) \<Rightarrow> (returns (Some e), bt_unlock f1, w1)
               | (Ret None, f1, w1) \<Rightarrow>
                   if b_closed f1 then (returns err_closed, bt_abandon opts f1, w1)
                   else bt_push_commit c vs opts (f1, w1)))
        else (Parked, bt_unlock (f\<lparr>b_notFull := Wait_register g (b_notFull f)\<rparr>), w)))"

definition bt_ClosedOrCause :: "'w ctx \<Rightarrow> ('a, 'w) btype \<times> 'w \<Rightarrow> goerr option \<times> ('a, 'w) btype \<times> 'w" where
  "bt_ClosedOrCause c fw =
     (case fw of (f, w) \<Rightarrow>
       (let f1 = bt_rlock f; closed = b_closed f1; f2 = bt_runlock f1 in
        (if closed then err_closed else Some (ctx_cause c w), f2, w)))"

text \<open>What a goroutine parked on \<open>notFull\<close> (on \<open>notEmpty\<close>) does when it runs again.\<close>

definition bt_resume_notFull :: "nat \<Rightarrow> 'w ctx \<Rightarrow> (goerr option \<Rightarrow> 'r) \<Rightarrow> ('a, 'w) btype \<times> 'w \<Rightarrow>
    'r option \<times> ('a, 'w) btype \<times> 'w" where
  "bt_resume_notFull g c mk fw =
     (case fw of (f, w) \<Rightarrow>
       (case Wait_return g c w (b_notFull f) of
          (s, None) \<Rightarrow> (None, f\<lparr>b_notFull := s\<rparr>, w)
        | (s, Some _) \<Rightarrow>
            (case bt_ClosedOrCause c (f\<lparr>b_notFull := s\<rparr>, w) of (e, fw1) \<Rightarrow> (Some (mk e), fw1))))"

definition bt_resume_notEmpty :: "nat \<Rightarrow> 'w ctx \<Rightarrow> (goerr option \<Rightarrow> 'r) \<Rightarrow> ('a, 'w) btype \<times> 'w \<Rightarrow>
    'r option \<times> ('a, 'w) btype \<times> 'w" where
  "bt_resume_notEmpty g c mk fw =
     (case fw of (f, w) \<Rightarrow>
       (case Wait_return g c w (b_notEmpty f) of
          (s, None) \<Rightarrow> (None, f\<lparr>b_notEmpty := s\<rparr>, w)
        | (s, Some _) \<Rightarrow>
            (case bt_ClosedOrCause c (f\<lparr>b_notEmpty := s\<rparr>, w) of (e, fw1) \<Rightarrow> (Some (mk e), fw1))))"

definition bt_Push :: "'a item \<Rightarrow> nat \<Rightarrow> 'w ctx \<Rightarrow> 'a list \<Rightarrow>
    (('a, 'w) btype, 'w) opoption list \<Rightarrow> (('a, 'w) btype \<times> 'w \<Rightarrow> ('a, 'w) btype \<times> 'w) list \<Rightarrow>
    ('a, 'w) btype \<times> 'w \<Rightarrow> goerr option attempt \<times> ('a, 'w) btype \<times> 'w" where
  "bt_Push it g c vs options env fw =
     resolve CallPush options (Done Unwinds, fw) (\<lambda>e. (returns (Some e), fw)) (\<lambda>opts.
       case ValidateKind it False vs of
         Some e \<Rightarrow> (returns (Some e), fw)
       | None \<Rightarrow>
           wait_loop (bt_push_round g c vs opts) (bt_resume_notFull g c id) env fw)"

section \<open>Pop\<close>

definition bt_dropHydrated :: "int \<Rightarrow> ('a, 'w) btype \<Rightarrow> ('a, 'w) btype" where
  "bt_dropHydrated n f =
     (if n \<ge> b_hydrated f then f\<lparr>b_hydrated := 0\<rparr> else f\<lparr>b_hydrated := b_hydrated f - n\<rparr>)"

definition bt_wake_producers :: "('a, 'w) btype \<Rightarrow> ('a, 'w) btype" where
  "bt_wake_producers f =
     (if Signal_HasWaiters (b_notFull f) then f\<lparr>b_notFull := Signal_Signal (b_notFull f)\<rparr> else f)"

fun bt_pop_loop :: "'a \<Rightarrow> nat \<Rightarrow> ('a, 'w) btype \<Rightarrow> 'a list \<times> ('a, 'w) btype" where
  "bt_pop_loop zero 0 f = ([], f)"
| "bt_pop_loop zero (Suc k) f =
     (case bt_PopFront zero f of (v, f1) \<Rightarrow> case bt_pop_loop zero k f1 of (vs, f2) \<Rightarrow> (v # vs, f2))"

definition bt_peek_first :: "nat \<Rightarrow> ('a, 'w) btype \<Rightarrow> 'a list" where
  "bt_peek_first k f = bt_walk f (\<lambda>v out. let out' = out @ [v] in (length out' \<noteq> k, out')) []"

definition bt_popped :: "'a list \<Rightarrow> nat \<Rightarrow> ('a, 'w) btype \<times> 'w \<Rightarrow> ('a list \<times> goerr option) attempt \<times> ('a, 'w) btype \<times> 'w" where
  "bt_popped out k fw =
     (case fw of (f, w) \<Rightarrow>
       (returns (out, None), bt_unlock (bt_wake_producers (bt_dropHydrated (min (int k) (b_hydrated f)) f)), w))"

definition bt_pop_round :: "'a item \<Rightarrow> nat \<Rightarrow> 'w ctx \<Rightarrow> nat \<Rightarrow> (('a, 'w) btype, 'w) opoptions \<Rightarrow>
    ('a, 'w) btype \<times> 'w \<Rightarrow> ('a list \<times> goerr option) attempt \<times> ('a, 'w) btype \<times> 'w" where
  "bt_pop_round it g c n opts fw =
     (case fw of (f0, w) \<Rightarrow>
       (let f = bt_lock f0 in
        if b_closed f then (returns ([], err_closed), bt_unlock f, w)
        else if bt_len f > 0 then
          (let k = (if int n > bt_len f then nat (bt_len f) else n)
           in case RunSideEffectLocked (oo_SideEffect opts) (\<lambda>f. bt_unlock f) (f, w) of
                (Unwinds, f1, w1) \<Rightarrow> (Done Unwinds, f1, w1)
              | (Ret (Some e), f1, w1) \<Rightarrow> (returns ([], Some e), bt_unlock f1, w1)
              | (Ret None, f1, w1) \<Rightarrow>
                  (case b_backup f1 of
                     Some b \<Rightarrow>
                       (let out = bt_peek_first k f1 in
                        case RunBackup (bk_Del b c out) (\<lambda>f. bt_unlock f) (f1, w1) of
                          (Unwinds, f2, w2) \<Rightarrow> (Done Unwinds, f2, w2)
                        | (Ret (Some e), f2, w2) \<Rightarrow> (returns ([], Some e), bt_unlock f2, w2)
                        | (Ret None, f2, w2) \<Rightarrow> (case bt_pop_loop (it_zero it) k f2 of (_, f3) \<Rightarrow> bt_popped out k (f3, w2)))
                   | None \<Rightarrow> (case bt_pop_loop (it_zero it) k f1 of (out, f2) \<Rightarrow> bt_popped out k (f2, w1))))
        else (Parked, bt_unlock (f\<lparr>b_notEmpty := Wait_register g (b_notEmpty f)\<rparr>), w)))"

definition bt_Pop :: "'a item \<Rightarrow> nat \<Rightarrow> 'w ctx \<Rightarrow> nat \<Rightarrow> (('a, 'w) btype, 'w) opoption list \<Rightarrow>
    (('a, 'w) btype \<times> 'w \<Rightarrow> ('a, 'w) btype \<times> 'w) list \<Rightarrow> ('a, 'w) btype \<times> 'w \<Rightarrow>
    ('a list \<times> goerr option) attempt \<times> ('a, 'w) btype \<times> 'w" where
  "bt_Pop it g c n options env fw =
     resolve CallPop options (Done Unwinds, fw) (\<lambda>e. (returns ([], Some e), fw)) (\<lambda>opts.
       wait_loop (bt_pop_round it g c n opts) (bt_resume_notEmpty g c (\<lambda>e. ([], e))) env fw)"

section \<open>Reading operations\<close>

definition bt_Peek :: "'a item \<Rightarrow> (('a, 'w) btype, 'w) opoption list \<Rightarrow> ('a, 'w) btype \<times> 'w \<Rightarrow>
    ('a \<times> bool \<times> goerr option) outcome \<times> ('a, 'w) btype \<times> 'w" where
  "bt_Peek it options fw =
     resolve CallPeek options (Unwinds, fw) (\<lambda>e. (Ret (it_zero it, False, Some e), fw)) (\<lambda>opts.
       case fw of (f0, w) \<Rightarrow>
         (let f = bt_rlock f0 in
          if b_closed f then (Ret (it_zero it, False, err_closed), bt_runlock f, w)
          else if bt_len f = 0 then
            (case RunSideEffect (oo_SideEffect opts) w of (r, w1) \<Rightarrow>
               (map_outcome (\<lambda>e. (it_zero it, False, e)) r, bt_runlock f, w1))
          else
            (let v = (case Front (b_t f) (b_mem f) of None \<Rightarrow> it_zero it | Some (_, v) \<Rightarrow> v) in
             case RunSideEffect (oo_SideEffect opts) w of (r, w1) \<Rightarrow>
               (map_outcome (\<lambda>e. (v, True, e)) r, bt_runlock f, w1))))"

definition bt_Exists :: "'a item \<Rightarrow> 'a \<Rightarrow> (('a, 'w) btype, 'w) opoption list \<Rightarrow> ('a, 'w) btype \<times> 'w \<Rightarrow>
    (bool \<times> goerr option) outcome \<times> ('a, 'w) btype \<times> 'w" where
  "bt_Exists it v options fw =
     resolve CallExists options (Unwinds, fw) (\<lambda>e. (Ret (False, Some e), fw)) (\<lambda>opts.
       case fw of (f0, w) \<Rightarrow>
         (let f = bt_rlock f0 in
          if b_closed f then (Ret (False, err_closed), bt_runlock f, w)
          else (let found = bt_walk f (\<lambda>x found. if it_equal it x v then (False, True) else (True, found)) False in
            case RunSideEffect (oo_SideEffect opts) w of (r, w1) \<Rightarrow>
              (map_outcome (\<lambda>e. (found, e)) r, bt_runlock f, w1))))"

definition bt_Len :: "('a, 'w) btype \<Rightarrow> int \<times> ('a, 'w) btype" where
  "bt_Len f =
     (let f1 = bt_rlock f; n = bt_len f1 in (n, bt_runlock f1))"

section \<open>Del\<close>

text \<open>The walk that finds the positions and values of the matching items.\<close>

definition bt_matches :: "'a item \<Rightarrow> 'a list \<Rightarrow> ('a, 'w) btype \<Rightarrow> int list \<times> 'a list" where
  "bt_matches it vs f =
     snd (bt_walk f (\<lambda>x (i, rmIdx, removed).
       (True, if MatchesAny it x vs then (i + 1, rmIdx @ [i], removed @ [x]) else (i + 1, rmIdx, removed))) (0, [], []))"

text \<open>The positions are deleted from the highest down, so that the lower ones stay valid.\<close>

definition bt_delete_all :: "int list \<Rightarrow> ('a, 'w) btype \<Rightarrow> ('a, 'w) btype" where
  "bt_delete_all rmIdx f = fold bt_DeleteAt (rev rmIdx) f"

definition bt_Del :: "'a item \<Rightarrow> 'w ctx \<Rightarrow> 'a list \<Rightarrow> (('a, 'w) btype, 'w) opoption list \<Rightarrow>
    ('a, 'w) btype \<times> 'w \<Rightarrow> (int \<times> goerr option) outcome \<times> ('a, 'w) btype \<times> 'w" where
  "bt_Del it c vs options fw =
     resolve CallDel options (Unwinds, fw) (\<lambda>e. (Ret (0, Some e), fw)) (\<lambda>opts.
       case fw of (f0, w) \<Rightarrow>
         (let f = bt_lock f0 in
          if b_closed f then (Ret (0, err_closed), bt_unlock f, w)
          else (case bt_matches it vs f of
            (rmIdx, removed) \<Rightarrow>
              if length removed = 0 then
                (case RunSideEffect (oo_SideEffect opts) w of (r, w1) \<Rightarrow>
                   (map_outcome (\<lambda>e. (0, e)) r, bt_unlock f, w1))
              else (case RunSideEffect (oo_SideEffect opts) w of
                  (Unwinds, w1) \<Rightarrow> (Unwinds, bt_unlock f, w1)
                | (Ret (Some e), w1) \<Rightarrow> (Ret (0, Some e), bt_unlock f, w1)
                | (Ret None, w1) \<Rightarrow>
                    (case (case b_backup f of None \<Rightarrow> (Returned None, w1) | Some b \<Rightarrow> bk_Del b c removed w1) of
                       (Unwound, w2) \<Rightarrow> (Unwinds, bt_unlock f, w2)
                     | (Returned (Some e), w2) \<Rightarrow> (Ret (0, WrapBackup (Some e)), bt_unlock f, w2)
                     | (Returned None, w2) \<Rightarrow>
                         (let removedHydrated = int (length (filter (\<lambda>i. i < b_hydrated f) rmIdx));
                              f1 = bt_delete_all rmIdx f;
                              f2 = bt_wake_producers (bt_dropHydrated removedHydrated f1)
                          in (Ret (int (length removed), None), bt_unlock f2, w2)))))))"

section \<open>Waiting for room or for items\<close>

definition bt_notempty_round :: "nat \<Rightarrow> (('a, 'w) btype, 'w) opoptions \<Rightarrow> ('a, 'w) btype \<times> 'w \<Rightarrow>
    goerr option attempt \<times> ('a, 'w) btype \<times> 'w" where
  "bt_notempty_round g opts fw =
     (case fw of (f0, w) \<Rightarrow>
       (let f = bt_rlock f0 in
        if b_closed f then (returns err_closed, bt_runlock f, w)
        else if bt_len f > 0 then
          (case RunSideEffectLocked (oo_SideEffect opts) (\<lambda>f. bt_runlock f) (f, w) of
             (Unwinds, f1, w1) \<Rightarrow> (Done Unwinds, f1, w1)
           | (Ret e, f1, w1) \<Rightarrow> (returns e, bt_runlock f1, w1))
        else (Parked, bt_runlock (f\<lparr>b_notEmpty := Wait_register g (b_notEmpty f)\<rparr>), w)))"

definition bt_NotEmpty :: "nat \<Rightarrow> 'w ctx \<Rightarrow> (('a, 'w) btype, 'w) opoption list \<Rightarrow>
    (('a, 'w) btype \<times> 'w \<Rightarrow> ('a, 'w) btype \<times> 'w) list \<Rightarrow> ('a, 'w) btype \<times> 'w \<Rightarrow>
    goerr option attempt \<times> ('a, 'w) btype \<times> 'w" where
  "bt_NotEmpty g c options env fw =
     resolve CallNotEmpty options (Done Unwinds, fw) (\<lambda>e. (returns (Some e), fw)) (\<lambda>opts.
       wait_loop (bt_notempty_round g opts) (bt_resume_notEmpty g c id) env fw)"

definition bt_notfull_round :: "nat \<Rightarrow> (('a, 'w) btype, 'w) opoptions \<Rightarrow> ('a, 'w) btype \<times> 'w \<Rightarrow>
    goerr option attempt \<times> ('a, 'w) btype \<times> 'w" where
  "bt_notfull_round g opts fw =
     (case fw of (f0, w) \<Rightarrow>
       (let f = bt_rlock f0 in
        if b_closed f then (returns err_closed, bt_runlock f, w)
        else if b_maxSize f = 0 \<or>
          bt_len f - b_hydrated f + b_inflight f < b_maxSize f then
          (case RunSideEffectLocked (oo_SideEffect opts) (\<lambda>f. bt_runlock f) (f, w) of
             (Unwinds, f1, w1) \<Rightarrow> (Done Unwinds, f1, w1)
           | (Ret e, f1, w1) \<Rightarrow> (returns e, bt_runlock f1, w1))
        else (Parked, bt_runlock (f\<lparr>b_notFull := Wait_register g (b_notFull f)\<rparr>), w)))"

definition bt_NotFull :: "nat \<Rightarrow> 'w ctx \<Rightarrow> (('a, 'w) btype, 'w) opoption list \<Rightarrow>
    (('a, 'w) btype \<times> 'w \<Rightarrow> ('a, 'w) btype \<times> 'w) list \<Rightarrow> ('a, 'w) btype \<times> 'w \<Rightarrow>
    goerr option attempt \<times> ('a, 'w) btype \<times> 'w" where
  "bt_NotFull g c options env fw =
     resolve CallNotFull options (Done Unwinds, fw) (\<lambda>e. (returns (Some e), fw)) (\<lambda>opts.
       wait_loop (bt_notfull_round g opts) (bt_resume_notFull g c id) env fw)"

section \<open>Close and Clear\<close>

definition bt_closeAndWake :: "('a, 'w) btype \<Rightarrow> ('a, 'w) btype" where
  "bt_closeAndWake f =
     (let f1 = f\<lparr>b_closed := True\<rparr>;
          f2 = bt_unlock f1;
          f3 = f2\<lparr>b_notEmpty := Signal_Signal (b_notEmpty f2)\<rparr>
      in f3\<lparr>b_notFull := Signal_Signal (b_notFull f3)\<rparr>)"

definition bt_Close :: "'w ctx \<Rightarrow> (('a, 'w) btype, 'w) opoption list \<Rightarrow> ('a, 'w) btype \<times> 'w \<Rightarrow>
    goerr option outcome \<times> ('a, 'w) btype \<times> 'w" where
  "bt_Close c options fw =
     resolve CallClose options (Unwinds, fw) (\<lambda>e. (Ret (Some e), fw)) (\<lambda>opts.
       case fw of (f0, w) \<Rightarrow>
         (let f = bt_lock f0 in
          if b_closed f then
            (case RunSideEffectLocked (oo_SideEffect opts) (\<lambda>f. bt_unlock f) (f, w) of
               (Unwinds, f1, w1) \<Rightarrow> (Unwinds, f1, w1)
             | (Ret e, f1, w1) \<Rightarrow> (Ret e, bt_unlock f1, w1))
          else
            (case RunSideEffectLocked (oo_SideEffect opts) (\<lambda>f. bt_unlock f) (f, w) of
               (Unwinds, f1, w1) \<Rightarrow> (Unwinds, f1, w1)
             | (Ret (Some e), f1, w1) \<Rightarrow> (Ret (Some e), bt_unlock f1, w1)
             | (Ret None, f1, w1) \<Rightarrow>
                 (case (case b_backup f1 of
                          None \<Rightarrow> (Ret None, f1, w1)
                        | Some b \<Rightarrow> RunBackup (bk_Close b c) bt_closeAndWake (f1, w1)) of
                    (Unwinds, f2, w2) \<Rightarrow> (Unwinds, f2, w2)
                  | (Ret e, f2, w2) \<Rightarrow> (Ret e, bt_closeAndWake f2, w2)))))"

definition bt_Clear :: "'w ctx \<Rightarrow> (('a, 'w) btype, 'w) opoption list \<Rightarrow> ('a, 'w) btype \<times> 'w \<Rightarrow>
    goerr option outcome \<times> ('a, 'w) btype \<times> 'w" where
  "bt_Clear c options fw =
     resolve CallClear options (Unwinds, fw) (\<lambda>e. (Ret (Some e), fw)) (\<lambda>opts.
       case fw of (f0, w) \<Rightarrow>
         (let f = bt_lock f0 in
          if b_closed f then (Ret err_closed, bt_unlock f, w)
          else if bt_len f = 0 then
            (case RunSideEffect (oo_SideEffect opts) w of (r, w1) \<Rightarrow> (r, bt_unlock f, w1))
          else (case RunSideEffect (oo_SideEffect opts) w of
              (Unwinds, w1) \<Rightarrow> (Unwinds, bt_unlock f, w1)
            | (Ret (Some e), w1) \<Rightarrow> (Ret (Some e), bt_unlock f, w1)
            | (Ret None, w1) \<Rightarrow>
                (case (case b_backup f of None \<Rightarrow> (Returned None, w1) | Some b \<Rightarrow> bk_Clear b c w1) of
                   (Unwound, w2) \<Rightarrow> (Unwinds, bt_unlock f, w2)
                 | (Returned (Some e), w2) \<Rightarrow> (Ret (WrapBackup (Some e)), bt_unlock f, w2)
                 | (Returned None, w2) \<Rightarrow>
                     (let f1 = f\<lparr>b_t := Clear_tree (b_t f)\<rparr>;
                          f2 = bt_wake_producers (f1\<lparr>b_hydrated := 0\<rparr>)
                      in (Ret None, bt_unlock f2, w2))))))"

section \<open>Iteration\<close>

definition bt_All :: "'a item \<Rightarrow> 'w ctx \<Rightarrow> ('a, 'w) yield \<Rightarrow> ('a, 'w) btype \<times> 'w \<Rightarrow>
    goerr option outcome \<times> ('a, 'w) btype \<times> 'w" where
  "bt_All it c yield fw =
     (case fw of (f0, w) \<Rightarrow>
       (let f = bt_rlock f0 in
        case (if b_closed f then yield_last yield (it_zero it) err_closed w
              else bt_walk f (range_body (it_zero it) c yield) (Ret None, w)) of
          (r, w1) \<Rightarrow> (r, bt_runlock f, w1)))"

text \<open>\<open>AllCOW\<close> holds the write lock only while it takes the snapshot; the walk reads the snapshot, and
  the deferred \<open>Release\<close> drops it however the loop ends.\<close>

definition bt_AllCOW :: "'a item \<Rightarrow> 'w ctx \<Rightarrow> ('a, 'w) yield \<Rightarrow> ('w \<Rightarrow> bool) \<Rightarrow> ('a, 'w) btype \<times> 'w \<Rightarrow>
    goerr option outcome \<times> ('a, 'w) btype \<times> 'w" where
  "bt_AllCOW it c yield wanted fw =
     (case fw of (f0, w) \<Rightarrow>
       (let f = bt_lock f0 in
        if b_closed f then (case yield_last yield (it_zero it) err_closed w of (r, w1) \<Rightarrow> (r, bt_unlock f, w1))
        else case CopyInto (b_t f) (b_mem f) of (t1, snap, st1) \<Rightarrow>
          (let f1 = bt_unlock (f\<lparr>b_t := t1, b_mem := st1\<rparr>) in
           case all0 snap (\<lambda>(_, v). range_body (it_zero it) c yield v) False (b_mem f1) (Ret None, w) of (_, _, r, w1) \<Rightarrow>
           case Release_tree snap (b_mem f1) of (_, st2) \<Rightarrow> (r, f1\<lparr>b_mem := st2\<rparr>, w1))))"

end
