(* ===== verification/Btype_Store.thy ===== *)
theory Btype_Store
  imports Btype_Backing Fifo_Backing
begin

text \<open>
  What the calls of the tree backing on its tree do to the list of stored values, the
  representation invariant, and the refinement of the rounds of \<open>Push\<close> and \<open>Pop\<close> and of the reading
  operations against the abstract queue with placing at the end.
\<close>

section \<open>The stored values\<close>

definition bt_live :: "('a, 'w) btype \<Rightarrow> 'a list" where
  "bt_live f = map snd (contents (b_t f))"

text \<open>The tree is well formed, and sound in memory together with any snapshots that are live.\<close>

definition bt_mem_ok :: "('a, 'w) btype \<Rightarrow> bool" where
  "bt_mem_ok f = (\<exists>F. family_ok (b_t f) F (b_mem f))"

lemma bt_live_simps [simp]:
  "bt_live (f\<lparr>b_lk := l\<rparr>) = bt_live f" "bt_live (f\<lparr>b_notFull := s\<rparr>) = bt_live f"
  "bt_live (f\<lparr>b_notEmpty := s\<rparr>) = bt_live f" "bt_live (f\<lparr>b_hydrated := n\<rparr>) = bt_live f"
  "bt_live (f\<lparr>b_inflight := n\<rparr>) = bt_live f" "bt_live (f\<lparr>b_closed := b\<rparr>) = bt_live f"
  "bt_live (f\<lparr>b_backup := k\<rparr>) = bt_live f" "bt_live (f\<lparr>b_maxSize := n\<rparr>) = bt_live f"
  "bt_live (f\<lparr>b_mem := m\<rparr>) = bt_live f"
  by (simp_all add: bt_live_def)

lemma bt_mem_ok_simps [simp]:
  "bt_mem_ok (f\<lparr>b_lk := l\<rparr>) = bt_mem_ok f" "bt_mem_ok (f\<lparr>b_notFull := s\<rparr>) = bt_mem_ok f"
  "bt_mem_ok (f\<lparr>b_notEmpty := s\<rparr>) = bt_mem_ok f" "bt_mem_ok (f\<lparr>b_hydrated := n\<rparr>) = bt_mem_ok f"
  "bt_mem_ok (f\<lparr>b_inflight := n\<rparr>) = bt_mem_ok f" "bt_mem_ok (f\<lparr>b_closed := b\<rparr>) = bt_mem_ok f"
  "bt_mem_ok (f\<lparr>b_backup := k\<rparr>) = bt_mem_ok f" "bt_mem_ok (f\<lparr>b_maxSize := n\<rparr>) = bt_mem_ok f"
  by (simp_all add: bt_mem_ok_def)

lemma bt_tree_ok: "bt_mem_ok f \<Longrightarrow> tree_ok (b_t f) \<and> t_dataCompare (b_t f) = None"
  by (auto simp: bt_mem_ok_def family_ok_def)

lemma bt_len_live: "bt_mem_ok f \<Longrightarrow> bt_len f = int (length (bt_live f))"
  using bt_tree_ok [of f] by (simp add: bt_len_def Len_tree_def tree_ok_def bt_live_def)

lemma visit_each: "snd (visit_list (\<lambda>(_, v). body v) xs s) = each body (map snd xs) s"
  by (induction xs arbitrary: s) (auto split: prod.splits)

lemma bt_walk_each:
  assumes "bt_mem_ok f"
  shows "bt_walk f body s = each body (bt_live f) s"
proof -
  obtain t st s' where a: "all0 (b_t f) (\<lambda>(_, v). body v) False (b_mem f) s = (t, st, s')" by (metis prod_cases3)
  show ?thesis using all0_ok [OF _ a] bt_tree_ok [OF assms] a by (simp add: bt_walk_def bt_live_def visit_each)
qed

text \<open>The positions of the matching items, from position \<open>i\<close> on.\<close>

fun match_positions :: "('a \<Rightarrow> bool) \<Rightarrow> int \<Rightarrow> 'a list \<Rightarrow> int list" where
  "match_positions p i [] = []"
| "match_positions p i (x # xs) = (if p x then i # match_positions p (i + 1) xs else match_positions p (i + 1) xs)"

lemma each_matches:
  "each (\<lambda>x (i, rmIdx, removed). (True, if p x then (i + 1, rmIdx @ [i], removed @ [x]) else (i + 1, rmIdx, removed))) xs (i, idx, rem) =
     (i + int (length xs), idx @ match_positions p i xs, rem @ filter p xs)"
  by (induction xs arbitrary: i idx rem) auto

lemma match_positions_below:
  "length (filter (\<lambda>j. j < h) (match_positions p i xs)) = length (filter p (take (nat (h - i)) xs))"
proof (induction xs arbitrary: i)
  case (Cons x xs)
  have "filter (\<lambda>j. j < h) (match_positions p j xs) = []" if "h \<le> j" for j xs
    using that by (induction p j xs rule: match_positions.induct) auto
  moreover have "nat (h - i) = Suc (nat (h - (i + 1)))" if "i < h" using that by simp
  ultimately show ?case using Cons [of "i + 1"] by (cases "i < h") simp_all
qed simp

section \<open>Calls on the tree\<close>

text \<open>Only the tree has changed, it is well formed, and it holds the values \<open>xs\<close>.\<close>

definition retreed :: "('a, 'w) btype \<Rightarrow> ('a, 'w) btype \<Rightarrow> 'a list \<Rightarrow> bool" where
  "retreed f f' xs = (f' = f\<lparr>b_t := b_t f', b_mem := b_mem f'\<rparr> \<and> bt_mem_ok f' \<and> bt_live f' = xs)"

lemma retreed_refl: "bt_mem_ok f \<Longrightarrow> retreed f f (bt_live f)"
  by (cases f) (auto simp: retreed_def)

lemma retreed_trans: "retreed f f1 xs \<Longrightarrow> retreed f1 f2 ys \<Longrightarrow> retreed f f2 ys"
  by (cases f; cases f1; cases f2) (auto simp: retreed_def)

lemma retreed_ok: "retreed f f' xs \<Longrightarrow> bt_mem_ok f' \<and> bt_live f' = xs"
  by (simp add: retreed_def)

lemma retreed_fields:
  assumes "retreed f f' xs"
  shows "b_lk f' = b_lk f" "b_maxSize f' = b_maxSize f" "b_hydrated f' = b_hydrated f" "b_inflight f' = b_inflight f"
    "b_notFull f' = b_notFull f" "b_notEmpty f' = b_notEmpty f" "b_closed f' = b_closed f" "b_backup f' = b_backup f"
  using assms by (cases f; cases f'; auto simp: retreed_def)+

lemma retreedI:
  assumes "family_ok (b_t f) F (b_mem f)" and "family_step (b_t f) F (b_mem f) t st" and "map snd (contents t) = xs"
  shows "retreed f (f\<lparr>b_t := t, b_mem := st\<rparr>) xs"
  using assms by (auto simp: retreed_def family_step_def bt_mem_ok_def bt_live_def)

lemma bt_PushBack_ok:
  assumes "bt_mem_ok f"
  shows "retreed f (bt_PushBack v f) (bt_live f @ [v])"
proof -
  obtain F where fam: "family_ok (b_t f) F (b_mem f)" using assms by (auto simp: bt_mem_ok_def)
  obtain b t st where p: "PushBack (b_t f) ((), v) (b_mem f) = (b, t, st)" by (metis prod_cases3)
  have "contents t = contents (b_t f) @ [((), v)]" using PushBack_ok [OF _ p] bt_tree_ok [OF assms] by simp
  then show ?thesis using retreedI [OF fam PushBack_step [OF fam p]] p by (simp add: bt_PushBack_def bt_live_def)
qed

lemma bt_PopFront_ok:
  assumes "bt_mem_ok f" and "bt_live f = v # vs"
  shows "\<exists>f'. bt_PopFront zero f = (v, f') \<and> retreed f f' vs"
proof -
  obtain F where fam: "family_ok (b_t f) F (b_mem f)" using assms by (auto simp: bt_mem_ok_def)
  obtain r t st where p: "PopFront (b_t f) (b_mem f) = (r, t, st)" by (metis prod_cases3)
  have "r = (case contents (b_t f) of [] \<Rightarrow> None | e # _ \<Rightarrow> Some e)" "contents t = tl (contents (b_t f))"
    using PopFront_ok [OF _ p] bt_tree_ok [OF assms(1)] by auto
  then show ?thesis using retreedI [OF fam PopFront_step [OF fam p], of vs] p assms(2)
    by (auto simp: bt_PopFront_def bt_live_def)
qed

lemma bt_DeleteAt_ok:
  assumes "bt_mem_ok f" and "0 \<le> i" and "i < int (length (bt_live f))"
  shows "retreed f (bt_DeleteAt i f) (without (nat i) (bt_live f))"
proof -
  obtain F where fam: "family_ok (b_t f) F (b_mem f)" using assms by (auto simp: bt_mem_ok_def)
  obtain r t st where p: "DeleteAt (b_t f) i (b_mem f) = (r, t, st)" by (metis prod_cases3)
  have "contents t = without (nat i) (contents (b_t f))"
    using DeleteAt_ok(3) [OF _ p] bt_tree_ok [OF assms(1)] assms(2,3) by (simp add: bt_live_def)
  then show ?thesis using retreedI [OF fam DeleteAt_step [OF fam p]] p
    by (simp add: bt_DeleteAt_def bt_live_def without_def take_map drop_map)
qed

lemma bt_push_all_ok: "bt_mem_ok f \<Longrightarrow> retreed f (fold bt_PushBack vs f) (bt_live f @ vs)"
proof (induction vs arbitrary: f)
  case Nil
  then show ?case using retreed_refl by simp
next
  case (Cons v vs)
  note p = bt_PushBack_ok [OF Cons.prems, of v]
  show ?case using retreed_trans [OF p Cons.IH] retreed_ok [OF p] by simp
qed

lemma bt_pop_loop_ok:
  assumes "bt_mem_ok f" and "k \<le> length (bt_live f)"
  shows "\<exists>f'. bt_pop_loop zero k f = (take k (bt_live f), f') \<and> retreed f f' (drop k (bt_live f))"
  using assms
proof (induction k arbitrary: f)
  case 0
  then show ?case using retreed_refl by simp
next
  case (Suc k)
  then obtain v vs where live: "bt_live f = v # vs" by (cases "bt_live f") auto
  obtain f1 where f1: "bt_PopFront zero f = (v, f1)" "retreed f f1 vs" using bt_PopFront_ok [OF Suc.prems(1) live] by blast
  then obtain f2 where "bt_pop_loop zero k f1 = (take k vs, f2)" "retreed f1 f2 (drop k vs)"
    using Suc.IH [of f1] Suc.prems(2) retreed_ok [OF f1(2)] live by auto
  then show ?case using f1 live retreed_trans by simp blast
qed

text \<open>Deleting the matching positions from the highest down leaves the other items.\<close>

lemma match_positions_append: "match_positions p i (xs @ ys) = match_positions p i xs @ match_positions p (i + int (length xs)) ys"
  by (induction xs arbitrary: i) (auto simp: algebra_simps)

lemma bt_delete_all_ok:
  assumes "bt_mem_ok f" and "bt_live f = xs @ ys"
  shows "retreed f (bt_delete_all (match_positions p 0 xs) f) (filter (\<lambda>x. \<not> p x) xs @ ys)"
  using assms
proof (induction xs arbitrary: f ys rule: rev_induct)
  case Nil
  then show ?case using retreed_refl [of f] by (simp add: bt_delete_all_def)
next
  case (snoc x xs)
  show ?case
  proof (cases "p x")
    case True
    have d: "retreed f (bt_DeleteAt (int (length xs)) f) (xs @ ys)"
      using bt_DeleteAt_ok [OF snoc.prems(1), of "int (length xs)"] snoc.prems(2) by (simp add: without_def)
    show ?thesis using snoc.IH [of "bt_DeleteAt (int (length xs)) f" ys] retreed_ok [OF d] True retreed_trans [OF d]
      by (simp add: match_positions_append bt_delete_all_def)
  next
    case False
    then show ?thesis using snoc.IH [OF snoc.prems(1), of "x # ys"] snoc.prems(2) by (simp add: match_positions_append)
  qed
qed

section \<open>Representation\<close>

definition bt_core :: "('a, 'w) btype \<Rightarrow> bool" where
  "bt_core f =
     (bt_mem_ok f \<and>
      0 \<le> b_hydrated f \<and> b_hydrated f \<le> int (length (bt_live f)) \<and>
      0 \<le> b_inflight f \<and> 0 \<le> b_maxSize f \<and>
      (b_maxSize f = 0 \<or>
       int (length (bt_live f)) - b_hydrated f + b_inflight f \<le> b_maxSize f) \<and>
      sig_ok (b_notFull f) \<and> sig_ok (b_notEmpty f))"

definition bt_inv :: "('a, 'w) btype \<Rightarrow> bool" where
  "bt_inv f = (lk_ok (b_lk f) \<and> bt_core f)"

definition bt_abs :: "('a, 'w) btype \<Rightarrow> ('a, 'w) aq" where
  "bt_abs f =
     \<lparr>aq_items = mark (nat (b_hydrated f)) (bt_live f), aq_max = b_maxSize f,
      aq_inflight = b_inflight f, aq_closed = b_closed f, aq_backup = b_backup f,
      aq_notFull = b_notFull f, aq_notEmpty = b_notEmpty f\<rparr>"

lemma bt_core_simps [simp]:
  "bt_core (f\<lparr>b_lk := l\<rparr>) = bt_core f" "bt_core (f\<lparr>b_closed := b\<rparr>) = bt_core f"
  by (simp_all add: bt_core_def)

lemma bt_len_upd [simp]:
  "bt_len (f\<lparr>b_lk := l\<rparr>) = bt_len f" "bt_len (f\<lparr>b_notFull := s\<rparr>) = bt_len f" "bt_len (f\<lparr>b_notEmpty := s\<rparr>) = bt_len f"
  "bt_len (f\<lparr>b_hydrated := n\<rparr>) = bt_len f" "bt_len (f\<lparr>b_inflight := n\<rparr>) = bt_len f" "bt_len (f\<lparr>b_closed := b\<rparr>) = bt_len f"
  by (simp_all add: bt_len_def)

lemma bt_core_len: "bt_core f \<Longrightarrow> bt_len f = int (length (bt_live f))"
  by (simp add: bt_core_def bt_len_live)

lemma bt_core_notFull [simp]: "bt_core f \<Longrightarrow> sig_ok s \<Longrightarrow> bt_core (f\<lparr>b_notFull := s\<rparr>)"
  and bt_core_notEmpty [simp]: "bt_core f \<Longrightarrow> sig_ok s \<Longrightarrow> bt_core (f\<lparr>b_notEmpty := s\<rparr>)"
  by (simp_all add: bt_core_def)

lemma bt_core_sig:
  "bt_core f \<Longrightarrow> sig_ok (b_notFull f)" "bt_core f \<Longrightarrow> sig_ok (b_notEmpty f)"
  by (simp_all add: bt_core_def)

lemma bt_core_signalled [simp]:
  "bt_core f \<Longrightarrow> bt_core (f\<lparr>b_notFull := signal_gated (b_notFull f)\<rparr>)"
  "bt_core f \<Longrightarrow> bt_core (f\<lparr>b_notFull := ReleaseReservation opts (b_notFull f)\<rparr>)"
  "bt_core f \<Longrightarrow> bt_core (f\<lparr>b_notFull := Wait_register g (b_notFull f)\<rparr>)"
  "bt_core f \<Longrightarrow> bt_core (f\<lparr>b_notEmpty := Wait_register g (b_notEmpty f)\<rparr>)"
  by (simp_all add: bt_core_sig)

lemma bt_abs_simps [simp]:
  "aq_closed (bt_abs f) = b_closed f" "aq_max (bt_abs f) = b_maxSize f"
  "aq_inflight (bt_abs f) = b_inflight f" "aq_backup (bt_abs f) = b_backup f"
  "aq_notFull (bt_abs f) = b_notFull f" "aq_notEmpty (bt_abs f) = b_notEmpty f"
  "aq_contents (bt_abs f) = bt_live f" "aq_items (bt_abs f) = mark (nat (b_hydrated f)) (bt_live f)"
  by (simp_all add: bt_abs_def aq_contents_def)

lemma bt_abs_upd [simp]:
  "bt_abs (f\<lparr>b_lk := l\<rparr>) = bt_abs f"
  "bt_abs (f\<lparr>b_notFull := s\<rparr>) = (bt_abs f)\<lparr>aq_notFull := s\<rparr>"
  "bt_abs (f\<lparr>b_notEmpty := s\<rparr>) = (bt_abs f)\<lparr>aq_notEmpty := s\<rparr>"
  "bt_abs (f\<lparr>b_inflight := n\<rparr>) = (bt_abs f)\<lparr>aq_inflight := n\<rparr>"
  "bt_abs (f\<lparr>b_closed := b\<rparr>) = (bt_abs f)\<lparr>aq_closed := b\<rparr>"
  by (simp_all add: bt_abs_def)

lemma bt_admitted: "bt_core f \<Longrightarrow>
    aq_admitted (bt_abs f) = int (length (bt_live f)) - b_hydrated f"
  unfolding aq_admitted_def bt_core_def bt_abs_simps admitted_mark by linarith

lemma bt_wake_eq: "bt_wake_producers f = f\<lparr>b_notFull := signal_gated (b_notFull f)\<rparr>"
  by (simp add: bt_wake_producers_def signal_gated_def)

lemma bt_inv_bounded: "bt_inv f \<Longrightarrow> aq_bounded (bt_abs f)"
  using bt_admitted [of f]
  by (auto simp: bt_inv_def aq_bounded_def bt_core_def)

section \<open>Refinement of the abstract queue\<close>

text \<open>Storing a batch that fits.\<close>

lemma bt_store_eq:
  assumes "bt_mem_ok f"
  obtains f1 where "retreed f f1 (bt_live f @ vs)"
    "bt_store vs f = f1\<lparr>b_notEmpty := (if bt_live f = [] then signal_gated (b_notEmpty f) else b_notEmpty f)\<rparr>"
proof -
  note p = bt_push_all_ok [OF assms, of vs]
  show thesis
    by (rule that [OF p])
      (use retreed_fields [OF p] bt_len_live [OF assms] in \<open>auto simp: bt_store_def Let_def signal_gated_def\<close>)
qed

lemma bt_store_abs:
  assumes "bt_core f"
  shows "bt_abs (bt_store vs f) =
    (bt_abs f)\<lparr>aq_items := place_all fifo_place (aq_items (bt_abs f)) vs,
      aq_notEmpty := (if bt_live f = [] then signal_gated (b_notEmpty f) else b_notEmpty f)\<rparr>"
proof -
  have "mark (nat (b_hydrated f)) (bt_live f) @ map (\<lambda>v. (v, False)) vs =
      mark (nat (b_hydrated f)) (bt_live f @ vs)"
    using assms by (intro mark_append) (simp add: bt_core_def nat_le_iff)
  moreover obtain f1 where f1: "retreed f f1 (bt_live f @ vs)"
      "bt_store vs f = f1\<lparr>b_notEmpty := (if bt_live f = [] then signal_gated (b_notEmpty f) else b_notEmpty f)\<rparr>"
    using bt_store_eq [of f vs] assms by (auto simp: bt_core_def)
  ultimately show ?thesis using retreed_fields [OF f1(1)] retreed_ok [OF f1(1)] by (simp add: bt_abs_def f1(2))
qed

lemma bt_store_core:
  assumes "bt_core f"
    and "b_maxSize f = 0 \<or>
      int (length (bt_live f)) - b_hydrated f + b_inflight f + int (length vs) \<le> b_maxSize f"
  shows "bt_core (bt_store vs f)" "b_lk (bt_store vs f) = b_lk f"
proof -
  obtain f1 where f1: "retreed f f1 (bt_live f @ vs)"
      "bt_store vs f = f1\<lparr>b_notEmpty := (if bt_live f = [] then signal_gated (b_notEmpty f) else b_notEmpty f)\<rparr>"
    using bt_store_eq [of f vs] assms by (auto simp: bt_core_def)
  show "bt_core (bt_store vs f)" "b_lk (bt_store vs f) = b_lk f"
    using retreed_fields [OF f1(1)] retreed_ok [OF f1(1)] assms by (auto simp: bt_core_def f1(2))
qed

lemma bt_abandon_abs [simp]:
  "bt_abs (bt_abandon opts f) =
     (bt_abs f)\<lparr>aq_notFull := ReleaseReservation opts (b_notFull f)\<rparr>"
  by (simp add: bt_abandon_def)

lemma bt_abandon_inv: "bt_core f \<Longrightarrow> lk_held (b_lk f) \<Longrightarrow> bt_inv (bt_abandon opts f)"
  by (simp add: bt_abandon_def bt_inv_def)

lemma bt_unlock_inv: "bt_core f \<Longrightarrow> lk_held (b_lk f) \<Longrightarrow> bt_inv (bt_unlock f)"
  and bt_runlock_inv: "bt_core f \<Longrightarrow> lk_rheld (b_lk f) \<Longrightarrow> bt_inv (bt_runlock f)"
  by (simp_all add: bt_inv_def)

text \<open>The commit, from a state in which the write lock is held and the batch fits.\<close>

lemma bt_commit_refines:
  assumes "bt_core f" and "lk_held (b_lk f)" and "fits (length vs) (bt_abs f)"
    and "bt_push_commit c vs opts (f, w) = (r, f', w')"
  shows "spec_commit fifo_place c vs (oo_SideEffect opts) (oo_OnAdmit opts \<noteq> None) (bt_abs f, w) =
      (r, bt_abs f', w') \<and> bt_inv f'"
proof -
  have st: "bt_inv (bt_unlock (bt_store vs f))"
    using assms by (simp add: bt_inv_def bt_store_core fits_def bt_admitted)
  show ?thesis
    using assms(4) st bt_abandon_inv [OF assms(1,2)] assms(1,2)
    by (auto simp: bt_push_commit_def spec_commit_def spec_effects_def RunSideEffectLocked_pair
        RunBackup_pair bt_store_abs ReleaseReservation_def split: run_splits)
qed

lemma bt_lock_core: "bt_inv f \<Longrightarrow> bt_core f \<and> lk_held (qlock_Lock (b_lk f))"
  and bt_rlock_core: "bt_inv f \<Longrightarrow> bt_core f \<and> lk_rheld (qlock_RLock (b_lk f))"
  by (simp_all add: bt_inv_def)

lemma bt_push_round_refines:
  fixes opts :: "(('a, 'w) btype, 'w) opoptions"
  assumes "oo_OnAdmit opts = None"
  shows "refines bt_inv bt_abs (bt_push_round g c vs opts)
    (spec_push fifo_place g c vs (oo_SideEffect opts))"
  unfolding refines_def
proof (intro allI impI)
  fix f :: "('a, 'w) btype" and w :: 'w
  assume inv: "bt_inv f"
  note core = bt_lock_core [OF inv]
  have commit: "fits (length vs) (bt_abs f) \<Longrightarrow>
      bt_push_commit c vs opts (bt_lock f, w) = (r, f', w') \<Longrightarrow>
      spec_commit fifo_place c vs (oo_SideEffect opts) False (bt_abs f, w) = (r, bt_abs f', w') \<and>
        bt_inv f'" for r f' w'
    using bt_commit_refines [of "bt_lock f" vs c opts w r f' w'] core assms by simp
  have fits: "fits (length vs) (bt_abs f) \<longleftrightarrow> b_maxSize f = 0 \<or>
      int (length (bt_live f)) - b_hydrated f + b_inflight f + int (length vs) \<le> b_maxSize f"
    using core bt_admitted [of f] by (simp add: fits_def)
  show "case bt_push_round g c vs opts (f, w) of (r, f', w') \<Rightarrow>
      spec_push fifo_place g c vs (oo_SideEffect opts) (bt_abs f, w) = (r, bt_abs f', w') \<and>
      bt_inv f'"
    using core commit inv
    by (cases "bt_push_commit c vs opts (bt_lock f, w)")
      (auto simp: bt_push_round_def spec_push_def spec_gate_def fits assms bt_inv_def bt_core_len Let_def)
qed

text \<open>With a hook: up to the hook the room is reserved, and whatever the rest of the program did to
  the queue while the hook ran, the end of the push is the abstract one.\<close>

lemma bt_push_round_hook:
  assumes "bt_inv f" and "oo_OnAdmit opts = Some hook"
    and "spec_gate (length vs) (bt_abs f) = GateAdmit"
    and "hook (f\<lparr>b_inflight := b_inflight f + int (length vs)\<rparr>, w) = (r, f1, w1)"
    and "bt_inv f1" and "int (length vs) \<le> b_inflight f1"
  shows "case bt_push_round g c vs opts (f, w) of (r', f', w') \<Rightarrow>
    spec_admitted fifo_place c vs (oo_SideEffect opts) r (bt_abs f1, w1) = (r', bt_abs f', w') \<and>
    bt_inv f'"
proof -
  define f2 where "f2 = f1\<lparr>b_lk := qlock_Lock (b_lk f1), b_inflight := b_inflight f1 - int (length vs)\<rparr>"
  have abs2: "bt_abs f2 = (bt_abs f1)\<lparr>aq_inflight := b_inflight f1 - int (length vs)\<rparr>"
    by (simp add: f2_def)
  have core2: "bt_core f2" and held2: "lk_held (b_lk f2)"
    using assms(5,6) by (auto simp: f2_def bt_inv_def bt_core_def)
  have fits2: "fits (length vs) (bt_abs f2)"
    using bt_inv_bounded [OF assms(5)]
    by (simp add: abs2 fits_def aq_bounded_def aq_admitted_def)
  note commit = bt_commit_refines [OF core2 held2 fits2, of c opts w1]
  have gate: "\<not> b_closed f" "\<not> (0 < b_maxSize f \<and> b_maxSize f < int (length vs))"
      "b_maxSize f = 0 \<or>
       int (length (bt_live f)) - b_hydrated f + b_inflight f + int (length vs) \<le> b_maxSize f"
    using assms(1,3) bt_admitted [of f]
    by (auto simp: spec_gate_def fits_def bt_inv_def split: if_splits)
  have len: "bt_len f = int (length (bt_live f))" using assms(1) by (simp add: bt_inv_def bt_core_len)
  have enter: "RunOnAdmit_enter bt_cells bt_put_cells (int (length vs)) (bt_lock f) =
      f\<lparr>b_inflight := b_inflight f + int (length vs)\<rparr>"
    using assms(1) by (simp add: RunOnAdmit_enter_def bt_cells_def bt_put_cells_def bt_inv_def)
  have put: "bt_put_cells (qlock_Lock (b_lk f1), b_inflight f1 - int (length vs), b_notFull f1) f1 = f2"
    by (cases f1) (simp add: f2_def bt_put_cells_def)
  have wake: "bt_put_cells (l, b_inflight f1 - int (length vs), signal_gated (b_notFull f1)) f1 =
      f2\<lparr>b_lk := l, b_notFull := signal_gated (b_notFull f2)\<rparr>" for l
    by (cases f1) (simp add: f2_def bt_put_cells_def)
  have same: "b_closed f2 = b_closed f1" "b_notFull f2 = b_notFull f1" "b_lk f2 = qlock_Lock (b_lk f1)"
    by (simp_all add: f2_def)
  have woken: "bt_core (f2\<lparr>b_notFull := signal_gated (b_notFull f1)\<rparr>)"
      "bt_core (f2\<lparr>b_lk := l, b_notFull := signal_gated (b_notFull f1)\<rparr>)" for l
    using core2 assms(5) by (auto simp: bt_inv_def bt_core_sig)
  have rel: "qlock_Unlock (qlock_Lock (b_lk f1)) = b_lk f1" "lk_ok (b_lk f1)"
    using assms(5) by (simp_all add: bt_inv_def)
  show ?thesis
    using gate core2 woken held2 commit assms(2,4) rel
    by (cases "bt_push_commit c vs opts (f2, w1)"; cases r)
      (auto simp: bt_push_round_def len RunOnAdmit_def RunOnAdmit_exit_def enter spec_admitted_def
        bt_cells_def put wake same Let_def abs2 bt_inv_def bt_abandon_def ReleaseReservation_def
        split: option.splits)
qed

subsection \<open>Pop\<close>

lemma bt_dropHydrated_eq: "bt_dropHydrated n f = f\<lparr>b_hydrated := max 0 (b_hydrated f - n)\<rparr>"
  by (simp add: bt_dropHydrated_def)

text \<open>The state after the first \<open>k\<close> items have been taken.\<close>

lemma bt_taken:
  assumes core: "bt_core f" and k: "k = min n (length (bt_live f))" and f1: "retreed f f1 (drop k (bt_live f))"
    and f2: "f2 = bt_wake_producers (bt_dropHydrated (min (int k) (b_hydrated f1)) f1)"
  shows "bt_core f2" "b_lk f2 = b_lk f" "bt_abs f2 = (bt_abs f)\<lparr>aq_items := drop n (aq_items (bt_abs f)),
      aq_notFull := signal_gated (b_notFull f)\<rparr>"
proof -
  note ff = retreed_fields [OF f1] and live = retreed_ok [OF f1]
  have hyd: "0 \<le> b_hydrated f" "b_hydrated f \<le> int (length (bt_live f))" using core by (auto simp: bt_core_def)
  have eq: "f2 = f1\<lparr>b_hydrated := max 0 (b_hydrated f - int k), b_notFull := signal_gated (b_notFull f)\<rparr>"
    using ff hyd by (simp add: f2 bt_wake_eq bt_dropHydrated_eq max_def min_def)
  show "b_lk f2 = b_lk f" using ff by (simp add: eq)
  have "mark (nat (max 0 (b_hydrated f - int k))) (drop k (bt_live f)) = drop n (mark (nat (b_hydrated f)) (bt_live f))"
    using k hyd by (cases "n \<le> length (bt_live f)") (auto simp: drop_mark max_def nat_diff_distrib)
  then show "bt_abs f2 = (bt_abs f)\<lparr>aq_items := drop n (aq_items (bt_abs f)), aq_notFull := signal_gated (b_notFull f)\<rparr>"
    using ff live by (simp add: bt_abs_def eq)
  show "bt_core f2" using core ff live k by (auto simp: bt_core_def eq of_nat_diff)
qed

lemma bt_peek_first_ok:
  assumes "bt_mem_ok f" and "0 < k"
  shows "bt_peek_first k f = take k (bt_live f)"
  using each_take [of "[]" k "bt_live f"] assms by (simp add: bt_peek_first_def bt_walk_each)

lemma bt_pop_round_refines:
  fixes opts :: "(('a, 'w) btype, 'w) opoptions"
  assumes n: "0 < n"
  shows "refines bt_inv bt_abs (bt_pop_round it g c n opts) (spec_pop g c n (oo_SideEffect opts))"
  unfolding refines_def
proof (intro allI impI)
  fix f :: "('a, 'w) btype" and w :: 'w
  assume inv: "bt_inv f"
  define k where "k = min n (length (bt_live f))"
  have core: "bt_core f" "lk_held (qlock_Lock (b_lk f))" using bt_lock_core [OF inv] by auto
  have mem: "bt_mem_ok (bt_lock f)" using core(1) by (simp add: bt_core_def)
  have len: "bt_len f = int (length (bt_live f))" using core(1) by (rule bt_core_len)
  have kk: "(if length (bt_live f) < n then nat (bt_len (bt_lock f)) else n) = k" "(if length (bt_live f) < n then nat (bt_len f) else n) = k"
    "(if length (bt_live f) < n then length (bt_live f) else n) = k"
    by (simp_all add: k_def min_def len)
  obtain f1 where f1: "bt_pop_loop (it_zero it) k (bt_lock f) = (take k (bt_live f), f1)" "retreed (bt_lock f) f1 (drop k (bt_live f))"
    using bt_pop_loop_ok [OF mem, of k "it_zero it"] by (auto simp: k_def)
  define f2 where "f2 = bt_wake_producers (bt_dropHydrated (min (int k) (b_hydrated f1)) f1)"
  have t: "bt_core f2" "b_lk f2 = qlock_Lock (b_lk f)" "bt_abs f2 = (bt_abs f)\<lparr>aq_items := drop n (aq_items (bt_abs f)),
      aq_notFull := signal_gated (b_notFull f)\<rparr>"
    using bt_taken [of "bt_lock f" k n f1 f2] core(1) f1(2) by (simp_all add: k_def f2_def)
  have inv2: "bt_inv (bt_unlock f2)" using t(1,2) core(2) inv by (simp add: bt_inv_def)
  have out: "take n (bt_live f) = take k (bt_live f)" by (simp add: k_def min_def)
  have peek: "bt_peek_first k (bt_lock f) = take k (bt_live f)" if "bt_live f \<noteq> []"
    using bt_peek_first_ok [OF mem, of k] n that by (simp add: k_def)
  show "case bt_pop_round it g c n opts (f, w) of (r, f', w') \<Rightarrow>
      spec_pop g c n (oo_SideEffect opts) (bt_abs f, w) = (r, bt_abs f', w') \<and> bt_inv f'"
  proof (cases "b_closed f \<or> bt_live f = []")
    case True
    then show ?thesis using core inv by (auto simp: bt_pop_round_def spec_pop_def Let_def len bt_inv_def)
  next
    case False
    then have out2: "bt_peek_first k (bt_lock f) = take k (bt_live f)" "bt_live f \<noteq> []" "\<not> b_closed f" using peek by auto
    have same: "bt_inv (f\<lparr>b_lk := qlock_Unlock (qlock_Lock (b_lk f))\<rparr>)" using inv by (simp add: bt_inv_def)
    note run = bt_pop_round_def spec_pop_def spec_effects_def RunSideEffectLocked_pair RunBackup_pair bt_popped_def kk len out out2 same
      f1(1) f2_def [symmetric] t(3) inv inv2
    obtain x w1 where se: "RunSideEffect (oo_SideEffect opts) w = (x, w1)" by fastforce
    show ?thesis
    proof (cases "x = Ret None")
      case True
      then show ?thesis
        by (cases "b_backup f") (simp_all add: run se Let_def split: run_splits)
    next
      case False
      then consider "x = Unwinds" | e where "x = Ret (Some e)" by (metis not_None_eq outcome.exhaust)
      then show ?thesis by cases (simp_all add: run se Let_def)
    qed
  qed
qed

subsection \<open>Reading\<close>

lemma bt_Front_live:
  assumes "bt_core f" and "bt_live f = v # vs"
  shows "(case Front (b_t f) (b_mem f) of None \<Rightarrow> zero | Some (_, v) \<Rightarrow> v) = v"
proof -
  have ok: "tree_ok (b_t f)" using assms(1) bt_tree_ok [of f] by (simp add: bt_core_def)
  obtain r t st where r: "front0 (b_t f) False (b_mem f) = (r, t, st)" by (metis prod_cases3)
  obtain x xs where "contents (b_t f) = x # xs" "snd x = v" using assms(2) by (auto simp: bt_live_def)
  then show ?thesis using front0_ok [OF ok r] r by (cases x) (simp add: Front_def)
qed

lemma bt_walk_core: "bt_core f \<Longrightarrow> bt_walk (f\<lparr>b_lk := l\<rparr>) body s = each body (bt_live f) s"
  using bt_walk_each [of "f\<lparr>b_lk := l\<rparr>" body s] by (simp add: bt_core_def)

lemma bt_Peek_refines:
  assumes "ResolveOpOptions CallPeek options = Ret (opts, None)"
  shows "refines bt_inv bt_abs (bt_Peek it options) (spec_peek (it_zero it) (oo_SideEffect opts))"
proof (rule refinesI)
  fix f :: "('a, 'b) btype" and w
  show "bt_inv f \<Longrightarrow> spec_peek (it_zero it) (oo_SideEffect opts) (bt_abs f, w) =
      map_prod id (map_prod bt_abs id) (bt_Peek it options (f, w))"
    by (cases "bt_live f")
      (auto simp: bt_Peek_def resolve_def assms spec_peek_def bt_inv_def bt_core_len bt_Front_live Let_def split: prod.splits)
qed (auto simp: bt_Peek_def resolve_def assms bt_inv_def Let_def split: prod.splits)

lemma bt_Exists_refines:
  assumes "ResolveOpOptions CallExists options = Ret (opts, None)"
  shows "refines bt_inv bt_abs (bt_Exists it v options) (spec_exists it v (oo_SideEffect opts))"
  by (rule refinesI)
    (auto simp: bt_Exists_def resolve_def assms spec_exists_def bt_inv_def bt_walk_core each_exists Let_def
      split: prod.splits)

lemma bt_Len_refines:
  "bt_inv f \<Longrightarrow> bt_Len f = (int (length (aq_items (bt_abs f))), f)"
  by (simp add: bt_Len_def bt_inv_def bt_core_len Let_def)

lemma bt_notempty_round_refines:
  "refines bt_inv bt_abs (bt_notempty_round g opts) (spec_notempty g (oo_SideEffect opts))"
  by (rule refinesI)
    (auto simp: bt_notempty_round_def spec_notempty_def bt_inv_def bt_core_len RunSideEffectLocked_pair Let_def
      split: run_splits)

lemma bt_notfull_round_refines:
  "refines bt_inv bt_abs (bt_notfull_round g opts) (spec_notfull g (oo_SideEffect opts))"
proof -
  have fits: "bt_inv f \<Longrightarrow> fits (Suc 0) (bt_abs f) = (b_maxSize f = 0 \<or>
      int (length (bt_live f)) - b_hydrated f + b_inflight f < b_maxSize f)" for f :: "('a, 'b) btype"
    using bt_admitted [of f] by (auto simp: fits_def bt_inv_def)
  show ?thesis
    by (rule refinesI)
      (auto simp: bt_notfull_round_def spec_notfull_def fits RunSideEffectLocked_pair Let_def
        simp: bt_inv_def bt_core_len split: run_splits)
qed

subsection \<open>Close\<close>

lemma bt_closeAndWake_abs: "bt_abs (bt_closeAndWake f) = aq_close (bt_abs f)"
  by (simp add: bt_closeAndWake_def aq_close_def Let_def)

lemma bt_closeAndWake_inv: "bt_core f \<Longrightarrow> lk_held (b_lk f) \<Longrightarrow> bt_inv (bt_closeAndWake f)"
  by (simp add: bt_closeAndWake_def bt_inv_def Let_def bt_core_sig)

lemma bt_Close_refines:
  fixes options :: "(('a, 'w) btype, 'w) opoption list"
  assumes "ResolveOpOptions CallClose options = Ret (opts, None)"
  shows "refines bt_inv bt_abs (bt_Close c options) (spec_close c (oo_SideEffect opts))"
  unfolding refines_def
proof (intro allI impI)
  fix f :: "('a, 'w) btype" and w :: 'w
  assume inv: "bt_inv f"
  have core: "bt_core (bt_lock f)" "lk_held (b_lk (bt_lock f))"
    using bt_lock_core [OF inv] by auto
  note fin = bt_unlock_inv [OF core] bt_closeAndWake_inv [OF core]
  show "case bt_Close c options (f, w) of (r, f', w') \<Rightarrow>
      spec_close c (oo_SideEffect opts) (bt_abs f, w) = (r, bt_abs f', w') \<and> bt_inv f'"
    using fin
    by (cases "b_backup f"; cases "RunSideEffect (oo_SideEffect opts) w"; cases "fst (RunSideEffect (oo_SideEffect opts) w)")
      (auto simp: bt_Close_def resolve_def assms spec_close_def RunSideEffectLocked_pair
        RunBackup_pair bt_closeAndWake_abs Let_def split: run_splits)
qed

end
