(* ===== verification/Btype_Contract.thy ===== *)
theory Btype_Contract
  imports Btype_Store
begin

text \<open>
  The rest of the refinement of the tree backing against the abstract queue: \<open>Clear\<close>, \<open>Del\<close>, the
  waiting operations, restoring from a backup and both iterators; and the interpretation of the
  interface \<open>queue_backing\<close>, through which every fact proved about a queue over a FIFO backing holds
  for it.
\<close>

subsection \<open>Clear\<close>

lemma bt_cleared:
  assumes "bt_core f" and "f3 = bt_wake_producers (f\<lparr>b_t := Clear_tree (b_t f), b_hydrated := 0\<rparr>)"
  shows "bt_core f3 \<and> bt_abs f3 = (bt_abs f)\<lparr>aq_items := [], aq_notFull := signal_gated (b_notFull f)\<rparr>"
proof -
  obtain F where fam: "family_ok (b_t f) F (b_mem f)" using assms(1) by (auto simp: bt_core_def bt_mem_ok_def)
  have "family_ok (Clear_tree (b_t f)) F (b_mem f)" using Clear_step [OF fam] by (simp add: family_step_def)
  then have mem: "bt_mem_ok f3" by (auto simp: assms(2) bt_wake_eq bt_mem_ok_def)
  have live: "bt_live f3 = []" using Clear_tree_ok(2) [of "b_t f"] fam by (simp add: assms(2) bt_wake_eq bt_live_def family_ok_def)
  show ?thesis using assms(1) mem live by (auto simp: bt_core_def bt_abs_def assms(2) bt_wake_eq)
qed

lemma bt_Clear_refines:
  fixes options :: "(('a, 'w) btype, 'w) opoption list"
  assumes "ResolveOpOptions CallClear options = Ret (opts, None)"
  shows "refines bt_inv bt_abs (bt_Clear c options) (spec_clear c (oo_SideEffect opts))"
  unfolding refines_def
proof (intro allI impI)
  fix f :: "('a, 'w) btype" and w :: 'w
  assume inv: "bt_inv f"
  have core: "bt_core (bt_lock f)" "lk_held (b_lk (bt_lock f))"
    using bt_lock_core [OF inv] by auto
  note cleared = bt_cleared [OF core(1) refl]
  note fin = bt_unlock_inv [OF core] bt_unlock_inv [OF conjunct1 [OF cleared]]
  show "case bt_Clear c options (f, w) of (r, f', w') \<Rightarrow>
      spec_clear c (oo_SideEffect opts) (bt_abs f, w) = (r, bt_abs f', w') \<and> bt_inv f'"
    using fin bt_cleared [OF conjunct1 [OF bt_lock_core [OF inv]] refl] core
    by (cases "b_backup f"; cases "RunSideEffect (oo_SideEffect opts) w"; cases "fst (RunSideEffect (oo_SideEffect opts) w)")
      (auto simp: bt_Clear_def resolve_def assms spec_clear_def spec_effects_def bt_wake_eq bt_core_len Let_def
        split: run_splits)
qed

subsection \<open>Del\<close>

lemma bt_matches_ok:
  "bt_core f \<Longrightarrow> bt_matches it vs (f\<lparr>b_lk := l\<rparr>) =
     (match_positions (\<lambda>x. MatchesAny it x vs) 0 (bt_live f), filter (\<lambda>x. MatchesAny it x vs) (bt_live f))"
  using each_matches [of "\<lambda>x. MatchesAny it x vs" "bt_live f" 0 "[]" "[]"] by (simp add: bt_matches_def bt_walk_core)

lemma bt_deleted:
  assumes core: "bt_core f" and p: "p = (\<lambda>x. MatchesAny it x vs)"
    and f2: "f2 = bt_wake_producers (bt_dropHydrated
      (int (length (filter (\<lambda>i. i < b_hydrated f) (match_positions p 0 (bt_live f)))))
      (bt_delete_all (match_positions p 0 (bt_live f)) f))"
  shows "bt_core f2" "b_lk f2 = b_lk f" "bt_abs f2 = (bt_abs f)\<lparr>
      aq_items := filter (\<lambda>x. \<not> MatchesAny it (fst x) vs) (aq_items (bt_abs f)),
      aq_notFull := signal_gated (b_notFull f)\<rparr>"
proof -
  let ?P = "\<lambda>x. \<not> p x" and ?h = "nat (b_hydrated f)" and ?xs = "bt_live f"
  define f1 where "f1 = bt_delete_all (match_positions p 0 ?xs) f"
  have r: "retreed f f1 (filter ?P ?xs)"
    using bt_delete_all_ok [of f ?xs "[]" p] core by (simp add: f1_def bt_core_def)
  note ff = retreed_fields [OF r] and live = retreed_ok [OF r]
  have h: "0 \<le> b_hydrated f" "b_hydrated f \<le> int (length ?xs)" using core by (auto simp: bt_core_def)
  have split: "length (filter ?P (take ?h ?xs)) + length (filter p (take ?h ?xs)) = ?h"
    using h filter_length_split [of p "take ?h ?xs"] by simp
  have eq: "f2 = f1\<lparr>b_hydrated := int (length (filter ?P (take ?h ?xs))), b_notFull := signal_gated (b_notFull f)\<rparr>"
    using split h ff by (simp add: f2 f1_def [symmetric] bt_wake_eq bt_dropHydrated_eq match_positions_below)
  have le: "length (filter ?P (take ?h ?xs)) \<le> length (filter ?P ?xs)"
    by (metis append_take_drop_id filter_append le_add1 length_append)
  have rest: "length (filter ?P ?xs) - length (filter ?P (take ?h ?xs)) \<le> length ?xs - ?h"
    by (metis append_take_drop_id diff_add_inverse filter_append length_append length_drop length_filter_le)
  have "int (length (filter ?P ?xs)) - int (length (filter ?P (take ?h ?xs))) \<le> int (length ?xs) - b_hydrated f"
    using rest le h by linarith
  then show "bt_core f2" using core live le ff by (auto simp: bt_core_def eq)
  show "b_lk f2 = b_lk f" using ff by (simp add: eq)
  show "bt_abs f2 = (bt_abs f)\<lparr>aq_items := filter (\<lambda>x. \<not> MatchesAny it (fst x) vs) (aq_items (bt_abs f)),
      aq_notFull := signal_gated (b_notFull f)\<rparr>"
    using live ff filter_mark [of ?P ?h ?xs] by (simp add: bt_abs_def eq p)
qed

lemma bt_Del_refines:
  fixes options :: "(('a, 'w) btype, 'w) opoption list"
  assumes "ResolveOpOptions CallDel options = Ret (opts, None)" and inv: "bt_inv f"
  shows "case bt_Del it c vs options (f, w) of (r, f', w') \<Rightarrow>
    spec_del it c vs (filter (\<lambda>x. MatchesAny it x vs) (aq_contents (bt_abs f))) (oo_SideEffect opts)
      (bt_abs f, w) = (r, bt_abs f', w') \<and> bt_inv f'"
proof -
  have core: "bt_core (bt_lock f)" "lk_held (b_lk (bt_lock f))" "bt_core f"
    using bt_lock_core [OF inv] by auto
  define p where "p = (\<lambda>x. MatchesAny it x vs)"
  define f2 where "f2 = bt_wake_producers (bt_dropHydrated
      (int (length (filter (\<lambda>i. i < b_hydrated f) (match_positions p 0 (bt_live f)))))
      (bt_delete_all (match_positions p 0 (bt_live f)) (bt_lock f)))"
  have del: "bt_core f2" "b_lk f2 = qlock_Lock (b_lk f)" "bt_abs f2 = (bt_abs f)\<lparr>
      aq_items := filter (\<lambda>x. \<not> MatchesAny it (fst x) vs) (aq_items (bt_abs f)),
      aq_notFull := signal_gated (b_notFull f)\<rparr>"
    using bt_deleted [OF core(1) p_def, of f2] by (auto simp: f2_def)
  then have fin: "bt_inv (bt_unlock (bt_lock f))" "bt_inv (bt_unlock f2)"
    using core inv by (auto simp: bt_inv_def)
  note run = bt_Del_def resolve_def assms(1) spec_del_def spec_effects_def bt_matches_ok [OF core(3), of it vs, folded p_def]
    f2_def [symmetric] p_def [symmetric] Let_def
  show ?thesis
    using fin del(3)
    by (cases "b_backup f"; cases "RunSideEffect (oo_SideEffect opts) w"; cases "fst (RunSideEffect (oo_SideEffect opts) w)")
      (auto simp: run split: run_splits)
qed

subsection \<open>Blocking\<close>

lemma bt_resume_notFull_refines:
  assumes "bt_inv f" and "waits_full g (bt_abs f)"
  shows "case bt_resume_notFull g c mk (f, w) of (r, f', w') \<Rightarrow>
    spec_resume_notFull g c mk (bt_abs f, w) = (r, bt_abs f', w') \<and> bt_inv f'"
  using assms sig_ok_return [of g "b_notFull f" c w]
  by (auto simp: bt_resume_notFull_def spec_resume_notFull_def bt_ClosedOrCause_def closed_or_cause_def
      bt_inv_def Let_def split: prod.splits option.splits)

lemma bt_resume_notEmpty_refines:
  assumes "bt_inv f" and "waits_empty g (bt_abs f)"
  shows "case bt_resume_notEmpty g c mk (f, w) of (r, f', w') \<Rightarrow>
    spec_resume_notEmpty g c mk (bt_abs f, w) = (r, bt_abs f', w') \<and> bt_inv f'"
  using assms sig_ok_return [of g "b_notEmpty f" c w]
  by (auto simp: bt_resume_notEmpty_def spec_resume_notEmpty_def bt_ClosedOrCause_def closed_or_cause_def
      bt_inv_def Let_def split: prod.splits option.splits)

lemma bt_inv_sig: "bt_inv f \<Longrightarrow> sig_ok (b_notFull f) \<and> sig_ok (b_notEmpty f)"
  by (auto simp: bt_inv_def bt_core_sig)

lemma bt_Push_refines:
  assumes "ResolveOpOptions CallPush options = Ret (opts, None)" and hook: "oo_OnAdmit opts = None"
    and "ValidateKind it False vs = None"
    and env: "list_all2 (env_refines bt_inv bt_abs (waits_full g)) env aenv"
  shows "refines bt_inv bt_abs (bt_Push it g c vs options env)
    (spec_Push fifo_place g c vs (oo_SideEffect opts) aenv)"
proof -
  note round = bt_push_round_refines [OF hook, of g c vs]
  have "refines bt_inv bt_abs
      (wait_loop (bt_push_round g c vs opts) (bt_resume_notFull g c id) env)
      (spec_Push fifo_place g c vs (oo_SideEffect opts) aenv)"
    unfolding refines_from_same [symmetric]
    by (rule spec_Push_refines [OF round [folded refines_from_same] _ _ bt_resume_notFull_refines env])
      (simp add: bt_inv_sig, use refinesD [OF round] in blast)
  then show ?thesis using assms by (simp add: bt_Push_def resolve_def refines_def)
qed

lemma bt_Pop_refines:
  assumes "ResolveOpOptions CallPop options = Ret (opts, None)" and n: "0 < n"
    and env: "list_all2 (env_refines bt_inv bt_abs (waits_empty g)) env aenv"
  shows "refines bt_inv bt_abs (bt_Pop it g c n options env)
    (spec_Pop g c n (oo_SideEffect opts) aenv)"
  using spec_Pop_refines [OF bt_pop_round_refines [OF n, of it g c opts] _ bt_resume_notEmpty_refines env] assms bt_inv_sig
  by (fastforce simp: bt_Pop_def resolve_def refines_def)

lemma bt_NotEmpty_refines:
  assumes "ResolveOpOptions CallNotEmpty options = Ret (opts, None)"
    and env: "list_all2 (env_refines bt_inv bt_abs (waits_empty g)) env aenv"
  shows "refines bt_inv bt_abs (bt_NotEmpty g c options env)
    (spec_NotEmpty g c (oo_SideEffect opts) aenv)"
  using spec_NotEmpty_refines [OF bt_notempty_round_refines [of g opts] _ bt_resume_notEmpty_refines env] assms bt_inv_sig
  by (fastforce simp: bt_NotEmpty_def resolve_def refines_def)

lemma bt_NotFull_refines:
  assumes "ResolveOpOptions CallNotFull options = Ret (opts, None)"
    and env: "list_all2 (env_refines bt_inv bt_abs (waits_full g)) env aenv"
  shows "refines bt_inv bt_abs (bt_NotFull g c options env)
    (spec_NotFull g c (oo_SideEffect opts) aenv)"
  using spec_NotFull_refines [OF bt_notfull_round_refines [of g opts] _ bt_resume_notFull_refines env] assms bt_inv_sig
  by (fastforce simp: bt_NotFull_def resolve_def refines_def)

lemma bt_Push_hook:
  assumes "ResolveOpOptions CallPush options = Ret (opts, None)" and "oo_OnAdmit opts = Some hook"
    and "ValidateKind it False vs = None" and inv: "bt_inv f"
    and gate: "spec_gate (length vs) (bt_abs f) = GateAdmit"
    and hook: "hook (f\<lparr>b_inflight := b_inflight f + int (length vs)\<rparr>, w) = (r, f1, w1)"
    and inv1: "bt_inv f1" and "int (length vs) \<le> b_inflight f1"
  shows "case bt_Push it g c vs options env (f, w) of (r', f', w') \<Rightarrow>
    spec_admitted fifo_place c vs (oo_SideEffect opts) r (bt_abs f1, w1) = (r', bt_abs f', w') \<and>
    bt_inv f'"
proof -
  obtain r' f' w' where round: "bt_push_round g c vs opts (f, w) = (r', f', w')"
    by (metis prod_cases3)
  note spec = bt_push_round_hook [OF inv assms(2) gate hook inv1 assms(8), where g = g and c = c, unfolded round]
  obtain x where "r' = Done x"
    using spec by (cases r') (auto simp: spec_admitted_def spec_commit_def Let_def split: run_splits if_splits)
  then show ?thesis
    using spec round wait_loop_done [of "bt_push_round g c vs opts" "(f, w)" x] assms(1,3)
    by (simp add: bt_Push_def resolve_def)
qed

lemma bt_reserved_inv:
  "bt_inv f \<Longrightarrow> spec_gate n (bt_abs f) = GateAdmit \<Longrightarrow>
     bt_inv (f\<lparr>b_inflight := b_inflight f + int n\<rparr>)"
  using bt_admitted [of f]
  by (auto simp: spec_gate_def fits_def bt_inv_def bt_core_def split: if_splits)

subsection \<open>Hydrate\<close>

lemma bt_hydrate_loop_refines:
  assumes "bt_core f" and "b_hydrated f = int (length (bt_live f))"
    and "bt_hydrate_loop it c b rs (f, w) = (r, f', w')"
  shows "spec_hydrate_loop fifo_place it False c b rs (bt_abs f, w) = (r, bt_abs f', w') \<and>
    bt_core f' \<and> b_lk f' = b_lk f"
  using assms
proof (induction it c b rs "(f, w)" arbitrary: f w rule: bt_hydrate_loop.induct)
  case (4 it c b v rs f w)
  define f1 where "f1 = (bt_PushBack v f)\<lparr>b_hydrated := b_hydrated f + 1\<rparr>"
  have r: "retreed f (bt_PushBack v f) (bt_live f @ [v])" using 4(2) by (simp add: bt_core_def bt_PushBack_ok)
  note ff = retreed_fields [OF r] and rok = retreed_ok [OF r]
  have live: "bt_live f1 = bt_live f @ [v]" using rok by (simp add: f1_def)
  have core: "bt_core f1" "b_hydrated f1 = int (length (bt_live f1))"
    using 4(2,3) ff rok by (auto simp: bt_core_def live f1_def)
  have "mark (nat (b_hydrated f + 1)) (bt_live f @ [v]) = mark (nat (b_hydrated f)) (bt_live f) @ [(v, True)]"
    using 4(3) by (simp add: mark_def nat_add_distrib)
  then have abs: "bt_abs f1 = (bt_abs f)\<lparr>aq_items := fifo_place (aq_items (bt_abs f)) (v, True)\<rparr>"
    using ff by (simp add: bt_abs_def live fifo_place_def) (simp add: f1_def)
  have lk: "b_lk f1 = b_lk f" using ff by (simp add: f1_def)
  have IH: "spec_hydrate_loop fifo_place it False c b rs (bt_abs f1, w1) = (r, bt_abs f', w') \<and>
      bt_core f' \<and> b_lk f' = b_lk f1"
    if "ValidateKindOne it False v = None" "bk_OnLoad b c v w = (Returned None, w1)"
      "bt_hydrate_loop it c b rs (f1, w1) = (r, f', w')" for w1
    using 4(1) [OF that(1) that(2) [symmetric] refl refl, folded f1_def] core that(3) by blast
  show ?case
    using IH 4(2,4) abs lk by (auto simp: f1_def [symmetric] split: run_splits)
qed auto

lemma bt_Hydrate_refines:
  assumes "bt_inv f" and "\<forall>x \<in> set (aq_items (bt_abs f)). snd x"
  shows "case bt_Hydrate it c b (f, w) of (r, f', w') \<Rightarrow>
    spec_hydrate fifo_place it False c b (bt_abs f, w) = (r, bt_abs f', w') \<and> bt_inv f'"
proof -
  have core: "bt_core (bt_lock f)" "lk_held (b_lk (bt_lock f))"
    using bt_lock_core [OF assms(1)] by auto
  have "drop (nat (b_hydrated f)) (bt_live f) = []"
    using assms(2) by (cases "drop (nat (b_hydrated f)) (bt_live f)") (auto simp: mark_def)
  then have "b_hydrated (bt_lock f) = int (length (bt_live (bt_lock f)))"
    using core(1) by (auto simp: bt_core_def)
  note loop = bt_hydrate_loop_refines [OF core(1) this]
  obtain r f1 w1 where eq: "bt_hydrate_loop it c b (bk_RangeAll b c w) (bt_lock f, w) = (r, f1, w1)"
    by (metis prod_cases3)
  have fin: "bt_inv (bt_unlock f1)" "bt_inv (bt_unlock (f1\<lparr>b_backup := x\<rparr>))" for x
    using loop [OF eq] core(2) by (auto simp: bt_inv_def bt_core_def)
  have attach: "bt_abs (f1\<lparr>b_backup := x, b_lk := l\<rparr>) = (bt_abs f1)\<lparr>aq_backup := x\<rparr>" for x l
    by (simp add: bt_abs_def bt_live_def)
  show ?thesis
    using loop [OF eq] eq fin
    by (auto simp: bt_Hydrate_def spec_hydrate_def attach split: outcome.splits option.splits)
qed

subsection \<open>Iteration\<close>

lemma bt_All_run:
  "bt_inv f \<Longrightarrow> bt_All it c yield (f, w) =
     (case (if b_closed f then yield_last yield (it_zero it) err_closed w
            else range_loop (it_zero it) c yield (bt_live f) w) of (r, w1) \<Rightarrow> (r, f, w1))"
  by (auto simp: bt_All_def bt_inv_def bt_walk_core each_range Let_def split: prod.splits)

lemma bt_All_refines: "refines bt_inv bt_abs (bt_All it c yield) (spec_range (it_zero it) c yield)"
  by (rule refinesI) (auto simp: bt_All_run spec_range_def split: prod.splits)

text \<open>The snapshot holds the same items; taking and dropping it keeps the memory sound, with any other
  live snapshots.\<close>

lemma bt_AllCOW_run:
  assumes inv: "bt_inv f"
  shows "\<exists>f'. bt_AllCOW it c yield wanted (f, w) = (case bt_All it c yield (f, w) of (r, _, w1) \<Rightarrow> (r, f', w1)) \<and>
    bt_inv f' \<and> bt_abs f' = bt_abs f"
proof (cases "b_closed f")
  case True
  then have "bt_AllCOW it c yield wanted (f, w) = (case bt_All it c yield (f, w) of (r, _, w1) \<Rightarrow> (r, f, w1))"
    using inv by (auto simp: bt_AllCOW_def bt_All_run bt_inv_def Let_def split: prod.splits)
  then show ?thesis using inv by blast
next
  case False
  obtain F where fam: "family_ok (b_t f) F (b_mem f)" using inv by (auto simp: bt_inv_def bt_core_def bt_mem_ok_def)
  obtain t1 snap st1 where cp: "CopyInto (b_t f) (b_mem f) = (t1, snap, st1)" by (metis prod_cases3)
  note co = CopyInto_ok [OF _ cp] and fam1 = CopyInto_step [OF fam cp]
  have ok: "tree_ok (b_t f)" using fam by (simp add: family_ok_def)
  obtain snap' st2 where rel: "Release_tree snap st1 = (snap', st2)" by fastforce
  have "t_copied t1" using cp by (auto simp: CopyInto_def Let_def)
  then have fam2: "family_ok t1 F st2" using Release_step [of t1 "[]" snap F st1, OF _ rel] fam1 by simp
  define f' where "f' = f\<lparr>b_t := t1, b_mem := st2\<rparr>"
  have live: "bt_live f' = bt_live f" using co(3) [OF ok] by (simp add: f'_def bt_live_def)
  have inv': "bt_inv f'" using inv fam2 live by (auto simp: bt_inv_def bt_core_def bt_mem_ok_def f'_def)
  have abs: "bt_abs f' = bt_abs f" using live by (simp add: bt_abs_def) (simp add: f'_def)
  obtain t3 st3 r w1 where a: "all0 snap (\<lambda>(_, v). range_body (it_zero it) c yield v) False st1 (Ret None, w) = (t3, st3, r, w1)"
    by (metis prod_cases4)
  have "(r, w1) = range_loop (it_zero it) c yield (bt_live f) w"
    using all0_ok [OF co(2) [OF ok] a] co(4) [OF ok] by (simp add: visit_each each_range bt_live_def)
  moreover have same: "f\<lparr>b_t := t1, b_lk := qlock_Unlock (qlock_Lock (b_lk f)), b_mem := m\<rparr> = f\<lparr>b_t := t1, b_mem := m\<rparr>" for m
    using inv by (cases f) (simp add: bt_inv_def)
  ultimately have "bt_AllCOW it c yield wanted (f, w) = (case bt_All it c yield (f, w) of (r, _, w1) \<Rightarrow> (r, f', w1))"
    using False cp rel a bt_All_run [OF inv, of it c yield w] same
    by (auto simp: bt_AllCOW_def Let_def f'_def split: prod.splits)
  then show ?thesis using inv' abs by blast
qed

lemma bt_AllCOW_refines:
  "refines bt_inv bt_abs (bt_AllCOW it c yield wanted) (spec_range (it_zero it) c yield)"
  unfolding refines_def
proof (intro allI impI)
  fix f :: "('a, 'b) btype" and w
  assume inv: "bt_inv f"
  obtain f' where f': "bt_AllCOW it c yield wanted (f, w) = (case bt_All it c yield (f, w) of (r, _, w1) \<Rightarrow> (r, f', w1))"
      "bt_inv f'" "bt_abs f' = bt_abs f"
    using bt_AllCOW_run [OF inv] by blast
  obtain r f1 w1 where a: "bt_All it c yield (f, w) = (r, f1, w1)" by (metis prod_cases3)
  have "f1 = f" using a by (auto simp: bt_All_run [OF inv] split: prod.splits)
  then show "case bt_AllCOW it c yield wanted (f, w) of (r, f', w') \<Rightarrow>
      spec_range (it_zero it) c yield (bt_abs f, w) = (r, bt_abs f', w') \<and> bt_inv f'"
    using refinesD [OF bt_All_refines inv a] f' a by simp
qed

section \<open>The interface\<close>

definition btype_backing :: "'a item \<Rightarrow> (('a, 'w) btype, 'a, 'w) backing" where
  "btype_backing it = \<lparr>
     bo_SetQueueLock = bt_SetQueueLock, bo_QueueLock = b_lk,
     bo_SetMaxBatch = bt_SetMaxBatch, bo_SetMaxSize = bt_SetMaxSize,
     bo_Hydrate = bt_Hydrate it, bo_Push = bt_Push it, bo_Pop = bt_Pop it,
     bo_Peek = bt_Peek it, bo_Exists = bt_Exists it, bo_Del = bt_Del it,
     bo_NotEmpty = bt_NotEmpty, bo_NotFull = bt_NotFull, bo_Len = bt_Len,
     bo_Close = bt_Close, bo_Clear = bt_Clear, bo_All = bt_All it, bo_AllCOW = bt_AllCOW it\<rparr>"

lemma bt_Hydrate_failed:
  assumes hyd: "bt_Hydrate it c b (f, w) = (r, f1, w1)" "r \<noteq> Ret None"
    and inv: "bt_inv f" "\<forall>x \<in> set (aq_items (bt_abs f)). snd x" and "b_backup f = None" and "\<not> b_closed f"
  shows "\<exists>f2. bt_Close c [] (f1, w1) = (Ret None, f2, w1) \<and> bt_abs f2 = aq_close (bt_abs f1) \<and> lk_ok (b_lk f2)"
proof -
  have spec: "spec_hydrate fifo_place it False c b (bt_abs f, w) = (r, bt_abs f1, w1)" "bt_inv f1"
    using bt_Hydrate_refines [OF inv, where it = it and c = c and b = b and w = w] hyd(1) by auto
  then have f1: "b_backup f1 = None" "\<not> b_closed f1"
    using spec_hydrate_loop_frame [of fifo_place it False c b "bk_RangeAll b c w" "bt_abs f" w] hyd(2) assms(5,6)
    by (auto simp: spec_hydrate_def split: prod.splits outcome.splits option.splits)
  have "ResolveOpOptions CallClose [] = Ret (\<lparr>oo_Call = CallClose, oo_SideEffect = None, oo_OnAdmit = None\<rparr>, None)"
    by (simp add: ResolveOpOptions_def)
  note close = bt_Close_refines [OF this, of c]
  obtain r2 f2 w2 where cl: "bt_Close c [] (f1, w1) = (r2, f2, w2)" by (metis prod_cases3)
  have "r2 = Ret None" "w2 = w1" "bt_abs f2 = aq_close (bt_abs f1)" "bt_inv f2"
    using refinesD [OF close spec(2) cl] f1 by (auto simp: spec_close_def RunSideEffect_def)
  then show ?thesis using cl by (auto simp: bt_inv_def)
qed

lemma bt_inv_lk: "bt_inv f \<Longrightarrow> lk_ok (b_lk f)"
  and bt_inv_set_lk: "bt_inv f \<Longrightarrow> lk_ok l \<Longrightarrow> bt_inv (f\<lparr>b_lk := l\<rparr>)"
  by (simp_all add: bt_inv_def)

interpretation bq: queue_backing "btype_backing it" bt_inv bt_abs fifo_place it False "\<lambda>_ _. True"
  for it :: "'a item"
proof (unfold_locales, goal_cases)
  case (13 options opts hook vs s w c g env)
  then show ?case
    using bt_Push_hook [OF 13(1-5), where w = w and g = g and c = c and env = env] bt_reserved_inv [of s "length vs"]
    by (intro exI [of _ "s\<lparr>b_inflight := b_inflight s + int (length vs)\<rparr>"]) (auto simp: btype_backing_def)
next
  case (10 s n e s')
  then show ?case
    by (auto simp: btype_backing_def bt_SetMaxSize_def bt_inv_def bt_core_def bt_abs_def split: if_splits)
next
  case (17 options opts s vs c w)
  then show ?case
    using bt_Del_refines [of options opts s it c vs w]
    by (intro exI [of _ "filter (\<lambda>x. MatchesAny it x vs) (aq_contents (bt_abs s))"]) (simp add: btype_backing_def)
next
  case (25 s b c w r s' w')
  then show ?case
    using bt_Hydrate_refines [where it = it and f = s and c = c and b = b and w = w] by (auto simp: btype_backing_def)
next
  case (26 s b c w r s' w')
  then show ?case
    using bt_Hydrate_failed [of it c b s w r s' w'] by (auto simp: btype_backing_def)
qed (simp_all add: btype_backing_def bt_inv_bounded bt_inv_sig refines_from_same bt_Push_refines bt_Pop_refines
  bt_Peek_refines bt_Exists_refines bt_NotEmpty_refines bt_NotFull_refines bt_Len_refines
  bt_Close_refines bt_Clear_refines bt_All_refines bt_AllCOW_refines bt_Hydrate_refines
  bt_Push_def resolve_def bt_SetQueueLock_def bt_SetMaxBatch_def bt_inv_lk bt_inv_set_lk split: if_splits)

end
