(* ===== verification/Queue_Agreement.thy ===== *)
theory Queue_Agreement
  imports Queue_API
begin

text \<open>
  \<open>Push\<close> and \<open>Pop\<close> of a queue as functions of what its backing represents. Two backings that keep the
  same contract are therefore interchangeable: started from states that represent the same abstract
  queue, the same calls return the same results, do the same to the caller's world and to the
  telemetry, and end in states that again represent the same abstract queue.
\<close>

section \<open>A queue as a caller sees it\<close>

definition spec_depth :: "('a, 'w) aq \<Rightarrow> qmetrics option \<Rightarrow> qmetrics option" where
  "spec_depth a met =
     map_option (\<lambda>m. let cur = int (length (aq_items a)) in
       m\<lparr>qm_lastDepth := cur, qm_depth := qm_depth m + (cur - qm_lastDepth m)\<rparr>) met"

text \<open>The call on the backing, after which a success records the depth.\<close>

definition spec_after :: "goerr option attempt \<times> ('a, 'w) aq \<times> 'w \<Rightarrow> qmetrics option \<Rightarrow>
    (bool \<times> goerr option) attempt \<times> (('a, 'w) aq \<times> qmetrics option) \<times> 'w" where
  "spec_after x met =
     (case x of
        (Done (Ret None), a, w) \<Rightarrow> (returns (True, None), (a, spec_depth a met), w)
      | (Done (Ret (Some e)), a, w) \<Rightarrow> (returns (False, Some e), (a, met), w)
      | (Done Unwinds, a, w) \<Rightarrow> (Done Unwinds, (a, met), w)
      | (Parked, a, w) \<Rightarrow> (Parked, (a, met), w))"

definition spec_queue_push :: "'a placing \<Rightarrow> 'a item \<Rightarrow> bool \<Rightarrow> nat \<Rightarrow> 'w ctx \<Rightarrow> 'a list \<Rightarrow> 'w call option \<Rightarrow>
    ('a, 'w) aq \<Rightarrow> int \<Rightarrow> qmetrics option \<Rightarrow> 'w \<Rightarrow> (bool \<times> goerr option) attempt \<times> (('a, 'w) aq \<times> qmetrics option) \<times> 'w" where
  "spec_queue_push place it prio g c vs se a mb met w =
     (if vs = [] then
        (case RunSideEffect se w of
           (Unwinds, w1) \<Rightarrow> (Done Unwinds, (a, met), w1)
         | (Ret e, w1) \<Rightarrow> (returns (e = None, e), (a, met), w1))
      else if int (length vs) > mb then (returns (False, Some (Sentinel ErrBatchTooLarge)), (a, met), w)
      else spec_after (case ValidateKind it prio vs of
          Some e \<Rightarrow> (returns (Some e), a, w)
        | None \<Rightarrow> spec_push place g c vs se (a, w)) met)"

definition spec_queue_pop :: "nat \<Rightarrow> 'w ctx \<Rightarrow> int \<Rightarrow> 'w call option \<Rightarrow> ('a, 'w) aq \<Rightarrow> qmetrics option \<Rightarrow> 'w \<Rightarrow>
    ('a list \<times> goerr option) attempt \<times> (('a, 'w) aq \<times> qmetrics option) \<times> 'w" where
  "spec_queue_pop g c n se a met w =
     (case spec_pop g c (nat n) se (a, w) of
        (Done (Ret (out, None)), a1, w1) \<Rightarrow> (returns (out, None), (a1, spec_depth a1 met), w1)
      | (Done (Ret (out, Some e)), a1, w1) \<Rightarrow> (returns ([], Some e), (a1, met), w1)
      | (Done Unwinds, a1, w1) \<Rightarrow> (Done Unwinds, (a1, met), w1)
      | (Parked, a1, w1) \<Rightarrow> (Parked, (a1, met), w1))"

definition spec_bracket :: "qop \<Rightarrow> ('r \<times> goerr option) attempt \<times> (('a, 'w) aq \<times> qmetrics option) \<times> 'w \<Rightarrow>
    ('r \<times> goerr option) attempt \<times> (('a, 'w) aq \<times> qmetrics option) \<times> 'w" where
  "spec_bracket op x =
     (case x of
        (Done r, (a, met), w) \<Rightarrow> (Done r, (a, opTimer_end op (map_outcome snd r) met), w)
      | (Parked, am, w) \<Rightarrow> (Parked, am, w))"

context queue_backing
begin

abbreviation view :: "('s, 'a, 'w) queue \<Rightarrow> ('a, 'w) aq \<times> qmetrics option" where
  "view q \<equiv> (rep (q_backing q), q_met q)"

lemma recordDepth_view: "ok (q_backing q) \<Longrightarrow> q_met (recordDepth ops q) = spec_depth (rep (q_backing q)) (q_met q)"
  by (auto simp: recordDepth_def Let_def len_law spec_depth_def split: option.splits)

lemma recordDepth_batch: "q_maxBatch (recordDepth ops q) = q_maxBatch q"
  by (simp add: recordDepth_def Let_def split: option.splits prod.splits)

lemma push_empty_view:
  assumes "queue_push ops g c [] (with_se se) [] (q, w) = (res, q', w')" and ok: "ok (q_backing q)"
  shows "q' = q \<and> spec_queue_push place it prio g c [] se (rep (q_backing q)) mb (q_met q) w = (res, view q, w')"
proof -
  have q': "q' = q" using queue_push_empty [OF assms(1) ok] by simp
  show ?thesis
  proof (cases se)
    case None
    then show ?thesis using assms(1) q' by (simp add: queue_push_def with_se_resolves spec_queue_push_def RunSideEffect_def)
  next
    case (Some f)
    obtain r w1 where r: "RunSideEffect (Some f) w = (r, w1)" by fastforce
    show ?thesis using assms(1) q' Some r
      by (cases r) (auto simp: queue_push_def with_se_resolves spec_queue_push_def on_backing_def Let_def RunSideEffectLocked_pair
          split: option.splits)
  qed
qed

lemma push_view:
  assumes res: "queue_push ops g c vs (with_se se) [] (q, w) = (res, q', w')" and ok: "ok (q_backing q)"
    and fresh: "fresh (length vs) (q_backing q)"
  shows "ok (q_backing q') \<and> q_maxBatch q' = q_maxBatch q \<and>
    spec_queue_push place it prio g c vs se (rep (q_backing q)) (q_maxBatch q) (q_met q) w = (res, view q', w')"
proof -
  have opts: "ResolveOpOptions CallPush (with_se se) = Ret (\<lparr>oo_Call = CallPush, oo_SideEffect = se, oo_OnAdmit = None\<rparr>, None)"
    by (rule with_se_resolves) simp
  consider "vs = []" | "vs \<noteq> []" "int (length vs) > q_maxBatch q" | "vs \<noteq> []" "int (length vs) \<le> q_maxBatch q" by linarith
  then show ?thesis
  proof cases
    case 1
    then show ?thesis using push_empty_view [of g c se q w res q' w'] res ok by simp
  next
    case 2
    then show ?thesis using res ok by (simp add: queue_push_def spec_queue_push_def)
  next
    case 3
    obtain r s1 w1 where push: "bo_Push ops g c vs (with_se se) [] (q_backing q, w) = (r, s1, w1)" by (metis prod_cases3)
    have spec: "(case ValidateKind it prio vs of Some e \<Rightarrow> (returns (Some e), rep (q_backing q), w)
        | None \<Rightarrow> spec_push place g c vs se (rep (q_backing q), w)) = (r, rep s1, w1)" "ok s1"
      using refines_fromD [OF push_now [OF opts] _ push] push_rejects [OF opts, of vs _ g c "[]" "q_backing q" w] ok fresh push
      by (cases "ValidateKind it prio vs"; simp)+
    show ?thesis
      using res 3 push spec recordDepth_view [of "q\<lparr>q_backing := s1\<rparr>"] recordDepth_batch [of "q\<lparr>q_backing := s1\<rparr>"]
        recordDepth_backing [of "q\<lparr>q_backing := s1\<rparr>"]
      by (auto simp: queue_push_def spec_queue_push_def spec_after_def on_backing_def split: attempt.splits outcome.splits option.splits)
  qed
qed

lemma Push_view:
  assumes res: "queue_Push ops g c vs (with_se se) [] (q, w) = (res, q', w')" and ok: "ok (q_backing q)"
    and fresh: "fresh (length vs) (q_backing q)"
  shows "ok (q_backing q') \<and> q_maxBatch q' = q_maxBatch q \<and>
    spec_bracket OpPush (spec_queue_push place it prio g c vs se (rep (q_backing q)) (q_maxBatch q) (instrument OpPush (q_met q)) w) =
      (res, view q', w')"
proof -
  let ?q = "q\<lparr>q_met := instrument OpPush (q_met q)\<rparr>"
  obtain r q1 w1 where p: "queue_push ops g c vs (with_se se) [] (?q, w) = (r, q1, w1)" by (metis prod_cases3)
  show ?thesis using push_view [OF p] ok fresh res p
    by (auto simp: queue_Push_def bracket_wait_def spec_bracket_def split: attempt.splits)
qed

lemma Pop_view:
  assumes res: "queue_Pop ops g c n (with_se se) [] (q, w) = (res, q', w')" and ok: "ok (q_backing q)" and n: "1 \<le> n"
  shows "ok (q_backing q') \<and> q_maxBatch q' = q_maxBatch q \<and>
    spec_bracket OpPop (spec_queue_pop g c n se (rep (q_backing q)) (instrument OpPop (q_met q)) w) = (res, view q', w')"
proof -
  have opts: "ResolveOpOptions CallPop (with_se se) = Ret (\<lparr>oo_Call = CallPop, oo_SideEffect = se, oo_OnAdmit = None\<rparr>, None)"
    by (rule with_se_resolves) simp
  let ?q = "q\<lparr>q_met := instrument OpPop (q_met q)\<rparr>"
  obtain r s1 w1 where pop: "bo_Pop ops g c (nat n) (with_se se) [] (q_backing q, w) = (r, s1, w1)" by (metis prod_cases3)
  have spec: "spec_pop g c (nat n) se (rep (q_backing q), w) = (r, rep s1, w1)" "ok s1"
    using refinesD [OF pop_now [OF opts] ok pop] n by auto
  show ?thesis
    using res n pop spec recordDepth_view [of "?q\<lparr>q_backing := s1\<rparr>"] recordDepth_batch [of "?q\<lparr>q_backing := s1\<rparr>"]
      recordDepth_backing [of "?q\<lparr>q_backing := s1\<rparr>"]
    by (auto simp: queue_Pop_def bracket_wait_def spec_queue_pop_def spec_bracket_def on_backing_def
        split: attempt.splits outcome.splits option.splits)
qed

end

section \<open>Two backings with one contract\<close>

locale same_contract =
  one: queue_backing ops1 ok1 rep1 place it prio "\<lambda>_ _. True" + two: queue_backing ops2 ok2 rep2 place it prio "\<lambda>_ _. True"
  for ops1 :: "('s, 'a, 'w) backing" and ok1 rep1 and ops2 :: "('t, 'a, 'w) backing" and ok2 rep2 and place it prio
begin

abbreviation agree :: "('s, 'a, 'w) queue \<Rightarrow> ('t, 'a, 'w) queue \<Rightarrow> bool" where
  "agree q1 q2 \<equiv> (ok1 (q_backing q1) \<and> ok2 (q_backing q2) \<and> rep1 (q_backing q1) = rep2 (q_backing q2) \<and>
     q_maxBatch q1 = q_maxBatch q2 \<and> q_met q1 = q_met q2)"

lemma push_agrees:
  assumes "agree q1 q2" and "queue_Push ops1 g c vs (with_se se) [] (q1, w) = (r1, q1', w1)"
    and "queue_Push ops2 g c vs (with_se se) [] (q2, w) = (r2, q2', w2)"
  shows "r1 = r2 \<and> w1 = w2 \<and> agree q1' q2'"
  using one.Push_view [OF assms(2)] two.Push_view [OF assms(3)] assms(1) by auto

lemma pop_agrees:
  assumes "agree q1 q2" and "queue_Pop ops1 g c n (with_se se) [] (q1, w) = (r1, q1', w1)"
    and "queue_Pop ops2 g c n (with_se se) [] (q2, w) = (r2, q2', w2)"
  shows "r1 = r2 \<and> w1 = w2 \<and> agree q1' q2'"
proof (cases "n < 1")
  case True
  then show ?thesis using assms by (simp add: queue_Pop_panics)
next
  case False
  then show ?thesis using one.Pop_view [OF assms(2)] two.Pop_view [OF assms(3)] assms(1) by auto
qed

lemma runs_agree:
  assumes "agree q1 q2" and "run_cmds ops1 c cs (q1, w) = (io1, q1', w1)" and "run_cmds ops2 c cs (q2, w) = (io2, q2', w2)"
  shows "io1 = io2 \<and> w1 = w2 \<and> agree q1' q2'"
  using assms
proof (induction cs arbitrary: q1 q2 w io1 io2)
  case Nil
  then show ?case by simp
next
  case (Cons x cs)
  obtain g cmd se where x: "x = (g, cmd, se)" by (metis prod_cases3)
  show ?case
  proof (cases cmd)
    case (DoPush vs)
    obtain r1 p1 u1 where 1: "queue_Push ops1 g c vs (with_se se) [] (q1, w) = (r1, p1, u1)" by (metis prod_cases3)
    obtain r2 p2 u2 where 2: "queue_Push ops2 g c vs (with_se se) [] (q2, w) = (r2, p2, u2)" by (metis prod_cases3)
    show ?thesis using push_agrees [OF Cons.prems(1) 1 2] Cons.prems(2,3) Cons.IH [of p1 p2 u1] 1 2
      by (fastforce simp: x DoPush split: prod.splits)
  next
    case (DoPop n)
    obtain r1 p1 u1 where 1: "queue_Pop ops1 g c n (with_se se) [] (q1, w) = (r1, p1, u1)" by (metis prod_cases3)
    obtain r2 p2 u2 where 2: "queue_Pop ops2 g c n (with_se se) [] (q2, w) = (r2, p2, u2)" by (metis prod_cases3)
    show ?thesis using pop_agrees [OF Cons.prems(1) 1 2] Cons.prems(2,3) Cons.IH [of p1 p2 u1] 1 2
      by (fastforce simp: x DoPop split: prod.splits)
  qed
qed

end

end
