(* ===== verification/Tree_Queue.thy ===== *)
theory Tree_Queue
  imports Btype_Contract Queue_Agreement Memory_Queue
begin

text \<open>
  Queues over the tree backing, the one \<open>NewBTreeFIFO\<close> chooses without \<open>WithIndex\<close>: the contract, and
  the equivalence with a queue over the slice backing.
\<close>

lemma bt_New_max:
  "m \<ge> 0 \<Longrightarrow> bt_inv (bt_New\<lparr>b_maxSize := m\<rparr>)" "bt_live (bt_New\<lparr>b_maxSize := m\<rparr>) = []" "bt_abs (bt_New\<lparr>b_maxSize := m\<rparr>) = fifo_abs (fifo_New\<lparr>f_maxSize := m\<rparr>)"
proof -
  have "family_ok zero_tree [] fresh_arena" using family_invariant [OF family.start] by (simp add: snap_nodes_def)
  then have "bt_mem_ok (bt_New\<lparr>b_maxSize := m\<rparr>)" by (auto simp: bt_mem_ok_def bt_New_def)
  then show "m \<ge> 0 \<Longrightarrow> bt_inv (bt_New\<lparr>b_maxSize := m\<rparr>)"
    by (simp add: bt_inv_def bt_core_def) (simp add: bt_New_def new_qlock_def lk_ok_def lk_free_def bt_live_def)
  show "bt_live (bt_New\<lparr>b_maxSize := m\<rparr>) = []" by (simp add: bt_New_def bt_live_def)
  then show "bt_abs (bt_New\<lparr>b_maxSize := m\<rparr>) = fifo_abs (fifo_New\<lparr>f_maxSize := m\<rparr>)"
    by (simp add: bt_abs_def fifo_abs_def) (simp add: bt_New_def fifo_New_def fifo_live_def)
qed

lemma bt_New_ok: "bt_inv bt_New" "bt_live bt_New = []"
proof -
  have same: "bt_New\<lparr>b_maxSize := 0\<rparr> = bt_New" by (simp add: bt_New_def)
  show "bt_inv bt_New" by (rule bt_New_max(1) [of 0, unfolded same]) simp
  show "bt_live bt_New = []" by (rule bt_New_max(2) [of 0, unfolded same])
qed

text \<open>
  The tree backing implements the same bounded blocking FIFO queue (C14). Every method of \<open>btype_fifo.go\<close>
  refines the corresponding operation of the abstract queue with placing at the end, under every
  schedule of interference by other goroutines, with \<open>Pop\<close> called for at least one item, as the queue
  does. The invariant, which a new backing satisfies, includes that the tree is well formed and its nodes
  are soundly shared with whatever snapshots are live.
\<close>

theorem btype_keeps_contract:
  "queue_backing (btype_backing it) bt_inv bt_abs fifo_place it False (\<lambda>_ _. True) \<and>
   bt_inv bt_New \<and> aq_items (bt_abs bt_New) = []"
  by (simp add: bq.queue_backing_axioms bt_New_ok)

interpretation ft: same_contract "fifo_backing it grow" "fifo_inv it" fifo_abs "btype_backing it" bt_inv bt_abs fifo_place it False
  for it :: "'a item" and grow :: "nat \<Rightarrow> nat \<Rightarrow> nat"
  by unfold_locales

text \<open>
  The two in-memory FIFO backings are interchangeable (C15). Run the same sequence of \<open>Push\<close> and \<open>Pop\<close> calls, with
  the same side effects, on a new queue over the slice backing and on a new queue over the tree backing
  with the same maximum. The same batches are accepted, the same items come out in the same order,
  the caller's world and the telemetry end up the same, and so do the contents.
\<close>

theorem tree_queue_equals_slice_queue:
  assumes "run_cmds (fifo_backing it grow) c cs (q1, w) = (io1, q1', w1)" and "run_cmds (btype_backing it) c cs (q2, w) = (io2, q2', w2)"
    and "q_backing q1 = fifo_New\<lparr>f_maxSize := m\<rparr>" and "q_backing q2 = bt_New\<lparr>b_maxSize := m\<rparr>" and "0 \<le> m"
    and "q_maxBatch q1 = q_maxBatch q2" and "q_met q1 = q_met q2"
  shows "io1 = io2 \<and> w1 = w2 \<and> q_met q1' = q_met q2' \<and> fifo_live (q_backing q1') = bt_live (q_backing q2') \<and> bt_inv (q_backing q2')"
proof -
  have run: "io1 = io2 \<and> w1 = w2 \<and> fifo_inv it (q_backing q1') \<and> bt_inv (q_backing q2') \<and>
      fifo_abs (q_backing q1') = bt_abs (q_backing q2') \<and> q_maxBatch q1' = q_maxBatch q2' \<and> q_met q1' = q_met q2'"
    by (rule ft.runs_agree [OF _ assms(1,2)]) (simp add: assms(3-) bt_New_max fifo_New_max_inv)
  then have abs: "fifo_abs (q_backing q1') = bt_abs (q_backing q2')" by blast
  have "fifo_live (q_backing q1') = bt_live (q_backing q2')" using arg_cong [OF abs, of aq_contents] by simp
  then show ?thesis using run by blast
qed

definition tree_queue :: "((number, unit) btype, number, unit) queue" where
  "tree_queue = \<lparr>q_backing = bt_New, q_backup = None, q_maxBatch = 1000, q_met = Some newQueueMetrics\<rparr>"

theorem tree_queue_equals_slice_queue_witness:
  "\<exists>q' w'. run_cmds (btype_backing int_item) background run1 (tree_queue, ()) =
     (([num 1 0, num 2 0, num 4 0], [num 1 0, num 2 0, num 4 0]), q', w') \<and> bt_inv (q_backing q')"
proof -
  obtain io1 q1' w1 where 1: "run_cmds (fifo_backing int_item grow2) background run1 (fifo_queue, ()) = (io1, q1', w1)"
    by (metis prod_cases3)
  obtain io2 q2' w2 where 2: "run_cmds (btype_backing int_item) background run1 (tree_queue, ()) = (io2, q2', w2)"
    by (metis prod_cases3)
  have "q_backing fifo_queue = fifo_New\<lparr>f_maxSize := 0\<rparr>" "q_backing tree_queue = bt_New\<lparr>b_maxSize := 0\<rparr>"
    "q_maxBatch fifo_queue = q_maxBatch tree_queue" "q_met fifo_queue = q_met tree_queue"
    by (simp_all add: fifo_queue_def tree_queue_def fifo_New_def bt_New_def)
  from tree_queue_equals_slice_queue [OF 1 2 this(1,2) _ this(3,4)] show ?thesis
    using run1_evaluates 1 2 by auto
qed

end
