(* ===== verification/Spec2Isabelle.thy ===== *)
theory Spec2Isabelle
  imports Priority_Queue Backing_Options Parking Weighted_Queues Btype_Laws Tree_Queue
begin

text \<open>
  A verification development for the queue library under \<open>src/queue\<close>: bounded blocking queues over
  exchangeable backings, and a scheduler that serves several queues by class.

  \<^bold>\<open>The program.\<close> A caller builds a \<open>Queue\<close> (\<open>queue.go\<close>) over a \<open>Backing\<close>: a slice
  (\<open>internal/backings/fifo\<close>), a positional copy-on-write B-tree (\<open>internal/backings/btype\<close>), a
  binary heap (\<open>internal/backings/heap\<close>), a keyed B-tree (\<open>internal/backings/btree\<close>) or a database
  (\<open>internal/backings/bbolt\<close>). The queue checks arguments, applies the options of the call and
  keeps telemetry (\<open>metrics.go\<close>); the backing stores the items, enforces the bound, runs the
  caller's side effect and hook and mirrors every change to the caller's \<open>Backup\<close>, under the lock
  of \<open>core/qlock.go\<close>. An operation that has to wait sleeps on a \<open>Signal\<close> (\<open>core/signal.go\<close>), which
  rests on the parking primitive \<open>internal/parker\<close>. The scheduler \<open>cbwfq\<close> owns one queue per class.

  \<^bold>\<open>How Go is modelled.\<close>

  \<^item> State is passed explicitly: an operation maps the record of its receiver and a world \<open>'w\<close> to
    its outcome and the new state and world. The world is the state of the caller's code, of which
    nothing is assumed; the caller's functions (side effects, hooks, \<open>Backup\<close> methods, \<open>Item\<close> methods)
    are arguments, and each may return, return an error, or end the frame by a panic or
    \<open>runtime.Goexit\<close>.
  \<^item> A blocking operation is one definition for a round (from taking the lock to a result or
    to going to sleep), and \<open>wait_loop\<close> repeats it along a schedule: the list of what the other
    goroutines do to the state while it sleeps. A schedule that is used up leaves the operation
    asleep, which is a value of its own (\<open>Parked\<close>), so no theorem takes it for a return.
  \<^item> The lock word is part of a backing's state and records misuse, so that every path of every
    operation is shown to give back exactly what it took. The protocols in which
    the interleaving matters are step relations at the grain of their atomic instructions or critical
    sections (\<open>Queue_Lock\<close>, \<open>Parking\<close>, \<open>Scheduler_Threads\<close>, \<open>Btype_Family\<close>), with invariants by rule
    induction over all their steps.
  \<^item> Lengths, bounds and counters of type \<open>int\<close> are integers: they count things that are in
    memory, so they do not reach the width of the type. Sequence numbers, hashes, priorities and the bit patterns
    of numbers are 64-bit words and wrap as in Go.
  \<^item> Errors are the trees that \<open>Unwrap\<close> exposes; the texts of messages are not modelled.
  \<^item> Loops over data are structurally recursive; \<open>Drain\<close> and \<open>DrainBackward\<close>, which run until the
    tree is empty, are partial functions, proved to return. No other definition uses fuel.

  \<^bold>\<open>The theories.\<close>

  \<^item> Shared: \<open>Go_Prelude\<close> (outcomes, slices, waiting, generic lemmas), \<open>Go_Errors\<close>
    (\<open>core/errors.go\<close>), \<open>Queue_Lock\<close> (\<open>core/qlock.go\<close>: mutual exclusion, and what a copy-on-write
    iterator learns of waiting writers), \<open>Parking\<close> (\<open>internal/parker\<close>: no wake-up is lost and no goroutine
    is woken twice), \<open>Caller_Code\<close> (\<open>core/signal.go\<close>, \<open>item.go\<close>, \<open>validate.go\<close>, \<open>seq.go\<close>, \<open>opoptions.go\<close>,
    \<open>run.go\<close>).
  \<^item> The contract: \<open>Abstract_Queue\<close> is a bounded blocking queue on a list of items, each marked
    when it was restored from a \<open>Backup\<close>; \<open>Backing_Interface\<close> has the record of methods of
    \<open>core.Backing\<close> and the locale \<open>queue_backing\<close>: every method refines its abstract counterpart.
    \<open>Queue_API\<close> models \<open>queue.go\<close> and \<open>metrics.go\<close> over any record of methods and proves what a caller sees
    inside that locale, once for all backings.
  \<^item> The backings, each with an interpretation of \<open>queue_backing\<close>: \<open>Fifo_Backing\<close> (\<open>fifo.go\<close>);
    \<open>Min_Heap\<close>, \<open>Heap_Backing\<close>, \<open>Heap_Contract\<close> (\<open>heap.go\<close> with its journal, over \<open>container/heap\<close>);
    \<open>Btype_Backing\<close>, \<open>Btype_Store\<close>, \<open>Btype_Contract\<close> (\<open>btype_fifo.go\<close>). \<open>Memory_Queue\<close>, \<open>Priority_Queue\<close>
    and \<open>Tree_Queue\<close> hold what a queue over each of them guarantees: order, atomicity of batches,
    the bound, exact deletion, restoring, and that the heap undoes \<open>Push\<close> and \<open>Pop\<close> whatever the
    caller's comparator does. \<open>Queue_Agreement\<close> shows that two backings with the same contract
    cannot be told apart, which \<open>Tree_Queue\<close> applies to the slice and the tree.
  \<^item> The B-tree of \<open>btype_btree.go\<close>: \<open>Btype_Tree\<close> and \<open>Btype_Ops\<close> are the code; \<open>Btype_Order\<close>,
    \<open>Btype_Insert\<close>, \<open>Btype_Walk\<close>, \<open>Btype_Contents\<close>, \<open>Btype_Drain\<close> and \<open>Btype_Laws\<close> its correctness as a list
    with balanced shape; \<open>Btype_Sharing\<close>, \<open>Btype_Cow\<close> and \<open>Btype_Family\<close> the soundness of its
    reference counters: no operation writes a node that a live snapshot can read.
  \<^item> Items and options: \<open>Builtin_Items\<close> (\<open>builtin.go\<close>), \<open>Backing_Options\<close> (\<open>core/backingopts.go\<close>,
    \<open>backing_options.go\<close>, the constructors of \<open>alias.go\<close>).
  \<^item> The scheduler: \<open>CBWFQ\<close> is the code of \<open>cbwfq/\<close>; \<open>Class_Scheduling\<close> states what it
    relies on of a queue (the locale \<open>class_queue\<close>) and its invariant; \<open>Scheduler_Setup\<close> the
    constructor; \<open>Fair_Shares\<close> the guarantees of deficit weighted round robin over runs;
    \<open>Scheduler_Threads\<close> the interleavings; \<open>Weighted_Queues\<close> the interpretation on queues over the slice
    backing and the resulting properties.

  \<^bold>\<open>Not modelled.\<close>

  \<^item> The keyed B-tree backing (\<open>internal/backings/btree\<close>) keeps its items in the third-party ordered
    map \<open>tidwall/btree\<close>; the database backing (\<open>internal/backings/bbolt\<close>) sequences transactions of the third-party
    database bbolt. The theorems about \<open>Queue_API\<close> hold for them as far as they keep the contract.
  \<^item> The methods of the positional tree that search by key (\<open>Insert\<close>, \<open>Set\<close>, \<open>Replace\<close>, \<open>Delete\<close>,
    \<open>Get\<close>, \<open>Ascend\<close> and their relatives), its string prefixes and its copy and release callbacks:
    no type of the repository provides the search function or the callbacks, and nothing calls them.
  \<^item> The runtime (\<open>gopark\<close>, \<open>goready\<close>, the pools, memory reclamation), the tracer and the meter
    beyond what is recorded in them, the JSON codec helpers, and the generated \<open>String\<close> methods.
\<close>

end
